(* ===== verification/Prelude.thy ===== *)
theory Prelude
  imports Main "HOL-Library.Word"
begin

text \<open>
  Vocabulary shared by every component: Rust's fixed-width integers, computations that
  may panic, \<open>Vec\<close>/slice operations with their range checks, and the generic list and
  word facts the component proofs use.
\<close>

section \<open>Machine integers and bytes\<close>

type_synonym u8 = "8 word"
type_synonym u32 = "32 word"
type_synonym u64 = "64 word"
type_synonym bytes = "u8 list"

text \<open>\<open>n as u32\<close> for a \<open>usize\<close>: the value modulo \<open>2^32\<close>.\<close>

abbreviation as_u32 :: "nat \<Rightarrow> u32" where
  "as_u32 n \<equiv> word_of_nat n"

text \<open>\<open>u32::MAX\<close> as a natural number.\<close>

definition u32_max :: nat where
  "u32_max = 4294967295"

lemma unat_as_u32: "n \<le> u32_max \<Longrightarrow> unat (as_u32 n) = n"
  by (simp add: u32_max_def unat_of_nat take_bit_nat_eq_self)

lemma as_u32_inj: "m \<le> u32_max \<Longrightarrow> n \<le> u32_max \<Longrightarrow> as_u32 m = as_u32 n \<longleftrightarrow> m = n"
  by (metis unat_as_u32)

lemma unat_le_u32_max: "unat (w :: u32) \<le> u32_max"
  using unsigned_less [of w, where ?'a = nat] by (simp add: u32_max_def)

lemma u32_max_bound: "n \<le> u32_max \<longleftrightarrow> n < 2 ^ 32"
  by (simp add: u32_max_def less_Suc_eq_le [symmetric])

section \<open>Panics\<close>

text \<open>
  One constructor per \<open>panic!\<close>, \<open>assert!\<close>, \<open>unwrap\<close> or failed range check of the
  modelled code. \<open>Undefined_behaviour\<close> stands for an \<open>unsafe\<close> unchecked access out of
  range, and \<open>Out_of_fuel\<close> for a loop that was given too few rounds: the theorems about trees
  show where neither is reached, and which calls reach the former.
\<close>

datatype panic =
    Keyspace_despite_check        \<comment> \<open>\<open>interned ... despite keyspace exhaustion\<close>\<close>
  | Failed_to_resolve             \<comment> \<open>\<open>failed to resolve\<close>\<close>
  | Failed_to_intern              \<comment> \<open>\<open>failed to intern token data\<close>\<close>
  | Failed_to_intern_bytes        \<comment> \<open>\<open>failed to intern token data bytes\<close>\<close>
  | Static_data_mismatch          \<comment> \<open>debug assertion of \<open>token\<close>\<close>
  | Static_bytes_mismatch         \<comment> \<open>debug assertion of \<open>token_from_bytes\<close>\<close>
  | Missing_static_data           \<comment> \<open>\<open>Missing static data\<close>\<close>
  | Slice_out_of_range            \<comment> \<open>\<open>xs[i..]\<close> or \<open>drain(i..)\<close> with \<open>i > len\<close>\<close>
  | Unwrap_None                   \<comment> \<open>\<open>Option::unwrap\<close> on \<open>None\<close>\<close>
  | Checkpoint_parents            \<comment> \<open>\<open>was `finish_node` called early or did you already `revert_to`?\<close>\<close>
  | Checkpoint_children           \<comment> \<open>\<open>checkpoint no longer valid after reverting to an earlier checkpoint\<close>\<close>
  | Checkpoint_first_child        \<comment> \<open>\<open>was an unmatched start_node_at called?\<close>\<close>
  | Checkpoint_unfinished         \<comment> \<open>\<open>checkpoint contains one or more unfinished nodes\<close>\<close>
  | Finish_child_count            \<comment> \<open>\<open>assert_eq!(self.children.len(), 1)\<close>\<close>
  | Finish_only_token             \<comment> \<open>\<open>called `finish` on a builder which only contained a token\<close>\<close>
  | Invalid_raw_kind              \<comment> \<open>\<open>Syntax::from_raw\<close> on an unknown kind\<close>
  | Kind_mismatch                 \<comment> \<open>\<open>assert_eq!\<close> of \<open>replace_with\<close>\<close>
  | Bad_offset                    \<comment> \<open>\<open>Bad offset\<close> and the range assertion of \<open>token_at_offset\<close>\<close>
  | Bad_range                     \<comment> \<open>\<open>Bad range\<close> of \<open>covering_element\<close>\<close>
  | Bad_slice                     \<comment> \<open>\<open>invalid slice\<close>\<close>
  | Assertion_failed              \<comment> \<open>an \<open>assert!\<close> without a message of its own\<close>
  | Unreachable                   \<comment> \<open>\<open>unreachable!()\<close>\<close>
  | No_resolver                   \<comment> \<open>\<open>tried to resolve a node without resolver\<close>\<close>
  | Unwrap_Ok                     \<comment> \<open>\<open>Result::unwrap_err\<close> on an \<open>Ok\<close>\<close>
  | Unwrap_Err                    \<comment> \<open>\<open>Result::unwrap\<close> on an \<open>Err\<close>\<close>
  | Arithmetic_overflow           \<comment> \<open>a checked \<open>+\<close> or \<open>-\<close>, where overflow checks are compiled in\<close>
  | Invalid_key                   \<comment> \<open>\<open>invalid key: failed to convert\<close>\<close>
  | Only_utf8                     \<comment> \<open>\<open>lasso interners only support UTF-8 data\<close>\<close>
  | Forgot_check                  \<comment> \<open>\<open>forgot to check for errors\<close>, when an error context is dropped\<close>
  | Out_of_fuel                   \<comment> \<open>not a panic: the fuel of a modelled loop ran out\<close>
  | Undefined_behaviour

text \<open>A Rust computation: \<open>Inl\<close> a panic or \<open>Inr\<close> the returned value.\<close>

type_synonym 'a outcome = "panic + 'a"

definition bindO :: "'a outcome \<Rightarrow> ('a \<Rightarrow> 'b outcome) \<Rightarrow> 'b outcome" where
  "bindO m f = (case m of Inl p \<Rightarrow> Inl p | Inr x \<Rightarrow> f x)"

text \<open>\<open>o.unwrap()\<close>\<close>

definition unwrap :: "'a option \<Rightarrow> 'a outcome" where
  "unwrap x = (case x of None \<Rightarrow> Inl Unwrap_None | Some v \<Rightarrow> Inr v)"

lemma bindO_simps [simp]:
  "bindO (Inl p) f = Inl p"
  "bindO (Inr x) f = f x"
  by (simp_all add: bindO_def)

lemma bindO_eq_Inr: "bindO m f = Inr y \<longleftrightarrow> (\<exists>x. m = Inr x \<and> f x = Inr y)"
  by (cases m) auto

lemma bindO_InrE:
  assumes "bindO m f = Inr y"
  obtains x where "m = Inr x" and "f x = Inr y"
  using assms by (auto simp: bindO_eq_Inr)

lemma bindO_cong [fundef_cong]:
  "m = m' \<Longrightarrow> (\<And>x. m' = Inr x \<Longrightarrow> f x = g x) \<Longrightarrow> bindO m f = bindO m' g"
  by (cases m') auto

lemma bindO_assoc: "bindO (bindO m f) g = bindO m (\<lambda>x. bindO (f x) g)"
  by (cases m) auto

lemma unwrap_simps [simp]:
  "unwrap None = Inl Unwrap_None"
  "unwrap (Some x) = Inr x"
  by (simp_all add: unwrap_def)

lemma unwrap_eq_Inr [simp]: "unwrap m = Inr x \<longleftrightarrow> m = Some x"
  by (cases m) auto

section \<open>Vectors and slices\<close>

text \<open>\<open>xs[i..]\<close>: a panic when \<open>i\<close> is past the end.\<close>

definition slice_from :: "'a list \<Rightarrow> nat \<Rightarrow> 'a list outcome" where
  "slice_from xs i = (if i \<le> length xs then Inr (drop i xs) else Inl Slice_out_of_range)"

text \<open>\<open>xs[i..j]\<close>: a panic when the range is reversed or ends past the end.\<close>

definition slice_range :: "'a list \<Rightarrow> nat \<Rightarrow> nat \<Rightarrow> 'a list outcome" where
  "slice_range xs i j =
     (if i \<le> j \<and> j \<le> length xs then Inr (take (j - i) (drop i xs)) else Inl Slice_out_of_range)"

text \<open>\<open>xs.get(i)\<close>\<close>

definition vec_get :: "'a list \<Rightarrow> nat \<Rightarrow> 'a option" where
  "vec_get xs i = (if i < length xs then Some (xs ! i) else None)"

text \<open>\<open>xs.last()\<close>\<close>

definition vec_last :: "'a list \<Rightarrow> 'a option" where
  "vec_last xs = (if xs = [] then None else Some (last xs))"

text \<open>\<open>xs.pop()\<close>: the removed element, if any, and the shortened vector.\<close>

definition vec_pop :: "'a list \<Rightarrow> ('a option \<times> 'a list)" where
  "vec_pop xs = (vec_last xs, butlast xs)"

lemma vec_get_Some: "vec_get xs i = Some x \<longleftrightarrow> i < length xs \<and> xs ! i = x"
  by (auto simp: vec_get_def)

lemma vec_get_None: "vec_get xs i = None \<longleftrightarrow> length xs \<le> i"
  by (auto simp: vec_get_def)

lemma vec_get_append_Some: "vec_get xs i = Some x \<Longrightarrow> vec_get (xs @ ys) i = Some x"
  by (auto simp: vec_get_def nth_append)

lemma vec_last_simps [simp]:
  "vec_last [] = None"
  "vec_last (xs @ [x]) = Some x"
  by (simp_all add: vec_last_def)

lemma vec_last_eq_None [simp]: "vec_last xs = None \<longleftrightarrow> xs = []"
  by (simp add: vec_last_def)

lemma vec_last_eq_Some: "vec_last xs = Some x \<longleftrightarrow> (\<exists>ys. xs = ys @ [x])"
  by (auto simp: vec_last_def) (metis append_butlast_last_id)

lemma vec_pop_simps [simp]:
  "vec_pop [] = (None, [])"
  "vec_pop (xs @ [x]) = (Some x, xs)"
  by (simp_all add: vec_pop_def)

lemma sum_list_take_le: "sum_list (take n xs) \<le> sum_list (xs :: nat list)"
  by (metis append_take_drop_id le_add1 sum_list_append)

end
