(* ===== verification/Text_Size.thy ===== *)
theory Text_Size
  imports Prelude
begin

text \<open>
  The interface of the \<open>text-size\<close> crate, which is not part of the repository. A
  \<open>TextSize\<close> is a \<open>u32\<close> byte offset and a \<open>TextRange\<close> a pair of them; the crate's
  functions are the fields of a record \<open>text_ops\<close> that every definition using them takes
  as an argument. The locale \<open>text_size\<close> states their documented behaviour, and only
  where the documentation defines it: additions that fit into 32 bits, subtractions that
  do not go below zero, ranges whose start is not past their end.
\<close>

type_synonym text_size = u32

record text_range =
  tr_start :: text_size
  tr_end :: text_size

record text_ops =
  ts_add :: "text_size \<Rightarrow> text_size \<Rightarrow> text_size"              \<comment> \<open>\<open>a + b\<close>, \<open>a += b\<close>\<close>
  ts_sub :: "text_size \<Rightarrow> text_size \<Rightarrow> text_size"              \<comment> \<open>\<open>a - b\<close>, \<open>a -= b\<close>\<close>
  tr_new :: "text_size \<Rightarrow> text_size \<Rightarrow> text_range"             \<comment> \<open>\<open>TextRange::new\<close>\<close>
  tr_at :: "text_size \<Rightarrow> text_size \<Rightarrow> text_range"              \<comment> \<open>\<open>TextRange::at\<close>\<close>
  tr_len :: "text_range \<Rightarrow> text_size"                          \<comment> \<open>\<open>TextRange::len\<close>\<close>
  tr_is_empty :: "text_range \<Rightarrow> bool"                          \<comment> \<open>\<open>TextRange::is_empty\<close>\<close>
  tr_contains_range :: "text_range \<Rightarrow> text_range \<Rightarrow> bool"      \<comment> \<open>\<open>TextRange::contains_range\<close>\<close>
  tr_intersect :: "text_range \<Rightarrow> text_range \<Rightarrow> text_range option" \<comment> \<open>\<open>TextRange::intersect\<close>\<close>
  tr_sub :: "text_range \<Rightarrow> text_size \<Rightarrow> text_range"            \<comment> \<open>\<open>range - offset\<close>\<close>

definition tr_valid :: "text_range \<Rightarrow> bool" where
  "tr_valid r \<longleftrightarrow> tr_start r \<le> tr_end r"

locale text_size =
  fixes T :: text_ops
  assumes add: "unat a + unat b \<le> u32_max \<Longrightarrow> ts_add T a b = a + b"
    and sub: "b \<le> a \<Longrightarrow> ts_sub T a b = a - b"
    and new: "a \<le> b \<Longrightarrow> tr_new T a b = \<lparr>tr_start = a, tr_end = b\<rparr>"
    and at: "unat a + unat n \<le> u32_max \<Longrightarrow> tr_at T a n = \<lparr>tr_start = a, tr_end = a + n\<rparr>"
    and len: "tr_valid r \<Longrightarrow> tr_len T r = tr_end r - tr_start r"
    and is_empty: "tr_valid r \<Longrightarrow> tr_is_empty T r \<longleftrightarrow> tr_start r = tr_end r"
    and contains_range: "tr_valid r \<Longrightarrow> tr_valid q \<Longrightarrow>
      tr_contains_range T r q \<longleftrightarrow> tr_start r \<le> tr_start q \<and> tr_end q \<le> tr_end r"
    and intersect: "tr_valid r \<Longrightarrow> tr_valid q \<Longrightarrow>
      tr_intersect T r q =
        (if max (tr_start r) (tr_start q) \<le> min (tr_end r) (tr_end q)
         then Some \<lparr>tr_start = max (tr_start r) (tr_start q), tr_end = min (tr_end r) (tr_end q)\<rparr>
         else None)"
    and range_sub: "tr_valid r \<Longrightarrow> a \<le> tr_start r \<Longrightarrow>
      tr_sub T r a = \<lparr>tr_start = tr_start r - a, tr_end = tr_end r - a\<rparr>"
begin

lemma unat_add_fits: "unat a + unat b \<le> u32_max \<Longrightarrow> unat (ts_add T a b) = unat a + unat b"
  by (simp add: add unat_plus_simple u32_max_def unat_word_ariths)

lemma unat_sub_fits: "b \<le> a \<Longrightarrow> unat (ts_sub T a b) = unat a - unat b"
  by (simp add: sub unat_sub)

lemma at_valid: "unat a + unat n \<le> u32_max \<Longrightarrow> tr_valid (tr_at T a n)"
  by (simp add: at tr_valid_def word_le_nat_alt unat_word_ariths u32_max_def)

text \<open>The running sums of a list of lengths: what \<open>text_len += it.text_len()\<close> computes.\<close>

lemma unat_foldl_add:
  "unat a + sum_list (map unat ls) \<le> u32_max \<Longrightarrow>
   unat (foldl (ts_add T) a ls) = unat a + sum_list (map unat ls)"
proof (induction ls arbitrary: a)
  case Nil
  then show ?case by simp
next
  case (Cons l ls)
  then have "unat (ts_add T a l) = unat a + unat l"
    by (simp add: unat_add_fits)
  with Cons.prems Cons.IH [of "ts_add T a l"] show ?case by simp
qed

end

text \<open>
  The functions as the crate documents them, total in the usual wrapping way: an instance
  of the interface, on which the theorems' hypotheses hold.
\<close>

definition documented_text_ops :: text_ops where
  "documented_text_ops = \<lparr>
     ts_add = (+),
     ts_sub = (-),
     tr_new = (\<lambda>a b. \<lparr>tr_start = a, tr_end = b\<rparr>),
     tr_at = (\<lambda>a n. \<lparr>tr_start = a, tr_end = a + n\<rparr>),
     tr_len = (\<lambda>r. tr_end r - tr_start r),
     tr_is_empty = (\<lambda>r. tr_start r = tr_end r),
     tr_contains_range = (\<lambda>r q. tr_start r \<le> tr_start q \<and> tr_end q \<le> tr_end r),
     tr_intersect = (\<lambda>r q.
       if max (tr_start r) (tr_start q) \<le> min (tr_end r) (tr_end q)
       then Some \<lparr>tr_start = max (tr_start r) (tr_start q), tr_end = min (tr_end r) (tr_end q)\<rparr>
       else None),
     tr_sub = (\<lambda>r a. \<lparr>tr_start = tr_start r - a, tr_end = tr_end r - a\<rparr>)\<rparr>"

interpretation documented: text_size documented_text_ops
  by unfold_locales (simp_all add: documented_text_ops_def)

end
