(* ===== verification/Utility_Types.thy ===== *)
theory Utility_Types
  imports Prelude
begin

text \<open>
  \<open>cstree/src/utility_types.rs\<close>: \<open>NodeOrToken\<close>, \<open>Direction\<close>, \<open>WalkEvent\<close>,
  \<open>MaybeOwned\<close> and \<open>TokenAtOffset\<close>.
\<close>

section \<open>Nodes or tokens\<close>

datatype ('n, 't) node_or_token = Node 'n | Token 't

fun into_node :: "('n, 't) node_or_token \<Rightarrow> 'n option" where
  "into_node (Node n) = Some n"
| "into_node (Token _) = None"

fun into_token :: "('n, 't) node_or_token \<Rightarrow> 't option" where
  "into_token (Node _) = None"
| "into_token (Token t) = Some t"

text \<open>\<open>as_node\<close> and \<open>as_token\<close> borrow instead of moving; the value is the same.\<close>

fun as_node :: "('n, 't) node_or_token \<Rightarrow> 'n option" where
  "as_node (Node n) = Some n"
| "as_node (Token _) = None"

fun as_token :: "('n, 't) node_or_token \<Rightarrow> 't option" where
  "as_token (Node _) = None"
| "as_token (Token t) = Some t"

lemma into_node_eq_Some [simp]: "into_node e = Some n \<longleftrightarrow> e = Node n"
  by (cases e) auto

lemma into_token_eq_Some [simp]: "into_token e = Some t \<longleftrightarrow> e = Token t"
  by (cases e) auto

lemma as_node_eq_Some [simp]: "as_node e = Some n \<longleftrightarrow> e = Node n"
  by (cases e) auto

lemma as_token_eq_Some [simp]: "as_token e = Some t \<longleftrightarrow> e = Token t"
  by (cases e) auto

datatype direction = Next | Prev

section \<open>Walk events\<close>

datatype 'a walk_event = Enter 'a | Leave 'a

fun walk_event_map :: "('a \<Rightarrow> 'b) \<Rightarrow> 'a walk_event \<Rightarrow> 'b walk_event" where
  "walk_event_map f (Enter it) = Enter (f it)"
| "walk_event_map f (Leave it) = Leave (f it)"

section \<open>Owned or mutably borrowed values\<close>

text \<open>
  \<open>Borrowed\<close> carries the current contents of the borrowed place: a write through
  \<open>deref_mut\<close> replaces it.
\<close>

datatype 'a maybe_owned = Owned 'a | Borrowed 'a

fun into_owned :: "'a maybe_owned \<Rightarrow> 'a option" where
  "into_owned (Owned it) = Some it"
| "into_owned (Borrowed _) = None"

fun deref :: "'a maybe_owned \<Rightarrow> 'a" where
  "deref (Owned it) = it"
| "deref (Borrowed it) = it"

text \<open>A write through \<open>deref_mut\<close>.\<close>

fun deref_set :: "'a maybe_owned \<Rightarrow> 'a \<Rightarrow> 'a maybe_owned" where
  "deref_set (Owned _) v = Owned v"
| "deref_set (Borrowed _) v = Borrowed v"

lemma deref_deref_set [simp]: "deref (deref_set m v) = v"
  by (cases m) auto

lemma deref_set_deref_set [simp]: "deref_set (deref_set m v) w = deref_set m w"
  by (cases m) auto

lemma deref_set_deref [simp]: "deref_set m (deref m) = m"
  by (cases m) auto

lemma into_owned_deref_set [simp]:
  "into_owned (deref_set m v) = map_option (\<lambda>_. v) (into_owned m)"
  by (cases m) auto

lemma map_option_into_owned [simp]: "map_option (\<lambda>_. deref m) (into_owned m) = into_owned m"
  by (cases m) auto

section \<open>Tokens at an offset\<close>

datatype 'a token_at_offset = TNone | TSingle 'a | TBetween 'a 'a

fun token_at_offset_map :: "('a \<Rightarrow> 'b) \<Rightarrow> 'a token_at_offset \<Rightarrow> 'b token_at_offset" where
  "token_at_offset_map f TNone = TNone"
| "token_at_offset_map f (TSingle it) = TSingle (f it)"
| "token_at_offset_map f (TBetween l r) = TBetween (f l) (f r)"

fun right_biased :: "'a token_at_offset \<Rightarrow> 'a option" where
  "right_biased TNone = None"
| "right_biased (TSingle node) = Some node"
| "right_biased (TBetween _ right) = Some right"

fun left_biased :: "'a token_at_offset \<Rightarrow> 'a option" where
  "left_biased TNone = None"
| "left_biased (TSingle node) = Some node"
| "left_biased (TBetween left _) = Some left"

text \<open>The \<open>Iterator\<close> implementation: the yielded item and the iterator left behind.\<close>

fun token_at_offset_next :: "'a token_at_offset \<Rightarrow> 'a option \<times> 'a token_at_offset" where
  "token_at_offset_next TNone = (None, TNone)"
| "token_at_offset_next (TSingle node) = (Some node, TNone)"
| "token_at_offset_next (TBetween left right) = (Some left, TSingle right)"

fun token_at_offset_size_hint :: "'a token_at_offset \<Rightarrow> nat \<times> nat option" where
  "token_at_offset_size_hint TNone = (0, Some 0)"
| "token_at_offset_size_hint (TSingle _) = (1, Some 1)"
| "token_at_offset_size_hint (TBetween _ _) = (2, Some 2)"

text \<open>All items an iterator yields until it first returns \<open>None\<close>.\<close>

fun token_at_offset_items :: "'a token_at_offset \<Rightarrow> 'a list" where
  "token_at_offset_items TNone = []"
| "token_at_offset_items (TSingle x) = [x]"
| "token_at_offset_items (TBetween x y) = [x, y]"

lemma token_at_offset_next_items:
  "token_at_offset_next it = (Some x, it') \<longleftrightarrow>
     token_at_offset_items it = x # token_at_offset_items it' \<and> it \<noteq> TNone \<and>
     it' = snd (token_at_offset_next it)"
  by (cases it) auto

end
