(* ===== verification/Interning.thy ===== *)
theory Interning
  imports Prelude
begin

text \<open>
  \<open>cstree/src/interning.rs\<close>, \<open>interning/traits.rs\<close> and \<open>interning/default_interner.rs\<close>:
  the token key, the payload types, the \<open>Resolver\<close>/\<open>Interner\<close> interface with its laws
  (locale \<open>interner\<close>), and the default \<open>TokenInterner\<close>, which is proved to satisfy them
  for every payload type that satisfies the laws of \<open>TokenData\<close> (locale \<open>token_payload\<close>).
\<close>

section \<open>Token keys\<close>

text \<open>\<open>TokenKey { inner: NonZeroU32 }\<close>; \<open>token_key_ok\<close> is the niche of \<open>NonZeroU32\<close>.\<close>

datatype token_key = TokenKey (key_inner: u32)

definition token_key_ok :: "token_key \<Rightarrow> bool" where
  "token_key_ok k \<longleftrightarrow> key_inner k \<noteq> 0"

definition into_u32 :: "token_key \<Rightarrow> u32" where
  "into_u32 k = key_inner k - 1"

definition try_from_u32 :: "u32 \<Rightarrow> token_key option" where
  "try_from_u32 key = (if key < as_u32 u32_max then Some (TokenKey (key + 1)) else None)"

lemma as_u32_max: "as_u32 u32_max = - 1"
  by (simp add: u32_max_def)

lemma try_from_u32_Some:
  "try_from_u32 key = Some k \<Longrightarrow> token_key_ok k \<and> into_u32 k = key"
proof -
  assume "try_from_u32 key = Some k"
  then have "key < - 1" and k: "k = TokenKey (key + 1)"
    by (auto simp: try_from_u32_def as_u32_max split: if_splits)
  then have "key + 1 \<noteq> 0"
    by (metis add_eq_0_iff2 order_less_irrefl)
  with k show ?thesis by (simp add: token_key_ok_def into_u32_def)
qed

lemma try_from_into_u32: "token_key_ok k \<Longrightarrow> try_from_u32 (into_u32 k) = Some k"
proof (cases k)
  case (TokenKey w)
  assume "token_key_ok k"
  with TokenKey have "w - 1 \<noteq> - 1"
    by (simp add: token_key_ok_def)
  then have "w - 1 < - 1"
    by (simp add: order_less_le)
  with TokenKey show ?thesis
    by (simp add: try_from_u32_def into_u32_def as_u32_max)
qed

lemma into_u32_inject: "into_u32 k = into_u32 k' \<longleftrightarrow> k = k'"
  by (cases k; cases k') (simp add: into_u32_def)

lemma try_from_as_u32: "i < u32_max \<Longrightarrow> \<exists>k. try_from_u32 (as_u32 i) = Some k"
  by (simp add: try_from_u32_def word_less_nat_alt unat_as_u32)

section \<open>Token payloads\<close>

datatype token_data_error = InvalidUtf8 | InvalidSize nat nat

text \<open>The trait \<open>TokenData\<close>: canonical bytes and their decoding into an owned value.\<close>

record 'd token_data =
  td_as_bytes :: "'d \<Rightarrow> bytes"
  td_from_bytes :: "bytes \<Rightarrow> token_data_error + 'd"

text \<open>\<open>impl TokenData for [u8]\<close>\<close>

definition bytes_data :: "bytes token_data" where
  "bytes_data = \<lparr>td_as_bytes = (\<lambda>b. b), td_from_bytes = Inr\<rparr>"

text \<open>
  \<open>impl TokenData for str\<close>. A \<open>str\<close> is its UTF-8 encoding; \<open>utf8_valid\<close> is the check of
  the standard library's \<open>core::str::from_utf8\<close>: the well-formed sequences of one to four
  bytes, without overlong forms, surrogates or values past U+10FFFF.
\<close>

datatype rust_str = Str (str_bytes: bytes)

abbreviation utf8_cont :: "u8 \<Rightarrow> bool" where
  "utf8_cont c \<equiv> 0x80 \<le> c \<and> c \<le> 0xBF"

fun utf8_valid :: "bytes \<Rightarrow> bool" where
  "utf8_valid [] = True"
| "utf8_valid (b # bs) =
     (if b < 0x80 then utf8_valid bs
      else if 0xC2 \<le> b \<and> b \<le> 0xDF then
        (case bs of c1 # r \<Rightarrow> utf8_cont c1 \<and> utf8_valid r | _ \<Rightarrow> False)
      else if 0xE0 \<le> b \<and> b \<le> 0xEF then
        (case bs of c1 # c2 # r \<Rightarrow>
           (if b = 0xE0 then 0xA0 \<le> c1 \<and> c1 \<le> 0xBF
            else if b = 0xED then 0x80 \<le> c1 \<and> c1 \<le> 0x9F
            else utf8_cont c1) \<and> utf8_cont c2 \<and> utf8_valid r
         | _ \<Rightarrow> False)
      else if 0xF0 \<le> b \<and> b \<le> 0xF4 then
        (case bs of c1 # c2 # c3 # r \<Rightarrow>
           (if b = 0xF0 then 0x90 \<le> c1 \<and> c1 \<le> 0xBF
            else if b = 0xF4 then 0x80 \<le> c1 \<and> c1 \<le> 0x8F
            else utf8_cont c1) \<and> utf8_cont c2 \<and> utf8_cont c3 \<and> utf8_valid r
         | _ \<Rightarrow> False)
      else False)"

definition str_valid :: "rust_str \<Rightarrow> bool" where
  "str_valid s \<longleftrightarrow> utf8_valid (str_bytes s)"

definition str_data :: "rust_str token_data" where
  "str_data = \<lparr>td_as_bytes = str_bytes,
     td_from_bytes = (\<lambda>bs. if utf8_valid bs then Inr (Str bs) else Inl InvalidUtf8)\<rparr>"

text \<open>
  What the interner needs of a payload type: on the values of the type (\<open>valid\<close>), decoding
  is the exact inverse of encoding.
\<close>

locale token_payload =
  fixes D :: "'d token_data" and valid :: "'d \<Rightarrow> bool"
  assumes from_as_bytes: "valid d \<Longrightarrow> td_from_bytes D (td_as_bytes D d) = Inr d"
    and as_from_bytes: "td_from_bytes D bs = Inr d \<Longrightarrow> valid d \<and> td_as_bytes D d = bs"
begin

lemma as_bytes_inj: "valid d \<Longrightarrow> valid d' \<Longrightarrow> td_as_bytes D d = td_as_bytes D d' \<longleftrightarrow> d = d'"
  by (metis from_as_bytes sum.inject(2))

end

section \<open>The interner interface\<close>

text \<open>
  The traits \<open>Resolver\<close> and \<open>Interner\<close> as a record of their required methods. The methods
  of \<open>Interner\<close> take \<open>&mut self\<close>: they return the interner's new state with the key.
\<close>

record ('i, 'd, 'e) interner_ops =
  io_try_resolve :: "'i \<Rightarrow> token_key \<Rightarrow> 'd option"
  io_try_get_or_intern :: "'i \<Rightarrow> 'd \<Rightarrow> ('e + 'i \<times> token_key) outcome"
  io_try_get_or_intern_bytes :: "'i \<Rightarrow> bytes \<Rightarrow> ('e + 'i \<times> token_key) outcome"

text \<open>The provided methods of the traits.\<close>

definition resolve :: "('i, 'd, 'e) interner_ops \<Rightarrow> 'i \<Rightarrow> token_key \<Rightarrow> 'd outcome" where
  "resolve I i key = (case io_try_resolve I i key of None \<Rightarrow> Inl Failed_to_resolve | Some d \<Rightarrow> Inr d)"

definition get_or_intern :: "('i, 'd, 'e) interner_ops \<Rightarrow> 'i \<Rightarrow> 'd \<Rightarrow> ('i \<times> token_key) outcome" where
  "get_or_intern I i d = bindO (io_try_get_or_intern I i d)
     (\<lambda>r. case r of Inl _ \<Rightarrow> Inl Failed_to_intern | Inr ik \<Rightarrow> Inr ik)"

definition get_or_intern_bytes :: "('i, 'd, 'e) interner_ops \<Rightarrow> 'i \<Rightarrow> bytes \<Rightarrow> ('i \<times> token_key) outcome" where
  "get_or_intern_bytes I i bs = bindO (io_try_get_or_intern_bytes I i bs)
     (\<lambda>r. case r of Inl _ \<Rightarrow> Inl Failed_to_intern_bytes | Inr ik \<Rightarrow> Inr ik)"

lemma get_or_intern_eq: "get_or_intern I i d = Inr ik \<longleftrightarrow> io_try_get_or_intern I i d = Inr (Inr ik)"
  by (cases "io_try_get_or_intern I i d") (auto simp: get_or_intern_def split: sum.splits)

lemma get_or_intern_bytes_eq:
  "get_or_intern_bytes I i bs = Inr ik \<longleftrightarrow> io_try_get_or_intern_bytes I i bs = Inr (Inr ik)"
  by (cases "io_try_get_or_intern_bytes I i bs") (auto simp: get_or_intern_bytes_def split: sum.splits)

text \<open>
  The contract a tree builder relies on. \<open>inv\<close> is the implementation's invariant.
\<close>

locale interner = token_payload D valid
  for D :: "'d token_data" and valid :: "'d \<Rightarrow> bool" +
  fixes I :: "('i, 'd, 'e) interner_ops" and inv :: "'i \<Rightarrow> bool"
  assumes intern_resolves: "inv i \<Longrightarrow> valid d \<Longrightarrow> io_try_get_or_intern I i d = Inr (Inr (i', k)) \<Longrightarrow>
      inv i' \<and> io_try_resolve I i' k = Some d"
    and intern_bytes_resolves: "inv i \<Longrightarrow> io_try_get_or_intern_bytes I i bs = Inr (Inr (i', k)) \<Longrightarrow>
      inv i' \<and> (\<exists>d. td_from_bytes D bs = Inr d \<and> io_try_resolve I i' k = Some d)"
    and intern_keeps: "inv i \<Longrightarrow> valid d \<Longrightarrow> io_try_get_or_intern I i d = Inr (Inr (i', k)) \<Longrightarrow>
      io_try_resolve I i k' = Some d' \<Longrightarrow> io_try_resolve I i' k' = Some d'"
    and intern_bytes_keeps: "inv i \<Longrightarrow> io_try_get_or_intern_bytes I i bs = Inr (Inr (i', k)) \<Longrightarrow>
      io_try_resolve I i k' = Some d' \<Longrightarrow> io_try_resolve I i' k' = Some d'"
    and resolve_valid: "inv i \<Longrightarrow> io_try_resolve I i k = Some d \<Longrightarrow> valid d"
    and resolve_unique: "inv i \<Longrightarrow> io_try_resolve I i k = Some d \<Longrightarrow> io_try_resolve I i k' = Some d \<Longrightarrow> k = k'"
begin

lemma get_or_intern_resolves:
  assumes "inv i" "valid d" "get_or_intern I i d = Inr (i', k)"
  shows "inv i'" and "io_try_resolve I i' k = Some d"
  using intern_resolves [of i d i' k] assms by (simp_all add: get_or_intern_eq)

lemma get_or_intern_keeps:
  assumes "inv i" "valid d" "get_or_intern I i d = Inr (i', k)" "io_try_resolve I i k' = Some d'"
  shows "io_try_resolve I i' k' = Some d'"
  using intern_keeps [of i d i' k k' d'] assms by (simp add: get_or_intern_eq)

lemma get_or_intern_bytes_resolves:
  assumes "inv i" "get_or_intern_bytes I i bs = Inr (i', k)"
  obtains d where "inv i'" "valid d" "td_as_bytes D d = bs" "io_try_resolve I i' k = Some d"
  using intern_bytes_resolves [of i bs i' k] assms as_from_bytes
  by (auto simp: get_or_intern_bytes_eq)

lemma get_or_intern_bytes_keeps:
  assumes "inv i" "get_or_intern_bytes I i bs = Inr (i', k)" "io_try_resolve I i k' = Some d'"
  shows "io_try_resolve I i' k' = Some d'"
  using intern_bytes_keeps [of i bs i' k k' d'] assms by (simp add: get_or_intern_bytes_eq)

text \<open>Keys of one interner are equal exactly when the data they stand for is.\<close>

lemma key_eq_iff_data_eq:
  assumes "inv i" "io_try_resolve I i k = Some d" "io_try_resolve I i k' = Some d'"
  shows "k = k' \<longleftrightarrow> d = d'"
  using assms resolve_unique by auto

end

text \<open>
  An interner of limited capacity: while there is \<open>room\<close>, interning succeeds and uses up at
  most one unit of it.
\<close>

locale bounded_interner = interner D valid I inv
  for D :: "'d token_data" and valid :: "'d \<Rightarrow> bool" and I :: "('i, 'd, 'e) interner_ops" and inv :: "'i \<Rightarrow> bool" +
  fixes room :: "'i \<Rightarrow> nat"
  assumes intern_room: "inv i \<Longrightarrow> valid d \<Longrightarrow> 0 < room i \<Longrightarrow>
      \<exists>i' k. io_try_get_or_intern I i d = Inr (Inr (i', k)) \<and> room i \<le> Suc (room i')"
    and intern_bytes_room: "inv i \<Longrightarrow> td_from_bytes D bs = Inr d \<Longrightarrow> 0 < room i \<Longrightarrow>
      \<exists>i' k. io_try_get_or_intern_bytes I i bs = Inr (Inr (i', k)) \<and> room i \<le> Suc (room i')"
begin

lemma get_or_intern_room:
  assumes "inv i" "valid d" "0 < room i"
  obtains i' k where "get_or_intern I i d = Inr (i', k)" "room i \<le> Suc (room i')"
  using intern_room [OF assms] by (auto simp: get_or_intern_eq)

lemma get_or_intern_bytes_room:
  assumes "inv i" "td_from_bytes D bs = Inr d" "0 < room i"
  obtains i' k where "get_or_intern_bytes I i bs = Inr (i', k)" "room i \<le> Suc (room i')"
  using intern_bytes_room [OF assms] by (auto simp: get_or_intern_bytes_eq)

end

section \<open>The default interner\<close>

text \<open>\<open>struct TokenInterner\<close>: the hash map from bytes to keys and the vector of values.\<close>

record 'd token_interner =
  ti_keys :: "bytes \<rightharpoonup> token_key"
  ti_values :: "'d list"

datatype interner_error = KeySpaceExhausted | InvalidData token_data_error

definition new_interner :: "'d token_interner" where
  "new_interner = \<lparr>ti_keys = Map.empty, ti_values = []\<rparr>"

definition N_INDICES :: nat where
  "N_INDICES = u32_max"

definition try_resolve :: "'d token_interner \<Rightarrow> token_key \<Rightarrow> 'd option" where
  "try_resolve ti key = (let index = unat (into_u32 key) in vec_get (ti_values ti) index)"

definition try_get_or_intern_bytes ::
  "'d token_data \<Rightarrow> 'd token_interner \<Rightarrow> bytes \<Rightarrow> (interner_error + 'd token_interner \<times> token_key) outcome"
where
  "try_get_or_intern_bytes D ti bs =
     (case ti_keys ti bs of
        Some key \<Rightarrow> Inr (Inr (ti, key))
      | None \<Rightarrow>
          if length (ti_values ti) \<ge> N_INDICES then Inr (Inl KeySpaceExhausted)
          else
            (case td_from_bytes D bs of
               Inl e \<Rightarrow> Inr (Inl (InvalidData e))
             | Inr owned \<Rightarrow>
                 (let index = length (ti_values ti) in
                  if index > u32_max then Inl Keyspace_despite_check
                  else
                    (case try_from_u32 (as_u32 index) of
                       None \<Rightarrow> Inr (Inl KeySpaceExhausted)
                     | Some key \<Rightarrow>
                         Inr (Inr (ti\<lparr>ti_values := ti_values ti @ [owned],
                                     ti_keys := (ti_keys ti)(bs \<mapsto> key)\<rparr>, key))))))"

definition try_get_or_intern ::
  "'d token_data \<Rightarrow> 'd token_interner \<Rightarrow> 'd \<Rightarrow> (interner_error + 'd token_interner \<times> token_key) outcome"
where
  "try_get_or_intern D ti d = try_get_or_intern_bytes D ti (td_as_bytes D d)"

definition default_interner :: "'d token_data \<Rightarrow> ('d token_interner, 'd, interner_error) interner_ops" where
  "default_interner D = \<lparr>io_try_resolve = try_resolve,
     io_try_get_or_intern = try_get_or_intern D,
     io_try_get_or_intern_bytes = try_get_or_intern_bytes D\<rparr>"

lemma default_interner_simps [simp]:
  "io_try_resolve (default_interner D) = try_resolve"
  "io_try_get_or_intern (default_interner D) = try_get_or_intern D"
  "io_try_get_or_intern_bytes (default_interner D) = try_get_or_intern_bytes D"
  by (simp_all add: default_interner_def)

text \<open>
  The invariant: \<open>keys\<close> is exactly the inverse of \<open>values\<close>, and no more than
  \<open>N_INDICES\<close> values are stored.
\<close>

definition interner_ok :: "'d token_data \<Rightarrow> ('d \<Rightarrow> bool) \<Rightarrow> 'd token_interner \<Rightarrow> bool" where
  "interner_ok D valid ti \<longleftrightarrow>
     length (ti_values ti) \<le> N_INDICES \<and>
     (\<forall>d \<in> set (ti_values ti). valid d) \<and>
     (\<forall>bs key. ti_keys ti bs = Some key \<longleftrightarrow>
        token_key_ok key \<and> (\<exists>d. try_resolve ti key = Some d \<and> td_as_bytes D d = bs))"

definition interner_room :: "'d token_interner \<Rightarrow> nat" where
  "interner_room ti = N_INDICES - length (ti_values ti)"

lemma try_resolve_Some:
  "try_resolve ti key = Some d \<longleftrightarrow>
     unat (into_u32 key) < length (ti_values ti) \<and> ti_values ti ! unat (into_u32 key) = d"
  by (simp add: try_resolve_def vec_get_Some)

text \<open>The interner after a fresh value was pushed.\<close>

definition interner_push :: "'d token_interner \<Rightarrow> bytes \<Rightarrow> 'd \<Rightarrow> token_key \<Rightarrow> 'd token_interner" where
  "interner_push ti bs d key =
     ti\<lparr>ti_values := ti_values ti @ [d], ti_keys := (ti_keys ti)(bs \<mapsto> key)\<rparr>"

lemma try_resolve_push:
  "try_resolve (interner_push ti bs d key) k =
     (if unat (into_u32 k) = length (ti_values ti) then Some d else try_resolve ti k)"
  by (auto simp: try_resolve_def interner_push_def vec_get_def nth_append Let_def)

lemma interner_ok_new [simp]: "interner_ok D valid new_interner"
  by (simp add: interner_ok_def new_interner_def try_resolve_Some)

lemma interner_ok_keys:
  "interner_ok D valid ti \<Longrightarrow> ti_keys ti bs = Some key \<longleftrightarrow>
     token_key_ok key \<and> (\<exists>d. try_resolve ti key = Some d \<and> td_as_bytes D d = bs)"
  by (simp add: interner_ok_def)

lemma interner_ok_valid: "interner_ok D valid ti \<Longrightarrow> try_resolve ti key = Some d \<Longrightarrow> valid d"
  by (auto simp: interner_ok_def try_resolve_Some)

lemma resolved_key_ok:
  assumes "interner_ok D valid ti" "try_resolve ti key = Some d"
  shows "token_key_ok key"
proof (rule ccontr)
  assume "\<not> token_key_ok key"
  then have "into_u32 key = as_u32 u32_max"
    by (simp add: token_key_ok_def into_u32_def as_u32_max)
  with assms show False
    by (simp add: interner_ok_def try_resolve_Some unat_as_u32 N_INDICES_def)
qed

lemma index_key:
  assumes "i < N_INDICES"
  obtains k where "try_from_u32 (as_u32 i) = Some k" "token_key_ok k" "unat (into_u32 k) = i"
proof -
  from assms obtain k where k: "try_from_u32 (as_u32 i) = Some k"
    using try_from_as_u32 by (auto simp: N_INDICES_def)
  from try_from_u32_Some [OF k] assms have "token_key_ok k" "unat (into_u32 k) = i"
    by (simp_all add: N_INDICES_def unat_as_u32)
  with k show ?thesis by (rule that)
qed

text \<open>Every stored value is found through its bytes.\<close>

lemma interner_ok_lookup:
  assumes "interner_ok D valid ti" "d \<in> set (ti_values ti)"
  obtains key where "ti_keys ti (td_as_bytes D d) = Some key" "try_resolve ti key = Some d"
proof -
  from assms(2) obtain i where i: "i < length (ti_values ti)" "ti_values ti ! i = d"
    by (auto simp: in_set_conv_nth)
  moreover from assms(1) i(1) have "i < N_INDICES" by (simp add: interner_ok_def)
  then obtain k where "token_key_ok k" "unat (into_u32 k) = i" by (rule index_key)
  ultimately have "token_key_ok k" "try_resolve ti k = Some d" by (simp_all add: try_resolve_Some)
  with assms(1) have "ti_keys ti (td_as_bytes D d) = Some k" by (auto simp: interner_ok_keys)
  then show ?thesis using \<open>try_resolve ti k = Some d\<close> by (rule that)
qed

context token_payload
begin

lemma interner_ok_unknown:
  assumes "interner_ok D valid ti" "td_from_bytes D bs = Inr d"
  shows "ti_keys ti bs = None \<longleftrightarrow> d \<notin> set (ti_values ti)"
proof
  assume none: "ti_keys ti bs = None"
  show "d \<notin> set (ti_values ti)"
  proof
    assume "d \<in> set (ti_values ti)"
    with assms(1) obtain key where "ti_keys ti (td_as_bytes D d) = Some key"
      by (rule interner_ok_lookup)
    with none as_from_bytes [OF assms(2)] show False by simp
  qed
next
  assume notin: "d \<notin> set (ti_values ti)"
  show "ti_keys ti bs = None"
  proof (rule ccontr)
    assume "ti_keys ti bs \<noteq> None"
    then obtain key d' where d': "try_resolve ti key = Some d'" "td_as_bytes D d' = bs"
      using assms(1) by (auto simp: interner_ok_keys)
    with assms have "d' = d"
      by (metis as_bytes_inj as_from_bytes interner_ok_valid)
    with d'(1) notin show False by (auto simp: try_resolve_Some)
  qed
qed

lemma interner_ok_push:
  assumes "interner_ok D valid ti" "length (ti_values ti) < N_INDICES" "valid d"
    and "ti_keys ti (td_as_bytes D d) = None"
    and k: "token_key_ok key" "unat (into_u32 key) = length (ti_values ti)"
  shows "interner_ok D valid (interner_push ti (td_as_bytes D d) d key)"
proof -
  let ?ti = "interner_push ti (td_as_bytes D d) d key"
  have keys: "ti_keys ?ti bs = (if bs = td_as_bytes D d then Some key else ti_keys ti bs)" for bs
    by (simp add: interner_push_def)
  have key_eq: "unat (into_u32 k') = length (ti_values ti) \<longleftrightarrow> k' = key" for k'
    using k(2) by (metis into_u32_inject unsigned_word_eqI)
  have fresh: "try_resolve ti key = None"
    using k(2) by (simp add: try_resolve_def vec_get_None)
  have "ti_keys ?ti bs = Some k' \<longleftrightarrow>
      token_key_ok k' \<and> (\<exists>d. try_resolve ?ti k' = Some d \<and> td_as_bytes D d = bs)" for bs k'
  proof (cases "k' = key")
    case True
    then show ?thesis
      using k(1) fresh interner_ok_keys [OF assms(1), of bs key]
      by (auto simp: keys try_resolve_push key_eq)
  next
    case False
    then show ?thesis
      using assms(4) interner_ok_keys [OF assms(1), of bs k']
      by (auto simp: keys try_resolve_push key_eq)
  qed
  moreover have "\<forall>d \<in> set (ti_values ?ti). valid d" "length (ti_values ?ti) \<le> N_INDICES"
    using assms(1-3) by (auto simp: interner_push_def interner_ok_def)
  ultimately show ?thesis by (simp add: interner_ok_def)
qed

text \<open>The four ways interning ends, each with the condition it happens under.\<close>

lemma intern_bytes_known:
  "ti_keys ti bs = Some key \<Longrightarrow> try_get_or_intern_bytes D ti bs = Inr (Inr (ti, key))"
  by (simp add: try_get_or_intern_bytes_def)

lemma intern_bytes_full:
  "ti_keys ti bs = None \<Longrightarrow> N_INDICES \<le> length (ti_values ti) \<Longrightarrow>
   try_get_or_intern_bytes D ti bs = Inr (Inl KeySpaceExhausted)"
  by (simp add: try_get_or_intern_bytes_def)

lemma intern_bytes_invalid:
  "ti_keys ti bs = None \<Longrightarrow> length (ti_values ti) < N_INDICES \<Longrightarrow> td_from_bytes D bs = Inl e \<Longrightarrow>
   try_get_or_intern_bytes D ti bs = Inr (Inl (InvalidData e))"
  by (simp add: try_get_or_intern_bytes_def)

lemma intern_bytes_fresh:
  assumes "ti_keys ti bs = None" "length (ti_values ti) < N_INDICES" "td_from_bytes D bs = Inr d"
  obtains key where "token_key_ok key" "unat (into_u32 key) = length (ti_values ti)"
    "try_get_or_intern_bytes D ti bs = Inr (Inr (interner_push ti bs d key, key))"
proof -
  from assms(2) obtain key where k: "try_from_u32 (as_u32 (length (ti_values ti))) = Some key"
    "token_key_ok key" "unat (into_u32 key) = length (ti_values ti)" by (rule index_key)
  have "try_get_or_intern_bytes D ti bs = Inr (Inr (interner_push ti bs d key, key))"
    using assms k(1) by (simp add: try_get_or_intern_bytes_def interner_push_def N_INDICES_def Let_def)
  with k(2,3) show ?thesis by (rule that)
qed

lemma intern_bytes_Inr:
  assumes ok: "interner_ok D valid ti" and run: "try_get_or_intern_bytes D ti bs = Inr (Inr (ti', key))"
  obtains d where "td_from_bytes D bs = Inr d" "interner_ok D valid ti'" "try_resolve ti' key = Some d"
    "\<And>k d'. try_resolve ti k = Some d' \<Longrightarrow> try_resolve ti' k = Some d'"
proof (cases "ti_keys ti bs")
  case (Some key')
  then have "ti' = ti" "key' = key" using run by (simp_all add: intern_bytes_known)
  moreover obtain d where "try_resolve ti key' = Some d" "td_as_bytes D d = bs"
    using Some ok by (auto simp: interner_ok_keys)
  ultimately show ?thesis
    using ok that from_as_bytes [of d] interner_ok_valid [OF ok] by auto
next
  case None
  have len: "length (ti_values ti) < N_INDICES"
    using run intern_bytes_full [OF None] by (cases "N_INDICES \<le> length (ti_values ti)") auto
  obtain d where d: "td_from_bytes D bs = Inr d"
    using run intern_bytes_invalid [OF None len] by (cases "td_from_bytes D bs") auto
  then have vd: "valid d" "td_as_bytes D d = bs" using as_from_bytes by auto
  obtain key' where k: "token_key_ok key'" "unat (into_u32 key') = length (ti_values ti)"
    "try_get_or_intern_bytes D ti bs = Inr (Inr (interner_push ti bs d key', key'))"
    using None len d by (rule intern_bytes_fresh)
  with run have eq: "ti' = interner_push ti bs d key" "key' = key" by auto
  have "interner_ok D valid ti'"
    using interner_ok_push [OF ok len vd(1)] None k vd eq by simp
  moreover have "try_resolve ti' key = Some d" using k eq by (simp add: try_resolve_push)
  moreover have "try_resolve ti' k = Some d'" if "try_resolve ti k = Some d'" for k d'
    using that eq by (auto simp: try_resolve_push try_resolve_Some)
  ultimately show ?thesis using d that by blast
qed

lemma resolve_unique_default:
  assumes "interner_ok D valid ti" "try_resolve ti k = Some d" "try_resolve ti k' = Some d"
  shows "k = k'"
  using assms by (metis interner_ok_keys option.inject resolved_key_ok)

text \<open>The interner never panics: the \<open>u32::try_from\<close> of the index always fits.\<close>

lemma intern_bytes_no_panic: "\<exists>r. try_get_or_intern_bytes D ti bs = Inr r"
  by (auto simp: try_get_or_intern_bytes_def N_INDICES_def Let_def split: option.splits sum.splits)

sublocale default: interner D valid "default_interner D" "interner_ok D valid"
proof unfold_locales
  fix i d i' k
  assume *: "interner_ok D valid i" "valid d"
    "io_try_get_or_intern (default_interner D) i d = Inr (Inr (i', k))"
  then have "try_get_or_intern_bytes D i (td_as_bytes D d) = Inr (Inr (i', k))"
    by (simp add: try_get_or_intern_def)
  from intern_bytes_Inr [OF *(1) this] from_as_bytes [OF *(2)]
  show "interner_ok D valid i' \<and> io_try_resolve (default_interner D) i' k = Some d"
    by auto
next
  fix i bs i' k
  assume *: "interner_ok D valid i" "io_try_get_or_intern_bytes (default_interner D) i bs = Inr (Inr (i', k))"
  then have "try_get_or_intern_bytes D i bs = Inr (Inr (i', k))" by simp
  then obtain d where "td_from_bytes D bs = Inr d" "interner_ok D valid i'" "try_resolve i' k = Some d"
    by (rule intern_bytes_Inr [OF *(1)])
  then show "interner_ok D valid i' \<and>
      (\<exists>d. td_from_bytes D bs = Inr d \<and> io_try_resolve (default_interner D) i' k = Some d)"
    by auto
next
  fix i d i' k k' d'
  assume *: "interner_ok D valid i" "io_try_get_or_intern (default_interner D) i d = Inr (Inr (i', k))"
    "io_try_resolve (default_interner D) i k' = Some d'"
  then show "io_try_resolve (default_interner D) i' k' = Some d'"
    using intern_bytes_Inr [OF *(1), of "td_as_bytes D d" i' k] by (auto simp: try_get_or_intern_def)
next
  fix i bs i' k k' d'
  assume *: "interner_ok D valid i" "io_try_get_or_intern_bytes (default_interner D) i bs = Inr (Inr (i', k))"
    "io_try_resolve (default_interner D) i k' = Some d'"
  then show "io_try_resolve (default_interner D) i' k' = Some d'"
    using intern_bytes_Inr [OF *(1), of bs i' k] by auto
qed (auto dest: interner_ok_valid resolve_unique_default)

lemma intern_bytes_room_default:
  assumes "interner_ok D valid ti" "td_from_bytes D bs = Inr d" "0 < interner_room ti"
  shows "\<exists>ti' k. try_get_or_intern_bytes D ti bs = Inr (Inr (ti', k)) \<and> interner_room ti \<le> Suc (interner_room ti')"
proof (cases "ti_keys ti bs")
  case (Some key)
  then show ?thesis by (simp add: intern_bytes_known)
next
  case None
  have "length (ti_values ti) < N_INDICES" using assms(3) by (simp add: interner_room_def)
  from intern_bytes_fresh [OF None this assms(2)] obtain key where
    "try_get_or_intern_bytes D ti bs = Inr (Inr (interner_push ti bs d key, key))" by blast
  then show ?thesis by (simp add: interner_push_def interner_room_def)
qed

sublocale default: bounded_interner D valid "default_interner D" "interner_ok D valid" interner_room
proof unfold_locales
  fix i d
  assume "interner_ok D valid i" "valid d" "0 < interner_room i"
  then show "\<exists>i' k. io_try_get_or_intern (default_interner D) i d = Inr (Inr (i', k)) \<and>
      interner_room i \<le> Suc (interner_room i')"
    using intern_bytes_room_default [of i "td_as_bytes D d" d] from_as_bytes [of d]
    by (simp add: try_get_or_intern_def)
next
  fix i bs d
  assume "interner_ok D valid i" "td_from_bytes D bs = Inr d" "0 < interner_room i"
  from intern_bytes_room_default [OF this]
  show "\<exists>i' k. io_try_get_or_intern_bytes (default_interner D) i bs = Inr (Inr (i', k)) \<and>
      interner_room i \<le> Suc (interner_room i')"
    by simp
qed

end

section \<open>The payload types of the crate\<close>

interpretation byte_payload: token_payload bytes_data "\<lambda>_. True"
  by unfold_locales (auto simp: bytes_data_def)

interpretation str_payload: token_payload str_data str_valid
  by unfold_locales (auto simp: str_data_def str_valid_def split: if_splits)

section \<open>Properties\<close>

text \<open>The conversion between token keys and \<open>u32\<close> is exact both ways: the numbers that convert to a key
  are all but \<open>u32::MAX\<close>, and they are the numbers the (non-zero) keys convert to.\<close>
theorem token_key_u32_round_trip:
  "(try_from_u32 n = Some k \<longleftrightarrow> token_key_ok k \<and> into_u32 k = n) \<and>
   (try_from_u32 n = None \<longleftrightarrow> n = as_u32 u32_max)"
proof
  show "try_from_u32 n = Some k \<longleftrightarrow> token_key_ok k \<and> into_u32 k = n"
    using try_from_u32_Some try_from_into_u32 by blast
  show "try_from_u32 n = None \<longleftrightarrow> n = as_u32 u32_max"
    by (simp add: try_from_u32_def as_u32_max order_less_le)
qed

text \<open>The default interner keeps its invariant (its map is exactly the inverse of its vector) and, on every
  outcome, does what it says: a returned key resolves to the data the bytes decode to, every key handed out
  before still resolves to its data, at most one value is stored, and it fails only when the bytes do not
  decode or the key space is used up. It never panics.\<close>
theorem intern_bytes_correct:
  assumes "token_payload D valid" "interner_ok D valid ti"
  shows "case try_get_or_intern_bytes D ti bs of
      Inl p \<Rightarrow> False
    | Inr (Inl KeySpaceExhausted) \<Rightarrow> ti_keys ti bs = None \<and> length (ti_values ti) = N_INDICES
    | Inr (Inl (InvalidData e)) \<Rightarrow> ti_keys ti bs = None \<and> td_from_bytes D bs = Inl e
    | Inr (Inr (ti', key)) \<Rightarrow>
        interner_ok D valid ti' \<and> (\<exists>d. td_from_bytes D bs = Inr d \<and> try_resolve ti' key = Some d) \<and>
        (\<forall>k d. try_resolve ti k = Some d \<longrightarrow> try_resolve ti' k = Some d) \<and>
        (ti' = ti \<or> length (ti_values ti') = Suc (length (ti_values ti)) \<and> ti_keys ti bs = None)"
proof (cases "ti_keys ti bs")
  case (Some key)
  then have run: "try_get_or_intern_bytes D ti bs = Inr (Inr (ti, key))" by (simp add: try_get_or_intern_bytes_def)
  obtain d where "td_from_bytes D bs = Inr d" "try_resolve ti key = Some d"
    by (rule token_payload.intern_bytes_Inr [OF assms run])
  with assms(2) show ?thesis by (auto simp: run)
next
  case None
  have le: "length (ti_values ti) \<le> N_INDICES" using assms(2) by (simp add: interner_ok_def)
  show ?thesis
  proof (cases "td_from_bytes D bs")
    case (Inl e)
    with None le show ?thesis
      by (cases "length (ti_values ti) < N_INDICES") (auto simp: try_get_or_intern_bytes_def)
  next
    case (Inr d)
    show ?thesis
    proof (cases "length (ti_values ti) < N_INDICES")
      case False
      with None le show ?thesis by (simp add: try_get_or_intern_bytes_def)
    next
      case True
      from token_payload.intern_bytes_fresh [OF assms(1) None True Inr] obtain key
        where run: "try_get_or_intern_bytes D ti bs = Inr (Inr (interner_push ti bs d key, key))" by blast
      show ?thesis
        by (rule token_payload.intern_bytes_Inr [OF assms run]) (use run None in \<open>auto simp: interner_push_def\<close>)
    qed
  qed
qed

theorem intern_bytes_correct_witness:
  "interner_ok str_data str_valid (new_interner :: rust_str token_interner) \<and>
   (\<exists>ti key. try_get_or_intern_bytes str_data new_interner [0x61] = Inr (Inr (ti, key)) \<and>
      try_resolve ti key = Some (Str [0x61]))"
proof
  show ok: "interner_ok str_data str_valid (new_interner :: rust_str token_interner)" by simp
  have "utf8_valid [0x61]" by simp
  then obtain ti key where run: "try_get_or_intern_bytes str_data new_interner [0x61] = Inr (Inr (ti, key))"
    by (auto simp: try_get_or_intern_bytes_def new_interner_def str_data_def N_INDICES_def u32_max_def try_from_u32_def)
  have "td_from_bytes str_data [0x61] = Inr (Str [0x61])" by (simp add: str_data_def)
  with intern_bytes_correct [OF str_payload.token_payload_axioms ok, of "[0x61]"] run
  show "\<exists>ti key. try_get_or_intern_bytes str_data new_interner [0x61] = Inr (Inr (ti, key)) \<and>
      try_resolve ti key = Some (Str [0x61])" by auto
qed

text \<open>Interning two values one after the other gives equal keys exactly when the values are equal, so
  comparing keys of one interner is comparing the data they stand for.\<close>
theorem interned_keys_eq_iff:
  assumes "token_payload D valid" "interner_ok D valid ti" "valid d1" "valid d2"
    and "try_get_or_intern D ti d1 = Inr (Inr (ti1, k1))" "try_get_or_intern D ti1 d2 = Inr (Inr (ti2, k2))"
  shows "k1 = k2 \<longleftrightarrow> d1 = d2"
proof -
  have run: "try_get_or_intern_bytes D ti (td_as_bytes D d1) = Inr (Inr (ti1, k1))"
    "try_get_or_intern_bytes D ti1 (td_as_bytes D d2) = Inr (Inr (ti2, k2))"
    using assms(5,6) by (simp_all add: try_get_or_intern_def)
  obtain d where 1: "td_from_bytes D (td_as_bytes D d1) = Inr d" "interner_ok D valid ti1" "try_resolve ti1 k1 = Some d"
    by (rule token_payload.intern_bytes_Inr [OF assms(1,2) run(1)])
  obtain d' where 2: "td_from_bytes D (td_as_bytes D d2) = Inr d'" "interner_ok D valid ti2" "try_resolve ti2 k2 = Some d'"
    and kept: "\<And>k d. try_resolve ti1 k = Some d \<Longrightarrow> try_resolve ti2 k = Some d"
    by (rule token_payload.intern_bytes_Inr [OF assms(1) 1(2) run(2)]) blast
  have "d = d1" "d' = d2"
    using 1(1) 2(1) assms(1,3,4) by (simp_all add: token_payload.from_as_bytes)
  then show ?thesis
    using 2(3) kept [OF 1(3)] token_payload.resolve_unique_default [OF assms(1) 2(2), of k1 d k2] by auto
qed

theorem interned_keys_eq_iff_witness:
  "\<exists>ti1 k1 ti2 k2. try_get_or_intern bytes_data new_interner [0x61] = Inr (Inr (ti1, k1)) \<and>
     try_get_or_intern bytes_data ti1 [0x62] = Inr (Inr (ti2, k2)) \<and> k1 \<noteq> k2"
proof -
  obtain ti1 k1 ti2 k2 where
    "try_get_or_intern bytes_data new_interner [0x61] = Inr (Inr (ti1, k1))"
    "try_get_or_intern bytes_data ti1 [0x62] = Inr (Inr (ti2, k2))"
    by (auto simp: try_get_or_intern_def try_get_or_intern_bytes_def new_interner_def bytes_data_def N_INDICES_def
        u32_max_def try_from_u32_def)
  with interned_keys_eq_iff [OF byte_payload.token_payload_axioms interner_ok_new _ _ this] show ?thesis by auto
qed

end
