(* ===== verification/Green.thy ===== *)
theory Green
  imports Text_Size Utility_Types Interning
begin

text \<open>
  The green tree, \<open>cstree/src/green/{token,node,element,iter}.rs\<close>: tokens, nodes with their
  cached length and child hash, the constructors of nodes, equality and hashing, and the
  child iterator. Shared immutable pointers (\<open>Arc\<close>) are modelled by the values they point
  to; the pointer tagging of \<open>PackedGreenElement\<close> is in \<open>Green_Pointer\<close>. The hasher is the
  \<open>rustc_hash\<close> crate's, which is not part of the repository: a function \<open>H\<close> from the
  sequence of values written into a fresh \<open>FxHasher\<close> to the result of \<open>finish\<close>.
\<close>

section \<open>Tokens, heads, nodes\<close>

text \<open>\<open>GreenTokenData\<close>; a \<open>GreenToken\<close> is a pointer to it, compared by its contents.\<close>

record green_token =
  gt_kind :: u32
  gt_data :: "token_key option"
  gt_data_len :: text_size

text \<open>\<open>GreenNodeHead\<close>\<close>

record green_node_head =
  gh_kind :: u32
  gh_text_len :: text_size
  gh_child_hash :: u32

datatype green_node =
  GreenNode (gn_head: green_node_head) (gn_children: "(green_node, green_token) node_or_token list")

type_synonym green_element = "(green_node, green_token) node_or_token"

definition gn_kind :: "green_node \<Rightarrow> u32" where
  "gn_kind n = gh_kind (gn_head n)"

definition gn_text_len :: "green_node \<Rightarrow> text_size" where
  "gn_text_len n = gh_text_len (gn_head n)"

fun ge_kind :: "green_element \<Rightarrow> u32" where
  "ge_kind (Node it) = gn_kind it"
| "ge_kind (Token it) = gt_kind it"

fun ge_text_len :: "green_element \<Rightarrow> text_size" where
  "ge_text_len (Node it) = gn_text_len it"
| "ge_text_len (Token it) = gt_data_len it"

text \<open>\<open>GreenToken::data\<close> and \<open>GreenToken::text\<close>: the interned data of the token, if any.\<close>

definition green_token_data :: "(token_key \<Rightarrow> 'd outcome) \<Rightarrow> green_token \<Rightarrow> 'd option outcome" where
  "green_token_data res t =
     (case gt_data t of None \<Rightarrow> Inr None | Some key \<Rightarrow> bindO (res key) (\<lambda>d. Inr (Some d)))"

section \<open>Hashing\<close>

datatype hash_write = Write_isize nat | Write_u32 u32

text \<open>The derived \<open>Hash\<close> implementations, as the values they write, in order.\<close>

definition hash_token_data :: "token_key option \<Rightarrow> hash_write list" where
  "hash_token_data x = (case x of None \<Rightarrow> [Write_isize 0] | Some k \<Rightarrow> [Write_isize 1, Write_u32 (key_inner k)])"

definition hash_green_token :: "green_token \<Rightarrow> hash_write list" where
  "hash_green_token t = Write_u32 (gt_kind t) # hash_token_data (gt_data t) @ [Write_u32 (gt_data_len t)]"

definition hash_green_node_head :: "green_node_head \<Rightarrow> hash_write list" where
  "hash_green_node_head h = [Write_u32 (gh_kind h), Write_u32 (gh_text_len h), Write_u32 (gh_child_hash h)]"

text \<open>\<open>impl Hash for GreenNode\<close> hashes the head only.\<close>

definition hash_green_node :: "green_node \<Rightarrow> hash_write list" where
  "hash_green_node n = hash_green_node_head (gn_head n)"

fun hash_green_element :: "green_element \<Rightarrow> hash_write list" where
  "hash_green_element (Node it) = Write_isize 0 # hash_green_node it"
| "hash_green_element (Token it) = Write_isize 1 # hash_green_token it"

type_synonym hasher = "hash_write list \<Rightarrow> u64"

text \<open>\<open>hasher.finish() as u32\<close> after hashing every child.\<close>

definition child_hash :: "hasher \<Rightarrow> green_element list \<Rightarrow> u32" where
  "child_hash H cs = ucast (H (concat (map hash_green_element cs)))"

section \<open>Node constructors\<close>

text \<open>\<open>text_len += it.text_len()\<close> over the children.\<close>

definition text_len_sum :: "text_ops \<Rightarrow> green_element list \<Rightarrow> text_size" where
  "text_len_sum T cs = foldl (ts_add T) 0 (map ge_text_len cs)"

definition green_node_new :: "text_ops \<Rightarrow> hasher \<Rightarrow> u32 \<Rightarrow> green_element list \<Rightarrow> green_node" where
  "green_node_new T H kind children =
     GreenNode \<lparr>gh_kind = kind, gh_text_len = text_len_sum T children,
                gh_child_hash = child_hash H children\<rparr> children"

definition new_with_len_and_hash :: "u32 \<Rightarrow> green_element list \<Rightarrow> text_size \<Rightarrow> u32 \<Rightarrow> green_node" where
  "new_with_len_and_hash kind children text_len hash =
     GreenNode \<lparr>gh_kind = kind, gh_text_len = text_len, gh_child_hash = hash\<rparr> children"

definition from_head_and_children :: "green_node_head \<Rightarrow> green_element list \<Rightarrow> green_node" where
  "from_head_and_children header children = GreenNode header children"

lemma green_node_new_simps [simp]:
  "gn_kind (green_node_new T H kind cs) = kind"
  "gn_text_len (green_node_new T H kind cs) = text_len_sum T cs"
  "gn_children (green_node_new T H kind cs) = cs"
  by (simp_all add: green_node_new_def gn_kind_def gn_text_len_def)

section \<open>Equality\<close>

lemma size_green_child [termination_simp]:
  "Node n \<in> set cs \<Longrightarrow> size n < Suc (size_list (size_node_or_token size (\<lambda>_. 0)) cs)"
  by (induction cs) auto

lemma size_green_zip [termination_simp]:
  "(Node m, Node n) \<in> set (zip cs cs') \<Longrightarrow>
   size m < Suc (size_list (size_node_or_token size (\<lambda>_. 0)) cs)"
  by (rule size_green_child) (rule set_zip_leftD)

text \<open>
  \<open>impl PartialEq for PackedGreenElement\<close> compares the two options; \<open>ThinArc\<close>'s equality of
  two nodes compares head and children.
\<close>

fun green_node_eq :: "green_node \<Rightarrow> green_node \<Rightarrow> bool" where
  "green_node_eq (GreenNode h cs) (GreenNode h' cs') =
     (h = h' \<and> length cs = length cs' \<and>
      (\<forall>(a, b) \<in> set (zip cs cs').
         (case (a, b) of
            (Node m, Node n) \<Rightarrow> green_node_eq m n
          | (Token s, Token t) \<Rightarrow> s = t
          | _ \<Rightarrow> False)))"

section \<open>Structure of green trees\<close>

text \<open>Induction over the nodes of a green tree.\<close>

lemma green_node_induct [case_names GreenNode]:
  assumes "\<And>h cs. (\<And>n. Node n \<in> set cs \<Longrightarrow> P n) \<Longrightarrow> P (GreenNode h cs)"
  shows "P n"
proof (induction n)
  case (GreenNode h cs)
  show ?case by (rule assms) (rule GreenNode.IH, assumption, simp)
qed

text \<open>All tokens of a tree from left to right.\<close>

fun green_tokens :: "green_node \<Rightarrow> green_token list" where
  "green_tokens (GreenNode h cs) =
     concat (map (\<lambda>e. case e of Node n \<Rightarrow> green_tokens n | Token t \<Rightarrow> [t]) cs)"

fun element_tokens :: "green_element \<Rightarrow> green_token list" where
  "element_tokens (Node n) = green_tokens n"
| "element_tokens (Token t) = [t]"

lemma green_tokens_GreenNode: "green_tokens (GreenNode h cs) = concat (map element_tokens cs)"
proof -
  have "(\<lambda>e. case e of Node n \<Rightarrow> green_tokens n | Token t \<Rightarrow> [t]) = element_tokens"
    by (rule ext) (auto split: node_or_token.split)
  then show ?thesis by simp
qed

declare green_tokens.simps [simp del] green_tokens_GreenNode [simp]

text \<open>Every node of a tree, the tree itself included.\<close>

fun subnodes :: "green_node \<Rightarrow> green_node list" where
  "subnodes (GreenNode h cs) =
     GreenNode h cs # concat (map (\<lambda>e. case e of Node n \<Rightarrow> subnodes n | Token t \<Rightarrow> []) cs)"

text \<open>
  A node is well formed when its head is what \<open>GreenNode::new\<close> computes from its children,
  in the node and in every node below it.
\<close>

fun green_wf :: "text_ops \<Rightarrow> hasher \<Rightarrow> green_node \<Rightarrow> bool" where
  "green_wf T H (GreenNode h cs) \<longleftrightarrow>
     GreenNode h cs = green_node_new T H (gh_kind h) cs \<and>
     (\<forall>e \<in> set cs. case e of Node n \<Rightarrow> green_wf T H n | Token t \<Rightarrow> True)"

fun element_wf :: "text_ops \<Rightarrow> hasher \<Rightarrow> green_element \<Rightarrow> bool" where
  "element_wf T H (Node n) \<longleftrightarrow> green_wf T H n"
| "element_wf T H (Token t) \<longleftrightarrow> True"

lemma green_wf_GreenNode:
  "green_wf T H (GreenNode h cs) \<longleftrightarrow>
     gh_text_len h = text_len_sum T cs \<and> gh_child_hash h = child_hash H cs \<and> (\<forall>e \<in> set cs. element_wf T H e)"
proof -
  have "(case e of Node n \<Rightarrow> green_wf T H n | Token t \<Rightarrow> True) \<longleftrightarrow> element_wf T H e" for e
    by (cases e) auto
  then show ?thesis by (cases h) (auto simp: green_node_new_def)
qed

declare green_wf.simps [simp del] green_wf_GreenNode [simp]

lemma green_wf_new: "green_wf T H (green_node_new T H kind cs) \<longleftrightarrow> (\<forall>e \<in> set cs. element_wf T H e)"
  by (simp add: green_node_new_def)

text \<open>The number of bytes of the tokens of a tree, counted without wrap-around.\<close>

definition tokens_len :: "green_token list \<Rightarrow> nat" where
  "tokens_len ts = sum_list (map (\<lambda>t. unat (gt_data_len t)) ts)"

definition green_len :: "green_node \<Rightarrow> nat" where
  "green_len n = tokens_len (green_tokens n)"

definition element_len :: "green_element \<Rightarrow> nat" where
  "element_len e = tokens_len (element_tokens e)"

lemma tokens_len_append [simp]: "tokens_len (xs @ ys) = tokens_len xs + tokens_len ys"
  by (simp add: tokens_len_def)

lemma tokens_len_concat: "tokens_len (concat xss) = sum_list (map tokens_len xss)"
  by (induction xss) (auto simp: tokens_len_def)

lemma green_len_GreenNode: "green_len (GreenNode h cs) = sum_list (map element_len cs)"
  by (simp add: green_len_def tokens_len_concat element_len_def [abs_def] comp_def)

lemma element_len_simps [simp]:
  "element_len (Node n) = green_len n"
  "element_len (Token t) = unat (gt_data_len t)"
  by (simp_all add: element_len_def green_len_def tokens_len_def)

lemma element_len_le: "e \<in> set cs \<Longrightarrow> element_len e \<le> sum_list (map element_len cs)"
  by (simp add: member_le_sum_list)

context text_size
begin

lemma text_len_sum_exact:
  assumes "sum_list (map (\<lambda>e. unat (ge_text_len e)) cs) \<le> u32_max"
  shows "unat (text_len_sum T cs) = sum_list (map (\<lambda>e. unat (ge_text_len e)) cs)"
  using unat_foldl_add [of 0 "map ge_text_len cs"] assms
  by (simp add: text_len_sum_def comp_def)

text \<open>The stored length of a well-formed tree is the number of bytes of its tokens.\<close>

lemma green_len_exact: "green_wf T H n \<Longrightarrow> green_len n \<le> u32_max \<Longrightarrow> unat (gn_text_len n) = green_len n"
proof (induction n rule: green_node_induct)
  case (GreenNode h cs)
  have "unat (ge_text_len e) = element_len e" if e: "e \<in> set cs" for e
  proof (cases e)
    case (Node n)
    have "green_len n \<le> u32_max"
      using element_len_le [OF e] Node GreenNode.prems(2) by (simp add: green_len_GreenNode)
    with Node e GreenNode show ?thesis by force
  qed simp
  then have eq: "map (\<lambda>e. unat (ge_text_len e)) cs = map element_len cs" by simp
  with GreenNode.prems have "unat (text_len_sum T cs) = sum_list (map element_len cs)"
    using text_len_sum_exact [of cs] by (simp only: eq green_len_GreenNode)
  with GreenNode.prems(1) show ?case by (simp add: gn_text_len_def green_len_GreenNode)
qed

lemma element_len_exact: "element_wf T H e \<Longrightarrow> element_len e \<le> u32_max \<Longrightarrow> unat (ge_text_len e) = element_len e"
  by (cases e) (simp_all add: green_len_exact)

end

lemma green_node_eq_iff: "green_node_eq m n \<longleftrightarrow> m = n"
proof (induction m arbitrary: n rule: green_node_induct)
  case (GreenNode h cs)
  obtain h' cs' where n: "n = GreenNode h' cs'" by (cases n)
  have "(case (a, b) of (Node m, Node n) \<Rightarrow> green_node_eq m n | (Token s, Token t) \<Rightarrow> s = t | _ \<Rightarrow> False)
      \<longleftrightarrow> a = b" if "a \<in> set cs" for a b
    using GreenNode that by (cases a; cases b) auto
  then have "(\<forall>(a, b) \<in> set (zip cs cs'). case (a, b) of (Node m, Node n) \<Rightarrow> green_node_eq m n
      | (Token s, Token t) \<Rightarrow> s = t | _ \<Rightarrow> False) \<longleftrightarrow> (\<forall>(a, b) \<in> set (zip cs cs'). a = b)"
    by (intro ball_cong refl) (auto dest: set_zip_leftD)
  then have "green_node_eq (GreenNode h cs) n \<longleftrightarrow>
      h = h' \<and> length cs = length cs' \<and> (\<forall>(a, b) \<in> set (zip cs cs'). a = b)"
    by (simp add: n)
  also have "length cs = length cs' \<and> (\<forall>(a, b) \<in> set (zip cs cs'). a = b) \<longleftrightarrow> cs = cs'"
    by (auto simp: list_eq_iff_zip_eq zip_same)
  finally show ?case by (simp add: n)
qed

section \<open>The child iterator\<close>

text \<open>
  \<open>GreenNodeChildren\<close> wraps a slice iterator: its state is the list of children not yet
  yielded from either end.
\<close>

type_synonym children_iter = "green_element list"

definition gn_children_iter :: "green_node \<Rightarrow> children_iter" where
  "gn_children_iter n = gn_children n"

fun iter_next :: "children_iter \<Rightarrow> green_element option \<times> children_iter" where
  "iter_next [] = (None, [])"
| "iter_next (e # es) = (Some e, es)"

definition iter_next_back :: "children_iter \<Rightarrow> green_element option \<times> children_iter" where
  "iter_next_back it = vec_pop it"

text \<open>\<open>slice::Iter::nth\<close>: skips \<open>n\<close> items and yields the next.\<close>

definition iter_nth :: "children_iter \<Rightarrow> nat \<Rightarrow> green_element option \<times> children_iter" where
  "iter_nth it n = iter_next (drop n it)"

definition iter_nth_back :: "children_iter \<Rightarrow> nat \<Rightarrow> green_element option \<times> children_iter" where
  "iter_nth_back it n = iter_next_back (take (length it - n) it)"

definition iter_last :: "children_iter \<Rightarrow> green_element option" where
  "iter_last it = fst (iter_next_back it)"

definition iter_len :: "children_iter \<Rightarrow> nat" where
  "iter_len it = length it"

definition iter_size_hint :: "children_iter \<Rightarrow> nat \<times> nat option" where
  "iter_size_hint it = (length it, Some (length it))"

definition iter_count :: "children_iter \<Rightarrow> nat" where
  "iter_count it = length it"

lemma iter_next_shorter [termination_simp]: "(Some x, it') = iter_next it \<Longrightarrow> length it' < length it"
  by (cases it) auto

lemma iter_next_back_shorter [termination_simp]:
  "(Some x, it') = iter_next_back it \<Longrightarrow> length it' < length it"
  by (cases it rule: rev_cases) (auto simp: iter_next_back_def)

fun iter_fold :: "children_iter \<Rightarrow> 'a \<Rightarrow> ('a \<Rightarrow> green_element \<Rightarrow> 'a) \<Rightarrow> 'a" where
  "iter_fold it init f = (case iter_next it of (None, _) \<Rightarrow> init | (Some x, it') \<Rightarrow> iter_fold it' (f init x) f)"

fun iter_rfold :: "children_iter \<Rightarrow> 'a \<Rightarrow> ('a \<Rightarrow> green_element \<Rightarrow> 'a) \<Rightarrow> 'a" where
  "iter_rfold it init f =
     (case iter_next_back it of (None, _) \<Rightarrow> init | (Some x, it') \<Rightarrow> iter_rfold it' (f init x) f)"

lemma iter_fold_foldl: "iter_fold it init f = foldl f init it"
  by (induction it arbitrary: init) simp_all

lemma iter_rfold_foldl: "iter_rfold it init f = foldl f init (rev it)"
  by (induction it arbitrary: init rule: rev_induct) (simp_all add: iter_next_back_def)

lemma iter_nth_eq: "fst (iter_nth it n) = vec_get it n"
proof (cases "n < length it")
  case True
  then show ?thesis by (simp add: iter_nth_def vec_get_def Cons_nth_drop_Suc [symmetric])
qed (simp add: iter_nth_def vec_get_def)

section \<open>Properties\<close>

text \<open>The text length stored in a well-formed green node is the number of bytes of the tokens below it,
  whatever the depth, as long as that number fits 32 bits.\<close>
theorem green_text_len_exact:
  assumes "text_size T" "green_wf T H n" "sum_list (map (\<lambda>t. unat (gt_data_len t)) (green_tokens n)) \<le> u32_max"
  shows "unat (gn_text_len n) = sum_list (map (\<lambda>t. unat (gt_data_len t)) (green_tokens n))"
  using text_size.green_len_exact [OF assms(1,2)] assms(3) by (simp add: green_len_def tokens_len_def)

theorem green_text_len_exact_witness:
  "unat (gn_text_len (green_node_new documented_text_ops (\<lambda>_. 0) 1
     [Token \<lparr>gt_kind = 2, gt_data = None, gt_data_len = 3\<rparr>, Token \<lparr>gt_kind = 2, gt_data = None, gt_data_len = 4\<rparr>])) = 7"
  using green_text_len_exact [OF documented.text_size_axioms, of "\<lambda>_. 0" "green_node_new documented_text_ops (\<lambda>_. 0) 1
     [Token \<lparr>gt_kind = 2, gt_data = None, gt_data_len = 3\<rparr>, Token \<lparr>gt_kind = 2, gt_data = None, gt_data_len = 4\<rparr>]"]
  by (simp add: green_node_new_def u32_max_def)

text \<open>Two green nodes compare equal exactly when they are structurally equal, in which case they are equal in
  kind, length and child hash and write the same values into any hasher.\<close>
theorem green_eq_structural:
  "green_node_eq m n \<longleftrightarrow> gn_head m = gn_head n \<and> gn_children m = gn_children n \<and> hash_green_node m = hash_green_node n"
  by (auto simp: green_node_eq_iff hash_green_node_def green_node.expand)

text \<open>Folding over the child iterator from the front or the back visits every child once, in order or in
  reverse; its \<open>nth\<close>, \<open>last\<close> and \<open>count\<close> agree with the list of children.\<close>
theorem children_iter_agrees:
  "iter_fold (gn_children_iter n) a f = foldl f a (gn_children n) \<and>
   iter_rfold (gn_children_iter n) a f = foldl f a (rev (gn_children n)) \<and>
   fst (iter_nth (gn_children_iter n) i) = vec_get (gn_children n) i \<and>
   iter_last (gn_children_iter n) = vec_last (gn_children n) \<and>
   iter_count (gn_children_iter n) = length (gn_children n)"
  by (simp add: iter_fold_foldl iter_rfold_foldl iter_nth_eq iter_last_def iter_next_back_def vec_pop_def
      iter_count_def gn_children_iter_def del: iter_fold.simps iter_rfold.simps)

end
