(* ===== verification/Syntax_Trait.thy ===== *)
theory Syntax_Trait
  imports Green
begin

text \<open>
  The trait \<open>Syntax\<close> of \<open>cstree/src/lib.rs\<close> as a record of its required methods, its
  documented contract (locale \<open>syntax_impl\<close>), the implementation the crate ships for its
  own tests (\<open>TestSyntaxKind\<close>), and the environment the tree operations take: the
  language, the payload type, the interner, the \<open>text-size\<close> functions, the hasher, and
  whether \<open>debug_assertions\<close> are compiled in.
\<close>

section \<open>The trait\<close>

text \<open>\<open>from_raw\<close> may panic on a number that is no kind of the language.\<close>

record ('s, 'd) syntax_ops =
  sx_from_raw :: "u32 \<Rightarrow> 's outcome"
  sx_into_raw :: "'s \<Rightarrow> u32"
  sx_static_data :: "'s \<Rightarrow> 'd option"

locale syntax_impl =
  fixes S :: "('s, 'd) syntax_ops"
  assumes from_into_raw: "sx_from_raw S (sx_into_raw S k) = Inr k"
begin

lemma into_raw_inject [simp]: "sx_into_raw S k = sx_into_raw S k' \<longleftrightarrow> k = k'"
  by (metis from_into_raw sum.inject(2))

end

section \<open>The test language\<close>

datatype test_kind = Plus | Identifier | Int_kind | Float | Operation | Root | Whitespace | LAST

fun test_into_raw :: "test_kind \<Rightarrow> u32" where
  "test_into_raw Plus = 0"
| "test_into_raw Identifier = 1"
| "test_into_raw Int_kind = 2"
| "test_into_raw Float = 3"
| "test_into_raw Operation = 4"
| "test_into_raw Root = 5"
| "test_into_raw Whitespace = 6"
| "test_into_raw LAST = 7"

text \<open>The assertion, then the transmute of a discriminant, which is the kind with that number.\<close>

definition test_from_raw :: "u32 \<Rightarrow> test_kind outcome" where
  "test_from_raw raw =
     (if raw \<le> test_into_raw LAST
      then Inr ([Plus, Identifier, Int_kind, Float, Operation, Root, Whitespace, LAST] ! unat raw)
      else Inl Invalid_raw_kind)"

fun test_static_data :: "test_kind \<Rightarrow> rust_str option" where
  "test_static_data Plus = Some (Str [0x2B])"
| "test_static_data _ = None"

definition test_syntax :: "(test_kind, rust_str) syntax_ops" where
  "test_syntax = \<lparr>sx_from_raw = test_from_raw, sx_into_raw = test_into_raw, sx_static_data = test_static_data\<rparr>"

lemma test_syntax_simps [simp]:
  "sx_from_raw test_syntax = test_from_raw"
  "sx_into_raw test_syntax = test_into_raw"
  "sx_static_data test_syntax = test_static_data"
  by (simp_all add: test_syntax_def)

interpretation test: syntax_impl test_syntax
proof
  fix k
  show "sx_from_raw test_syntax (sx_into_raw test_syntax k) = Inr k"
    by (cases k) (simp_all add: test_from_raw_def)
qed

text \<open>The transmute never sees a number without a variant.\<close>

lemma test_from_raw_Inr: "test_from_raw raw = Inr k \<longleftrightarrow> test_into_raw k = raw"
proof
  assume "test_from_raw raw = Inr k"
  then have raw: "unat raw \<le> 7"
    and k: "[Plus, Identifier, Int_kind, Float, Operation, Root, Whitespace, LAST] ! unat raw = k"
    by (auto simp: test_from_raw_def word_le_nat_alt split: if_splits)
  have "unat raw \<in> {0, 1, 2, 3, 4, 5, 6, 7}" using raw by auto
  then show "test_into_raw k = raw" using k by (auto simp: word_unat_eq_iff)
next
  assume "test_into_raw k = raw"
  then show "test_from_raw raw = Inr k" using test.from_into_raw [of k] by auto
qed

section \<open>The environment of a tree\<close>

record ('s, 'd, 'i, 'e) env =
  en_syntax :: "('s, 'd) syntax_ops"
  en_data :: "'d token_data"
  en_interner :: "('i, 'd, 'e) interner_ops"
  en_text :: text_ops
  en_hash :: hasher
  en_debug :: bool

text \<open>
  An environment that meets every documented contract: what the theorems about built trees
  assume. \<open>valid\<close> are the values of the payload type, \<open>inv\<close> and \<open>room\<close> are the interner's;
  the static data of a kind is a value of the payload type.
\<close>

locale tree_env =
  syntax_impl "en_syntax E" + text_size "en_text E" + bounded_interner "en_data E" valid "en_interner E" inv room
  for E :: "('s, 'd, 'i, 'e) env" and valid :: "'d \<Rightarrow> bool" and inv :: "'i \<Rightarrow> bool" and room :: "'i \<Rightarrow> nat" +
  assumes static_valid: "sx_static_data (en_syntax E) k = Some d \<Longrightarrow> valid d"

text \<open>The test language over \<open>str\<close> with the default interner, for any hasher.\<close>

definition test_env :: "hasher \<Rightarrow> bool \<Rightarrow> (test_kind, rust_str, rust_str token_interner, interner_error) env" where
  "test_env H debug = \<lparr>en_syntax = test_syntax, en_data = str_data, en_interner = default_interner str_data,
     en_text = documented_text_ops, en_hash = H, en_debug = debug\<rparr>"

lemma test_env_simps [simp]:
  "en_syntax (test_env H debug) = test_syntax"
  "en_data (test_env H debug) = str_data"
  "en_interner (test_env H debug) = default_interner str_data"
  "en_text (test_env H debug) = documented_text_ops"
  "en_hash (test_env H debug) = H"
  "en_debug (test_env H debug) = debug"
  by (simp_all add: test_env_def)

lemma test_static_valid: "test_static_data k = Some d \<Longrightarrow> str_valid d"
  by (cases k) (auto simp: str_valid_def)

lemma tree_env_test: "tree_env (test_env H debug) str_valid (interner_ok str_data str_valid) interner_room"
  by (simp add: tree_env_def tree_env_axioms_def test.syntax_impl_axioms documented.text_size_axioms
      str_payload.default.bounded_interner_axioms test_static_valid)

interpretation test_env: tree_env "test_env H debug" str_valid "interner_ok str_data str_valid" interner_room for H debug
  by (rule tree_env_test)

end
