(* ===== verification/Node_Cache.thy ===== *)
theory Node_Cache
  imports Syntax_Trait
begin

text \<open>
  \<open>NodeCache\<close> of \<open>cstree/src/green/builder.rs\<close>: the maps that deduplicate tokens and small
  nodes, and the interner, owned or borrowed. A \<open>hashbrown\<close> map is modelled by the map
  it represents; \<open>entry(k).or_insert_with_key(f).clone()\<close> is a lookup that inserts on a
  miss.
\<close>

definition CHILDREN_CACHE_THRESHOLD :: nat where
  "CHILDREN_CACHE_THRESHOLD = 3"

record 'i node_cache =
  nc_nodes :: "green_node_head \<rightharpoonup> green_node"
  nc_tokens :: "green_token \<rightharpoonup> green_token"
  nc_interner :: "'i maybe_owned"

definition node_cache_new :: "'d token_interner node_cache" where
  "node_cache_new = \<lparr>nc_nodes = Map.empty, nc_tokens = Map.empty, nc_interner = Owned new_interner\<rparr>"

definition with_interner :: "'i \<Rightarrow> 'i node_cache" where
  "with_interner i = \<lparr>nc_nodes = Map.empty, nc_tokens = Map.empty, nc_interner = Borrowed i\<rparr>"

definition from_interner :: "'i \<Rightarrow> 'i node_cache" where
  "from_interner i = \<lparr>nc_nodes = Map.empty, nc_tokens = Map.empty, nc_interner = Owned i\<rparr>"

definition cache_interner :: "'i node_cache \<Rightarrow> 'i" where
  "cache_interner c = deref (nc_interner c)"

text \<open>A write through the reference \<open>interner_mut\<close> returns.\<close>

definition set_interner :: "'i \<Rightarrow> 'i node_cache \<Rightarrow> 'i node_cache" where
  "set_interner i c = c\<lparr>nc_interner := deref_set (nc_interner c) i\<rparr>"

definition into_interner :: "'i node_cache \<Rightarrow> 'i option" where
  "into_interner c = into_owned (nc_interner c)"

definition intern :: "('s, 'd, 'i, 'e) env \<Rightarrow> 'i node_cache \<Rightarrow> 'd \<Rightarrow> ('i node_cache \<times> token_key) outcome" where
  "intern E c d = bindO (get_or_intern (en_interner E) (cache_interner c) d)
     (\<lambda>(i, key). Inr (set_interner i c, key))"

definition intern_bytes :: "('s, 'd, 'i, 'e) env \<Rightarrow> 'i node_cache \<Rightarrow> bytes \<Rightarrow> ('i node_cache \<times> token_key) outcome" where
  "intern_bytes E c bs = bindO (get_or_intern_bytes (en_interner E) (cache_interner c) bs)
     (\<lambda>(i, key). Inr (set_interner i c, key))"

definition get_cached_node ::
  "'i node_cache \<Rightarrow> u32 \<Rightarrow> green_element list \<Rightarrow> text_size \<Rightarrow> u32 \<Rightarrow> 'i node_cache \<times> green_node"
where
  "get_cached_node c kind children text_len hash =
     (let head = \<lparr>gh_kind = kind, gh_text_len = text_len, gh_child_hash = hash\<rparr> in
      case nc_nodes c head of
        Some n \<Rightarrow> (c, n)
      | None \<Rightarrow> (let n = from_head_and_children head children
                 in (c\<lparr>nc_nodes := (nc_nodes c)(head \<mapsto> n)\<rparr>, n)))"

text \<open>
  \<open>NodeCache::node\<close> drains the children from \<open>offset\<close> on: it returns the new cache, the
  children left, and the node. A range past the end panics in the slice expression, before
  anything is drained.
\<close>

definition cache_node ::
  "('s, 'd, 'i, 'e) env \<Rightarrow> 'i node_cache \<Rightarrow> 's \<Rightarrow> green_element list \<Rightarrow> nat \<Rightarrow>
   ('i node_cache \<times> green_element list \<times> green_node) outcome"
where
  "cache_node E c kind all_children offset =
     (let raw = sx_into_raw (en_syntax E) kind in
      bindO (slice_from all_children offset) (\<lambda>children.
        (let text_len = text_len_sum (en_text E) children;
             hash = child_hash (en_hash E) children;
             rest = take offset all_children
         in if length children \<le> CHILDREN_CACHE_THRESHOLD
            then (case get_cached_node c raw children text_len hash of (c', n) \<Rightarrow> Inr (c', rest, n))
            else Inr (c, rest, new_with_len_and_hash raw children text_len hash))))"

definition cache_token ::
  "('s, 'd, 'i, 'e) env \<Rightarrow> 'i node_cache \<Rightarrow> 's \<Rightarrow> token_key option \<Rightarrow> u32 \<Rightarrow> 'i node_cache \<times> green_token"
where
  "cache_token E c kind data len =
     (let t = \<lparr>gt_kind = sx_into_raw (en_syntax E) kind, gt_data = data, gt_data_len = len\<rparr> in
      case nc_tokens c t of
        Some t' \<Rightarrow> (c, t')
      | None \<Rightarrow> (c\<lparr>nc_tokens := (nc_tokens c)(t \<mapsto> t)\<rparr>, t))"

section \<open>The cache invariant\<close>

text \<open>
  Every cached token is stored under its own data and every cached node under its own head,
  with at most three children; and the node is what \<open>GreenNode::new\<close> would have built
  from those children.
\<close>

definition cache_wf :: "text_ops \<Rightarrow> hasher \<Rightarrow> 'i node_cache \<Rightarrow> bool" where
  "cache_wf T H c \<longleftrightarrow>
     (\<forall>h n. nc_nodes c h = Some n \<longrightarrow>
        gn_head n = h \<and> length (gn_children n) \<le> CHILDREN_CACHE_THRESHOLD \<and> green_wf T H n) \<and>
     (\<forall>t t'. nc_tokens c t = Some t' \<longrightarrow> t' = t)"

abbreviation env_cache_wf :: "('s, 'd, 'i, 'e) env \<Rightarrow> 'i node_cache \<Rightarrow> bool" where
  "env_cache_wf E c \<equiv> cache_wf (en_text E) (en_hash E) c"

lemma cache_wf_empty [simp]:
  "cache_wf T H node_cache_new"
  "cache_wf T H (with_interner i)"
  "cache_wf T H (from_interner i)"
  by (simp_all add: cache_wf_def node_cache_new_def with_interner_def from_interner_def)

lemma cache_wf_set_interner [simp]: "cache_wf T H (set_interner i c) \<longleftrightarrow> cache_wf T H c"
  by (simp add: cache_wf_def set_interner_def)

lemma set_interner_simps [simp]:
  "nc_nodes (set_interner i c) = nc_nodes c"
  "nc_tokens (set_interner i c) = nc_tokens c"
  "cache_interner (set_interner i c) = i"
  by (simp_all add: set_interner_def cache_interner_def)

lemma cache_interner_upd [simp]:
  "cache_interner (c\<lparr>nc_nodes := ns\<rparr>) = cache_interner c"
  "cache_interner (c\<lparr>nc_tokens := ts\<rparr>) = cache_interner c"
  by (simp_all add: cache_interner_def)

lemma into_interner_set_interner [simp]:
  "into_interner (set_interner i c) = map_option (\<lambda>_. i) (into_interner c)"
  by (simp add: into_interner_def set_interner_def)

text \<open>With a well-formed cache, \<open>token\<close> returns the token with the requested data.\<close>

lemma cache_token_wf:
  assumes "cache_wf T H c"
  obtains c' where "cache_token E c kind data len =
      (c', \<lparr>gt_kind = sx_into_raw (en_syntax E) kind, gt_data = data, gt_data_len = len\<rparr>)"
    "cache_wf T H c'" "nc_nodes c' = nc_nodes c" "nc_interner c' = nc_interner c"
proof -
  let ?t = "\<lparr>gt_kind = sx_into_raw (en_syntax E) kind, gt_data = data, gt_data_len = len\<rparr>"
  show ?thesis
  proof (cases "nc_tokens c ?t")
    case None
    then have "cache_token E c kind data len = (c\<lparr>nc_tokens := (nc_tokens c)(?t \<mapsto> ?t)\<rparr>, ?t)"
      by (simp add: cache_token_def Let_def)
    moreover have "cache_wf T H (c\<lparr>nc_tokens := (nc_tokens c)(?t \<mapsto> ?t)\<rparr>)"
      using assms by (simp add: cache_wf_def)
    ultimately show ?thesis by (rule that) simp_all
  next
    case (Some t')
    then have "t' = ?t" using assms by (simp add: cache_wf_def)
    with Some have "cache_token E c kind data len = (c, ?t)"
      by (simp add: cache_token_def Let_def)
    then show ?thesis using assms by (rule that) simp_all
  qed
qed

section \<open>What \<open>NodeCache::node\<close> returns\<close>

text \<open>The node a builder without a cache would have made.\<close>

definition built_node :: "('s, 'd, 'i, 'e) env \<Rightarrow> 's \<Rightarrow> green_element list \<Rightarrow> green_node" where
  "built_node E kind cs = green_node_new (en_text E) (en_hash E) (sx_into_raw (en_syntax E) kind) cs"

lemma built_node_simps [simp]:
  "gn_kind (built_node E kind cs) = sx_into_raw (en_syntax E) kind"
  "gn_text_len (built_node E kind cs) = text_len_sum (en_text E) cs"
  "gn_children (built_node E kind cs) = cs"
  by (simp_all add: built_node_def)

lemma green_wf_built_node [simp]:
  "green_wf (en_text E) (en_hash E) (built_node E kind cs) \<longleftrightarrow>
     (\<forall>e \<in> set cs. element_wf (en_text E) (en_hash E) e)"
  by (simp add: built_node_def green_wf_new)

lemma cache_node_range: "length cs < offset \<Longrightarrow> cache_node E c kind cs offset = Inl Slice_out_of_range"
  by (simp add: cache_node_def slice_from_def)

text \<open>The node served for a freshly computed one, and the cache afterwards.\<close>

definition cache_serve :: "'i node_cache \<Rightarrow> green_node \<Rightarrow> 'i node_cache \<times> green_node" where
  "cache_serve c n =
     (if length (gn_children n) \<le> CHILDREN_CACHE_THRESHOLD
      then (case nc_nodes c (gn_head n) of
              Some m \<Rightarrow> (c, m)
            | None \<Rightarrow> (c\<lparr>nc_nodes := (nc_nodes c)(gn_head n \<mapsto> n)\<rparr>, n))
      else (c, n))"

lemma cache_node_serve:
  assumes "offset \<le> length cs"
  shows "cache_node E c kind cs offset =
    (case cache_serve c (built_node E kind (drop offset cs)) of (c', n) \<Rightarrow> Inr (c', take offset cs, n))"
  using assms
  by (auto simp: cache_node_def slice_from_def cache_serve_def get_cached_node_def built_node_def
      green_node_new_def from_head_and_children_def new_with_len_and_hash_def Let_def split: option.splits)

lemma cache_serve_cases:
  obtains (fresh) "cache_serve c n = (c, n)"
    | (insert) "nc_nodes c (gn_head n) = None" "length (gn_children n) \<le> CHILDREN_CACHE_THRESHOLD"
        "cache_serve c n = (c\<lparr>nc_nodes := (nc_nodes c)(gn_head n \<mapsto> n)\<rparr>, n)"
    | (hit) m where "nc_nodes c (gn_head n) = Some m" "length (gn_children n) \<le> CHILDREN_CACHE_THRESHOLD"
        "cache_serve c n = (c, m)"
  by (cases "nc_nodes c (gn_head n)"; cases "length (gn_children n) \<le> CHILDREN_CACHE_THRESHOLD")
    (auto simp: cache_serve_def)

lemma cache_serve_wf:
  assumes "cache_serve c n = (c', m)" "cache_wf T H c" "green_wf T H n"
  shows "cache_wf T H c'" "green_wf T H m" "gn_head m = gn_head n" "nc_interner c' = nc_interner c"
    "ran (nc_nodes c') \<subseteq> insert n (ran (nc_nodes c))"
proof -
  have "cache_wf T H c' \<and> green_wf T H m \<and> gn_head m = gn_head n \<and> nc_interner c' = nc_interner c \<and>
      ran (nc_nodes c') \<subseteq> insert n (ran (nc_nodes c))"
    by (rule cache_serve_cases [of c n]) (use assms in \<open>auto simp: cache_wf_def\<close>)
  then show "cache_wf T H c'" "green_wf T H m" "gn_head m = gn_head n" "nc_interner c' = nc_interner c"
    "ran (nc_nodes c') \<subseteq> insert n (ran (nc_nodes c))" by auto
qed

lemma cache_serve_exact:
  assumes "cache_serve c n = (c', m)" "cache_wf T H c" "ran (nc_nodes c) \<subseteq> N" "n \<in> N" "inj_on gn_head N"
  shows "m = n"
proof (rule cache_serve_cases [of c n])
  fix m' assume hit: "nc_nodes c (gn_head n) = Some m'" "cache_serve c n = (c, m')"
  then have "gn_head m' = gn_head n" "m' \<in> N"
    using assms(2,3) by (auto simp: cache_wf_def intro: ranI)
  then show "m = n" using assms(1,4,5) hit(2) by (auto dest: inj_onD)
qed (use assms(1) in auto)

end
