(* ===== verification/Builder.thy ===== *)
theory Builder
  imports Node_Cache
begin

text \<open>
  \<open>GreenNodeBuilder\<close> of \<open>cstree/src/green/builder.rs\<close>: the stack of open nodes, the flat
  vector of children, the cache, owned or borrowed; its operations, the checkpoints, and the
  builder as a state machine (\<open>builder_step\<close>) with its invariant.
\<close>

section \<open>State\<close>

text \<open>\<open>parents\<close> has the innermost open node last, as the \<open>Vec\<close> has.\<close>

record ('s, 'i) builder =
  bl_cache :: "'i node_cache maybe_owned"
  bl_parents :: "('s \<times> nat) list"
  bl_children :: "green_element list"

record checkpoint =
  cp_parent_idx :: nat
  cp_child_idx :: nat

abbreviation bl_node_cache :: "('s, 'i) builder \<Rightarrow> 'i node_cache" where
  "bl_node_cache b \<equiv> deref (bl_cache b)"

section \<open>Constructors and accessors\<close>

definition builder_new :: "('s, 'd token_interner) builder" where
  "builder_new = \<lparr>bl_cache = Owned node_cache_new, bl_parents = [], bl_children = []\<rparr>"

definition with_cache :: "'i node_cache \<Rightarrow> ('s, 'i) builder" where
  "with_cache c = \<lparr>bl_cache = Borrowed c, bl_parents = [], bl_children = []\<rparr>"

definition from_cache :: "'i node_cache \<Rightarrow> ('s, 'i) builder" where
  "from_cache c = \<lparr>bl_cache = Owned c, bl_parents = [], bl_children = []\<rparr>"

definition builder_with_interner :: "'i \<Rightarrow> ('s, 'i) builder" where
  "builder_with_interner i = from_cache (with_interner i)"

definition builder_from_interner :: "'i \<Rightarrow> ('s, 'i) builder" where
  "builder_from_interner i = from_cache (from_interner i)"

definition builder_interner :: "('s, 'i) builder \<Rightarrow> 'i" where
  "builder_interner b = cache_interner (bl_node_cache b)"

text \<open>A write through the reference \<open>interner_mut\<close> returns.\<close>

definition builder_set_interner :: "'i \<Rightarrow> ('s, 'i) builder \<Rightarrow> ('s, 'i) builder" where
  "builder_set_interner i b = b\<lparr>bl_cache := deref_set (bl_cache b) (set_interner i (bl_node_cache b))\<rparr>"

section \<open>Operations\<close>

text \<open>The common end of the token operations: store the cache, push the element.\<close>

definition push_child :: "'i node_cache \<Rightarrow> green_element \<Rightarrow> ('s, 'i) builder \<Rightarrow> ('s, 'i) builder" where
  "push_child c e b = b\<lparr>bl_cache := deref_set (bl_cache b) c, bl_children := bl_children b @ [e]\<rparr>"

definition builder_token :: "('s, 'd, 'i, 'e) env \<Rightarrow> ('s, 'i) builder \<Rightarrow> 's \<Rightarrow> 'd \<Rightarrow> ('s, 'i) builder outcome" where
  "builder_token E b kind data =
     (case sx_static_data (en_syntax E) kind of
        Some static_data \<Rightarrow>
          if en_debug E \<and> td_as_bytes (en_data E) static_data \<noteq> td_as_bytes (en_data E) data
          then Inl Static_data_mismatch
          else (case cache_token E (bl_node_cache b) kind None
                       (as_u32 (length (td_as_bytes (en_data E) static_data))) of
                  (c, t) \<Rightarrow> Inr (push_child c (Token t) b))
      | None \<Rightarrow>
          (let len = as_u32 (length (td_as_bytes (en_data E) data)) in
           bindO (intern E (bl_node_cache b) data) (\<lambda>(c, key).
             case cache_token E c kind (Some key) len of
               (c', t) \<Rightarrow> Inr (push_child c' (Token t) b))))"

definition token_from_bytes :: "('s, 'd, 'i, 'e) env \<Rightarrow> ('s, 'i) builder \<Rightarrow> 's \<Rightarrow> bytes \<Rightarrow> ('s, 'i) builder outcome" where
  "token_from_bytes E b kind bs =
     (case sx_static_data (en_syntax E) kind of
        Some static_data \<Rightarrow>
          if en_debug E \<and> td_as_bytes (en_data E) static_data \<noteq> bs
          then Inl Static_bytes_mismatch
          else (case cache_token E (bl_node_cache b) kind None
                       (as_u32 (length (td_as_bytes (en_data E) static_data))) of
                  (c, t) \<Rightarrow> Inr (push_child c (Token t) b))
      | None \<Rightarrow>
          (let len = as_u32 (length bs) in
           bindO (intern_bytes E (bl_node_cache b) bs) (\<lambda>(c, key).
             case cache_token E c kind (Some key) len of
               (c', t) \<Rightarrow> Inr (push_child c' (Token t) b))))"

definition static_token :: "('s, 'd, 'i, 'e) env \<Rightarrow> ('s, 'i) builder \<Rightarrow> 's \<Rightarrow> ('s, 'i) builder outcome" where
  "static_token E b kind =
     (case sx_static_data (en_syntax E) kind of
        None \<Rightarrow> Inl Missing_static_data
      | Some static_data \<Rightarrow>
          (case cache_token E (bl_node_cache b) kind None
                  (as_u32 (length (td_as_bytes (en_data E) static_data))) of
             (c, t) \<Rightarrow> Inr (push_child c (Token t) b)))"

definition start_node :: "('s, 'i) builder \<Rightarrow> 's \<Rightarrow> ('s, 'i) builder" where
  "start_node b kind = b\<lparr>bl_parents := bl_parents b @ [(kind, length (bl_children b))]\<rparr>"

definition finish_node :: "('s, 'd, 'i, 'e) env \<Rightarrow> ('s, 'i) builder \<Rightarrow> ('s, 'i) builder outcome" where
  "finish_node E b =
     (case vec_pop (bl_parents b) of (popped, parents) \<Rightarrow>
        bindO (unwrap popped) (\<lambda>(kind, first_child).
        bindO (cache_node E (bl_node_cache b) kind (bl_children b) first_child) (\<lambda>(c, children, node).
          Inr (push_child c (Node node) (b\<lparr>bl_parents := parents, bl_children := children\<rparr>)))))"

definition builder_checkpoint :: "('s, 'i) builder \<Rightarrow> checkpoint" where
  "builder_checkpoint b = \<lparr>cp_parent_idx = length (bl_parents b), cp_child_idx = length (bl_children b)\<rparr>"

definition revert_to :: "('s, 'i) builder \<Rightarrow> checkpoint \<Rightarrow> ('s, 'i) builder outcome" where
  "revert_to b cp =
     (let parent_idx = cp_parent_idx cp; child_idx = cp_child_idx cp in
      if \<not> parent_idx \<le> length (bl_parents b) then Inl Checkpoint_parents
      else if \<not> child_idx \<le> length (bl_children b) then Inl Checkpoint_children
      else if (case vec_last (bl_parents b) of Some (_, first_child) \<Rightarrow> \<not> child_idx \<ge> first_child | None \<Rightarrow> False)
      then Inl Checkpoint_first_child
      else Inr (b\<lparr>bl_parents := take parent_idx (bl_parents b),
                 bl_children := take child_idx (bl_children b)\<rparr>))"

definition start_node_at :: "('s, 'i) builder \<Rightarrow> checkpoint \<Rightarrow> 's \<Rightarrow> ('s, 'i) builder outcome" where
  "start_node_at b cp kind =
     (let parent_idx = cp_parent_idx cp; child_idx = cp_child_idx cp in
      if \<not> parent_idx \<le> length (bl_parents b) then Inl Checkpoint_parents
      else if \<not> parent_idx \<ge> length (bl_parents b) then Inl Checkpoint_unfinished
      else if \<not> child_idx \<le> length (bl_children b) then Inl Checkpoint_children
      else if (case vec_last (bl_parents b) of Some (_, first_child) \<Rightarrow> \<not> child_idx \<ge> first_child | None \<Rightarrow> False)
      then Inl Checkpoint_first_child
      else Inr (b\<lparr>bl_parents := bl_parents b @ [(kind, child_idx)]\<rparr>))"

definition builder_finish :: "('s, 'i) builder \<Rightarrow> (green_node \<times> 'i node_cache option) outcome" where
  "builder_finish b =
     (if length (bl_children b) \<noteq> 1 then Inl Finish_child_count
      else (let cache = into_owned (bl_cache b) in
            bindO (unwrap (fst (vec_pop (bl_children b)))) (\<lambda>e.
              case e of Node node \<Rightarrow> Inr (node, cache) | Token _ \<Rightarrow> Inl Finish_only_token)))"

section \<open>The builder as a state machine\<close>

text \<open>
  The calls a client can make on a builder; \<open>checkpoint\<close> does not change it, and a client
  may pass any checkpoint it ever got, or one from another builder.
\<close>

datatype ('s, 'd) op =
    Op_token 's 'd
  | Op_token_from_bytes 's bytes
  | Op_static_token 's
  | Op_start_node 's
  | Op_finish_node
  | Op_revert_to checkpoint
  | Op_start_node_at checkpoint 's

fun apply_op :: "('s, 'd, 'i, 'e) env \<Rightarrow> ('s, 'd) op \<Rightarrow> ('s, 'i) builder \<Rightarrow> ('s, 'i) builder outcome" where
  "apply_op E (Op_token k d) b = builder_token E b k d"
| "apply_op E (Op_token_from_bytes k bs) b = token_from_bytes E b k bs"
| "apply_op E (Op_static_token k) b = static_token E b k"
| "apply_op E (Op_start_node k) b = Inr (start_node b k)"
| "apply_op E Op_finish_node b = finish_node E b"
| "apply_op E (Op_revert_to cp) b = revert_to b cp"
| "apply_op E (Op_start_node_at cp k) b = start_node_at b cp k"

fun run :: "('s, 'd, 'i, 'e) env \<Rightarrow> ('s, 'd) op list \<Rightarrow> ('s, 'i) builder \<Rightarrow> ('s, 'i) builder outcome" where
  "run E [] b = Inr b"
| "run E (op # ops) b = bindO (apply_op E op b) (run E ops)"

lemma run_append: "run E (xs @ ys) b = bindO (run E xs b) (run E ys)"
  by (induction xs arbitrary: b) (simp_all add: bindO_assoc cong: bindO_cong)

inductive builder_step :: "('s, 'd, 'i, 'e) env \<Rightarrow> ('s, 'i) builder \<Rightarrow> ('s, 'i) builder \<Rightarrow> bool" for E where
  step: "apply_op E op b = Inr b' \<Longrightarrow> builder_step E b b'"

inductive reachable :: "('s, 'd, 'i, 'e) env \<Rightarrow> ('s, 'i) builder \<Rightarrow> ('s, 'i) builder \<Rightarrow> bool" for E b0 where
  init: "reachable E b0 b0"
| step: "reachable E b0 b \<Longrightarrow> builder_step E b b' \<Longrightarrow> reachable E b0 b'"

inductive_cases builder_stepE: "builder_step E b b'"

lemma run_reachable: "run E ops b = Inr b' \<Longrightarrow> reachable E b0 b \<Longrightarrow> reachable E b0 b'"
  by (induction ops arbitrary: b) (auto simp: bindO_eq_Inr, blast intro: reachable.step builder_step.step)

section \<open>The structural invariant\<close>

text \<open>
  The first-child indices of the open nodes are sorted and within the children; the cache
  and every finished child are well formed.
\<close>

definition parents_wf :: "('s \<times> nat) list \<Rightarrow> nat \<Rightarrow> bool" where
  "parents_wf ps n \<longleftrightarrow> sorted (map snd ps @ [n])"

definition builder_wf :: "('s, 'd, 'i, 'e) env \<Rightarrow> ('s, 'i) builder \<Rightarrow> bool" where
  "builder_wf E b \<longleftrightarrow>
     env_cache_wf E (bl_node_cache b) \<and>
     (\<forall>e \<in> set (bl_children b). element_wf (en_text E) (en_hash E) e) \<and>
     parents_wf (bl_parents b) (length (bl_children b))"

lemma parents_wf_Nil [simp]: "parents_wf [] n"
  by (simp add: parents_wf_def)

lemma parents_wf_snoc [simp]: "parents_wf (ps @ [(k, i)]) n \<longleftrightarrow> parents_wf ps i \<and> i \<le> n"
  by (auto simp: parents_wf_def sorted_append)

lemma parents_wf_single [simp]: "parents_wf [(k, i)] n \<longleftrightarrow> i \<le> n"
  by (simp add: parents_wf_def)

lemma parents_wf_mono: "parents_wf ps m \<Longrightarrow> m \<le> n \<Longrightarrow> parents_wf ps n"
  by (cases ps rule: rev_cases) auto

lemma parents_wf_take: "parents_wf ps n \<Longrightarrow> parents_wf (take i ps) n"
  by (auto simp: parents_wf_def sorted_append dest: in_set_takeD) (metis sorted_wrt_take take_map)

lemma parents_wf_lower:
  "parents_wf ps n \<Longrightarrow> (\<And>k i. vec_last ps = Some (k, i) \<Longrightarrow> i \<le> m) \<Longrightarrow> parents_wf ps m"
  by (cases ps rule: rev_cases) auto

lemma parents_wf_le: "parents_wf ps n \<Longrightarrow> (k, i) \<in> set ps \<Longrightarrow> i \<le> n"
  by (force simp: parents_wf_def sorted_append)

lemma builder_wf_init:
  "builder_wf E builder_new"
  "env_cache_wf E c \<Longrightarrow> builder_wf E (from_cache c)"
  "env_cache_wf E c \<Longrightarrow> builder_wf E (with_cache c)"
  "builder_wf E (builder_with_interner i)"
  "builder_wf E (builder_from_interner i)"
  by (simp_all add: builder_wf_def builder_new_def from_cache_def with_cache_def
      builder_with_interner_def builder_from_interner_def)

lemma push_child_simps [simp]:
  "bl_children (push_child c e b) = bl_children b @ [e]"
  "bl_parents (push_child c e b) = bl_parents b"
  "bl_node_cache (push_child c e b) = c"
  "into_owned (bl_cache (push_child c e b)) = map_option (\<lambda>_. c) (into_owned (bl_cache b))"
  by (simp_all add: push_child_def)

lemma builder_wf_push_token:
  "builder_wf E b \<Longrightarrow> env_cache_wf E c \<Longrightarrow> builder_wf E (push_child c (Token t) b)"
  by (auto simp: builder_wf_def elim: parents_wf_mono)

section \<open>The token operations, on a well-formed builder\<close>

text \<open>
  What the three token operations have in common: they make the token of a given kind,
  data key and length, over a cache with a possibly changed interner.
\<close>

definition token_of :: "('s, 'd, 'i, 'e) env \<Rightarrow> 's \<Rightarrow> token_key option \<Rightarrow> nat \<Rightarrow> green_token" where
  "token_of E kind data n =
     \<lparr>gt_kind = sx_into_raw (en_syntax E) kind, gt_data = data, gt_data_len = as_u32 n\<rparr>"

text \<open>The interner and token an operation produces, without the cache.\<close>

definition token_effect :: "('s, 'd, 'i, 'e) env \<Rightarrow> 'i \<Rightarrow> 's \<Rightarrow> 'd \<Rightarrow> ('i \<times> green_token) outcome" where
  "token_effect E i kind d =
     (case sx_static_data (en_syntax E) kind of
        Some sd \<Rightarrow>
          if en_debug E \<and> td_as_bytes (en_data E) sd \<noteq> td_as_bytes (en_data E) d then Inl Static_data_mismatch
          else Inr (i, token_of E kind None (length (td_as_bytes (en_data E) sd)))
      | None \<Rightarrow> bindO (get_or_intern (en_interner E) i d)
          (\<lambda>(i', key). Inr (i', token_of E kind (Some key) (length (td_as_bytes (en_data E) d)))))"

definition bytes_effect :: "('s, 'd, 'i, 'e) env \<Rightarrow> 'i \<Rightarrow> 's \<Rightarrow> bytes \<Rightarrow> ('i \<times> green_token) outcome" where
  "bytes_effect E i kind bs =
     (case sx_static_data (en_syntax E) kind of
        Some sd \<Rightarrow>
          if en_debug E \<and> td_as_bytes (en_data E) sd \<noteq> bs then Inl Static_bytes_mismatch
          else Inr (i, token_of E kind None (length (td_as_bytes (en_data E) sd)))
      | None \<Rightarrow> bindO (get_or_intern_bytes (en_interner E) i bs)
          (\<lambda>(i', key). Inr (i', token_of E kind (Some key) (length bs))))"

definition static_effect :: "('s, 'd, 'i, 'e) env \<Rightarrow> 'i \<Rightarrow> 's \<Rightarrow> ('i \<times> green_token) outcome" where
  "static_effect E i kind =
     (case sx_static_data (en_syntax E) kind of
        None \<Rightarrow> Inl Missing_static_data
      | Some sd \<Rightarrow> Inr (i, token_of E kind None (length (td_as_bytes (en_data E) sd))))"

text \<open>The builder after a token operation, given its effect.\<close>

inductive token_pushed :: "('s, 'd, 'i, 'e) env \<Rightarrow> ('s, 'i) builder \<Rightarrow> ('i \<times> green_token) outcome \<Rightarrow>
  ('s, 'i) builder outcome \<Rightarrow> bool" for E b where
  panics: "token_pushed E b (Inl p) (Inl p)"
| pushes: "env_cache_wf E c \<Longrightarrow> nc_nodes c = nc_nodes (bl_node_cache b) \<Longrightarrow> cache_interner c = i \<Longrightarrow>
    into_interner c = map_option (\<lambda>_. i) (into_interner (bl_node_cache b)) \<Longrightarrow>
    token_pushed E b (Inr (i, t)) (Inr (push_child c (Token t) b))"

inductive_cases token_pushed_InrE: "token_pushed E b r (Inr b')"
inductive_cases token_pushed_InlE: "token_pushed E b r (Inl p)"
inductive_cases token_pushed_resE: "token_pushed E b (Inr it) r"
inductive_cases token_pushed_failE: "token_pushed E b (Inl p) r"

lemma cache_token_pushed:
  assumes "env_cache_wf E c" "nc_nodes c = nc_nodes (bl_node_cache b)"
    "into_interner c = map_option (\<lambda>_. cache_interner c) (into_interner (bl_node_cache b))"
  shows "token_pushed E b (Inr (cache_interner c, token_of E kind data n))
    (case cache_token E c kind data (as_u32 n) of (c', t) \<Rightarrow> Inr (push_child c' (Token t) b))"
proof -
  obtain c' where c': "cache_token E c kind data (as_u32 n) = (c', token_of E kind data n)"
    "env_cache_wf E c'" "nc_nodes c' = nc_nodes c" "nc_interner c' = nc_interner c"
    using cache_token_wf [OF assms(1), of E kind data "as_u32 n"] by (auto simp: token_of_def)
  with assms show ?thesis
    by (auto intro!: token_pushed.pushes simp: cache_interner_def into_interner_def)
qed

lemma own_cache_pushed:
  assumes "env_cache_wf E (bl_node_cache b)"
  shows "token_pushed E b (Inr (builder_interner b, token_of E kind data n))
    (case cache_token E (bl_node_cache b) kind data (as_u32 n) of (c', t) \<Rightarrow> Inr (push_child c' (Token t) b))"
  unfolding builder_interner_def
  by (rule cache_token_pushed) (use assms in \<open>simp_all add: into_interner_def cache_interner_def\<close>)

lemma interned_pushed:
  assumes "env_cache_wf E (bl_node_cache b)"
  shows "token_pushed E b (Inr (i, token_of E kind (Some key) n))
    (case cache_token E (set_interner i (bl_node_cache b)) kind (Some key) (as_u32 n) of
       (c', t) \<Rightarrow> Inr (push_child c' (Token t) b))"
  using cache_token_pushed [of E "set_interner i (bl_node_cache b)" b kind "Some key" n] assms
  by simp

lemma builder_token_pushed:
  "env_cache_wf E (bl_node_cache b) \<Longrightarrow>
   token_pushed E b (token_effect E (builder_interner b) k d) (builder_token E b k d)"
  by (cases "get_or_intern (en_interner E) (builder_interner b) d")
    (auto simp: builder_token_def token_effect_def intern_def builder_interner_def [symmetric] Let_def
      interned_pushed own_cache_pushed intro: token_pushed.panics split: option.splits)

lemma token_from_bytes_pushed:
  "env_cache_wf E (bl_node_cache b) \<Longrightarrow>
   token_pushed E b (bytes_effect E (builder_interner b) k bs) (token_from_bytes E b k bs)"
  by (cases "get_or_intern_bytes (en_interner E) (builder_interner b) bs")
    (auto simp: token_from_bytes_def bytes_effect_def intern_bytes_def builder_interner_def [symmetric] Let_def
      interned_pushed own_cache_pushed intro: token_pushed.panics split: option.splits)

lemma static_token_pushed:
  "env_cache_wf E (bl_node_cache b) \<Longrightarrow>
   token_pushed E b (static_effect E (builder_interner b) k) (static_token E b k)"
  by (auto simp: static_token_def static_effect_def own_cache_pushed intro: token_pushed.panics
      split: option.splits)

lemmas token_ops_pushed = builder_token_pushed token_from_bytes_pushed static_token_pushed

lemma token_pushed_wf: "token_pushed E b r (Inr b') \<Longrightarrow> builder_wf E b \<Longrightarrow> builder_wf E b'"
  by (erule token_pushed_InrE) (simp add: builder_wf_push_token)

section \<open>Node operations, on a well-formed builder\<close>

lemma builder_wf_start_node: "builder_wf E b \<Longrightarrow> builder_wf E (start_node b k)"
  by (simp add: builder_wf_def start_node_def)

text \<open>
  \<open>finish_node\<close> succeeds exactly when a node is open: the range it drains is never out of
  bounds.
\<close>

lemma finish_node_empty: "bl_parents b = [] \<Longrightarrow> finish_node E b = Inl Unwrap_None"
  by (simp add: finish_node_def)

lemma finish_node_open:
  assumes "builder_wf E b" "bl_parents b = ps @ [(k, i)]"
  shows "finish_node E b =
    (case cache_serve (bl_node_cache b) (built_node E k (drop i (bl_children b))) of (c, n) \<Rightarrow>
       Inr (push_child c (Node n) (b\<lparr>bl_parents := ps, bl_children := take i (bl_children b)\<rparr>)))"
proof -
  have "i \<le> length (bl_children b)" using assms by (simp add: builder_wf_def)
  then show ?thesis
    using assms(2) by (simp add: finish_node_def cache_node_serve split: prod.splits)
qed

lemma builder_wf_finish_node:
  assumes "builder_wf E b" "finish_node E b = Inr b'"
  shows "builder_wf E b'"
proof -
  obtain ps k i where ps: "bl_parents b = ps @ [(k, i)]"
    using assms(2) finish_node_empty [of b E] by (cases "bl_parents b" rule: rev_cases) auto
  let ?n = "built_node E k (drop i (bl_children b))"
  obtain c n where serve: "cache_serve (bl_node_cache b) ?n = (c, n)" by force
  have b': "b' = push_child c (Node n) (b\<lparr>bl_parents := ps, bl_children := take i (bl_children b)\<rparr>)"
    using assms(2) finish_node_open [OF assms(1) ps] serve by simp
  have wf: "env_cache_wf E (bl_node_cache b)" "parents_wf ps i" "i \<le> length (bl_children b)"
    "\<forall>e \<in> set (bl_children b). element_wf (en_text E) (en_hash E) e"
    using assms(1) ps by (auto simp: builder_wf_def)
  then have "green_wf (en_text E) (en_hash E) ?n" by (auto dest: in_set_dropD)
  note served = cache_serve_wf [OF serve wf(1) this]
  show ?thesis
    using served wf by (auto simp: b' builder_wf_def dest: in_set_takeD elim: parents_wf_mono)
qed

lemma builder_wf_revert_to:
  assumes "builder_wf E b" "revert_to b cp = Inr b'"
  shows "builder_wf E b'"
proof -
  have b': "b' = b\<lparr>bl_parents := take (cp_parent_idx cp) (bl_parents b),
      bl_children := take (cp_child_idx cp) (bl_children b)\<rparr>"
    and ok: "cp_child_idx cp \<le> length (bl_children b)"
      "\<And>k i. vec_last (bl_parents b) = Some (k, i) \<Longrightarrow> i \<le> cp_child_idx cp"
    using assms(2) by (auto simp: revert_to_def Let_def split: if_splits option.splits)
  have "parents_wf (bl_parents b) (cp_child_idx cp)"
    using assms(1) ok(2) by (auto simp: builder_wf_def intro: parents_wf_lower)
  with assms(1) ok(1) show ?thesis
    by (auto simp: b' builder_wf_def min_def parents_wf_take dest: in_set_takeD)
qed

lemma builder_wf_start_node_at: "builder_wf E b \<Longrightarrow> start_node_at b cp k = Inr b' \<Longrightarrow> builder_wf E b'"
  by (auto simp: start_node_at_def builder_wf_def Let_def split: if_splits option.splits
      elim!: parents_wf_lower)

lemma builder_wf_apply_op: "builder_wf E b \<Longrightarrow> apply_op E op b = Inr b' \<Longrightarrow> builder_wf E b'"
proof (cases op)
  case (Op_token k d)
  assume "builder_wf E b" "apply_op E op b = Inr b'"
  then show ?thesis
    using token_pushed_wf [of E b _ b'] builder_token_pushed [of E b k d] Op_token by (simp add: builder_wf_def)
next
  case (Op_token_from_bytes k bs)
  assume "builder_wf E b" "apply_op E op b = Inr b'"
  then show ?thesis
    using token_pushed_wf [of E b _ b'] token_from_bytes_pushed [of E b k bs] Op_token_from_bytes
    by (simp add: builder_wf_def)
next
  case (Op_static_token k)
  assume "builder_wf E b" "apply_op E op b = Inr b'"
  then show ?thesis
    using token_pushed_wf [of E b _ b'] static_token_pushed [of E b k] Op_static_token by (simp add: builder_wf_def)
qed (auto intro: builder_wf_start_node builder_wf_finish_node builder_wf_revert_to builder_wf_start_node_at)

lemma builder_wf_run: "builder_wf E b \<Longrightarrow> run E ops b = Inr b' \<Longrightarrow> builder_wf E b'"
  by (induction ops arbitrary: b) (auto simp: bindO_eq_Inr dest: builder_wf_apply_op)

lemma builder_wf_reachable: "reachable E b0 b \<Longrightarrow> builder_wf E b0 \<Longrightarrow> builder_wf E b"
  by (induction rule: reachable.induct) (auto elim!: builder_stepE dest: builder_wf_apply_op)

lemma builder_wf_fresh: "env_cache_wf E c \<Longrightarrow> b \<in> {from_cache c, with_cache c} \<Longrightarrow> builder_wf E b"
  by (auto simp: builder_wf_def from_cache_def with_cache_def)

end
