(* ===== verification/Builder_Spec.thy ===== *)
theory Builder_Spec
  imports Builder
begin

text \<open>
  What a builder promises, without its cache and its flat vectors: a stack of open nodes,
  each with the list of its finished children. Every operation of the builder is simulated
  by the operation of this specification, panics included, as long as no two different
  nodes ever share a head (\<open>kind\<close>, length and 32-bit child hash): the cache identifies
  nodes by their heads alone.
\<close>

section \<open>The specification\<close>

text \<open>
  Frames are listed innermost first. \<open>sp_created\<close> logs every node \<open>finish_node\<close> asked for.
\<close>

record ('s, 'i) spec =
  sp_interner :: 'i
  sp_base :: "green_element list"
  sp_frames :: "('s \<times> green_element list) list"
  sp_created :: "green_node list"

text \<open>All finished elements from left to right, and the index stack of the frames.\<close>

definition flat :: "green_element list \<Rightarrow> ('s \<times> green_element list) list \<Rightarrow> green_element list" where
  "flat base frames = base @ concat (map snd (rev frames))"

fun layout :: "green_element list \<Rightarrow> ('s \<times> green_element list) list \<Rightarrow> ('s \<times> nat) list" where
  "layout base [] = []"
| "layout base ((k, es) # fs) = layout base fs @ [(k, length (flat base fs))]"

lemma flat_simps [simp]:
  "flat base [] = base"
  "flat base ((k, es) # fs) = flat base fs @ es"
  by (simp_all add: flat_def)

lemma length_layout [simp]: "length (layout base fs) = length fs"
  by (induction base fs rule: layout.induct) auto

abbreviation sp_flat :: "('s, 'i) spec \<Rightarrow> green_element list" where
  "sp_flat s \<equiv> flat (sp_base s) (sp_frames s)"

abbreviation sp_layout :: "('s, 'i) spec \<Rightarrow> ('s \<times> nat) list" where
  "sp_layout s \<equiv> layout (sp_base s) (sp_frames s)"

text \<open>
  The frames with the contents of the innermost one replaced so that the elements from left
  to right are \<open>xs\<close>.
\<close>

fun refill :: "green_element list \<Rightarrow> ('s \<times> green_element list) list \<Rightarrow> green_element list \<Rightarrow>
  green_element list \<times> ('s \<times> green_element list) list" where
  "refill base [] xs = (xs, [])"
| "refill base ((k, es) # fs) xs = (base, (k, drop (length (flat base fs)) xs) # fs)"

definition spec_push :: "green_element \<Rightarrow> ('s, 'i) spec \<Rightarrow> ('s, 'i) spec" where
  "spec_push e s =
     (case sp_frames s of
        [] \<Rightarrow> s\<lparr>sp_base := sp_base s @ [e]\<rparr>
      | (k, es) # fs \<Rightarrow> s\<lparr>sp_frames := (k, es @ [e]) # fs\<rparr>)"

definition spec_token :: "('i \<times> green_token) outcome \<Rightarrow> ('s, 'i) spec \<Rightarrow> ('s, 'i) spec outcome" where
  "spec_token r s = bindO r (\<lambda>(i, t). Inr (spec_push (Token t) (s\<lparr>sp_interner := i\<rparr>)))"

definition spec_start :: "'s \<Rightarrow> ('s, 'i) spec \<Rightarrow> ('s, 'i) spec" where
  "spec_start k s = s\<lparr>sp_frames := (k, []) # sp_frames s\<rparr>"

definition spec_finish_node :: "('s, 'd, 'i, 'e) env \<Rightarrow> ('s, 'i) spec \<Rightarrow> ('s, 'i) spec outcome" where
  "spec_finish_node E s =
     (case sp_frames s of
        [] \<Rightarrow> Inl Unwrap_None
      | (k, es) # fs \<Rightarrow>
          (let n = built_node E k es in
           Inr (spec_push (Node n) (s\<lparr>sp_frames := fs, sp_created := n # sp_created s\<rparr>))))"

text \<open>The index in the flat list at which the contents of the innermost frame start.\<close>

definition spec_top_start :: "('s, 'i) spec \<Rightarrow> nat" where
  "spec_top_start s = (case sp_frames s of [] \<Rightarrow> 0 | _ # fs \<Rightarrow> length (flat (sp_base s) fs))"

text \<open>
  Wrap what came after the checkpoint in a new frame. It must lie in the innermost frame,
  which must be the one that was innermost when the checkpoint was taken.
\<close>

definition spec_start_at :: "checkpoint \<Rightarrow> 's \<Rightarrow> ('s, 'i) spec \<Rightarrow> ('s, 'i) spec outcome" where
  "spec_start_at cp k s =
     (if length (sp_frames s) < cp_parent_idx cp then Inl Checkpoint_parents
      else if cp_parent_idx cp < length (sp_frames s) then Inl Checkpoint_unfinished
      else if length (sp_flat s) < cp_child_idx cp then Inl Checkpoint_children
      else if cp_child_idx cp < spec_top_start s then Inl Checkpoint_first_child
      else (case refill (sp_base s) (sp_frames s) (take (cp_child_idx cp) (sp_flat s)) of (base, fs) \<Rightarrow>
              Inr (s\<lparr>sp_base := base, sp_frames := (k, drop (cp_child_idx cp) (sp_flat s)) # fs\<rparr>)))"

text \<open>Forget the frames opened since the checkpoint, and every element after it.\<close>

definition spec_revert :: "checkpoint \<Rightarrow> ('s, 'i) spec \<Rightarrow> ('s, 'i) spec outcome" where
  "spec_revert cp s =
     (if length (sp_frames s) < cp_parent_idx cp then Inl Checkpoint_parents
      else if length (sp_flat s) < cp_child_idx cp then Inl Checkpoint_children
      else if cp_child_idx cp < spec_top_start s then Inl Checkpoint_first_child
      else (case refill (sp_base s) (drop (length (sp_frames s) - cp_parent_idx cp) (sp_frames s))
                   (take (cp_child_idx cp) (sp_flat s)) of
              (base, fs) \<Rightarrow> Inr (s\<lparr>sp_base := base, sp_frames := fs\<rparr>)))"

fun apply_spec :: "('s, 'd, 'i, 'e) env \<Rightarrow> ('s, 'd) op \<Rightarrow> ('s, 'i) spec \<Rightarrow> ('s, 'i) spec outcome" where
  "apply_spec E (Op_token k d) s = spec_token (token_effect E (sp_interner s) k d) s"
| "apply_spec E (Op_token_from_bytes k bs) s = spec_token (bytes_effect E (sp_interner s) k bs) s"
| "apply_spec E (Op_static_token k) s = spec_token (static_effect E (sp_interner s) k) s"
| "apply_spec E (Op_start_node k) s = Inr (spec_start k s)"
| "apply_spec E Op_finish_node s = spec_finish_node E s"
| "apply_spec E (Op_revert_to cp) s = spec_revert cp s"
| "apply_spec E (Op_start_node_at cp k) s = spec_start_at cp k s"

fun run_spec :: "('s, 'd, 'i, 'e) env \<Rightarrow> ('s, 'd) op list \<Rightarrow> ('s, 'i) spec \<Rightarrow> ('s, 'i) spec outcome" where
  "run_spec E [] s = Inr s"
| "run_spec E (op # ops) s = bindO (apply_spec E op s) (run_spec E ops)"

section \<open>Facts about frames\<close>

lemma sp_push_simps [simp]:
  "sp_flat (spec_push e s) = sp_flat s @ [e]"
  "sp_layout (spec_push e s) = sp_layout s"
  "sp_interner (spec_push e s) = sp_interner s"
  "sp_created (spec_push e s) = sp_created s"
  by (auto simp: spec_push_def split: list.splits)

lemma layout_drop: "layout base (drop n fs) = take (length fs - n) (layout base fs)"
  by (induction base fs arbitrary: n rule: layout.induct) (auto simp: drop_Cons split: nat.splits)

lemma flat_drop_prefix: "\<exists>ys. flat base fs = flat base (drop n fs) @ ys"
  by (induction fs arbitrary: n) (auto simp: drop_Cons split: nat.splits, metis append.assoc)

lemma take_flat_eq: "length (flat base gs) \<le> n \<Longrightarrow> flat base fs = flat base gs @ ys \<Longrightarrow>
  take (length (flat base gs)) (take n (flat base fs)) = flat base gs"
  by (simp add: min_def)

lemma refill_flat:
  assumes "refill base fs xs = (base', fs')" "fs \<noteq> [] \<Longrightarrow> take (length (flat base (tl fs))) xs = flat base (tl fs)"
  shows "flat base' fs' = xs" "layout base' fs' = layout base fs"
proof -
  have "flat base' fs' = xs \<and> layout base' fs' = layout base fs"
  proof (cases fs)
    case (Cons f gs)
    with assms show ?thesis by (cases f) (auto, metis append_take_drop_id)
  qed (use assms in simp)
  then show "flat base' fs' = xs" "layout base' fs' = layout base fs" by simp_all
qed

lemma spec_top_start_layout:
  "(case vec_last (sp_layout s) of Some (_, i) \<Rightarrow> \<not> i \<le> n | None \<Rightarrow> False) \<longleftrightarrow> n < spec_top_start s"
  by (cases "sp_frames s") (auto simp: spec_top_start_def)

section \<open>The simulation\<close>

text \<open>
  \<open>N\<close> is the set of nodes that occur. The builder's vectors are the flat list and the index
  stack of the frames; the cache is well formed and holds nodes of \<open>N\<close> only.
\<close>

definition simulates :: "('s, 'd, 'i, 'e) env \<Rightarrow> green_node set \<Rightarrow> ('s, 'i) builder \<Rightarrow> ('s, 'i) spec \<Rightarrow> bool" where
  "simulates E N b s \<longleftrightarrow>
     bl_children b = sp_flat s \<and> bl_parents b = sp_layout s \<and>
     builder_interner b = sp_interner s \<and> ran (nc_nodes (bl_node_cache b)) \<subseteq> N \<and>
     set (sp_created s) \<subseteq> N \<and> builder_wf E b"

definition abs_builder :: "('s, 'i) builder \<Rightarrow> ('s, 'i) spec" where
  "abs_builder b = \<lparr>sp_interner = builder_interner b, sp_base = bl_children b, sp_frames = [], sp_created = []\<rparr>"

lemma simulates_abs:
  "builder_wf E b \<Longrightarrow> bl_parents b = [] \<Longrightarrow> ran (nc_nodes (bl_node_cache b)) \<subseteq> N \<Longrightarrow>
   simulates E N b (abs_builder b)"
  by (simp add: simulates_def abs_builder_def)

lemma builder_interner_push [simp]: "builder_interner (push_child c e b) = cache_interner c"
  by (simp add: builder_interner_def)

lemma simulates_token:
  assumes "simulates E N b s" "token_pushed E b r r'"
  shows "case spec_token r s of Inl p \<Rightarrow> r' = Inl p | Inr s' \<Rightarrow> \<exists>b'. r' = Inr b' \<and> simulates E N b' s'"
  using assms(2)
proof cases
  case (panics p)
  then show ?thesis by (simp add: spec_token_def)
next
  case (pushes c i t)
  then have "simulates E N (push_child c (Token t) b) (spec_push (Token t) (s\<lparr>sp_interner := i\<rparr>))"
    using assms(1) by (auto simp: simulates_def intro: builder_wf_push_token)
  with pushes show ?thesis by (simp add: spec_token_def)
qed

lemma simulates_finish_node:
  assumes sim: "simulates E N b s" and inj: "inj_on gn_head N"
    and spec: "spec_finish_node E s = Inr s'" and N: "set (sp_created s') \<subseteq> N"
  obtains b' where "finish_node E b = Inr b'" "simulates E N b' s'"
proof -
  from spec obtain k es fs where fs: "sp_frames s = (k, es) # fs"
    by (auto simp: spec_finish_node_def split: list.splits)
  let ?i = "length (flat (sp_base s) fs)"
  let ?n = "built_node E k es"
  have s': "s' = spec_push (Node ?n) (s\<lparr>sp_frames := fs, sp_created := ?n # sp_created s\<rparr>)"
    using spec fs by (simp add: spec_finish_node_def Let_def)
  have b: "builder_wf E b" "bl_parents b = layout (sp_base s) fs @ [(k, ?i)]"
    "bl_children b = flat (sp_base s) fs @ es" "ran (nc_nodes (bl_node_cache b)) \<subseteq> N"
    "builder_interner b = sp_interner s"
    using sim fs by (simp_all add: simulates_def)
  obtain c n where serve: "cache_serve (bl_node_cache b) ?n = (c, n)" by force
  have cwf: "env_cache_wf E (bl_node_cache b)" and els: "green_wf (en_text E) (en_hash E) ?n"
    using b(1,3) by (auto simp: builder_wf_def)
  note served = cache_serve_wf [OF serve cwf els]
  have n: "n = ?n"
    using serve cwf b(4) _ inj by (rule cache_serve_exact) (use N s' in simp)
  let ?b' = "push_child c (Node n) (b\<lparr>bl_parents := layout (sp_base s) fs, bl_children := flat (sp_base s) fs\<rparr>)"
  have run: "finish_node E b = Inr ?b'"
    using finish_node_open [OF b(1,2)] serve b(3) by simp
  moreover have "simulates E N ?b' s'"
    using served(4,5) N builder_wf_finish_node [OF b(1) run] b(4,5) n s'
    by (auto simp: simulates_def builder_interner_def cache_interner_def)
  ultimately show ?thesis by (rule that)
qed

lemma take_flat_prefix:
  assumes "fs = drop n gs" "length (flat base (tl fs)) \<le> m" "fs \<noteq> []"
  shows "take (length (flat base (tl fs))) (take m (flat base gs)) = flat base (tl fs)"
proof -
  have "tl fs = drop (Suc n) gs" using assms by (simp add: tl_drop drop_Suc)
  then obtain ys where "flat base gs = flat base (tl fs) @ ys"
    using flat_drop_prefix [of base gs "Suc n"] by auto
  with assms(2) show ?thesis by (rule take_flat_eq)
qed

lemma flat_drop_length_mono: "m \<le> n \<Longrightarrow> length (flat base (drop n fs)) \<le> length (flat base (drop m fs))"
  using flat_drop_prefix [of base "drop m fs" "n - m"] by auto

lemma simulates_start_at:
  assumes sim: "simulates E N b s"
  shows "case spec_start_at cp k s of Inl p \<Rightarrow> start_node_at b cp k = Inl p
         | Inr s' \<Rightarrow> \<exists>b'. start_node_at b cp k = Inr b' \<and> simulates E N b' s'"
proof (cases "spec_start_at cp k s")
  case (Inl p)
  with sim show ?thesis
    by (auto simp: spec_start_at_def start_node_at_def simulates_def spec_top_start_layout Let_def
        split: if_splits prod.splits)
next
  case (Inr s')
  let ?c = "cp_child_idx cp"
  obtain base fs where r: "refill (sp_base s) (sp_frames s) (take ?c (sp_flat s)) = (base, fs)" by force
  have ok: "\<not> length (sp_frames s) < cp_parent_idx cp" "\<not> cp_parent_idx cp < length (sp_frames s)"
    "\<not> length (sp_flat s) < ?c" "\<not> ?c < spec_top_start s"
    using Inr by (auto simp: spec_start_at_def split: if_splits)
  then have s': "s' = s\<lparr>sp_base := base, sp_frames := (k, drop ?c (sp_flat s)) # fs\<rparr>"
    using Inr r by (simp add: spec_start_at_def)
  have "take (length (flat (sp_base s) (tl (sp_frames s)))) (take ?c (sp_flat s)) = flat (sp_base s) (tl (sp_frames s))"
    if "sp_frames s \<noteq> []"
    by (rule take_flat_prefix [where n = 0])
      (use ok(4) that in \<open>auto simp: spec_top_start_def split: list.splits\<close>)
  note refilled = refill_flat [OF r this]
  have run: "start_node_at b cp k = Inr (b\<lparr>bl_parents := bl_parents b @ [(k, ?c)]\<rparr>)"
    using ok sim by (simp add: start_node_at_def simulates_def spec_top_start_layout Let_def)
  have "simulates E N (b\<lparr>bl_parents := bl_parents b @ [(k, ?c)]\<rparr>) s'"
    using refilled sim ok(3) builder_wf_start_node_at [OF _ run]
    by (auto simp: simulates_def s' builder_interner_def)
  with run Inr show ?thesis by simp
qed

lemma simulates_revert:
  assumes sim: "simulates E N b s"
  shows "case spec_revert cp s of Inl p \<Rightarrow> revert_to b cp = Inl p
         | Inr s' \<Rightarrow> \<exists>b'. revert_to b cp = Inr b' \<and> simulates E N b' s'"
proof (cases "spec_revert cp s")
  case (Inl p)
  with sim show ?thesis
    by (auto simp: spec_revert_def revert_to_def simulates_def spec_top_start_layout Let_def
        split: if_splits prod.splits)
next
  case (Inr s')
  let ?c = "cp_child_idx cp" and ?p = "cp_parent_idx cp"
  let ?kept = "drop (length (sp_frames s) - ?p) (sp_frames s)"
  obtain base fs where r: "refill (sp_base s) ?kept (take ?c (sp_flat s)) = (base, fs)" by force
  have ok: "\<not> length (sp_frames s) < ?p" "\<not> length (sp_flat s) < ?c" "\<not> ?c < spec_top_start s"
    using Inr by (auto simp: spec_revert_def split: if_splits)
  then have s': "s' = s\<lparr>sp_base := base, sp_frames := fs\<rparr>"
    using Inr r by (simp add: spec_revert_def)
  have "take (length (flat (sp_base s) (tl ?kept))) (take ?c (sp_flat s)) = flat (sp_base s) (tl ?kept)"
    if "?kept \<noteq> []"
  proof (rule take_flat_prefix [OF refl _ that])
    have "tl ?kept = drop (length (sp_frames s) - ?p) (tl (sp_frames s))"
      by (simp add: tl_drop)
    then have "length (flat (sp_base s) (tl ?kept)) \<le> length (flat (sp_base s) (tl (sp_frames s)))"
      using flat_drop_length_mono [of 0 _ "sp_base s" "tl (sp_frames s)"] by simp
    also have "\<dots> \<le> ?c"
      using ok(3) that by (cases "sp_frames s") (auto simp: spec_top_start_def)
    finally show "length (flat (sp_base s) (tl ?kept)) \<le> ?c" .
  qed
  note refilled = refill_flat [OF r this]
  let ?b' = "b\<lparr>bl_parents := take ?p (bl_parents b), bl_children := take ?c (bl_children b)\<rparr>"
  have run: "revert_to b cp = Inr ?b'"
    using ok sim by (simp add: revert_to_def simulates_def spec_top_start_layout Let_def)
  have "layout (sp_base s) ?kept = take ?p (sp_layout s)"
    using ok(1) by (simp add: layout_drop)
  then have "simulates E N ?b' s'"
    using refilled sim ok(1) builder_wf_revert_to [OF _ run]
    by (auto simp: simulates_def s' builder_interner_def)
  with run Inr show ?thesis by simp
qed

lemma simulates_start_node: "simulates E N b s \<Longrightarrow> simulates E N (start_node b k) (spec_start k s)"
  using builder_wf_start_node [of E b k]
  by (auto simp: simulates_def start_node_def spec_start_def builder_interner_def)

text \<open>One call: the panics agree, and a returning call keeps the simulation.\<close>

lemma simulates_panic:
  assumes sim: "simulates E N b s" and spec: "apply_spec E op s = Inl p"
  shows "apply_op E op b = Inl p"
proof -
  have wf: "env_cache_wf E (bl_node_cache b)" "builder_interner b = sp_interner s"
    using sim by (simp_all add: simulates_def builder_wf_def)
  show ?thesis
  proof (cases op)
    case Op_finish_node
    with sim spec show ?thesis
      by (auto simp: simulates_def spec_finish_node_def finish_node_empty Let_def split: list.splits)
  next
    case (Op_token k d)
    then show ?thesis
      using simulates_token [OF sim builder_token_pushed [OF wf(1), of k d]] spec wf(2) by simp
  next
    case (Op_token_from_bytes k bs)
    then show ?thesis
      using simulates_token [OF sim token_from_bytes_pushed [OF wf(1), of k bs]] spec wf(2) by simp
  next
    case (Op_static_token k)
    then show ?thesis
      using simulates_token [OF sim static_token_pushed [OF wf(1), of k]] spec wf(2) by simp
  next
    case (Op_revert_to cp)
    then show ?thesis using simulates_revert [OF sim, of cp] spec by simp
  next
    case (Op_start_node_at cp k)
    then show ?thesis using simulates_start_at [OF sim, of cp k] spec by simp
  next
    case (Op_start_node k)
    then show ?thesis using spec by simp
  qed
qed

lemma simulates_step:
  assumes sim: "simulates E N b s" and inj: "inj_on gn_head N"
    and spec: "apply_spec E op s = Inr s'" and N: "set (sp_created s') \<subseteq> N"
  shows "\<exists>b'. apply_op E op b = Inr b' \<and> simulates E N b' s'"
proof -
  have wf: "env_cache_wf E (bl_node_cache b)" "builder_interner b = sp_interner s"
    using sim by (simp_all add: simulates_def builder_wf_def)
  show ?thesis
  proof (cases op)
    case Op_finish_node
    then show ?thesis using simulates_finish_node [OF sim inj _ N] spec by auto
  next
    case (Op_token k d)
    then show ?thesis
      using simulates_token [OF sim builder_token_pushed [OF wf(1), of k d]] spec wf(2) by simp
  next
    case (Op_token_from_bytes k bs)
    then show ?thesis
      using simulates_token [OF sim token_from_bytes_pushed [OF wf(1), of k bs]] spec wf(2) by simp
  next
    case (Op_static_token k)
    then show ?thesis
      using simulates_token [OF sim static_token_pushed [OF wf(1), of k]] spec wf(2) by simp
  next
    case (Op_revert_to cp)
    then show ?thesis using simulates_revert [OF sim, of cp] spec by simp
  next
    case (Op_start_node_at cp k)
    then show ?thesis using simulates_start_at [OF sim, of cp k] spec by simp
  next
    case (Op_start_node k)
    then show ?thesis using simulates_start_node [OF sim, of k] spec by simp
  qed
qed

lemma created_mono: "apply_spec E op s = Inr s' \<Longrightarrow> set (sp_created s) \<subseteq> set (sp_created s')"
  by (cases op) (auto simp: spec_token_def spec_start_def spec_finish_node_def spec_revert_def spec_start_at_def
      bindO_eq_Inr Let_def split: if_splits prod.splits list.splits)

lemma created_mono_run: "run_spec E ops s = Inr s' \<Longrightarrow> set (sp_created s) \<subseteq> set (sp_created s')"
  by (induction ops arbitrary: s) (auto simp: bindO_eq_Inr dest!: created_mono)

lemma simulates_run:
  assumes "simulates E N b s" "inj_on gn_head N" "run_spec E ops s = Inr s'" "set (sp_created s') \<subseteq> N"
  shows "\<exists>b'. run E ops b = Inr b' \<and> simulates E N b' s'"
  using assms
proof (induction ops arbitrary: b s)
  case Nil
  then show ?case by simp
next
  case (Cons op ops)
  then obtain s1 where s1: "apply_spec E op s = Inr s1" "run_spec E ops s1 = Inr s'"
    by (auto simp: bindO_eq_Inr)
  then have "set (sp_created s1) \<subseteq> N" using Cons.prems(4) created_mono_run by blast
  with Cons s1 simulates_step [of E N b s op s1] show ?case by auto
qed

end
