(* ===== verification/Builder_Trees.thy ===== *)
theory Builder_Trees
  imports Builder_Spec
begin

text \<open>
  Building whole trees: the calls a parser makes for a tree (\<open>events\<close>), the green tree
  they stand for when \<open>GreenNode::new\<close> is applied directly (\<open>denote\<close>), and what the result
  has to do with the tree (\<open>represents\<close>): kinds, order, token data and lengths. The last part
  is about checkpoints around balanced calls.
\<close>

section \<open>Trees and their events\<close>

datatype ('s, 'd) tree =
    TNode 's "('s, 'd) tree list"
  | TToken 's 'd          \<comment> \<open>added with \<open>token\<close>\<close>
  | TBytes 's bytes       \<comment> \<open>added with \<open>token_from_bytes\<close>\<close>
  | TStatic 's            \<comment> \<open>added with \<open>static_token\<close>\<close>

primrec events :: "('s, 'd) tree \<Rightarrow> ('s, 'd) op list" where
  "events (TNode k ts) = Op_start_node k # concat (map events ts) @ [Op_finish_node]"
| "events (TToken k d) = [Op_token k d]"
| "events (TBytes k bs) = [Op_token_from_bytes k bs]"
| "events (TStatic k) = [Op_static_token k]"

definition events_list :: "('s, 'd) tree list \<Rightarrow> ('s, 'd) op list" where
  "events_list ts = concat (map events ts)"

lemma events_list_simps [simp]:
  "events_list [] = []"
  "events_list (t # ts) = events t @ events_list ts"
  by (simp_all add: events_list_def)

lemma events_TNode: "events (TNode k ts) = Op_start_node k # events_list ts @ [Op_finish_node]"
  by (simp add: events_list_def)

declare events.simps(1) [simp del] events_TNode [simp]

lemma tree_list_induct [case_names TNode TToken TBytes TStatic Nil Cons]:
  assumes "\<And>k ts. Q ts \<Longrightarrow> P (TNode k ts)" "\<And>k d. P (TToken k d)" "\<And>k bs. P (TBytes k bs)" "\<And>k. P (TStatic k)"
    and "Q []" "\<And>t ts. P t \<Longrightarrow> Q ts \<Longrightarrow> Q (t # ts)"
  shows "P t" "Q ts"
proof -
  show P: "P t" for t
  proof (induction t)
    case (TNode k ts)
    then have "Q ts" by (induction ts) (auto intro: assms)
    then show ?case by (rule assms)
  qed (auto intro: assms)
  show "Q ts" by (induction ts) (auto intro: assms P)
qed

text \<open>The tree built directly, without a cache; the interner is threaded from left to right.\<close>

fun denote :: "('s, 'd, 'i, 'e) env \<Rightarrow> 'i \<Rightarrow> ('s, 'd) tree \<Rightarrow> ('i \<times> green_element) outcome"
  and denotes :: "('s, 'd, 'i, 'e) env \<Rightarrow> 'i \<Rightarrow> ('s, 'd) tree list \<Rightarrow> ('i \<times> green_element list) outcome" where
  "denote E i (TNode k ts) = bindO (denotes E i ts) (\<lambda>(i', es). Inr (i', Node (built_node E k es)))"
| "denote E i (TToken k d) = bindO (token_effect E i k d) (\<lambda>(i', t). Inr (i', Token t))"
| "denote E i (TBytes k bs) = bindO (bytes_effect E i k bs) (\<lambda>(i', t). Inr (i', Token t))"
| "denote E i (TStatic k) = bindO (static_effect E i k) (\<lambda>(i', t). Inr (i', Token t))"
| "denotes E i [] = Inr (i, [])"
| "denotes E i (t # ts) =
     bindO (denote E i t) (\<lambda>(i1, e). bindO (denotes E i1 ts) (\<lambda>(i2, es). Inr (i2, e # es)))"

text \<open>Every node of an element, the element itself included.\<close>

fun element_nodes :: "green_element \<Rightarrow> green_node list" where
  "element_nodes (Node n) = subnodes n"
| "element_nodes (Token t) = []"

lemma subnodes_GreenNode: "subnodes (GreenNode h cs) = GreenNode h cs # concat (map element_nodes cs)"
proof -
  have "(\<lambda>e. case e of Node n \<Rightarrow> subnodes n | Token t \<Rightarrow> []) = element_nodes"
    by (rule ext) (auto split: node_or_token.split)
  then show ?thesis by simp
qed

declare subnodes.simps [simp del] subnodes_GreenNode [simp]

lemma subnodes_built_node [simp]:
  "subnodes (built_node E k cs) = built_node E k cs # concat (map element_nodes cs)"
  by (simp add: built_node_def green_node_new_def)

section \<open>The specification runs the events of a tree\<close>

text \<open>Running the events of a tree pushes the element it denotes and logs its nodes.\<close>

definition spec_pushed :: "('s, 'i) spec \<Rightarrow> ('s, 'i) spec \<Rightarrow> 'i \<Rightarrow> green_element list \<Rightarrow> bool" where
  "spec_pushed s s' i es \<longleftrightarrow>
     sp_interner s' = i \<and> set (sp_created s') = set (sp_created s) \<union> set (concat (map element_nodes es)) \<and>
     (case sp_frames s of
        [] \<Rightarrow> sp_frames s' = [] \<and> sp_base s' = sp_base s @ es
      | (k, xs) # fs \<Rightarrow> sp_frames s' = (k, xs @ es) # fs \<and> sp_base s' = sp_base s)"

lemma spec_pushed_refl [simp]: "sp_interner s = i \<Longrightarrow> spec_pushed s s i []"
  by (simp add: spec_pushed_def split: list.splits)

lemma spec_pushed_trans:
  "spec_pushed s s1 i1 es1 \<Longrightarrow> spec_pushed s1 s2 i2 es2 \<Longrightarrow> spec_pushed s s2 i2 (es1 @ es2)"
  by (auto simp: spec_pushed_def split: list.splits)

lemma spec_pushed_flat:
  "spec_pushed s s' i es \<Longrightarrow> sp_flat s' = sp_flat s @ es \<and> sp_layout s' = sp_layout s"
  by (auto simp: spec_pushed_def split: list.splits)

lemma run_spec_append: "run_spec E (xs @ ys) s = bindO (run_spec E xs s) (run_spec E ys)"
  by (induction xs arbitrary: s) (simp_all add: bindO_assoc cong: bindO_cong)

lemma spec_pushed_push: "spec_pushed s (spec_push (Token t) (s\<lparr>sp_interner := i\<rparr>)) i [Token t]"
  by (auto simp: spec_pushed_def spec_push_def split: list.splits)

lemma spec_finish_pushed:
  assumes "spec_pushed (spec_start k s) s1 i es"
  obtains s' where "spec_finish_node E s1 = Inr s'" "spec_pushed s s' i [Node (built_node E k es)]"
proof -
  let ?n = "built_node E k es"
  let ?s' = "spec_push (Node ?n) (s1\<lparr>sp_frames := sp_frames s, sp_created := ?n # sp_created s1\<rparr>)"
  have s1: "sp_frames s1 = (k, es) # sp_frames s" "sp_interner s1 = i" "sp_base s1 = sp_base s"
    "set (sp_created s1) = set (sp_created s) \<union> set (concat (map element_nodes es))"
    using assms by (auto simp: spec_pushed_def spec_start_def)
  then have "spec_finish_node E s1 = Inr ?s'" by (simp add: spec_finish_node_def Let_def)
  moreover have "spec_pushed s ?s' i [Node ?n]"
    using s1 by (auto simp: spec_pushed_def spec_push_def split: list.splits)
  ultimately show ?thesis by (rule that)
qed

lemma run_spec_token:
  assumes "bindO r (\<lambda>(i', t). Inr (i', Token t)) = Inr (i, e)"
  shows "\<exists>s'. bindO (spec_token r s) (run_spec E []) = Inr s' \<and> spec_pushed s s' i [e]"
  using assms by (auto simp: bindO_eq_Inr spec_token_def intro!: spec_pushed_push)

lemma run_spec_denote:
  shows "denote E (sp_interner s) t = Inr (i, e) \<Longrightarrow>
      \<exists>s'. run_spec E (events t) s = Inr s' \<and> spec_pushed s s' i [e]"
    and "denotes E (sp_interner s) ts = Inr (i, es) \<Longrightarrow>
      \<exists>s'. run_spec E (events_list ts) s = Inr s' \<and> spec_pushed s s' i es"
proof (induction t and ts arbitrary: s i e and s i es rule: tree_list_induct)
  case (TNode k ts)
  then obtain es where es: "denotes E (sp_interner (spec_start k s)) ts = Inr (i, es)"
    and e: "e = Node (built_node E k es)"
    by (auto simp: bindO_eq_Inr spec_start_def)
  from TNode.IH [OF es] obtain s1 where s1: "run_spec E (events_list ts) (spec_start k s) = Inr s1"
    "spec_pushed (spec_start k s) s1 i es" by blast
  from s1(2) obtain s' where "spec_finish_node E s1 = Inr s'" "spec_pushed s s' i [e]"
    unfolding e by (rule spec_finish_pushed)
  with s1(1) show ?case by (auto simp: run_spec_append)
next
  case (Cons t ts)
  then obtain i1 e es' where 1: "denote E (sp_interner s) t = Inr (i1, e)"
    "denotes E i1 ts = Inr (i, es')" "es = e # es'"
    by (auto simp: bindO_eq_Inr)
  from Cons.IH(1) [OF 1(1)] obtain s1 where s1: "run_spec E (events t) s = Inr s1" "spec_pushed s s1 i1 [e]"
    by blast
  then have "denotes E (sp_interner s1) ts = Inr (i, es')" using 1(2) by (simp add: spec_pushed_def)
  from Cons.IH(2) [OF this] obtain s2 where "run_spec E (events_list ts) s1 = Inr s2" "spec_pushed s1 s2 i es'"
    by blast
  with s1 1(3) show ?case by (auto simp: run_spec_append dest: spec_pushed_trans)
qed (auto intro: run_spec_token)

section \<open>The builder runs the events of a tree\<close>

lemma run_denotes:
  assumes wf: "builder_wf E b" and inj: "inj_on gn_head N" and cached: "ran (nc_nodes (bl_node_cache b)) \<subseteq> N"
    and den: "denotes E (builder_interner b) ts = Inr (i, es)"
    and nodes: "set (concat (map element_nodes es)) \<subseteq> N"
    and open_nodes: "bl_parents b = sp_layout s" "bl_children b = sp_flat s" "sp_interner s = builder_interner b"
      "sp_created s = []"
  obtains b' where "run E (events_list ts) b = Inr b'" "bl_children b' = bl_children b @ es"
    "bl_parents b' = bl_parents b" "builder_interner b' = i" "ran (nc_nodes (bl_node_cache b')) \<subseteq> N" "builder_wf E b'"
proof -
  have sim: "simulates E N b s"
    using wf cached open_nodes by (simp add: simulates_def)
  from den open_nodes(3) obtain s' where s': "run_spec E (events_list ts) s = Inr s'" "spec_pushed s s' i es"
    using run_spec_denote(2) [of E s ts i es] by auto
  have "set (sp_created s') \<subseteq> N" using s'(2) nodes open_nodes(4) by (simp add: spec_pushed_def)
  from simulates_run [OF sim inj s'(1) this] obtain b' where b': "run E (events_list ts) b = Inr b'"
    "simulates E N b' s'" by blast
  show ?thesis
    by (rule that [OF b'(1)])
      (use b'(2) spec_pushed_flat [OF s'(2)] s'(2) open_nodes in \<open>auto simp: simulates_def spec_pushed_def\<close>)
qed

text \<open>The frames of a well-formed builder.\<close>

lemma spec_of_builder:
  assumes "parents_wf ps n" "n \<le> length cs"
  shows "\<exists>base fs. layout base fs = ps \<and> flat base fs = take n cs"
  using assms
proof (induction ps arbitrary: n rule: rev_induct)
  case Nil
  have "layout (take n cs) [] = []" "flat (take n cs) [] = take n cs" by simp_all
  then show ?case by blast
next
  case (snoc p ps)
  obtain k i where p: "p = (k, i)" by (cases p)
  with snoc.prems have "parents_wf ps i" "i \<le> length cs" and i: "i \<le> n" by auto
  from snoc.IH [OF this(1,2)] obtain base fs where fs: "layout base fs = ps" "flat base fs = take i cs"
    by blast
  have "layout base ((k, drop i (take n cs)) # fs) = ps @ [p]"
    "flat base ((k, drop i (take n cs)) # fs) = take n cs"
    using fs p i snoc.prems(2) by (auto simp: min_def) (metis append_take_drop_id min.absorb1 take_take)
  then show ?case by blast
qed

lemma run_events_list:
  assumes wf: "builder_wf E b" and inj: "inj_on gn_head N" and cached: "ran (nc_nodes (bl_node_cache b)) \<subseteq> N"
    and den: "denotes E (builder_interner b) ts = Inr (i, es)"
    and nodes: "set (concat (map element_nodes es)) \<subseteq> N"
  obtains b' where "run E (events_list ts) b = Inr b'" "bl_children b' = bl_children b @ es"
    "bl_parents b' = bl_parents b" "builder_interner b' = i" "ran (nc_nodes (bl_node_cache b')) \<subseteq> N" "builder_wf E b'"
proof -
  from wf obtain base fs where "layout base fs = bl_parents b" "flat base fs = bl_children b"
    using spec_of_builder [of "bl_parents b" "length (bl_children b)" "bl_children b"]
    by (auto simp: builder_wf_def)
  then have "bl_parents b = sp_layout \<lparr>sp_interner = builder_interner b, sp_base = base, sp_frames = fs, sp_created = []\<rparr>"
    "bl_children b = sp_flat \<lparr>sp_interner = builder_interner b, sp_base = base, sp_frames = fs, sp_created = []\<rparr>"
    by simp_all
  then show ?thesis
    by (rule run_denotes [OF wf inj cached den nodes]) (auto intro: that)
qed

section \<open>What a green tree says of its source\<close>

text \<open>
  \<open>SyntaxToken::resolve_data\<close> on the green token: the static data of the kind, or the
  interned data.
\<close>

definition green_resolve :: "('s, 'd, 'i, 'e) env \<Rightarrow> 'i \<Rightarrow> green_token \<Rightarrow> 'd outcome" where
  "green_resolve E i t =
     bindO (sx_from_raw (en_syntax E) (gt_kind t)) (\<lambda>k.
       case sx_static_data (en_syntax E) k of
         Some d \<Rightarrow> Inr d
       | None \<Rightarrow> bindO (green_token_data (resolve (en_interner E) i) t) unwrap)"

text \<open>The data a token event stands for.\<close>

fun leaf_data :: "('s, 'd, 'i, 'e) env \<Rightarrow> ('s, 'd) tree \<Rightarrow> 'd option" where
  "leaf_data E (TNode k ts) = None"
| "leaf_data E (TToken k d) = Some d"
| "leaf_data E (TBytes k bs) = (case td_from_bytes (en_data E) bs of Inl _ \<Rightarrow> None | Inr d \<Rightarrow> Some d)"
| "leaf_data E (TStatic k) = sx_static_data (en_syntax E) k"

fun leaf_kind :: "('s, 'd) tree \<Rightarrow> 's" where
  "leaf_kind (TNode k ts) = k"
| "leaf_kind (TToken k d) = k"
| "leaf_kind (TBytes k bs) = k"
| "leaf_kind (TStatic k) = k"

text \<open>
  A green element represents a tree when nodes have the right kind and their children
  represent the subtrees, and tokens have the right kind, resolve to the right data, and
  have its length.
\<close>

definition represents_leaf :: "('s, 'd, 'i, 'e) env \<Rightarrow> 'i \<Rightarrow> ('s, 'd) tree \<Rightarrow> green_element \<Rightarrow> bool" where
  "represents_leaf E i t e =
     (case e of
        Node _ \<Rightarrow> False
      | Token g \<Rightarrow>
          (case leaf_data E t of
             None \<Rightarrow> False
           | Some d \<Rightarrow> gt_kind g = sx_into_raw (en_syntax E) (leaf_kind t) \<and> green_resolve E i g = Inr d \<and>
                       gt_data_len g = as_u32 (length (td_as_bytes (en_data E) d))))"

primrec represents :: "('s, 'd, 'i, 'e) env \<Rightarrow> 'i \<Rightarrow> ('s, 'd) tree \<Rightarrow> green_element \<Rightarrow> bool" where
  "represents E i (TNode k ts) e =
     (case e of
        Node n \<Rightarrow> gn_kind n = sx_into_raw (en_syntax E) k \<and>
                  list_all2 (\<lambda>r c. r c) (map (represents E i) ts) (gn_children n)
      | Token _ \<Rightarrow> False)"
| "represents E i (TToken k d) e = represents_leaf E i (TToken k d) e"
| "represents E i (TBytes k bs) e = represents_leaf E i (TBytes k bs) e"
| "represents E i (TStatic k) e = represents_leaf E i (TStatic k) e"

lemma represents_TNode [simp]:
  "represents E i (TNode k ts) (Node n) \<longleftrightarrow>
     gn_kind n = sx_into_raw (en_syntax E) k \<and> list_all2 (represents E i) ts (gn_children n)"
  by (simp add: list_all2_map1)

text \<open>The trees a builder accepts: every leaf has data, and it is the static data of its kind, if any.\<close>

primrec tree_ok :: "('s, 'd, 'i, 'e) env \<Rightarrow> ('d \<Rightarrow> bool) \<Rightarrow> ('s, 'd) tree \<Rightarrow> bool" where
  "tree_ok E valid (TNode k ts) \<longleftrightarrow> list_all (\<lambda>b. b) (map (tree_ok E valid) ts)"
| "tree_ok E valid (TToken k d) \<longleftrightarrow> valid d \<and> sx_static_data (en_syntax E) k \<in> {None, Some d}"
| "tree_ok E valid (TBytes k bs) \<longleftrightarrow>
     (case td_from_bytes (en_data E) bs of
        Inl _ \<Rightarrow> False | Inr d \<Rightarrow> sx_static_data (en_syntax E) k \<in> {None, Some d})"
| "tree_ok E valid (TStatic k) \<longleftrightarrow> sx_static_data (en_syntax E) k \<noteq> None"

primrec leaves :: "('s, 'd) tree \<Rightarrow> ('s, 'd) tree list" where
  "leaves (TNode k ts) = concat (map leaves ts)"
| "leaves (TToken k d) = [TToken k d]"
| "leaves (TBytes k bs) = [TBytes k bs]"
| "leaves (TStatic k) = [TStatic k]"

definition n_leaves :: "('s, 'd) tree list \<Rightarrow> nat" where
  "n_leaves ts = length (concat (map leaves ts))"

lemma n_leaves_simps [simp]:
  "n_leaves [] = 0"
  "n_leaves (t # ts) = length (leaves t) + n_leaves ts"
  by (simp_all add: n_leaves_def)

lemma tree_ok_TNode [simp]: "tree_ok E valid (TNode k ts) \<longleftrightarrow> (\<forall>t \<in> set ts. tree_ok E valid t)"
  by (simp add: list_all_iff)

lemma length_leaves_TNode [simp]: "length (leaves (TNode k ts)) = n_leaves ts"
  by (simp add: n_leaves_def)

declare represents.simps(1) [simp del] tree_ok.simps(1) [simp del]

context tree_env
begin

definition extends :: "'i \<Rightarrow> 'i \<Rightarrow> bool" where
  "extends i i' \<longleftrightarrow> (\<forall>k d. io_try_resolve (en_interner E) i k = Some d \<longrightarrow> io_try_resolve (en_interner E) i' k = Some d)"

lemma extends_refl [simp]: "extends i i"
  by (simp add: extends_def)

lemma extends_trans: "extends i i1 \<Longrightarrow> extends i1 i2 \<Longrightarrow> extends i i2"
  by (simp add: extends_def)

lemma green_resolve_extends:
  assumes "extends i i'" "green_resolve E i t = Inr d"
  shows "green_resolve E i' t = Inr d"
  using assms unfolding green_resolve_def green_token_data_def resolve_def extends_def
  by (auto simp: bindO_eq_Inr split: option.splits)

lemma represents_leaf_extends:
  "extends i i' \<Longrightarrow> represents_leaf E i t e \<Longrightarrow> represents_leaf E i' t e"
  by (auto simp: represents_leaf_def green_resolve_extends split: node_or_token.splits option.splits)

lemma represents_extends:
  "extends i i' \<Longrightarrow> represents E i t e \<Longrightarrow> represents E i' t e"
  "extends i i' \<Longrightarrow> list_all2 (represents E i) ts es \<Longrightarrow> list_all2 (represents E i') ts es"
proof (induction t and ts arbitrary: e and es rule: tree_list_induct)
  case (TNode k ts)
  then show ?case by (cases e) (auto simp: represents.simps(1) list_all2_map1)
next
  case (Cons t ts)
  then show ?case by (auto simp: list_all2_Cons1)
qed (auto intro: represents_leaf_extends)

text \<open>What a token operation leaves behind: the new interner state and a token for the data.\<close>

definition leaf_result :: "'i \<Rightarrow> 's \<Rightarrow> 'd \<Rightarrow> ('i \<times> green_token) outcome \<Rightarrow> bool" where
  "leaf_result i k d r \<longleftrightarrow>
     (\<exists>i' t. r = Inr (i', t) \<and> inv i' \<and> extends i i' \<and> room i \<le> Suc (room i') \<and>
        gt_kind t = sx_into_raw (en_syntax E) k \<and> green_resolve E i' t = Inr d \<and>
        gt_data_len t = as_u32 (length (td_as_bytes (en_data E) d)))"

lemma static_leaf:
  assumes "inv i" "sx_static_data (en_syntax E) k = Some d"
  shows "leaf_result i k d (Inr (i, token_of E k None (length (td_as_bytes (en_data E) d))))"
  using assms by (simp add: leaf_result_def token_of_def green_resolve_def from_into_raw)

lemma interned_leaf:
  assumes "sx_static_data (en_syntax E) k = None" "inv i'" "extends i i'" "room i \<le> Suc (room i')"
    "io_try_resolve (en_interner E) i' key = Some d"
  shows "leaf_result i k d (Inr (i', token_of E k (Some key) (length (td_as_bytes (en_data E) d))))"
  using assms
  by (simp add: leaf_result_def token_of_def green_resolve_def from_into_raw green_token_data_def resolve_def)

lemma token_effect_ok:
  assumes "inv i" "tree_ok E valid (TToken k d)" "0 < room i"
  shows "leaf_result i k d (token_effect E i k d)"
proof (cases "sx_static_data (en_syntax E) k")
  case (Some sd)
  then show ?thesis using assms static_leaf by (simp add: token_effect_def)
next
  case None
  have "valid d" using assms(2) by simp
  with assms obtain i' key where r: "get_or_intern (en_interner E) i d = Inr (i', key)" "room i \<le> Suc (room i')"
    using get_or_intern_room by blast
  note res = get_or_intern_resolves [OF assms(1) \<open>valid d\<close> r(1)]
  have "extends i i'" using get_or_intern_keeps [OF assms(1) \<open>valid d\<close> r(1)] by (simp add: extends_def)
  from interned_leaf [OF None res(1) this r(2) res(2)] show ?thesis
    using None r(1) by (simp add: token_effect_def)
qed

lemma bytes_effect_ok:
  assumes "inv i" "tree_ok E valid (TBytes k bs)" "0 < room i" "td_from_bytes (en_data E) bs = Inr d"
  shows "leaf_result i k d (bytes_effect E i k bs)"
proof (cases "sx_static_data (en_syntax E) k")
  case (Some sd)
  then show ?thesis
    using assms static_leaf [of i k d] as_from_bytes [OF assms(4)] by (auto simp: bytes_effect_def)
next
  case None
  from assms obtain i' key where r: "get_or_intern_bytes (en_interner E) i bs = Inr (i', key)"
    "room i \<le> Suc (room i')"
    using get_or_intern_bytes_room by blast
  from get_or_intern_bytes_resolves [OF assms(1) r(1)] obtain d' where
    d': "inv i'" "valid d'" "td_as_bytes (en_data E) d' = bs" "io_try_resolve (en_interner E) i' key = Some d'" .
  have "d' = d" using from_as_bytes [OF d'(2)] d'(3) assms(4) by simp
  have "extends i i'" using get_or_intern_bytes_keeps [OF assms(1) r(1)] by (simp add: extends_def)
  from interned_leaf [OF None d'(1) this r(2) d'(4)] show ?thesis
    using None r(1) d'(3) \<open>d' = d\<close> by (simp add: bytes_effect_def)
qed

lemma static_effect_ok:
  assumes "inv i" "sx_static_data (en_syntax E) k = Some d"
  shows "leaf_result i k d (static_effect E i k)"
  using assms static_leaf by (simp add: static_effect_def)

lemma leaf_result_denote:
  assumes "leaf_result i (leaf_kind t) d r" "leaf_data E t = Some d"
  shows "\<exists>i' e. bindO r (\<lambda>(i', t). Inr (i', Token t)) = Inr (i', e) \<and> inv i' \<and> extends i i' \<and>
    room i \<le> room i' + 1 \<and> represents_leaf E i' t e \<and> element_wf (en_text E) (en_hash E) e"
  using assms by (auto simp: leaf_result_def represents_leaf_def)

text \<open>A tree that is acceptable and fits into the interner is built, and built right.\<close>

lemma denote_ok:
  shows "inv i \<Longrightarrow> tree_ok E valid t \<Longrightarrow> length (leaves t) \<le> room i \<Longrightarrow>
      \<exists>i' e. denote E i t = Inr (i', e) \<and> inv i' \<and> extends i i' \<and> room i \<le> room i' + length (leaves t) \<and>
        represents E i' t e \<and> element_wf (en_text E) (en_hash E) e"
    and "inv i \<Longrightarrow> \<forall>t \<in> set ts. tree_ok E valid t \<Longrightarrow> n_leaves ts \<le> room i \<Longrightarrow>
      \<exists>i' es. denotes E i ts = Inr (i', es) \<and> inv i' \<and> extends i i' \<and> room i \<le> room i' + n_leaves ts \<and>
        list_all2 (represents E i') ts es \<and> (\<forall>e \<in> set es. element_wf (en_text E) (en_hash E) e)"
proof (induction t and ts arbitrary: i and i rule: tree_list_induct)
  case (TNode k ts)
  then obtain i' es where es: "denotes E i ts = Inr (i', es)" "inv i'" "extends i i'"
    "room i \<le> room i' + n_leaves ts" "list_all2 (represents E i') ts es"
    "\<forall>e \<in> set es. element_wf (en_text E) (en_hash E) e"
    unfolding length_leaves_TNode tree_ok_TNode by blast
  then have "denote E i (TNode k ts) = Inr (i', Node (built_node E k es))" by simp
  moreover have "represents E i' (TNode k ts) (Node (built_node E k es))" using es(5) by simp
  moreover have "element_wf (en_text E) (en_hash E) (Node (built_node E k es))" using es(6) by simp
  ultimately show ?case using es(2-4) unfolding length_leaves_TNode by blast
next
  case (TToken k d)
  then have "leaf_result i (leaf_kind (TToken k d)) d (token_effect E i k d)"
    using token_effect_ok [of i k d] by simp
  from leaf_result_denote [OF this] show ?case by simp
next
  case (TBytes k bs)
  then obtain d where d: "td_from_bytes (en_data E) bs = Inr d" by (auto split: sum.splits)
  with TBytes have "leaf_result i (leaf_kind (TBytes k bs)) d (bytes_effect E i k bs)"
    using bytes_effect_ok [of i k bs d] by simp
  from leaf_result_denote [OF this] d show ?case by simp
next
  case (TStatic k)
  then obtain d where d: "sx_static_data (en_syntax E) k = Some d" by auto
  with TStatic have "leaf_result i (leaf_kind (TStatic k)) d (static_effect E i k)"
    using static_effect_ok [of i k d] by simp
  from leaf_result_denote [OF this] d show ?case by simp
next
  case Nil
  then show ?case by simp
next
  case (Cons t ts)
  from Cons.prems have "tree_ok E valid t" "length (leaves t) \<le> room i" by auto
  from Cons.IH(1) [OF Cons.prems(1) this] obtain i1 e where
    1: "denote E i t = Inr (i1, e)" "inv i1" "extends i i1" "room i \<le> room i1 + length (leaves t)"
      "represents E i1 t e" "element_wf (en_text E) (en_hash E) e"
    by blast
  have "n_leaves ts \<le> room i1" using Cons.prems(3) 1(4) by simp
  moreover have "\<forall>t \<in> set ts. tree_ok E valid t" using Cons.prems(2) by simp
  ultimately obtain i2 es where
    2: "denotes E i1 ts = Inr (i2, es)" "inv i2" "extends i1 i2" "room i1 \<le> room i2 + n_leaves ts"
      "list_all2 (represents E i2) ts es" "\<forall>e \<in> set es. element_wf (en_text E) (en_hash E) e"
    using Cons.IH(2) [OF 1(2)] by blast
  have "denotes E i (t # ts) = Inr (i2, e # es)" using 1(1) 2(1) by simp
  moreover have "room i \<le> room i2 + n_leaves (t # ts)" using 1(4) 2(4) by simp
  moreover have "list_all2 (represents E i2) (t # ts) (e # es)"
    using represents_extends(1) [OF 2(3) 1(5)] 2(5) by simp
  moreover have "\<forall>e \<in> set (e # es). element_wf (en_text E) (en_hash E) e" using 1(6) 2(6) by simp
  ultimately show ?case using 2(2) extends_trans [OF 1(3) 2(3)] by blast
qed

end

text \<open>The tokens of a representing element, from left to right, are the leaves of the tree.\<close>

lemma represents_leaf_tokens:
  "represents_leaf E i t e \<Longrightarrow>
     map (green_resolve E i) (element_tokens e) = map (Inr \<circ> the \<circ> leaf_data E) [t] \<and>
     map gt_data_len (element_tokens e) = map (as_u32 \<circ> length \<circ> td_as_bytes (en_data E) \<circ> the \<circ> leaf_data E) [t]"
  by (auto simp: represents_leaf_def split: node_or_token.splits option.splits)

lemma represents_tokens:
  shows "represents E i t e \<Longrightarrow>
      map (green_resolve E i) (element_tokens e) = map (Inr \<circ> the \<circ> leaf_data E) (leaves t) \<and>
      map gt_data_len (element_tokens e) = map (as_u32 \<circ> length \<circ> td_as_bytes (en_data E) \<circ> the \<circ> leaf_data E) (leaves t)"
    and "list_all2 (represents E i) ts es \<Longrightarrow>
      map (green_resolve E i) (concat (map element_tokens es)) = map (Inr \<circ> the \<circ> leaf_data E) (concat (map leaves ts)) \<and>
      map gt_data_len (concat (map element_tokens es)) =
        map (as_u32 \<circ> length \<circ> td_as_bytes (en_data E) \<circ> the \<circ> leaf_data E) (concat (map leaves ts))"
proof (induction t and ts arbitrary: e and es rule: tree_list_induct)
  case (TNode k ts)
  then obtain n where e: "e = Node n" by (cases e) (auto simp: represents.simps(1))
  with TNode.prems have "list_all2 (represents E i) ts (gn_children n)" by simp
  from TNode.IH [OF this] e show ?case by (cases n) simp
next
  case (Cons t ts)
  then show ?case by (auto simp: list_all2_Cons1)
qed (use represents_leaf_tokens in fastforce)+

section \<open>Balanced calls\<close>

text \<open>Balanced calls never look at the open nodes: they run the same over any others.\<close>

abbreviation with_parents :: "('s \<times> nat) list \<Rightarrow> ('s, 'i) builder outcome \<Rightarrow> ('s, 'i) builder outcome" where
  "with_parents ps \<equiv> map_sum (\<lambda>p. p) (\<lambda>b. b\<lparr>bl_parents := ps\<rparr>)"

lemma with_parents_bindO:
  "(\<And>b. f (b\<lparr>bl_parents := ps\<rparr>) = with_parents qs (g b)) \<Longrightarrow>
   bindO (with_parents ps m) f = with_parents qs (bindO m g)"
  by (cases m) auto

lemma push_child_parents [simp]: "push_child c e (b\<lparr>bl_parents := ps\<rparr>) = (push_child c e b)\<lparr>bl_parents := ps\<rparr>"
  by (simp add: push_child_def)

lemma token_ops_parents:
  "builder_token E (b\<lparr>bl_parents := ps\<rparr>) k d = with_parents ps (builder_token E b k d)"
  "token_from_bytes E (b\<lparr>bl_parents := ps\<rparr>) k bs = with_parents ps (token_from_bytes E b k bs)"
  "static_token E (b\<lparr>bl_parents := ps\<rparr>) k = with_parents ps (static_token E b k)"
  by (auto simp: builder_token_def token_from_bytes_def static_token_def Let_def bindO_def
      split: option.splits prod.splits sum.splits)

lemma finish_node_parents:
  "finish_node E (b\<lparr>bl_parents := ps @ [p]\<rparr>) = with_parents ps (finish_node E (b\<lparr>bl_parents := qs @ [p]\<rparr>))"
  by (cases p) (auto simp: finish_node_def bindO_def push_child_def split: prod.splits sum.splits)

lemma run_events_parents:
  shows "run E (events t) (b\<lparr>bl_parents := ps\<rparr>) = with_parents ps (run E (events t) b)"
    and "run E (events_list ts) (b\<lparr>bl_parents := ps\<rparr>) = with_parents ps (run E (events_list ts) b)"
proof (induction t and ts arbitrary: b ps and b ps rule: tree_list_induct)
  case (TNode k ts)
  let ?p = "(k, length (bl_children b))"
  let ?r = "run E (events_list ts) b"
  have run: "run E (events (TNode k ts)) (b\<lparr>bl_parents := qs\<rparr>) =
      bindO ?r (\<lambda>b1. finish_node E (b1\<lparr>bl_parents := qs @ [?p]\<rparr>))" for qs
    using TNode.IH [of "qs @ [?p]" b] by (cases ?r) (simp_all add: start_node_def run_append bindO_def split: sum.split)
  show ?case
    using run [of ps] run [of "bl_parents b"] finish_node_parents [where ps = ps and p = ?p and qs = "bl_parents b"]
    by (cases ?r) (simp_all add: id_def)
next
  case (Cons t ts)
  show ?case
    by (simp add: run_append Cons.IH(1)) (rule with_parents_bindO, rule Cons.IH(2))
qed (simp_all add: token_ops_parents bindO_def split: sum.splits)

lemma run_events_keeps_parents: "run E (events_list ts) b = Inr b' \<Longrightarrow> bl_parents b' = bl_parents b"
  using run_events_parents(2) [of E ts "bl_parents b" b] by (auto dest: arg_cong [where f = bl_parents])

section \<open>Checkpoints around balanced calls\<close>

text \<open>Balanced calls only add children.\<close>

lemma token_ops_children:
  "builder_token E b k d = Inr b' \<Longrightarrow> \<exists>e. bl_children b' = bl_children b @ [e]"
  "token_from_bytes E b k bs = Inr b' \<Longrightarrow> \<exists>e. bl_children b' = bl_children b @ [e]"
  "static_token E b k = Inr b' \<Longrightarrow> \<exists>e. bl_children b' = bl_children b @ [e]"
  by (auto simp: builder_token_def token_from_bytes_def static_token_def Let_def bindO_eq_Inr case_prod_beta
      split: option.splits if_splits)

lemma finish_node_children:
  assumes "bl_parents b = ps @ [(k, length xs)]" "bl_children b = xs @ es" "finish_node E b = Inr b'"
  shows "\<exists>e. bl_children b' = xs @ [e]"
  using assms by (auto simp: finish_node_def bindO_eq_Inr cache_node_serve split: prod.splits)

lemma run_events_children:
  shows "run E (events t) b = Inr b' \<Longrightarrow> \<exists>e. bl_children b' = bl_children b @ [e]"
    and "run E (events_list ts) b = Inr b' \<Longrightarrow>
      \<exists>es. bl_children b' = bl_children b @ es \<and> length es = length ts"
proof (induction t and ts arbitrary: b b' and b b' rule: tree_list_induct)
  case (TNode k ts)
  then obtain b1 where b1: "run E (events_list ts) (start_node b k) = Inr b1" "finish_node E b1 = Inr b'"
    by (auto simp: run_append bindO_eq_Inr)
  from TNode.IH [OF b1(1)] obtain es where es: "bl_children b1 = bl_children b @ es"
    by (auto simp: start_node_def)
  have "bl_parents b1 = bl_parents b @ [(k, length (bl_children b))]"
    using run_events_keeps_parents [OF b1(1)] by (simp add: start_node_def)
  from finish_node_children [OF this es b1(2)] show ?case .
next
  case (Cons t ts)
  then obtain b1 where b1: "run E (events t) b = Inr b1" "run E (events_list ts) b1 = Inr b'"
    by (auto simp: run_append bindO_eq_Inr)
  obtain e where e: "bl_children b1 = bl_children b @ [e]" using Cons.IH(1) [OF b1(1)] ..
  obtain es where "bl_children b' = bl_children b1 @ es" "length es = length ts"
    using Cons.IH(2) [OF b1(2)] by blast
  with e have "bl_children b' = bl_children b @ (e # es)" "length (e # es) = length (t # ts)" by simp_all
  then show ?case by blast
next
  case Nil
  then show ?case by simp
qed (auto simp: bindO_eq_Inr intro: token_ops_children)

lemma checkpoint_simps [simp]:
  "cp_parent_idx (builder_checkpoint b) = length (bl_parents b)"
  "cp_child_idx (builder_checkpoint b) = length (bl_children b)"
  by (simp_all add: builder_checkpoint_def)

text \<open>The innermost open node of a well-formed builder starts within the children.\<close>

lemma innermost_within:
  "builder_wf E b \<Longrightarrow> vec_last (bl_parents b) = Some (k, i) \<Longrightarrow> i \<le> length (bl_children b)"
  by (auto simp: builder_wf_def vec_last_eq_Some)

lemma start_node_at_own:
  assumes "builder_wf E b" "bl_parents b' = bl_parents b" "bl_children b' = bl_children b @ es"
  shows "start_node_at b' (builder_checkpoint b) k =
    Inr (b'\<lparr>bl_parents := bl_parents b @ [(k, length (bl_children b))]\<rparr>)"
  using assms innermost_within [OF assms(1)]
  by (auto simp: start_node_at_def Let_def split: option.splits)

text \<open>
  When \<open>revert_to\<close> succeeds after more nodes were opened and more children added: exactly
  when the innermost open node starts no later than the checkpoint.
\<close>

lemma revert_to_extended:
  assumes "builder_wf E b" "bl_parents b' = bl_parents b @ ps" "bl_children b' = bl_children b @ es"
  shows "revert_to b' (builder_checkpoint b) =
    (if ps = [] \<or> snd (last ps) \<le> length (bl_children b)
     then Inr (b'\<lparr>bl_parents := bl_parents b, bl_children := bl_children b\<rparr>)
     else Inl Checkpoint_first_child)"
proof (cases ps rule: rev_cases)
  case Nil
  then show ?thesis
    using assms innermost_within [OF assms(1)] by (auto simp: revert_to_def Let_def split: option.splits)
next
  case (snoc qs q)
  then have "vec_last (bl_parents b') = Some q" using assms(2) by (simp add: vec_last_def)
  then show ?thesis using assms snoc by (cases q) (simp add: revert_to_def Let_def)
qed

end
