(* ===== verification/Builder_Theorems.thy ===== *)
theory Builder_Theorems
  imports Builder_Trees
begin

text \<open>
  The properties of the tree builder: its invariant, the refinement of the specification
  by frames, the round trip from a tree through the builder's calls to a green tree, the
  checkpoints, and the two places where the code does not do what its comments say.
\<close>

text \<open>A concrete environment for the examples: the test language and a hasher that is constant.\<close>

abbreviation ex_env :: "(test_kind, rust_str, rust_str token_interner, interner_error) env" where
  "ex_env \<equiv> test_env (\<lambda>_. 0) True"

text \<open>The definitions that evaluate calls on concrete data.\<close>

lemmas intern_eval = get_or_intern_def get_or_intern_bytes_def try_get_or_intern_def
  try_get_or_intern_bytes_def new_interner_def N_INDICES_def u32_max_def try_from_u32_def str_data_def

lemmas spec_eval = abs_builder_def builder_new_def node_cache_new_def builder_interner_def cache_interner_def
  spec_start_def spec_token_def token_effect_def static_effect_def bytes_effect_def spec_push_def token_of_def
  spec_start_at_def spec_top_start_def spec_finish_node_def built_node_def green_node_new_def Let_def

abbreviation ex_builder :: "(test_kind, rust_str token_interner) builder" where
  "ex_builder \<equiv> builder_new"

section \<open>Ownership of the cache\<close>

lemma apply_op_owned:
  "apply_op E op b = Inr b' \<Longrightarrow> into_owned (bl_cache b') = map_option (\<lambda>_. bl_node_cache b') (into_owned (bl_cache b))"
  by (cases op) (auto simp: builder_token_def token_from_bytes_def static_token_def
      start_node_def finish_node_def revert_to_def start_node_at_def Let_def bindO_eq_Inr case_prod_beta
      push_child_def split: option.splits if_splits)

lemma run_owned:
  "run E ops b = Inr b' \<Longrightarrow> into_owned (bl_cache b') = map_option (\<lambda>_. bl_node_cache b') (into_owned (bl_cache b))"
proof (induction ops arbitrary: b)
  case Nil
  then show ?case by simp
next
  case (Cons op ops)
  then show ?case by (auto simp: bindO_eq_Inr option.map_comp comp_def dest!: apply_op_owned)
qed

lemma cache_owned:
  "intern E c d = Inr (c', key) \<Longrightarrow> into_interner c' = map_option (\<lambda>_. cache_interner c') (into_interner c)"
  "intern_bytes E c bs = Inr (c', key) \<Longrightarrow> into_interner c' = map_option (\<lambda>_. cache_interner c') (into_interner c)"
  by (auto simp: intern_def intern_bytes_def bindO_eq_Inr)

lemma nc_interner_keeps:
  "cache_token E c kind data len = (c', t) \<Longrightarrow> nc_interner c' = nc_interner c"
  "cache_node E c kind cs n = Inr (c', rest, node) \<Longrightarrow> nc_interner c' = nc_interner c"
  by (auto simp: cache_token_def cache_node_def get_cached_node_def Let_def bindO_eq_Inr split: option.splits if_splits)

lemma into_interner_self: "into_interner c = map_option (\<lambda>_. cache_interner c) (into_interner c)"
  by (cases "nc_interner c") (simp_all add: into_interner_def cache_interner_def)

lemma apply_op_interner_owned:
  fixes E :: "('s, 'd, 'i, 'e) env"
  assumes "apply_op E op b = Inr b'"
  shows "into_interner (bl_node_cache b') = map_option (\<lambda>_. builder_interner b') (into_interner (bl_node_cache b))"
proof -
  have keep: "nc_interner (fst (cache_token E c kind data len)) = nc_interner c" for c :: "'i node_cache" and kind data len
    using nc_interner_keeps(1) [of E c kind data len] by (cases "cache_token E c kind data len") simp
  show ?thesis
    using assms into_interner_self [of "bl_node_cache b"]
    by (cases op) (auto simp: builder_token_def token_from_bytes_def static_token_def builder_interner_def keep
      start_node_def finish_node_def revert_to_def start_node_at_def Let_def bindO_eq_Inr case_prod_beta
      push_child_def into_interner_def cache_interner_def split: option.splits if_splits
      dest!: cache_owned [unfolded into_interner_def cache_interner_def] nc_interner_keeps(2))
qed

lemma run_interner_owned:
  "run E ops b = Inr b' \<Longrightarrow>
    into_interner (bl_node_cache b') = map_option (\<lambda>_. builder_interner b') (into_interner (bl_node_cache b))"
proof (induction ops arbitrary: b)
  case Nil
  then show ?case using into_interner_self by (simp add: builder_interner_def)
next
  case (Cons op ops)
  then show ?case by (auto simp: bindO_eq_Inr option.map_comp comp_def dest!: apply_op_interner_owned)
qed

section \<open>The builder's invariant\<close>

text \<open>C3: Whatever calls a client makes on a builder over a well-formed cache, owned or borrowed, the
  builder stays well formed: open nodes point at increasing indices within the children, cached tokens and
  nodes are filed under their own data, and every node's length and hash are those of its children.\<close>
theorem reachable_builder_wf:
  assumes "env_cache_wf E c" "b0 \<in> {from_cache c, with_cache c}" "reachable E b0 b"
  shows "builder_wf E b"
  using assms(3) builder_wf_fresh [OF assms(1,2)] by (rule builder_wf_reachable)

theorem reachable_builder_wf_witness:
  "builder_wf ex_env (start_node (from_cache node_cache_new) Root)"
proof (rule reachable_builder_wf [of _ node_cache_new])
  show "reachable ex_env (from_cache node_cache_new) (start_node (from_cache node_cache_new) Root)"
    by (rule reachable.step, rule reachable.init, rule builder_step.step [where op = "Op_start_node Root"]) simp
qed simp_all

text \<open>In every state a client can bring a builder to, \<open>finish_node\<close> panics only when no node is
  open (its \<open>unwrap\<close>); the range it drains from the children is never out of bounds.\<close>
theorem finish_node_panics_iff:
  assumes "env_cache_wf E c" "b0 \<in> {from_cache c, with_cache c}" "reachable E b0 b"
  shows "finish_node E b = Inl p \<longleftrightarrow> bl_parents b = [] \<and> p = Unwrap_None"
proof (cases "bl_parents b" rule: rev_cases)
  case Nil
  then show ?thesis by (auto simp: finish_node_empty)
next
  case (snoc ps q)
  have "builder_wf E b" using assms(3) builder_wf_fresh [OF assms(1,2)] by (rule builder_wf_reachable)
  with snoc show ?thesis by (cases q) (simp add: finish_node_open split: prod.splits)
qed

theorem finish_node_panics_iff_witness:
  "finish_node ex_env (from_cache node_cache_new :: (test_kind, rust_str token_interner) builder) = Inl Unwrap_None"
proof (subst finish_node_panics_iff)
  show "reachable ex_env (from_cache node_cache_new) (from_cache node_cache_new)" by (rule reachable.init)
qed (auto simp: from_cache_def)

section \<open>The builder implements its specification\<close>

text \<open>C2: From any state without open nodes, every sequence of calls that the frame specification
  (no cache, no indices) accepts is accepted by the builder, leaves exactly the specified children, index
  stack and interner, and is then refused in exactly the ways the specification refuses the next call, as
  long as no two of the nodes involved share kind, length and 32-bit child hash.\<close>
theorem builder_refines_spec:
  assumes "builder_wf E b" "bl_parents b = []" "run_spec E ops (abs_builder b) = Inr s"
    "inj_on gn_head (ran (nc_nodes (bl_node_cache b)) \<union> set (sp_created s))"
  shows "\<exists>b'. run E ops b = Inr b' \<and> bl_children b' = sp_flat s \<and> bl_parents b' = sp_layout s \<and>
    builder_interner b' = sp_interner s \<and> (\<forall>op p. apply_spec E op s = Inl p \<longrightarrow> apply_op E op b' = Inl p)"
proof -
  let ?N = "ran (nc_nodes (bl_node_cache b)) \<union> set (sp_created s)"
  have "simulates E ?N b (abs_builder b)" using assms(1,2) by (simp add: simulates_abs)
  from simulates_run [OF this assms(4,3)] obtain b' where "run E ops b = Inr b'" "simulates E ?N b' s" by auto
  moreover from this(2) have "\<forall>op p. apply_spec E op s = Inl p \<longrightarrow> apply_op E op b' = Inl p"
    using simulates_panic by blast
  ultimately show ?thesis by (auto simp: simulates_def)
qed

text \<open>A parser's calls with a checkpoint: \<open>a + b\<close>, wrapped retroactively.\<close>

definition ex_ops :: "(test_kind, rust_str) op list" where
  "ex_ops = [Op_start_node Root, Op_token Identifier (Str [0x61]), Op_static_token Plus,
     Op_start_node_at \<lparr>cp_parent_idx = 1, cp_child_idx = 0\<rparr> Operation, Op_finish_node, Op_finish_node]"

lemma ex_ops_spec:
  "case run_spec ex_env ex_ops (abs_builder builder_new) of Inl _ \<Rightarrow> False
   | Inr s \<Rightarrow> distinct (map gn_head (sp_created s)) \<and> length (sp_created s) = 2 \<and> sp_frames s = [] \<and> length (sp_base s) = 1"
  by (simp add: ex_ops_def spec_eval intern_eval)

theorem builder_refines_spec_witness:
  "\<exists>b s. run_spec ex_env ex_ops (abs_builder builder_new) = Inr s \<and>
     run ex_env ex_ops builder_new = Inr b \<and> bl_children b = sp_flat s \<and>
     apply_op ex_env Op_finish_node b = Inl Unwrap_None"
proof -
  obtain s where s: "run_spec ex_env ex_ops (abs_builder builder_new) = Inr s"
    "distinct (map gn_head (sp_created s))" "sp_frames s = []"
    using ex_ops_spec by (auto split: sum.splits)
  have "inj_on gn_head (ran (nc_nodes (bl_node_cache (builder_new :: (test_kind, rust_str token_interner) builder)))
      \<union> set (sp_created s))"
    using s(2) by (simp add: distinct_map builder_new_def node_cache_new_def)
  from builder_refines_spec [OF builder_wf_init(1) _ s(1) this] obtain b where
    "run ex_env ex_ops builder_new = Inr b" "bl_children b = sp_flat s"
    "\<forall>op p. apply_spec ex_env op s = Inl p \<longrightarrow> apply_op ex_env op b = Inl p"
    by (auto simp: builder_new_def)
  moreover have "apply_spec ex_env Op_finish_node s = Inl Unwrap_None"
    using s(3) by (simp add: spec_finish_node_def)
  ultimately show ?thesis using s(1) by blast
qed

section \<open>Building a tree\<close>

lemma build_tree:
  assumes "tree_env E valid ok room" "env_cache_wf E (bl_node_cache b)" "bl_parents b = []" "bl_children b = []"
    and "ok (builder_interner b)" "tree_ok E valid (TNode k ts)"
    and "length (leaves (TNode k ts)) \<le> room (builder_interner b)"
    and "\<And>i n. denote E (builder_interner b) (TNode k ts) = Inr (i, Node n) \<Longrightarrow>
      inj_on gn_head (ran (nc_nodes (bl_node_cache b)) \<union> set (subnodes n))"
  shows "\<exists>b' n. run E (events (TNode k ts)) b = Inr b' \<and>
    builder_finish b' = Inr (n, map_option (\<lambda>_. bl_node_cache b') (into_owned (bl_cache b))) \<and>
    represents E (builder_interner b') (TNode k ts) (Node n) \<and>
    green_wf (en_text E) (en_hash E) n \<and> ok (builder_interner b') \<and> env_cache_wf E (bl_node_cache b')"
proof -
  from tree_env.denote_ok(1) [OF assms(1,5,6,7)] obtain i e where
    e: "denote E (builder_interner b) (TNode k ts) = Inr (i, e)" "ok i" "represents E i (TNode k ts) e"
      "element_wf (en_text E) (en_hash E) e" by blast
  obtain n where n: "e = Node n" using e(3) by (cases e) (auto simp: represents.simps(1))
  let ?N = "ran (nc_nodes (bl_node_cache b)) \<union> set (subnodes n)"
  have "denotes E (builder_interner b) [TNode k ts] = Inr (i, [e])" using e(1) by simp
  with _ _ _ obtain b' where b': "run E (events_list [TNode k ts]) b = Inr b'"
    "bl_children b' = bl_children b @ [e]" "builder_interner b' = i" "builder_wf E b'"
  proof (rule run_events_list)
    show "builder_wf E b" using assms(2-4) by (simp add: builder_wf_def)
    show "inj_on gn_head ?N" using assms(8) e(1) n by simp
  qed (use n in auto)
  have "builder_finish b' = Inr (n, into_owned (bl_cache b'))"
    using b'(2) assms(4) n by (simp add: builder_finish_def vec_pop_def vec_last_def)
  moreover have "into_owned (bl_cache b') = map_option (\<lambda>_. bl_node_cache b') (into_owned (bl_cache b))"
    using b'(1) by (rule run_owned)
  ultimately show ?thesis using b' e n by (auto simp: builder_wf_def)
qed

text \<open>C1: Let a tree's leaves carry the data of their kinds, let the interner have room for them, and let no two different
  nodes among those of the tree and those in the cache have the same head, that is the same kind, length and 32-bit hash of their
  children. Then the tree is built by its calls, on a builder over a well-formed cache with nothing open, without a panic: \<open>finish\<close> returns a well-formed
  green tree with the tree's kinds, shape, token data and lengths under the returned interner, and returns the cache exactly
  if the builder owns it. (On equal heads the cache would serve the wrong node, which is a theorem of its own.)\<close>
theorem build_round_trip:
  assumes "tree_env E valid ok room" "env_cache_wf E (bl_node_cache b)" "bl_parents b = []" "bl_children b = []"
    and "ok (builder_interner b)" "tree_ok E valid (TNode k ts)"
    and "length (leaves (TNode k ts)) \<le> room (builder_interner b)"
    and "\<And>i n. denote E (builder_interner b) (TNode k ts) = Inr (i, Node n) \<Longrightarrow>
      inj_on gn_head (ran (nc_nodes (bl_node_cache b)) \<union> set (subnodes n))"
  shows "\<exists>b' n. run E (events (TNode k ts)) b = Inr b' \<and>
    builder_finish b' = Inr (n, map_option (\<lambda>_. bl_node_cache b') (into_owned (bl_cache b))) \<and>
    represents E (builder_interner b') (TNode k ts) (Node n) \<and>
    green_wf (en_text E) (en_hash E) n \<and> ok (builder_interner b') \<and> env_cache_wf E (bl_node_cache b')"
  using assms by (rule build_tree)

text \<open>\<open>a+\<close> as a root node with an identifier and an operator.\<close>

abbreviation ex_tree :: "(test_kind, rust_str) tree" where
  "ex_tree \<equiv> TNode Root [TToken Identifier (Str [0x61]), TStatic Plus]"

theorem build_round_trip_witness:
  "\<exists>b n c. run ex_env (events ex_tree) builder_new = Inr b \<and> builder_finish b = Inr (n, Some c) \<and>
     represents ex_env (builder_interner b) ex_tree (Node n)"
proof -
  let ?b = "builder_new :: (test_kind, rust_str token_interner) builder"
  have "\<exists>b' n. run ex_env (events ex_tree) ?b = Inr b' \<and>
    builder_finish b' = Inr (n, map_option (\<lambda>_. bl_node_cache b') (into_owned (bl_cache ?b))) \<and>
    represents ex_env (builder_interner b') ex_tree (Node n) \<and>
    green_wf (en_text ex_env) (en_hash ex_env) n \<and> interner_ok str_data str_valid (builder_interner b') \<and>
    env_cache_wf ex_env (bl_node_cache b')"
  proof (rule build_round_trip [OF tree_env_test])
    fix i n
    assume "denote ex_env (builder_interner ?b) ex_tree = Inr (i, Node n)"
    then show "inj_on gn_head (ran (nc_nodes (bl_node_cache ?b)) \<union> set (subnodes n))"
      by (auto simp: spec_eval bindO_eq_Inr)
  qed (simp_all add: spec_eval interner_room_def N_INDICES_def u32_max_def new_interner_def str_valid_def
      builder_interner_def interner_ok_new [unfolded new_interner_def] cache_wf_def)
  then show ?thesis by (auto simp: builder_new_def)
qed

section \<open>The text of a built tree\<close>

lemma represents_len:
  assumes "represents E i t e" "sum_list (map (\<lambda>l. length (td_as_bytes (en_data E) (the (leaf_data E l)))) (leaves t)) \<le> u32_max"
  shows "element_len e = sum_list (map (\<lambda>l. length (td_as_bytes (en_data E) (the (leaf_data E l)))) (leaves t))"
proof -
  let ?len = "\<lambda>l. length (td_as_bytes (en_data E) (the (leaf_data E l)))"
  have "map gt_data_len (element_tokens e) = map (\<lambda>l. as_u32 (?len l)) (leaves t)"
    using represents_tokens(1) [OF assms(1)] by (simp add: comp_def)
  then have "map (unat \<circ> gt_data_len) (element_tokens e) = map (\<lambda>l. unat (as_u32 (?len l))) (leaves t)"
    by (metis (no_types, lifting) comp_apply list.map_comp map_eq_conv)
  also have "\<dots> = map ?len (leaves t)"
  proof (rule map_cong [OF refl], rule unat_as_u32)
    fix l assume "l \<in> set (leaves t)"
    then have "?len l \<le> sum_list (map ?len (leaves t))" by (simp add: member_le_sum_list)
    with assms(2) show "?len l \<le> u32_max" by simp
  qed
  finally show ?thesis by (simp add: element_len_def tokens_len_def comp_def)
qed

text \<open>The tokens of a green element that represents a tree resolve, from left to right, to the data of
  the tree's leaves, and its stored length is the number of bytes of that data, as long as it fits 32 bits.\<close>
theorem represented_text:
  assumes "text_size (en_text E)" "represents E i t e" "element_wf (en_text E) (en_hash E) e"
    and "sum_list (map (\<lambda>l. length (td_as_bytes (en_data E) (the (leaf_data E l)))) (leaves t)) \<le> u32_max"
  shows "map (green_resolve E i) (element_tokens e) = map (\<lambda>l. Inr (the (leaf_data E l))) (leaves t) \<and>
    unat (ge_text_len e) = sum_list (map (\<lambda>l. length (td_as_bytes (en_data E) (the (leaf_data E l)))) (leaves t))"
proof -
  have "map (green_resolve E i) (element_tokens e) = map (\<lambda>l. Inr (the (leaf_data E l))) (leaves t)"
    using represents_tokens(1) [OF assms(2)] by (simp add: comp_def)
  moreover have "unat (ge_text_len e) = element_len e"
    using text_size.element_len_exact [OF assms(1,3)] represents_len [OF assms(2,4)] assms(4) by simp
  ultimately show ?thesis using represents_len [OF assms(2,4)] by simp
qed

theorem represented_text_witness:
  "\<exists>i n. denote ex_env new_interner ex_tree = Inr (i, Node n) \<and>
     map (green_resolve ex_env i) (green_tokens n) = [Inr (Str [0x61]), Inr (Str [0x2B])] \<and>
     unat (gn_text_len n) = 2"
proof -
  have "tree_ok ex_env str_valid ex_tree" by (simp add: str_valid_def)
  moreover have "length (leaves ex_tree) \<le> interner_room (new_interner :: rust_str token_interner)"
    by (simp add: interner_room_def N_INDICES_def u32_max_def new_interner_def)
  ultimately have "\<exists>i' e. denote ex_env new_interner ex_tree = Inr (i', e) \<and> represents ex_env i' ex_tree e \<and>
      element_wf (en_text ex_env) (en_hash ex_env) e"
    using tree_env.denote_ok(1) [OF tree_env_test interner_ok_new] by blast
  then obtain i e where e: "denote ex_env new_interner ex_tree = Inr (i, e)" "represents ex_env i ex_tree e"
    "element_wf (en_text ex_env) (en_hash ex_env) e" by blast
  obtain n where n: "e = Node n" using e(2) by (cases e) (auto simp: represents.simps(1))
  have "text_size (en_text ex_env)" by (simp add: documented.text_size_axioms)
  from represented_text [OF this e(2,3)] e(1) n show ?thesis
    by (auto simp: str_data_def u32_max_def)
qed

section \<open>Checkpoints\<close>

lemmas node_eval = finish_node_def start_node_def cache_node_def slice_from_def get_cached_node_def
  push_child_def CHILDREN_CACHE_THRESHOLD_def from_head_and_children_def builder_new_def node_cache_new_def
  Let_def vec_pop_def vec_last_def

lemma ex_empty_node:
  "\<exists>b. run ex_env (events_list [TNode Operation []]) ex_builder = Inr b"
  by (simp add: node_eval)

lemma ex_open_node:
  "\<exists>b. run ex_env (events_list [TNode Operation []] @ [Op_start_node Root]) ex_builder = Inr b"
  by (simp add: node_eval)

lemma ex_outer_node:
  "\<exists>b. run ex_env (events_list [TNode Operation []] @ [Op_finish_node]) (start_node ex_builder Root) = Inr b"
  by (simp add: node_eval)

text \<open>C14: Starting a node at a checkpoint after any balanced calls does to the builder, its cache included,
  exactly what starting the node at the time of the checkpoint and then making the calls would have done,
  panics included.\<close>
theorem start_node_at_wraps:
  assumes "builder_wf E b"
  shows "bindO (run E (events_list ts) b) (\<lambda>b'. start_node_at b' (builder_checkpoint b) k) =
    run E (Op_start_node k # events_list ts) b"
proof -
  let ?ps = "bl_parents b @ [(k, length (bl_children b))]"
  have "run E (Op_start_node k # events_list ts) b = with_parents ?ps (run E (events_list ts) b)"
    using run_events_parents(2) [of E ts ?ps b] by (simp add: start_node_def)
  moreover have "start_node_at b' (builder_checkpoint b) k = Inr (b'\<lparr>bl_parents := ?ps\<rparr>)"
    if "run E (events_list ts) b = Inr b'" for b'
    using start_node_at_own [OF assms run_events_keeps_parents [OF that]] run_events_children(2) [OF that] by auto
  ultimately show ?thesis by (cases "run E (events_list ts) b") simp_all
qed

theorem start_node_at_wraps_witness:
  "bindO (run ex_env (events_list [ex_tree, ex_tree]) ex_builder) (\<lambda>b'. start_node_at b' (builder_checkpoint ex_builder) Operation) =
   run ex_env (Op_start_node Operation # events_list [ex_tree, ex_tree]) ex_builder"
  by (rule start_node_at_wraps [OF builder_wf_init(1)])

text \<open>C15: Reverting to a checkpoint after any balanced calls restores the open nodes and the children to
  what they were; only the cache and the interner keep what they learnt.\<close>
theorem revert_to_undoes:
  assumes "builder_wf E b" "run E (events_list ts) b = Inr b'"
  shows "revert_to b' (builder_checkpoint b) = Inr (b'\<lparr>bl_parents := bl_parents b, bl_children := bl_children b\<rparr>)"
  using revert_to_extended [OF assms(1), of b' "[]"] run_events_keeps_parents [OF assms(2)]
    run_events_children(2) [OF assms(2)] by auto

theorem revert_to_undoes_witness:
  "\<exists>b'. run ex_env (events_list [TNode Operation []]) ex_builder = Inr b' \<and>
     revert_to b' (builder_checkpoint ex_builder) = Inr (b'\<lparr>bl_parents := [], bl_children := []\<rparr>)"
  using revert_to_undoes [OF builder_wf_init(1)] ex_empty_node by (fastforce simp: builder_new_def)

text \<open>A checkpoint is of no use once the node that was innermost when it was taken is finished: both
  \<open>revert_to\<close> and \<open>start_node_at\<close> refuse it, whatever balanced calls came before.\<close>
theorem checkpoint_outlived:
  assumes "builder_wf E b" "run E (events_list ts @ [Op_finish_node]) b = Inr b'"
  shows "revert_to b' (builder_checkpoint b) = Inl Checkpoint_parents \<and>
    start_node_at b' (builder_checkpoint b) k = Inl Checkpoint_parents"
proof -
  obtain b1 where b1: "run E (events_list ts) b = Inr b1" "finish_node E b1 = Inr b'"
    using assms(2) by (auto simp: run_append bindO_eq_Inr)
  have "bl_parents b1 = bl_parents b" using b1(1) by (rule run_events_keeps_parents)
  moreover obtain p ps where "bl_parents b1 = ps @ [p]"
    using b1(2) finish_node_empty [of b1 E] by (cases "bl_parents b1" rule: rev_cases) auto
  moreover from this have "bl_parents b' = ps"
    using b1(2) by (cases p) (auto simp: finish_node_def bindO_eq_Inr case_prod_beta)
  ultimately have "length (bl_parents b) = Suc (length (bl_parents b'))"
    by (metis length_append_singleton)
  then show ?thesis by (simp add: revert_to_def start_node_at_def Let_def)
qed

theorem checkpoint_outlived_witness:
  "\<exists>b'. run ex_env (events_list [TNode Operation []] @ [Op_finish_node]) (start_node ex_builder Root) = Inr b' \<and>
     revert_to b' (builder_checkpoint (start_node ex_builder Root)) = Inl Checkpoint_parents"
proof -
  obtain b where b: "run ex_env (events_list [TNode Operation []] @ [Op_finish_node]) (start_node ex_builder Root) = Inr b"
    using ex_outer_node by blast
  have "builder_wf ex_env (start_node ex_builder Root)" by (rule builder_wf_start_node [OF builder_wf_init(1)])
  from checkpoint_outlived [OF this b] b show ?thesis by blast
qed

text \<open>C16: \<open>revert_to\<close> refuses a checkpoint when a node opened after some element that was added since is
  still open, although its documentation promises to delete unfinished nodes: the assertion looks at the
  innermost open node before the truncation instead of after it.\<close>
theorem revert_to_unfinished_panics:
  assumes "builder_wf E b" "ts \<noteq> []" "run E (events_list ts @ [Op_start_node k]) b = Inr b'"
  shows "revert_to b' (builder_checkpoint b) = Inl Checkpoint_first_child"
proof -
  obtain b1 where b1: "run E (events_list ts) b = Inr b1" "b' = start_node b1 k"
    using assms(3) by (auto simp: run_append bindO_eq_Inr)
  obtain es where "bl_children b1 = bl_children b @ es" "length es = length ts"
    using run_events_children(2) [OF b1(1)] by blast
  with b1 assms(2) run_events_keeps_parents [OF b1(1)] show ?thesis
    using revert_to_extended [OF assms(1), of b' "[(k, length (bl_children b1))]" es]
    by (simp add: start_node_def)
qed

theorem revert_to_unfinished_panics_witness:
  "\<exists>b'. run ex_env (events_list [TNode Operation []] @ [Op_start_node Root]) ex_builder = Inr b' \<and>
     revert_to b' (builder_checkpoint ex_builder) = Inl Checkpoint_first_child"
  using revert_to_unfinished_panics [OF builder_wf_init(1), of "[TNode Operation []]"] ex_open_node by blast

section \<open>The cache identifies nodes by their heads\<close>

text \<open>C17: When two lists of at most three children have the same total length and the same 32-bit child
  hash, a cache that has built a node from the first serves that node, with the first list of children, for
  the second: the cache's key leaves the children out.\<close>
theorem cache_serves_collision:
  assumes "length cs \<le> CHILDREN_CACHE_THRESHOLD" "length cs' \<le> CHILDREN_CACHE_THRESHOLD"
    and "text_len_sum (en_text E) cs = text_len_sum (en_text E) cs'"
    and "child_hash (en_hash E) cs = child_hash (en_hash E) cs'"
    and "nc_nodes c (gn_head (built_node E k cs)) = None"
  shows "\<exists>c' n. cache_node E c k cs 0 = Inr (c', [], n) \<and> gn_children n = cs \<and> cache_node E c' k cs' 0 = Inr (c', [], n)"
proof -
  have "gn_head (built_node E k cs') = gn_head (built_node E k cs)"
    using assms(3,4) by (simp add: built_node_def green_node_new_def)
  with assms(1,2,5) show ?thesis
    by (simp add: cache_node_serve cache_serve_def)
qed

theorem cache_serves_collision_witness:
  "\<exists>c' n. cache_node ex_env (node_cache_new) Root [Node (built_node ex_env Root [])] 0 = Inr (c', [], n) \<and>
     cache_node ex_env c' Root [] 0 = Inr (c', [], n) \<and> gn_children n \<noteq> []"
  using cache_serves_collision [of "[Node (built_node ex_env Root [])]" "[]" ex_env "node_cache_new" Root]
  by (auto simp: CHILDREN_CACHE_THRESHOLD_def text_len_sum_def child_hash_def node_cache_new_def documented_text_ops_def)

end
