(* ===== verification/Red_Tree.thy ===== *)
theory Red_Tree
  imports Syntax_Trait
begin

text \<open>
  The red tree, \<open>cstree/src/syntax/{node,token,element}.rs\<close>: the heap of lazily created
  \<open>NodeData\<close>, the creation of roots and children, the memoising \<open>get_or_add_node\<close> and
  \<open>get_or_add_element\<close>, node data, and the accessors. A heap holds the nodes of one tree; a
  \<open>SyntaxNode\<close> is a pointer to its \<open>NodeData\<close>, here the position in the heap, so pointer
  equality is equality of positions. One thread at a time; the reference count, the freeing
  of whole trees and the interleaving of threads are in \<open>Red_Shared\<close>.
\<close>

section \<open>The heap\<close>

text \<open>\<open>enum Kind\<close>: the root carries the tree's optional resolver.\<close>

datatype 'i red_kind =
    KRoot green_node "'i option"
  | KChild (kc_parent: nat) (kc_index: u32) (kc_offset: text_size)

text \<open>\<open>SyntaxToken { parent, index, offset }\<close>, compared field by field.\<close>

record syntax_token =
  st_parent :: nat
  st_index :: u32
  st_offset :: text_size

type_synonym syntax_element = "(nat, syntax_token) node_or_token"

text \<open>\<open>NodeData\<close>: the lock of each child slot is not represented.\<close>

record ('i, 'x) node_data =
  nd_kind :: "'i red_kind"
  nd_green :: green_node
  nd_data :: "'x option"
  nd_children :: "syntax_element option list"

type_synonym ('i, 'x) heap = "('i, 'x) node_data list"

text \<open>A computation on the heap, and the computations that only read it.\<close>

type_synonym ('i, 'x, 'a) red = "('i, 'x) heap \<Rightarrow> ('a \<times> ('i, 'x) heap) outcome"

definition returnR :: "'a \<Rightarrow> ('i, 'x, 'a) red" where
  "returnR a = (\<lambda>h. Inr (a, h))"

definition bindR :: "('i, 'x, 'a) red \<Rightarrow> ('a \<Rightarrow> ('i, 'x, 'b) red) \<Rightarrow> ('i, 'x, 'b) red" where
  "bindR m f = (\<lambda>h. bindO (m h) (\<lambda>(a, h'). f a h'))"

definition readR :: "(('i, 'x) heap \<Rightarrow> 'a outcome) \<Rightarrow> ('i, 'x, 'a) red" where
  "readR f = (\<lambda>h. bindO (f h) (\<lambda>a. Inr (a, h)))"

definition panicR :: "panic \<Rightarrow> ('i, 'x, 'a) red" where
  "panicR p = (\<lambda>h. Inl p)"

lemma bindR_cong [fundef_cong]:
  "m h = m' h \<Longrightarrow> (\<And>a h'. m' h = Inr (a, h') \<Longrightarrow> f a h' = f' a h') \<Longrightarrow> bindR m f h = bindR m' f' h"
  by (cases "m' h") (auto simp: bindR_def)

text \<open>Following a node pointer.\<close>

definition node_data_of :: "('i, 'x) heap \<Rightarrow> nat \<Rightarrow> ('i, 'x) node_data outcome" where
  "node_data_of h n = (if n < length h then Inr (h ! n) else Inl Undefined_behaviour)"

fun as_child :: "'i red_kind \<Rightarrow> (nat \<times> u32 \<times> text_size) option" where
  "as_child (KRoot _ _) = None"
| "as_child (KChild parent index offset) = Some (parent, index, offset)"

section \<open>Creation\<close>

definition node_data_new :: "'i red_kind \<Rightarrow> green_node \<Rightarrow> nat \<Rightarrow> ('i, 'x) node_data" where
  "node_data_new kind green n_children =
     \<lparr>nd_kind = kind, nd_green = green, nd_data = None, nd_children = replicate n_children None\<rparr>"

text \<open>A new tree: its heap holds the root only, at position 0.\<close>

definition make_new_root :: "green_node \<Rightarrow> 'i option \<Rightarrow> nat \<times> ('i, 'x) heap" where
  "make_new_root green resolver =
     (let n_children = iter_count (gn_children_iter green)
      in (0, [node_data_new (KRoot green resolver) green n_children]))"

definition new_root :: "green_node \<Rightarrow> nat \<times> ('i, 'x) heap" where
  "new_root green = make_new_root green None"

definition new_root_with_resolver :: "green_node \<Rightarrow> 'i \<Rightarrow> nat \<times> ('i, 'x) heap" where
  "new_root_with_resolver green resolver = make_new_root green (Some resolver)"

definition new_child :: "green_node \<Rightarrow> nat \<Rightarrow> u32 \<Rightarrow> text_size \<Rightarrow> ('i, 'x) heap \<Rightarrow> nat \<times> ('i, 'x) heap" where
  "new_child green parent index offset h =
     (let n_children = iter_count (gn_children_iter green)
      in (length h, h @ [node_data_new (KChild parent index offset) green n_children]))"

definition syntax_token_new :: "nat \<Rightarrow> u32 \<Rightarrow> text_size \<Rightarrow> syntax_token" where
  "syntax_token_new parent index offset = \<lparr>st_parent = parent, st_index = index, st_offset = offset\<rparr>"

fun syntax_element_new :: "green_element \<Rightarrow> nat \<Rightarrow> u32 \<Rightarrow> text_size \<Rightarrow> ('i, 'x) heap \<Rightarrow> syntax_element \<times> ('i, 'x) heap" where
  "syntax_element_new (Node node) parent index offset h =
     (case new_child node parent index offset h of (n, h') \<Rightarrow> (Node n, h'))"
| "syntax_element_new (Token _) parent index offset h = (Token (syntax_token_new parent index offset), h)"

section \<open>Accessors\<close>

definition node_green :: "('i, 'x) heap \<Rightarrow> nat \<Rightarrow> green_node outcome" where
  "node_green h n = bindO (node_data_of h n) (\<lambda>d. Inr (nd_green d))"

definition node_syntax_kind :: "('i, 'x) heap \<Rightarrow> nat \<Rightarrow> u32 outcome" where
  "node_syntax_kind h n = bindO (node_green h n) (\<lambda>g. Inr (gn_kind g))"

definition node_kind :: "('s, 'd, 'k, 'e) env \<Rightarrow> ('i, 'x) heap \<Rightarrow> nat \<Rightarrow> 's outcome" where
  "node_kind E h n = bindO (node_syntax_kind h n) (sx_from_raw (en_syntax E))"

definition node_text_range :: "('s, 'd, 'k, 'e) env \<Rightarrow> ('i, 'x) heap \<Rightarrow> nat \<Rightarrow> text_range outcome" where
  "node_text_range E h n = bindO (node_data_of h n) (\<lambda>d.
     let offset = (case as_child (nd_kind d) of Some (_, _, it) \<Rightarrow> it | None \<Rightarrow> 0)
     in Inr (tr_at (en_text E) offset (gn_text_len (nd_green d))))"

definition node_parent :: "('i, 'x) heap \<Rightarrow> nat \<Rightarrow> nat option outcome" where
  "node_parent h n = bindO (node_data_of h n) (\<lambda>d.
     case nd_kind d of KRoot _ _ \<Rightarrow> Inr None | KChild parent _ _ \<Rightarrow> Inr (Some parent))"

definition arity :: "('i, 'x) heap \<Rightarrow> nat \<Rightarrow> nat outcome" where
  "arity h n = bindO (node_green h n) (\<lambda>g. Inr (length (filter (\<lambda>e. as_node e \<noteq> None) (gn_children g))))"

definition arity_with_tokens :: "('i, 'x) heap \<Rightarrow> nat \<Rightarrow> nat outcome" where
  "arity_with_tokens h n = bindO (node_data_of h n) (\<lambda>d. Inr (length (nd_children d)))"

text \<open>\<open>SyntaxToken::green\<close>: the child of the parent's green node at the token's index.\<close>

definition token_green :: "('i, 'x) heap \<Rightarrow> syntax_token \<Rightarrow> green_token outcome" where
  "token_green h t = bindO (node_green h (st_parent t)) (\<lambda>g.
     bindO (unwrap (fst (iter_nth (gn_children_iter g) (unat (st_index t))))) (\<lambda>e. unwrap (as_token e)))"

definition token_syntax_kind :: "('i, 'x) heap \<Rightarrow> syntax_token \<Rightarrow> u32 outcome" where
  "token_syntax_kind h t = bindO (token_green h t) (\<lambda>g. Inr (gt_kind g))"

definition token_kind :: "('s, 'd, 'k, 'e) env \<Rightarrow> ('i, 'x) heap \<Rightarrow> syntax_token \<Rightarrow> 's outcome" where
  "token_kind E h t = bindO (token_syntax_kind h t) (sx_from_raw (en_syntax E))"

definition token_text_range :: "('s, 'd, 'k, 'e) env \<Rightarrow> ('i, 'x) heap \<Rightarrow> syntax_token \<Rightarrow> text_range outcome" where
  "token_text_range E h t = bindO (token_green h t) (\<lambda>g.
     Inr (tr_at (en_text E) (st_offset t) (gt_data_len g)))"

fun element_text_range :: "('s, 'd, 'k, 'e) env \<Rightarrow> ('i, 'x) heap \<Rightarrow> syntax_element \<Rightarrow> text_range outcome" where
  "element_text_range E h (Node it) = node_text_range E h it"
| "element_text_range E h (Token it) = token_text_range E h it"

fun element_syntax_kind :: "('i, 'x) heap \<Rightarrow> syntax_element \<Rightarrow> u32 outcome" where
  "element_syntax_kind h (Node it) = node_syntax_kind h it"
| "element_syntax_kind h (Token it) = token_syntax_kind h it"

fun element_kind :: "('s, 'd, 'k, 'e) env \<Rightarrow> ('i, 'x) heap \<Rightarrow> syntax_element \<Rightarrow> 's outcome" where
  "element_kind E h (Node it) = node_kind E h it"
| "element_kind E h (Token it) = token_kind E h it"

fun element_parent :: "('i, 'x) heap \<Rightarrow> syntax_element \<Rightarrow> nat option outcome" where
  "element_parent h (Node it) = node_parent h it"
| "element_parent h (Token it) = Inr (Some (st_parent it))"

section \<open>Node data\<close>

definition update_node :: "('i, 'x) heap \<Rightarrow> nat \<Rightarrow> ('i, 'x) node_data \<Rightarrow> ('i, 'x) heap" where
  "update_node h n d = h[n := d]"

definition set_data :: "nat \<Rightarrow> 'x \<Rightarrow> ('i, 'x, 'x) red" where
  "set_data n x = (\<lambda>h. bindO (node_data_of h n) (\<lambda>d. Inr (x, update_node h n (d\<lparr>nd_data := Some x\<rparr>))))"

text \<open>\<open>Err\<close> (here \<open>Inl\<close>) returns the data that was not stored.\<close>

definition try_set_data :: "nat \<Rightarrow> 'x \<Rightarrow> ('i, 'x, 'x + 'x) red" where
  "try_set_data n x = (\<lambda>h. bindO (node_data_of h n) (\<lambda>d.
     if nd_data d \<noteq> None then Inr (Inl x, h)
     else Inr (Inr x, update_node h n (d\<lparr>nd_data := Some x\<rparr>))))"

definition get_data :: "('i, 'x) heap \<Rightarrow> nat \<Rightarrow> 'x option outcome" where
  "get_data h n = bindO (node_data_of h n) (\<lambda>d. Inr (nd_data d))"

definition clear_data :: "nat \<Rightarrow> ('i, 'x, unit) red" where
  "clear_data n = (\<lambda>h. bindO (node_data_of h n) (\<lambda>d. Inr ((), update_node h n (d\<lparr>nd_data := None\<rparr>))))"

section \<open>Child slots\<close>

text \<open>\<open>SyntaxNode::read\<close>; the access to the slot is unchecked.\<close>

definition read_slot :: "('i, 'x) heap \<Rightarrow> nat \<Rightarrow> nat \<Rightarrow> syntax_element option outcome" where
  "read_slot h n index = bindO (node_data_of h n) (\<lambda>d.
     if index < length (nd_children d) then Inr (nd_children d ! index) else Inl Undefined_behaviour)"

text \<open>
  \<open>SyntaxNode::try_write\<close>. When the slot is taken, a node that was just created is freed
  again, which undoes the allocation at the end of the heap.
\<close>

definition try_write :: "nat \<Rightarrow> nat \<Rightarrow> syntax_element \<Rightarrow> ('i, 'x, unit) red" where
  "try_write n index elem = (\<lambda>h. bindO (read_slot h n index) (\<lambda>slot.
     case slot of
       None \<Rightarrow> bindO (node_data_of h n) (\<lambda>d.
         Inr ((), update_node h n (d\<lparr>nd_children := (nd_children d)[index := Some elem]\<rparr>)))
     | Some _ \<Rightarrow> (case elem of Node _ \<Rightarrow> Inr ((), butlast h) | Token _ \<Rightarrow> Inr ((), h))))"

text \<open>The debug assertion of the two functions below.\<close>

definition check_offset :: "('s, 'd, 'k, 'e) env \<Rightarrow> ('i, 'x) heap \<Rightarrow> syntax_element \<Rightarrow> text_size \<Rightarrow> unit outcome" where
  "check_offset E h elem offset =
     (if en_debug E then
        bindO (element_text_range E h elem) (\<lambda>r. if tr_start r = offset then Inr () else Inl Assertion_failed)
      else Inr ())"

definition get_or_add_node :: "('s, 'd, 'k, 'e) env \<Rightarrow> nat \<Rightarrow> green_node \<Rightarrow> nat \<Rightarrow> text_size \<Rightarrow> ('i, 'x, syntax_element) red" where
  "get_or_add_node E n node index offset = (\<lambda>h. bindO (read_slot h n index) (\<lambda>slot.
     case slot of
       Some elem \<Rightarrow> bindO (check_offset E h elem offset) (\<lambda>_. Inr (elem, h))
     | None \<Rightarrow>
         (case new_child node n (as_u32 index) offset h of (child, h1) \<Rightarrow>
            bindO (try_write n index (Node child) h1) (\<lambda>(_, h2).
            bindO (read_slot h2 n index) (\<lambda>s. bindO (unwrap s) (\<lambda>elem. Inr (elem, h2)))))))"

definition get_or_add_element :: "('s, 'd, 'k, 'e) env \<Rightarrow> nat \<Rightarrow> green_element \<Rightarrow> nat \<Rightarrow> text_size \<Rightarrow> ('i, 'x, syntax_element) red" where
  "get_or_add_element E n element index offset = (\<lambda>h. bindO (read_slot h n index) (\<lambda>slot.
     case slot of
       Some elem \<Rightarrow> bindO (check_offset E h elem offset) (\<lambda>_. Inr (elem, h))
     | None \<Rightarrow>
         (case syntax_element_new element n (as_u32 index) offset h of (child, h1) \<Rightarrow>
            bindO (try_write n index child h1) (\<lambda>(_, h2).
            bindO (read_slot h2 n index) (\<lambda>s. bindO (unwrap s) (\<lambda>elem. Inr (elem, h2)))))))"

end
