(* ===== verification/Red_Invariant.thy ===== *)
theory Red_Invariant
  imports Red_Tree
begin

text \<open>
  The invariant of the red tree's heap, and the proof that memoising a child keeps it: every
  node sits in the slot of its parent that its index names, above the green child of that
  index, at the offset that the lengths of the children before it add up to.
\<close>

section \<open>The invariant\<close>

text \<open>Where a node's text starts, and where its \<open>i\<close>-th child's does, as stored, in bytes.\<close>

definition node_start :: "('i, 'x) node_data \<Rightarrow> nat" where
  "node_start d = (case nd_kind d of KRoot _ _ \<Rightarrow> 0 | KChild _ _ offset \<Rightarrow> unat offset)"

definition node_children :: "('i, 'x) node_data \<Rightarrow> green_element list" where
  "node_children d = gn_children (nd_green d)"

definition child_start :: "('i, 'x) node_data \<Rightarrow> nat \<Rightarrow> nat" where
  "child_start d i = node_start d + sum_list (map element_len (take i (node_children d)))"

text \<open>No node has more children than a \<open>u32\<close> index can name.\<close>

definition arity_ok :: "green_node \<Rightarrow> bool" where
  "arity_ok g \<longleftrightarrow> (\<forall>n \<in> set (subnodes g). length (gn_children n) \<le> u32_max)"

text \<open>The green trees a red tree can be put on: their text and their arities fit 32 bits.\<close>

definition green_fits :: "('s, 'd, 'i, 'e) env \<Rightarrow> green_node \<Rightarrow> bool" where
  "green_fits E g \<longleftrightarrow> green_wf (en_text E) (en_hash E) g \<and> arity_ok g \<and> green_len g \<le> u32_max"

definition slot_ok :: "('i, 'x) heap \<Rightarrow> nat \<Rightarrow> nat \<Rightarrow> syntax_element \<Rightarrow> bool" where
  "slot_ok h n i e \<longleftrightarrow>
     (case e of
        Node c \<Rightarrow> c < length h \<and> (\<exists>offset. nd_kind (h ! c) = KChild n (as_u32 i) offset)
      | Token t \<Rightarrow> t = \<lparr>st_parent = n, st_index = as_u32 i, st_offset = as_u32 (child_start (h ! n) i)\<rparr> \<and>
                   (\<exists>g. node_children (h ! n) ! i = Token g))"

definition kind_ok :: "('i, 'x) heap \<Rightarrow> nat \<Rightarrow> bool" where
  "kind_ok h n \<longleftrightarrow>
     (case nd_kind (h ! n) of
        KRoot _ _ \<Rightarrow> n = 0
      | KChild p i offset \<Rightarrow> p < n \<and> unat i < length (node_children (h ! p)) \<and>
          node_children (h ! p) ! unat i = Node (nd_green (h ! n)) \<and>
          nd_children (h ! p) ! unat i = Some (Node n) \<and> unat offset = child_start (h ! p) (unat i))"

definition node_ok :: "('s, 'd, 'i, 'e) env \<Rightarrow> ('j, 'x) heap \<Rightarrow> nat \<Rightarrow> bool" where
  "node_ok E h n \<longleftrightarrow>
     green_wf (en_text E) (en_hash E) (nd_green (h ! n)) \<and> arity_ok (nd_green (h ! n)) \<and>
     node_start (h ! n) + green_len (nd_green (h ! n)) \<le> u32_max \<and>
     length (nd_children (h ! n)) = length (node_children (h ! n)) \<and> kind_ok h n \<and>
     (\<forall>i < length (node_children (h ! n)). \<forall>e. nd_children (h ! n) ! i = Some e \<longrightarrow> slot_ok h n i e)"

definition red_wf :: "('s, 'd, 'i, 'e) env \<Rightarrow> green_node \<Rightarrow> ('j, 'x) heap \<Rightarrow> bool" where
  "red_wf E g h \<longleftrightarrow> h \<noteq> [] \<and> (\<exists>r. nd_kind (h ! 0) = KRoot g r) \<and> nd_green (h ! 0) = g \<and> (\<forall>n < length h. node_ok E h n)"

text \<open>A heap that only grew: no node changed but for slots that were empty.\<close>

definition heap_le :: "('i, 'x) heap \<Rightarrow> ('i, 'x) heap \<Rightarrow> bool" where
  "heap_le h h' \<longleftrightarrow> length h \<le> length h' \<and>
     (\<forall>n < length h. nd_kind (h' ! n) = nd_kind (h ! n) \<and> nd_green (h' ! n) = nd_green (h ! n) \<and>
        nd_data (h' ! n) = nd_data (h ! n) \<and> length (nd_children (h' ! n)) = length (nd_children (h ! n)) \<and>
        (\<forall>i < length (nd_children (h ! n)). \<forall>e. nd_children (h ! n) ! i = Some e \<longrightarrow> nd_children (h' ! n) ! i = Some e))"

lemma heap_le_refl [simp]: "heap_le h h"
  by (simp add: heap_le_def)

lemma heap_le_trans [trans]: "heap_le h1 h2 \<Longrightarrow> heap_le h2 h3 \<Longrightarrow> heap_le h1 h3"
  by (auto simp: heap_le_def)

lemma heap_le_node:
  assumes "heap_le h h'" "n < length h"
  shows "n < length h'" "nd_kind (h' ! n) = nd_kind (h ! n)" "nd_green (h' ! n) = nd_green (h ! n)"
    "node_start (h' ! n) = node_start (h ! n)" "node_children (h' ! n) = node_children (h ! n)"
    "child_start (h' ! n) i = child_start (h ! n) i"
  using assms by (auto simp: heap_le_def node_start_def node_children_def child_start_def)

text \<open>\<open>e\<close> is the memoised \<open>i\<close>-th child of \<open>n\<close>.\<close>

definition child_at :: "('i, 'x) heap \<Rightarrow> nat \<Rightarrow> nat \<Rightarrow> syntax_element \<Rightarrow> bool" where
  "child_at h n i e \<longleftrightarrow> n < length h \<and> i < length (nd_children (h ! n)) \<and> nd_children (h ! n) ! i = Some e"

lemma heap_le_child_at: "heap_le h h' \<Longrightarrow> child_at h n i e \<Longrightarrow> child_at h' n i e"
  by (auto simp: heap_le_def child_at_def)

lemma child_at_fun: "child_at h n i e \<Longrightarrow> child_at h n i e' \<Longrightarrow> e = e'"
  by (simp add: child_at_def)

section \<open>Consequences\<close>

lemma red_wf_node: "red_wf E g h \<Longrightarrow> n < length h \<Longrightarrow> node_ok E h n"
  by (simp add: red_wf_def)

lemma node_ok_length: "node_ok E h n \<Longrightarrow> length (nd_children (h ! n)) = length (node_children (h ! n))"
  by (simp add: node_ok_def)

lemma arity_le: "node_ok E h n \<Longrightarrow> length (node_children (h ! n)) \<le> u32_max"
  by (cases "nd_green (h ! n)") (auto simp: node_ok_def arity_ok_def node_children_def)

lemma child_start_le:
  assumes "i < length (node_children d)"
  shows "child_start d i + element_len (node_children d ! i) \<le> node_start d + green_len (nd_green d)"
proof -
  have "sum_list (map element_len (take (Suc i) (node_children d))) \<le> green_len (nd_green d)"
    using sum_list_take_le [of "Suc i" "map element_len (node_children d)"]
    by (cases "nd_green d") (simp add: green_len_GreenNode node_children_def take_map)
  with assms show ?thesis by (simp add: child_start_def take_Suc_conv_app_nth)
qed

lemma child_start_mono: "i \<le> j \<Longrightarrow> child_start d i \<le> child_start d j"
proof (induction rule: dec_induct)
  case (step n)
  then show ?case by (cases "n < length (node_children d)") (simp_all add: child_start_def take_Suc_conv_app_nth)
qed simp

lemma child_start_Suc:
  "i < length (node_children d) \<Longrightarrow> child_start d (Suc i) = child_start d i + element_len (node_children d ! i)"
  by (simp add: child_start_def take_Suc_conv_app_nth)

lemma child_start_0 [simp]: "child_start d 0 = node_start d"
  by (simp add: child_start_def)

lemma child_start_end: "child_start d (length (node_children d)) = node_start d + green_len (nd_green d)"
  by (cases "nd_green d") (simp add: child_start_def node_children_def green_len_GreenNode)

lemma node_ok_child:
  assumes "node_ok E h n" "i < length (node_children (h ! n))"
  shows "element_wf (en_text E) (en_hash E) (node_children (h ! n) ! i)"
    "child_start (h ! n) i + element_len (node_children (h ! n) ! i) \<le> u32_max"
    "\<And>g. node_children (h ! n) ! i = Node g \<Longrightarrow> arity_ok g"
proof -
  obtain hd cs where g: "nd_green (h ! n) = GreenNode hd cs" by (cases "nd_green (h ! n)")
  with assms show "element_wf (en_text E) (en_hash E) (node_children (h ! n) ! i)"
    by (auto simp: node_ok_def node_children_def)
  show "child_start (h ! n) i + element_len (node_children (h ! n) ! i) \<le> u32_max"
    using child_start_le [OF assms(2)] assms(1) by (auto simp: node_ok_def)
  fix m assume "node_children (h ! n) ! i = Node m"
  then have "Node m \<in> set cs" using assms(2) g by (metis green_node.sel(2) node_children_def nth_mem)
  then have "set (subnodes m) \<subseteq> set (subnodes (nd_green (h ! n)))" using g by force
  then show "arity_ok m" using assms(1) by (auto simp: node_ok_def arity_ok_def)
qed

lemma make_new_root_wf:
  assumes "green_fits E g"
  shows "red_wf E g (snd (make_new_root g r))" "fst (make_new_root g r) = 0"
  using assms
  by (simp_all add: make_new_root_def red_wf_def node_ok_def kind_ok_def green_fits_def node_data_new_def
      node_start_def node_children_def iter_count_def gn_children_iter_def Let_def)

text \<open>An element of the tree: a node of the heap, or a memoised token.\<close>

fun elem_in :: "('i, 'x) heap \<Rightarrow> syntax_element \<Rightarrow> bool" where
  "elem_in h (Node n) \<longleftrightarrow> n < length h"
| "elem_in h (Token t) \<longleftrightarrow> child_at h (st_parent t) (unat (st_index t)) (Token t)"

lemma heap_le_elem_in: "heap_le h h' \<Longrightarrow> elem_in h e \<Longrightarrow> elem_in h' e"
  by (cases e) (auto simp: heap_le_child_at heap_le_def)

lemma child_at_slot_ok: "red_wf E g h \<Longrightarrow> child_at h n i e \<Longrightarrow> slot_ok h n i e"
  using red_wf_node [of E g h n] by (auto simp: child_at_def node_ok_def)

lemma child_at_index: "red_wf E g h \<Longrightarrow> child_at h n i e \<Longrightarrow> i < length (node_children (h ! n)) \<and> unat (as_u32 i) = i"
  using arity_le [of E h n] red_wf_node [of E g h n] unat_as_u32 [of i]
  by (auto simp: child_at_def node_ok_length)

text \<open>What a memoised child is.\<close>

lemma child_at_elem:
  assumes wf: "red_wf E g h" and at: "child_at h n i e"
  shows "elem_in h e" "element_parent h e = Inr (Some n)"
    "\<And>c. e = Node c \<Longrightarrow> \<exists>offset. nd_kind (h ! c) = KChild n (as_u32 i) offset \<and> unat offset = child_start (h ! n) i \<and>
        node_children (h ! n) ! i = Node (nd_green (h ! c)) \<and> n < c"
    "\<And>t. e = Token t \<Longrightarrow> st_index t = as_u32 i \<and> st_parent t = n \<and> unat (st_offset t) = child_start (h ! n) i \<and>
        (\<exists>g. node_children (h ! n) ! i = Token g)"
proof -
  note i = child_at_index [OF wf at]
  note slot = child_at_slot_ok [OF wf at]
  have n: "n < length h" using at by (simp add: child_at_def)
  have start: "child_start (h ! n) i \<le> u32_max"
    using node_ok_child(2) [OF red_wf_node [OF wf n], of i] i by simp
  show "elem_in h e" "element_parent h e = Inr (Some n)"
    using slot at i by (cases e; auto simp: slot_ok_def node_parent_def node_data_of_def)+
  {
    fix c assume e: "e = Node c"
    with slot obtain offset where c: "c < length h" "nd_kind (h ! c) = KChild n (as_u32 i) offset"
      by (auto simp: slot_ok_def)
    with red_wf_node [OF wf c(1)] i show "\<exists>offset. nd_kind (h ! c) = KChild n (as_u32 i) offset \<and>
        unat offset = child_start (h ! n) i \<and> node_children (h ! n) ! i = Node (nd_green (h ! c)) \<and> n < c"
      by (auto simp: node_ok_def kind_ok_def)
  }
  fix t assume "e = Token t"
  with slot start show "st_index t = as_u32 i \<and> st_parent t = n \<and> unat (st_offset t) = child_start (h ! n) i \<and>
      (\<exists>g. node_children (h ! n) ! i = Token g)"
    by (auto simp: slot_ok_def unat_as_u32)
qed

section \<open>Memoisation keeps the invariant\<close>

text \<open>Filling an empty slot of an existing heap.\<close>

lemma heap_le_fill:
  assumes "n < length h" "nd_children (h ! n) ! i = None"
  shows "heap_le h (update_node h n ((h ! n)\<lparr>nd_children := (nd_children (h ! n))[i := Some e]\<rparr>))"
  using assms by (auto simp: heap_le_def update_node_def nth_list_update)
    (metis nth_list_update_neq option.distinct(1))

lemma heap_le_append: "heap_le h (h @ ds)"
  by (auto simp: heap_le_def nth_append)

lemma slot_ok_le:
  assumes "heap_le h h'" "n < length h" "slot_ok h n i e"
  shows "slot_ok h' n i e"
  using assms heap_le_node [OF assms(1)] by (cases e) (auto simp: slot_ok_def)

lemma kind_ok_le:
  assumes le: "heap_le h h'" and n: "n < length h" and ok: "kind_ok h n"
    and full: "\<And>p. p < n \<Longrightarrow> length (nd_children (h ! p)) = length (node_children (h ! p))"
  shows "kind_ok h' n"
proof (cases "nd_kind (h ! n)")
  case (KRoot g r)
  with ok heap_le_node [OF le n] show ?thesis by (simp add: kind_ok_def)
next
  case (KChild p i offset)
  with ok n have p: "p < length h" "p < n" by (auto simp: kind_ok_def)
  have "nd_children (h' ! p) ! unat i = Some (Node n)"
    using le p KChild ok full [OF p(2)] by (auto simp: heap_le_def kind_ok_def)
  with ok KChild heap_le_node [OF le n] heap_le_node [OF le p(1)] show ?thesis
    by (simp add: kind_ok_def)
qed

text \<open>The old nodes of a heap that grew are still in order, if the slots that were filled are.\<close>

lemma node_ok_le:
  assumes wf: "red_wf E g h" and le: "heap_le h h'" and n: "n < length h"
    and new: "\<And>i e. i < length (node_children (h ! n)) \<Longrightarrow> nd_children (h ! n) ! i = None \<Longrightarrow>
      nd_children (h' ! n) ! i = Some e \<Longrightarrow> slot_ok h' n i e"
  shows "node_ok E h' n"
proof -
  note ok = red_wf_node [OF wf n] and same = heap_le_node [OF le n]
  have "kind_ok h' n"
    using ok n by (intro kind_ok_le [OF le]) (auto simp: node_ok_def intro: node_ok_length [OF red_wf_node [OF wf]])
  moreover have "slot_ok h' n i e" if i: "i < length (node_children (h ! n))" "nd_children (h' ! n) ! i = Some e" for i e
  proof (cases "nd_children (h ! n) ! i")
    case None
    then show ?thesis using new i by blast
  next
    case (Some e')
    then have "e' = e" using le n i node_ok_length [OF ok] by (auto simp: heap_le_def)
    with Some ok i have "slot_ok h n i e" by (auto simp: node_ok_def)
    then show ?thesis by (rule slot_ok_le [OF le n])
  qed
  moreover have "length (nd_children (h' ! n)) = length (node_children (h' ! n))"
    using le n same(5) node_ok_length [OF ok] by (simp add: heap_le_def)
  ultimately show ?thesis using ok same by (auto simp: node_ok_def)
qed

lemma red_wf_le:
  assumes "red_wf E g h" "heap_le h h'" "\<And>n. n < length h' \<Longrightarrow> node_ok E h' n"
  shows "red_wf E g h'"
  using assms heap_le_node [OF assms(2), of 0] by (auto simp: red_wf_def)

text \<open>A token fills its slot.\<close>

lemma fill_token_wf:
  assumes wf: "red_wf E g h" and n: "n < length h" and i: "i < length (node_children (h ! n))"
    and empty: "nd_children (h ! n) ! i = None" and tok: "node_children (h ! n) ! i = Token tok"
    and offset: "unat offset = child_start (h ! n) i"
  defines "e \<equiv> Token (syntax_token_new n (as_u32 i) offset)"
  defines "h' \<equiv> update_node h n ((h ! n)\<lparr>nd_children := (nd_children (h ! n))[i := Some e]\<rparr>)"
  shows "red_wf E g h'" "heap_le h h'" "child_at h' n i e"
proof -
  show le: "heap_le h h'" unfolding h'_def using n empty by (rule heap_le_fill)
  note len = node_ok_length [OF red_wf_node [OF wf n]]
  have at: "nd_children (h' ! n) = (nd_children (h ! n))[i := Some e]" "length h' = length h"
    using n by (simp_all add: h'_def update_node_def)
  then show "child_at h' n i e" using n i len by (simp add: child_at_def)
  have offset': "offset = as_u32 (child_start (h ! n) i)"
    by (simp add: offset [symmetric])
  show "red_wf E g h'"
  proof (rule red_wf_le [OF wf le])
    fix m assume m: "m < length h'"
    then have m': "m < length h" by (simp add: at)
    show "node_ok E h' m"
    proof (rule node_ok_le [OF wf le m'])
      fix j e' assume j: "j < length (node_children (h ! m))" "nd_children (h ! m) ! j = None"
        "nd_children (h' ! m) ! j = Some e'"
      have "m = n \<and> j = i \<and> e' = e"
      proof (cases "m = n")
        case True
        with j at len i show ?thesis by (auto simp: nth_list_update split: if_splits)
      next
        case False
        with j show ?thesis by (simp add: h'_def update_node_def)
      qed
      then show "slot_ok h' m j e'"
        using tok offset' heap_le_node [OF le n] by (simp add: slot_ok_def e_def syntax_token_new_def)
    qed
  qed
qed

text \<open>A fresh node is allocated and fills its slot.\<close>

lemma fill_node_wf:
  assumes wf: "red_wf E g h" and n: "n < length h" and i: "i < length (node_children (h ! n))"
    and empty: "nd_children (h ! n) ! i = None" and node: "node_children (h ! n) ! i = Node m"
    and offset: "unat offset = child_start (h ! n) i"
  defines "h1 \<equiv> h @ [node_data_new (KChild n (as_u32 i) offset) m (length (gn_children m))]"
  defines "h' \<equiv> update_node h1 n ((h1 ! n)\<lparr>nd_children := (nd_children (h1 ! n))[i := Some (Node (length h))]\<rparr>)"
  shows "red_wf E g h'" "heap_le h h'" "child_at h' n i (Node (length h))"
proof -
  have h1n: "h1 ! n = h ! n" "n < length h1" using n by (simp_all add: h1_def nth_append)
  note ok = red_wf_node [OF wf n]
  have "heap_le h1 h'" unfolding h'_def by (rule heap_le_fill) (simp_all add: h1n empty)
  moreover have "heap_le h h1" unfolding h1_def by (rule heap_le_append)
  ultimately show le: "heap_le h h'" by (rule heap_le_trans [rotated])
  note len = node_ok_length [OF ok]
  have at: "nd_children (h' ! n) = (nd_children (h ! n))[i := Some (Node (length h))]" "length h' = Suc (length h)"
    using n by (simp_all add: h'_def update_node_def h1n h1_def nth_append)
  then show "child_at h' n i (Node (length h))" using n i len by (simp add: child_at_def)
  have new: "h' ! length h = node_data_new (KChild n (as_u32 i) offset) m (length (gn_children m))"
    using n by (simp add: h'_def update_node_def h1_def nth_append)
  have idx: "unat (as_u32 i) = i" using arity_le [OF ok] i by (simp add: unat_as_u32)
  show "red_wf E g h'"
  proof (rule red_wf_le [OF wf le])
    fix k assume "k < length h'"
    then consider "k < length h" | "k = length h" by (simp add: at) linarith
    then show "node_ok E h' k"
    proof cases
      case 1
      show ?thesis
      proof (rule node_ok_le [OF wf le 1])
        fix j e assume j: "j < length (node_children (h ! k))" "nd_children (h ! k) ! j = None"
          "nd_children (h' ! k) ! j = Some e"
        have "k = n \<and> j = i \<and> e = Node (length h)"
        proof (cases "k = n")
          case True
          with j at len i show ?thesis by (auto simp: nth_list_update split: if_splits)
        next
          case False
          with j 1 show ?thesis by (simp add: h'_def update_node_def h1_def nth_append)
        qed
        then show "slot_ok h' k j e" by (simp add: slot_ok_def new at node_data_new_def)
      qed
    next
      case 2
      have child: "element_wf (en_text E) (en_hash E) (Node m)" "arity_ok m"
        "child_start (h ! n) i + element_len (Node m) \<le> u32_max"
        using node_ok_child [OF ok i] node by auto
      show ?thesis
        using child n i idx offset node heap_le_node [OF le n] at len
        by (simp add: 2 node_ok_def kind_ok_def new node_data_new_def node_start_def node_children_def)
    qed
  qed
qed

text \<open>The documented behaviour of \<open>text-size\<close> is all that navigation needs of its environment.\<close>

locale red_env = text_size "en_text E" for E :: "('s, 'd, 'i, 'e) env"
begin

lemma red_range:
  assumes "unat offset = n" "element_wf (en_text E) (en_hash E) e" "n + element_len e \<le> u32_max"
  shows "tr_start (tr_at (en_text E) offset (ge_text_len e)) = offset"
    "unat (tr_end (tr_at (en_text E) offset (ge_text_len e))) = n + element_len e"
    "tr_valid (tr_at (en_text E) offset (ge_text_len e))"
proof -
  have len: "unat (ge_text_len e) = element_len e"
    using assms by (intro element_len_exact) auto
  with assms at [of offset "ge_text_len e"] at_valid [of offset "ge_text_len e"]
  show "tr_start (tr_at (en_text E) offset (ge_text_len e)) = offset"
    "tr_valid (tr_at (en_text E) offset (ge_text_len e))" by simp_all
  have "unat (offset + ge_text_len e) = unat offset + unat (ge_text_len e)"
    using assms len by (subst unat_plus_simple [THEN iffD1]) (auto simp: no_olen_add_nat u32_max_def)
  with assms len at [of offset "ge_text_len e"]
  show "unat (tr_end (tr_at (en_text E) offset (ge_text_len e))) = n + element_len e" by simp
qed

text \<open>The stored offset of a memoised child is the one its siblings' lengths add up to.\<close>

lemma child_range:
  assumes wf: "red_wf E g h" and at: "child_at h n i e"
  shows "\<exists>r. element_text_range E h e = Inr r \<and> tr_valid r \<and> unat (tr_start r) = child_start (h ! n) i \<and>
    unat (tr_end r) = child_start (h ! n) i + element_len (node_children (h ! n) ! i)"
proof -
  note i = child_at_index [OF wf at]
  have n: "n < length h" using at by (simp add: child_at_def)
  note child = node_ok_child [OF red_wf_node [OF wf n], of i]
  show ?thesis
  proof (cases e)
    case (Node c)
    with child_at_elem(1,3) [OF wf at] obtain offset where
      c: "c < length h" "nd_kind (h ! c) = KChild n (as_u32 i) offset" "unat offset = child_start (h ! n) i"
        "node_children (h ! n) ! i = Node (nd_green (h ! c))" by auto
    have range: "element_text_range E h e = Inr (tr_at (en_text E) offset (ge_text_len (node_children (h ! n) ! i)))"
      using c Node by (simp add: node_text_range_def node_data_of_def)
    show ?thesis
      using red_range [OF c(3), of "node_children (h ! n) ! i"] child(1,2) i c(3) by (simp add: range)
  next
    case (Token t)
    with child_at_elem(4) [OF wf at] obtain tok where
      t: "st_index t = as_u32 i" "st_parent t = n" "unat (st_offset t) = child_start (h ! n) i"
        "node_children (h ! n) ! i = Token tok" by auto
    have range: "element_text_range E h e = Inr (tr_at (en_text E) (st_offset t) (ge_text_len (node_children (h ! n) ! i)))"
      using t Token n i
      by (simp add: token_text_range_def token_green_def node_green_def node_data_of_def iter_nth_eq
          gn_children_iter_def node_children_def vec_get_def)
    show ?thesis
      using red_range [OF t(3), of "node_children (h ! n) ! i"] child(1,2) i t(3) by (simp add: range)
  qed
qed

lemma check_offset_ok:
  assumes "red_wf E g h" "child_at h n i e" "unat offset = child_start (h ! n) i"
  shows "check_offset E h e offset = Inr ()"
  using child_range [OF assms(1,2)] assms(3) by (auto simp: check_offset_def word_unat_eq_iff)

lemma read_slot_eq:
  "red_wf E g h \<Longrightarrow> n < length h \<Longrightarrow> i < length (node_children (h ! n)) \<Longrightarrow> read_slot h n i = Inr (nd_children (h ! n) ! i)"
  using red_wf_node [of E g h n] by (simp add: read_slot_def node_data_of_def node_ok_length)

text \<open>
  \<open>get_or_add_element\<close> at the right offset returns the one memoised child, keeps the invariant
  and leaves everything that was there; \<open>get_or_add_node\<close> does the same on a node.
\<close>

lemma get_or_add_element_ok:
  assumes wf: "red_wf E g h" and n: "n < length h" and i: "i < length (node_children (h ! n))"
    and el: "el = node_children (h ! n) ! i" and offset: "unat offset = child_start (h ! n) i"
  shows "\<exists>e h'. get_or_add_element E n el i offset h = Inr (e, h') \<and> red_wf E g h' \<and> heap_le h h' \<and> child_at h' n i e"
proof (cases "nd_children (h ! n) ! i")
  case (Some e)
  then have "child_at h n i e"
    using n i node_ok_length [OF red_wf_node [OF wf n]] by (simp add: child_at_def)
  with Some check_offset_ok [OF wf this offset] wf show ?thesis
    by (auto simp: get_or_add_element_def read_slot_eq [OF wf n i])
next
  case None
  note len = node_ok_length [OF red_wf_node [OF wf n]]
  show ?thesis
  proof (cases el)
    case (Token tok)
    note fill = fill_token_wf [OF wf n i None Token [unfolded el] offset]
    then show ?thesis
      using None Token n i len
      by (auto simp: get_or_add_element_def read_slot_eq [OF wf n i] try_write_def read_slot_def node_data_of_def
          update_node_def)
  next
    case (Node m)
    note fill = fill_node_wf [OF wf n i None Node [unfolded el] offset]
    then show ?thesis
      using None Node n i len
      by (auto simp: get_or_add_element_def new_child_def iter_count_def gn_children_iter_def try_write_def
          read_slot_def node_data_of_def update_node_def nth_append Let_def)
  qed
qed

end

lemma get_or_add_node_eq: "get_or_add_node E n m i offset = get_or_add_element E n (Node m) i offset"
  by (rule ext) (simp add: get_or_add_node_def get_or_add_element_def split: prod.splits option.splits)

interpretation test_red: red_env "test_env H debug" for H debug
  by (rule red_env.intro) (simp add: documented.text_size_axioms)

end
