(* ===== verification/Red_Navigation.thy ===== *)
theory Red_Navigation
  imports Red_Invariant
begin

text \<open>
  Navigation in the red tree, \<open>cstree/src/syntax/{node,token,element}.rs\<close>: children,
  siblings, parents, first and last tokens, the next and previous token. The \<open>impl Iterator\<close>
  values of the code are consumed lazily; \<open>children_from\<close> and \<open>children_to\<close> list what the
  iterator would yield, and their users take the first item.
\<close>

section \<open>Green children with their positions\<close>

fun indexed_from :: "text_ops \<Rightarrow> nat \<Rightarrow> text_size \<Rightarrow> green_element list \<Rightarrow> (green_element \<times> nat \<times> text_size) list" where
  "indexed_from T index offset [] = []"
| "indexed_from T index offset (element # es) =
     (element, index, offset) # indexed_from T (Suc index) (ts_add T offset (ge_text_len element)) es"

definition children_from :: "text_ops \<Rightarrow> green_node \<Rightarrow> nat \<Rightarrow> text_size \<Rightarrow> (green_element \<times> nat \<times> text_size) list" where
  "children_from T g start_index offset = indexed_from T start_index offset (drop start_index (gn_children g))"

text \<open>\<open>enumerate\<close> counts from 0; the item's index is \<open>end_index - index - 1\<close>.\<close>

fun indexed_to :: "text_ops \<Rightarrow> nat \<Rightarrow> nat \<Rightarrow> text_size \<Rightarrow> green_element list \<Rightarrow> (green_element \<times> nat \<times> text_size) list" where
  "indexed_to T end_index index offset [] = []"
| "indexed_to T end_index index offset (element # es) =
     (let offset' = ts_sub T offset (ge_text_len element)
      in (element, end_index - index - 1, offset') # indexed_to T end_index (Suc index) offset' es)"

definition children_to :: "text_ops \<Rightarrow> green_node \<Rightarrow> nat \<Rightarrow> text_size \<Rightarrow> (green_element \<times> nat \<times> text_size) list" where
  "children_to T g end_index offset = indexed_to T end_index 0 offset (rev (take end_index (gn_children g)))"

fun filter_nodes :: "(green_element \<times> 'a) list \<Rightarrow> (green_node \<times> 'a) list" where
  "filter_nodes [] = []"
| "filter_nodes ((Node it, x) # es) = (it, x) # filter_nodes es"
| "filter_nodes ((Token _, x) # es) = filter_nodes es"

text \<open>
  The ends of the navigation functions: \<open>let (element, (index, offset)) = iter.next()?;\<close> and
  the memoisation of what it yielded.
\<close>

definition add_next_node :: "('s, 'd, 'i, 'e) env \<Rightarrow> nat \<Rightarrow> (green_node \<times> nat \<times> text_size) list \<Rightarrow> ('j, 'x, nat option) red" where
  "add_next_node E n it =
     (case it of
        [] \<Rightarrow> returnR None
      | (node, index, offset) # _ \<Rightarrow> bindR (get_or_add_node E n node index offset) (\<lambda>e. returnR (as_node e)))"

definition add_next_element :: "('s, 'd, 'i, 'e) env \<Rightarrow> nat \<Rightarrow> (green_element \<times> nat \<times> text_size) list \<Rightarrow>
  ('j, 'x, syntax_element option) red" where
  "add_next_element E n it =
     (case it of
        [] \<Rightarrow> returnR None
      | (element, index, offset) # _ \<Rightarrow> bindR (get_or_add_element E n element index offset) (\<lambda>e. returnR (Some e)))"

section \<open>Children and siblings of nodes\<close>

definition first_child :: "('s, 'd, 'i, 'e) env \<Rightarrow> nat \<Rightarrow> ('j, 'x, nat option) red" where
  "first_child E n = bindR (readR (\<lambda>h. node_green h n)) (\<lambda>g.
     bindR (readR (\<lambda>h. node_text_range E h n)) (\<lambda>r.
     add_next_node E n (filter_nodes (children_from (en_text E) g 0 (tr_start r)))))"

definition first_child_or_token :: "('s, 'd, 'i, 'e) env \<Rightarrow> nat \<Rightarrow> ('j, 'x, syntax_element option) red" where
  "first_child_or_token E n = bindR (readR (\<lambda>h. node_green h n)) (\<lambda>g.
     bindR (readR (\<lambda>h. node_text_range E h n)) (\<lambda>r.
     add_next_element E n (children_from (en_text E) g 0 (tr_start r))))"

definition last_child :: "('s, 'd, 'i, 'e) env \<Rightarrow> nat \<Rightarrow> ('j, 'x, nat option) red" where
  "last_child E n = bindR (readR (\<lambda>h. node_green h n)) (\<lambda>g.
     bindR (readR (\<lambda>h. node_text_range E h n)) (\<lambda>r.
     add_next_node E n (filter_nodes (children_to (en_text E) g (iter_len (gn_children_iter g)) (tr_end r)))))"

definition last_child_or_token :: "('s, 'd, 'i, 'e) env \<Rightarrow> nat \<Rightarrow> ('j, 'x, syntax_element option) red" where
  "last_child_or_token E n = bindR (readR (\<lambda>h. node_green h n)) (\<lambda>g.
     bindR (readR (\<lambda>h. node_text_range E h n)) (\<lambda>r.
     add_next_element E n (children_to (en_text E) g (iter_len (gn_children_iter g)) (tr_end r))))"

definition next_child_after :: "('s, 'd, 'i, 'e) env \<Rightarrow> nat \<Rightarrow> nat \<Rightarrow> text_size \<Rightarrow> ('j, 'x, nat option) red" where
  "next_child_after E self n offset = bindR (readR (\<lambda>h. node_green h self)) (\<lambda>g.
     add_next_node E self (filter_nodes (children_from (en_text E) g (n + 1) offset)))"

definition next_child_or_token_after :: "('s, 'd, 'i, 'e) env \<Rightarrow> nat \<Rightarrow> nat \<Rightarrow> text_size \<Rightarrow>
  ('j, 'x, syntax_element option) red" where
  "next_child_or_token_after E self n offset = bindR (readR (\<lambda>h. node_green h self)) (\<lambda>g.
     add_next_element E self (children_from (en_text E) g (n + 1) offset))"

definition prev_child_before :: "('s, 'd, 'i, 'e) env \<Rightarrow> nat \<Rightarrow> nat \<Rightarrow> text_size \<Rightarrow> ('j, 'x, nat option) red" where
  "prev_child_before E self n offset = bindR (readR (\<lambda>h. node_green h self)) (\<lambda>g.
     add_next_node E self (filter_nodes (children_to (en_text E) g n offset)))"

definition prev_child_or_token_before :: "('s, 'd, 'i, 'e) env \<Rightarrow> nat \<Rightarrow> nat \<Rightarrow> text_size \<Rightarrow>
  ('j, 'x, syntax_element option) red" where
  "prev_child_or_token_before E self n offset = bindR (readR (\<lambda>h. node_green h self)) (\<lambda>g.
     add_next_element E self (children_to (en_text E) g n offset))"

text \<open>\<open>self.data().kind.as_child()?\<close>\<close>

definition with_child :: "nat \<Rightarrow> (nat \<Rightarrow> u32 \<Rightarrow> ('j, 'x, 'a option) red) \<Rightarrow> ('j, 'x, 'a option) red" where
  "with_child n f = bindR (readR (\<lambda>h. node_data_of h n)) (\<lambda>d.
     case as_child (nd_kind d) of None \<Rightarrow> returnR None | Some (parent, index, _) \<Rightarrow> f parent index)"

definition next_sibling :: "('s, 'd, 'i, 'e) env \<Rightarrow> nat \<Rightarrow> ('j, 'x, nat option) red" where
  "next_sibling E n = with_child n (\<lambda>parent index.
     bindR (readR (\<lambda>h. node_green h parent)) (\<lambda>g. bindR (readR (\<lambda>h. node_text_range E h n)) (\<lambda>r.
     add_next_node E parent (filter_nodes (children_from (en_text E) g (unat (index + 1)) (tr_end r))))))"

definition next_sibling_or_token :: "('s, 'd, 'i, 'e) env \<Rightarrow> nat \<Rightarrow> ('j, 'x, syntax_element option) red" where
  "next_sibling_or_token E n = with_child n (\<lambda>parent index.
     bindR (readR (\<lambda>h. node_green h parent)) (\<lambda>g. bindR (readR (\<lambda>h. node_text_range E h n)) (\<lambda>r.
     add_next_element E parent (children_from (en_text E) g (unat (index + 1)) (tr_end r)))))"

definition prev_sibling :: "('s, 'd, 'i, 'e) env \<Rightarrow> nat \<Rightarrow> ('j, 'x, nat option) red" where
  "prev_sibling E n = with_child n (\<lambda>parent index.
     bindR (readR (\<lambda>h. node_green h parent)) (\<lambda>g. bindR (readR (\<lambda>h. node_text_range E h n)) (\<lambda>r.
     add_next_node E parent (filter_nodes (children_to (en_text E) g (unat index) (tr_start r))))))"

definition prev_sibling_or_token :: "('s, 'd, 'i, 'e) env \<Rightarrow> nat \<Rightarrow> ('j, 'x, syntax_element option) red" where
  "prev_sibling_or_token E n = with_child n (\<lambda>parent index.
     bindR (readR (\<lambda>h. node_green h parent)) (\<lambda>g. bindR (readR (\<lambda>h. node_text_range E h n)) (\<lambda>r.
     add_next_element E parent (children_to (en_text E) g (unat index) (tr_start r)))))"

section \<open>Siblings of tokens and elements\<close>

definition token_next_sibling_or_token :: "('s, 'd, 'i, 'e) env \<Rightarrow> syntax_token \<Rightarrow> ('j, 'x, syntax_element option) red" where
  "token_next_sibling_or_token E t = bindR (readR (\<lambda>h. token_text_range E h t)) (\<lambda>r.
     next_child_or_token_after E (st_parent t) (unat (st_index t)) (tr_end r))"

definition token_prev_sibling_or_token :: "('s, 'd, 'i, 'e) env \<Rightarrow> syntax_token \<Rightarrow> ('j, 'x, syntax_element option) red" where
  "token_prev_sibling_or_token E t = bindR (readR (\<lambda>h. token_text_range E h t)) (\<lambda>r.
     prev_child_or_token_before E (st_parent t) (unat (st_index t)) (tr_start r))"

fun element_next_sibling_or_token :: "('s, 'd, 'i, 'e) env \<Rightarrow> syntax_element \<Rightarrow> ('j, 'x, syntax_element option) red" where
  "element_next_sibling_or_token E (Node it) = next_sibling_or_token E it"
| "element_next_sibling_or_token E (Token it) = token_next_sibling_or_token E it"

fun element_prev_sibling_or_token :: "('s, 'd, 'i, 'e) env \<Rightarrow> syntax_element \<Rightarrow> ('j, 'x, syntax_element option) red" where
  "element_prev_sibling_or_token E (Node it) = prev_sibling_or_token E it"
| "element_prev_sibling_or_token E (Token it) = token_prev_sibling_or_token E it"

section \<open>What the listed children are\<close>

lemma indexed_from_nth:
  "j < length (indexed_from T i off es) \<Longrightarrow> fst (indexed_from T i off es ! j) = es ! j \<and> fst (snd (indexed_from T i off es ! j)) = i + j"
  by (induction T i off es arbitrary: j rule: indexed_from.induct) (auto simp: nth_Cons split: nat.splits)

lemma length_indexed [simp]:
  "length (indexed_from T i off es) = length es"
  "length (indexed_to T n i off es) = length es"
  by (induction es arbitrary: i off) (simp_all add: Let_def)

lemma filter_nodes_Cons:
  "filter_nodes es = (m, x) # rest \<Longrightarrow>
     \<exists>j < length es. es ! j = (Node m, x) \<and> (\<forall>k < j. as_node (fst (es ! k)) = None)"
proof (induction es rule: filter_nodes.induct)
  case (2 it x' es)
  then have "((Node it, x') # es) ! 0 = (Node m, x)" by simp
  then show ?case by blast
next
  case (3 t x' es)
  then obtain j where "j < length es" "es ! j = (Node m, x)" "\<forall>k < j. as_node (fst (es ! k)) = None" by auto
  then have "Suc j < length ((Token t, x') # es) \<and> ((Token t, x') # es) ! Suc j = (Node m, x) \<and>
      (\<forall>k < Suc j. as_node (fst (((Token t, x') # es) ! k)) = None)"
    by (auto simp: nth_Cons split: nat.split)
  then show ?case by blast
qed simp

lemma filter_nodes_Nil_iff: "filter_nodes es = [] \<longleftrightarrow> (\<forall>e \<in> set es. as_node (fst e) = None)"
  by (induction es rule: filter_nodes.induct) auto

section \<open>Computations that keep the tree\<close>

text \<open>
  \<open>m\<close> returns on \<open>h\<close>, in a heap that only grew and is still a well-formed red tree over \<open>g\<close>,
  with a result that satisfies \<open>Q\<close>.
\<close>

definition nav :: "('s, 'd, 'i, 'e) env \<Rightarrow> green_node \<Rightarrow> ('j, 'x) heap \<Rightarrow> ('j, 'x, 'a) red \<Rightarrow>
  (('j, 'x) heap \<Rightarrow> 'a \<Rightarrow> bool) \<Rightarrow> bool" where
  "nav E g h m Q \<longleftrightarrow> (\<exists>r h'. m h = Inr (r, h') \<and> red_wf E g h' \<and> heap_le h h' \<and> Q h' r)"

named_theorems nav_intros

lemma nav_bind:
  assumes "nav E g h m Q" "\<And>h' r. red_wf E g h' \<Longrightarrow> heap_le h h' \<Longrightarrow> Q h' r \<Longrightarrow> nav E g h' (f r) P"
  shows "nav E g h (bindR m f) P"
proof -
  obtain r h1 where m: "m h = Inr (r, h1)" "red_wf E g h1" "heap_le h h1" "Q h1 r"
    using assms(1) by (auto simp: nav_def)
  from assms(2) [OF m(2-4)] obtain r' h2 where "f r h1 = Inr (r', h2)" "red_wf E g h2" "heap_le h1 h2" "P h2 r'"
    by (auto simp: nav_def)
  with m show ?thesis by (auto simp: nav_def bindR_def intro: heap_le_trans)
qed

lemma nav_return: "red_wf E g h \<Longrightarrow> Q h a \<Longrightarrow> nav E g h (returnR a) Q"
  by (simp add: nav_def returnR_def)

lemma nav_read: "f h = Inr a \<Longrightarrow> nav E g h (k a) Q \<Longrightarrow> nav E g h (bindR (readR f) k) Q"
  by (auto simp: nav_def bindR_def readR_def)

lemma nav_mono: "nav E g h m Q \<Longrightarrow> (\<And>h' r. red_wf E g h' \<Longrightarrow> heap_le h h' \<Longrightarrow> Q h' r \<Longrightarrow> P h' r) \<Longrightarrow> nav E g h m P"
  by (auto simp: nav_def)

lemma nav_le: "nav E g h m (\<lambda>h' r. heap_le h h' \<longrightarrow> Q h' r) \<Longrightarrow> nav E g h m Q"
  by (auto simp: nav_def)

text \<open>Reads of a node in range.\<close>

lemma node_green_eq: "n < length h \<Longrightarrow> node_green h n = Inr (nd_green (h ! n))"
  by (simp add: node_green_def node_data_of_def)

text \<open>The items an iterator over children must yield.\<close>

fun item_ok :: "('j, 'x) node_data \<Rightarrow> green_element \<times> nat \<times> text_size \<Rightarrow> bool" where
  "item_ok d (el, i, offset) \<longleftrightarrow>
     i < length (node_children d) \<and> el = node_children d ! i \<and> unat offset = child_start d i"

context red_env
begin

lemma node_range:
  assumes "red_wf E g h" "n < length h"
  shows "\<exists>r. node_text_range E h n = Inr r \<and> tr_valid r \<and> unat (tr_start r) = child_start (h ! n) 0 \<and>
    unat (tr_end r) = child_start (h ! n) (length (node_children (h ! n)))"
proof -
  let ?off = "case as_child (nd_kind (h ! n)) of Some (_, _, it) \<Rightarrow> it | None \<Rightarrow> 0"
  note ok = red_wf_node [OF assms]
  have "unat ?off = node_start (h ! n)" by (cases "nd_kind (h ! n)") (simp_all add: node_start_def)
  from red_range [OF this, of "Node (nd_green (h ! n))"] ok assms(2) this show ?thesis
    by (simp add: node_text_range_def node_data_of_def node_ok_def child_start_end)
qed

text \<open>\<open>children_from\<close> and \<open>children_to\<close> at the right offset list the children with their positions.\<close>

lemma indexed_from_ok:
  assumes "node_ok E h n" "k \<le> length (node_children (h ! n))" "unat offset = child_start (h ! n) k"
    and "x \<in> set (indexed_from (en_text E) k offset (drop k (node_children (h ! n))))"
  shows "item_ok (h ! n) x"
  using assms(2-)
proof (induction "length (node_children (h ! n)) - k" arbitrary: k offset)
  case 0
  then show ?case by simp
next
  case (Suc m)
  let ?cs = "node_children (h ! n)"
  from Suc.hyps(2) have k: "k < length ?cs" by simp
  note child = node_ok_child [OF assms(1) k]
  have len: "unat (ge_text_len (?cs ! k)) = element_len (?cs ! k)"
    using child by (intro element_len_exact) auto
  have next_offset: "unat (ts_add (en_text E) offset (ge_text_len (?cs ! k))) = child_start (h ! n) (Suc k)"
    using child(2) Suc.prems(2) len k by (subst unat_add_fits) (auto simp: child_start_Suc)
  from Suc.prems(3) k consider "x = (?cs ! k, k, offset)"
    | "x \<in> set (indexed_from (en_text E) (Suc k) (ts_add (en_text E) offset (ge_text_len (?cs ! k))) (drop (Suc k) ?cs))"
    by (auto simp: Cons_nth_drop_Suc [OF k, symmetric])
  then show ?case
  proof cases
    case 1
    then show ?thesis using k Suc.prems(2) by simp
  next
    case 2
    show ?thesis by (rule Suc.hyps(1) [OF _ _ next_offset 2]) (use Suc.hyps(2) k in auto)
  qed
qed

lemma children_from_ok:
  "node_ok E h n \<Longrightarrow> k \<le> length (node_children (h ! n)) \<Longrightarrow> unat offset = child_start (h ! n) k \<Longrightarrow>
   x \<in> set (children_from (en_text E) (nd_green (h ! n)) k offset) \<Longrightarrow> item_ok (h ! n) x"
  using indexed_from_ok [of h n k offset x] by (simp add: children_from_def node_children_def)

lemma indexed_to_ok:
  assumes "node_ok E h n" "k + index \<le> end_index" "end_index \<le> length (node_children (h ! n))" "end_index - index = k"
    and "unat offset = child_start (h ! n) k"
    and "x \<in> set (indexed_to (en_text E) end_index index offset (rev (take k (node_children (h ! n)))))"
  shows "item_ok (h ! n) x"
  using assms(2-)
proof (induction k arbitrary: index offset)
  case 0
  then show ?case by simp
next
  case (Suc k)
  let ?cs = "node_children (h ! n)"
  have k: "k < length ?cs" using Suc.prems by simp
  note child = node_ok_child [OF assms(1) k]
  have len: "unat (ge_text_len (?cs ! k)) = element_len (?cs ! k)"
    using child by (intro element_len_exact) auto
  have le: "ge_text_len (?cs ! k) \<le> offset"
    using Suc.prems(4) k len by (simp add: word_le_nat_alt child_start_Suc)
  have prev: "unat (ts_sub (en_text E) offset (ge_text_len (?cs ! k))) = child_start (h ! n) k"
    using Suc.prems(4) k len by (simp add: unat_sub_fits [OF le] child_start_Suc)
  have idx: "end_index - index - 1 = k" using Suc.prems by simp
  from Suc.prems(5) k idx consider "x = (?cs ! k, k, ts_sub (en_text E) offset (ge_text_len (?cs ! k)))"
    | "x \<in> set (indexed_to (en_text E) end_index (Suc index) (ts_sub (en_text E) offset (ge_text_len (?cs ! k)))
        (rev (take k ?cs)))"
    by (auto simp: take_Suc_conv_app_nth Let_def)
  then show ?case
  proof cases
    case 1
    then show ?thesis using k prev by simp
  next
    case 2
    then show ?thesis using Suc.IH [of "Suc index", OF _ _ _ prev 2] Suc.prems by simp
  qed
qed

lemma children_to_ok:
  "node_ok E h n \<Longrightarrow> k \<le> length (node_children (h ! n)) \<Longrightarrow> unat offset = child_start (h ! n) k \<Longrightarrow>
   x \<in> set (children_to (en_text E) (nd_green (h ! n)) k offset) \<Longrightarrow> item_ok (h ! n) x"
  using indexed_to_ok [of h n k 0 k offset x] by (simp add: children_to_def node_children_def)

end

lemma indexed_to_nth:
  "j < length es \<Longrightarrow> fst (snd (indexed_to T n i off es ! j)) = n - (i + j) - 1"
  by (induction T n i off es arbitrary: j rule: indexed_to.induct) (auto simp: nth_Cons Let_def split: nat.splits)

lemma children_from_nth:
  "j < length (gn_children g) - k \<Longrightarrow> fst (snd (children_from T g k off ! j)) = k + j"
  using indexed_from_nth [of j T k off "drop k (gn_children g)"] by (simp add: children_from_def)

lemma children_to_nth:
  "k \<le> length (gn_children g) \<Longrightarrow> j < k \<Longrightarrow> fst (snd (children_to T g k off ! j)) = k - j - 1"
  using indexed_to_nth [of j "rev (take k (gn_children g))" T k 0 off] by (simp add: children_to_def)

lemma length_children [simp]:
  "length (children_from T g k off) = length (gn_children g) - k"
  "length (children_to T g k off) = min (length (gn_children g)) k"
  by (simp_all add: children_from_def children_to_def)

section \<open>What navigation returns\<close>

text \<open>
  The first child (node) at or after index \<open>k\<close>, and the last one before it, as memoised in the
  heap after the call.
\<close>

definition first_element_from :: "('j, 'x) heap \<Rightarrow> nat \<Rightarrow> nat \<Rightarrow> syntax_element option \<Rightarrow> bool" where
  "first_element_from h n k r \<longleftrightarrow>
     (case r of None \<Rightarrow> length (node_children (h ! n)) \<le> k | Some e \<Rightarrow> child_at h n k e)"

definition last_element_before :: "('j, 'x) heap \<Rightarrow> nat \<Rightarrow> nat \<Rightarrow> syntax_element option \<Rightarrow> bool" where
  "last_element_before h n k r \<longleftrightarrow> (case r of None \<Rightarrow> k = 0 | Some e \<Rightarrow> 0 < k \<and> child_at h n (k - 1) e)"

definition first_node_from :: "('j, 'x) heap \<Rightarrow> nat \<Rightarrow> nat \<Rightarrow> nat option \<Rightarrow> bool" where
  "first_node_from h n k r \<longleftrightarrow>
     (case r of
        None \<Rightarrow> (\<forall>i < length (node_children (h ! n)). k \<le> i \<longrightarrow> as_node (node_children (h ! n) ! i) = None)
      | Some c \<Rightarrow> (\<exists>i \<ge> k. child_at h n i (Node c) \<and> (\<forall>j. k \<le> j \<and> j < i \<longrightarrow> as_node (node_children (h ! n) ! j) = None)))"

definition last_node_before :: "('j, 'x) heap \<Rightarrow> nat \<Rightarrow> nat \<Rightarrow> nat option \<Rightarrow> bool" where
  "last_node_before h n k r \<longleftrightarrow>
     (case r of
        None \<Rightarrow> (\<forall>i < k. as_node (node_children (h ! n) ! i) = None)
      | Some c \<Rightarrow> (\<exists>i < k. child_at h n i (Node c) \<and> (\<forall>j. i < j \<and> j < k \<longrightarrow> as_node (node_children (h ! n) ! j) = None)))"

context red_env
begin

text \<open>The memoised child for an item of an iterator.\<close>

lemma nav_item:
  assumes "red_wf E g h" "n < length h" "item_ok (h ! n) (el, i, offset)"
  shows "nav E g h (get_or_add_element E n el i offset) (\<lambda>h' e. child_at h' n i e)"
  using get_or_add_element_ok [of g h n i el offset] assms by (auto simp: nav_def)

lemma nav_add_next_element:
  assumes wf: "red_wf E g h" and n: "n < length h" and items: "\<And>x. x \<in> set it \<Longrightarrow> item_ok (h ! n) x"
  shows "nav E g h (add_next_element E n it)
    (\<lambda>h' r. case it of [] \<Rightarrow> r = None | x # _ \<Rightarrow> \<exists>e. r = Some e \<and> child_at h' n (fst (snd x)) e)"
proof (cases it)
  case Nil
  then show ?thesis by (simp add: add_next_element_def nav_return wf)
next
  case (Cons x xs)
  obtain el i offset where x: "x = (el, i, offset)" by (cases x)
  have "item_ok (h ! n) (el, i, offset)" using items [of x] Cons x by simp
  from nav_item [OF wf n this] show ?thesis
    by (auto simp: add_next_element_def Cons x intro!: nav_bind nav_return)
qed

lemma nav_add_next_node:
  assumes wf: "red_wf E g h" and n: "n < length h" and items: "\<And>x. x \<in> set it \<Longrightarrow> item_ok (h ! n) x"
  shows "nav E g h (add_next_node E n (filter_nodes it))
    (\<lambda>h' r. case r of
       None \<Rightarrow> \<forall>x \<in> set it. as_node (fst x) = None
     | Some c \<Rightarrow> \<exists>j < length it. child_at h' n (fst (snd (it ! j))) (Node c) \<and> (\<forall>k < j. as_node (fst (it ! k)) = None))"
proof (cases "filter_nodes it")
  case Nil
  then have "\<forall>x \<in> set it. as_node (fst x) = None" using filter_nodes_Nil_iff by blast
  with Nil wf show ?thesis by (simp add: add_next_node_def nav_return)
next
  case (Cons x xs)
  obtain m i offset where x: "x = (m, i, offset)" by (cases x)
  with Cons filter_nodes_Cons [of it m "(i, offset)" xs] obtain j where
    j: "j < length it" "it ! j = (Node m, i, offset)" "\<forall>k < j. as_node (fst (it ! k)) = None" by auto
  then have ok: "item_ok (h ! n) (Node m, i, offset)" using items by (metis nth_mem)
  have "nav E g h (bindR (get_or_add_node E n m i offset) (\<lambda>e. returnR (as_node e)))
      (\<lambda>h' r. \<exists>c. r = Some c \<and> child_at h' n i (Node c))"
    unfolding get_or_add_node_eq
  proof (rule nav_bind [OF nav_item [OF wf n ok]])
    fix h' e assume h': "red_wf E g h'" "heap_le h h'" "child_at h' n i e"
    have "node_children (h' ! n) ! i = Node m" using ok heap_le_node [OF h'(2) n] by simp
    with child_at_elem(4) [OF h'(1,3)] obtain c where "e = Node c" by (cases e) auto
    with h' show "nav E g h' (returnR (as_node e)) (\<lambda>h' r. \<exists>c. r = Some c \<and> child_at h' n i (Node c))"
      by (intro nav_return) auto
  qed
  then show ?thesis
    using j by (fastforce simp: add_next_node_def Cons x elim!: nav_mono)
qed

lemma nav_first_element_from:
  assumes wf: "red_wf E g h" and n: "n < length h" and k: "k \<le> length (node_children (h ! n))"
    and offset: "unat offset = child_start (h ! n) k"
  shows "nav E g h (add_next_element E n (children_from (en_text E) (nd_green (h ! n)) k offset))
    (\<lambda>h' r. first_element_from h' n k r)"
proof (rule nav_mono [OF nav_add_next_element [OF wf n children_from_ok [OF red_wf_node [OF wf n] k offset]]])
  fix h' r
  let ?it = "children_from (en_text E) (nd_green (h ! n)) k offset"
  assume "heap_le h h'" and r: "case ?it of [] \<Rightarrow> r = None | x # _ \<Rightarrow> \<exists>e. r = Some e \<and> child_at h' n (fst (snd x)) e"
  note same = heap_le_node [OF this(1) n]
  have len: "length ?it = length (node_children (h ! n)) - k" by (simp add: node_children_def)
  show "first_element_from h' n k r"
  proof (cases ?it)
    case Nil
    with r len same show ?thesis by (simp add: first_element_from_def)
  next
    case (Cons x xs)
    with len have "fst (snd x) = k"
      using children_from_nth [of 0 "nd_green (h ! n)" k "en_text E" offset] by (simp add: node_children_def)
    with Cons r show ?thesis by (auto simp: first_element_from_def)
  qed
qed simp

lemma nav_last_element_before:
  assumes wf: "red_wf E g h" and n: "n < length h" and k: "k \<le> length (node_children (h ! n))"
    and offset: "unat offset = child_start (h ! n) k"
  shows "nav E g h (add_next_element E n (children_to (en_text E) (nd_green (h ! n)) k offset))
    (\<lambda>h' r. last_element_before h' n k r)"
proof (rule nav_mono [OF nav_add_next_element [OF wf n children_to_ok [OF red_wf_node [OF wf n] k offset]]])
  fix h' r
  let ?it = "children_to (en_text E) (nd_green (h ! n)) k offset"
  assume r: "case ?it of [] \<Rightarrow> r = None | x # _ \<Rightarrow> \<exists>e. r = Some e \<and> child_at h' n (fst (snd x)) e"
  have len: "length ?it = k" using k by (simp add: node_children_def)
  show "last_element_before h' n k r"
  proof (cases ?it)
    case Nil
    with r len show ?thesis by (simp add: last_element_before_def)
  next
    case (Cons x xs)
    with len have "0 < k" by auto
    with Cons k have "fst (snd x) = k - 1"
      using children_to_nth [of k "nd_green (h ! n)" 0 "en_text E" offset] by (simp add: node_children_def)
    with Cons r \<open>0 < k\<close> show ?thesis by (auto simp: last_element_before_def)
  qed
qed simp

lemma nav_first_node_from:
  assumes wf: "red_wf E g h" and n: "n < length h" and k: "k \<le> length (node_children (h ! n))"
    and offset: "unat offset = child_start (h ! n) k"
  shows "nav E g h (add_next_node E n (filter_nodes (children_from (en_text E) (nd_green (h ! n)) k offset)))
    (\<lambda>h' r. first_node_from h' n k r)"
proof -
  let ?it = "children_from (en_text E) (nd_green (h ! n)) k offset" and ?cs = "node_children (h ! n)"
  have len: "length ?it = length ?cs - k" by (simp add: node_children_def)
  have items: "x \<in> set ?it \<Longrightarrow> item_ok (h ! n) x" for x
    by (rule children_from_ok [OF red_wf_node [OF wf n] k offset])
  have nth: "fst (?it ! j) = ?cs ! (k + j) \<and> fst (snd (?it ! j)) = k + j" if "j < length ?it" for j
    using items [OF nth_mem [OF that]] children_from_nth [of j "nd_green (h ! n)" k "en_text E" offset] that
    by (cases "?it ! j") (simp add: node_children_def)
  show ?thesis
  proof (rule nav_mono [OF nav_add_next_node [OF wf n items]])
    fix h' r
    assume le: "heap_le h h'" and r: "case r of None \<Rightarrow> \<forall>x \<in> set ?it. as_node (fst x) = None
      | Some c \<Rightarrow> \<exists>j < length ?it. child_at h' n (fst (snd (?it ! j))) (Node c) \<and> (\<forall>k < j. as_node (fst (?it ! k)) = None)"
    note same = heap_le_node [OF le n]
    show "first_node_from h' n k r"
    proof (cases r)
      case None
      have "as_node (?cs ! i) = None" if "i < length ?cs" "k \<le> i" for i
      proof -
        have "i - k < length ?it" using len that by simp
        then have mem: "?it ! (i - k) \<in> set ?it" by (rule nth_mem)
        have "\<forall>x \<in> set ?it. as_node (fst x) = None" using r None by simp
        from bspec [OF this mem] have "as_node (fst (?it ! (i - k))) = None" .
        with nth [OF \<open>i - k < length ?it\<close>] that show ?thesis by simp
      qed
      with None same show ?thesis by (simp add: first_node_from_def)
    next
      case (Some c)
      with r obtain j where j: "j < length ?it" "child_at h' n (fst (snd (?it ! j))) (Node c)"
        "\<forall>k < j. as_node (fst (?it ! k)) = None" by auto
      have "as_node (?cs ! i) = None" if "k \<le> i" "i < k + j" for i
      proof -
        have "i - k < j" "i - k < length ?it" using that j(1) by auto
        with j(3) have "as_node (fst (?it ! (i - k))) = None" by blast
        with nth [OF \<open>i - k < length ?it\<close>] that show ?thesis by simp
      qed
      with Some j nth [OF j(1)] same show ?thesis
        by (auto simp: first_node_from_def intro!: exI [of _ "k + j"])
    qed
  qed
qed

lemma nav_last_node_before:
  assumes wf: "red_wf E g h" and n: "n < length h" and k: "k \<le> length (node_children (h ! n))"
    and offset: "unat offset = child_start (h ! n) k"
  shows "nav E g h (add_next_node E n (filter_nodes (children_to (en_text E) (nd_green (h ! n)) k offset)))
    (\<lambda>h' r. last_node_before h' n k r)"
proof -
  let ?it = "children_to (en_text E) (nd_green (h ! n)) k offset" and ?cs = "node_children (h ! n)"
  have len: "length ?it = k" using k by (simp add: node_children_def)
  have items: "x \<in> set ?it \<Longrightarrow> item_ok (h ! n) x" for x
    by (rule children_to_ok [OF red_wf_node [OF wf n] k offset])
  have nth: "fst (?it ! j) = ?cs ! (k - j - 1) \<and> fst (snd (?it ! j)) = k - j - 1" if "j < k" for j
    using items [OF nth_mem [of j ?it]] children_to_nth [of k "nd_green (h ! n)" j "en_text E" offset] that k len
    by (cases "?it ! j") (simp add: node_children_def)
  show ?thesis
  proof (rule nav_mono [OF nav_add_next_node [OF wf n items]])
    fix h' r
    assume le: "heap_le h h'" and r: "case r of None \<Rightarrow> \<forall>x \<in> set ?it. as_node (fst x) = None
      | Some c \<Rightarrow> \<exists>j < length ?it. child_at h' n (fst (snd (?it ! j))) (Node c) \<and> (\<forall>k < j. as_node (fst (?it ! k)) = None)"
    note same = heap_le_node [OF le n]
    show "last_node_before h' n k r"
    proof (cases r)
      case None
      have "as_node (?cs ! i) = None" if "i < k" for i
      proof -
        have "k - i - 1 < length ?it" using len that by simp
        then have mem: "?it ! (k - i - 1) \<in> set ?it" by (rule nth_mem)
        have "\<forall>x \<in> set ?it. as_node (fst x) = None" using r None by simp
        from bspec [OF this mem] have "as_node (fst (?it ! (k - i - 1))) = None" .
        with nth [of "k - i - 1"] that show ?thesis by simp
      qed
      with None same show ?thesis by (simp add: last_node_before_def)
    next
      case (Some c)
      with r obtain j where j: "j < k" "child_at h' n (fst (snd (?it ! j))) (Node c)"
        "\<forall>k < j. as_node (fst (?it ! k)) = None" by (auto simp: len)
      have "as_node (?cs ! i) = None" if "k - j - 1 < i" "i < k" for i
      proof -
        have "k - i - 1 < j" using that j(1) by auto
        with j(3) have "as_node (fst (?it ! (k - i - 1))) = None" by blast
        with nth [of "k - i - 1"] that show ?thesis by simp
      qed
      with Some j nth [OF j(1)] same show ?thesis
        by (auto simp: last_node_before_def intro!: exI [of _ "k - j - 1"])
    qed
  qed
qed

end

section \<open>The navigation functions of the code\<close>

context red_env
begin

lemma nav_first_child_or_token:
  "red_wf E g h \<Longrightarrow> n < length h \<Longrightarrow> nav E g h (first_child_or_token E n) (\<lambda>h' r. first_element_from h' n 0 r)"
  using node_range [of g h n] unfolding first_child_or_token_def
  by (auto intro!: nav_read node_green_eq nav_first_element_from)

lemma nav_first_child:
  "red_wf E g h \<Longrightarrow> n < length h \<Longrightarrow> nav E g h (first_child E n) (\<lambda>h' r. first_node_from h' n 0 r)"
  using node_range [of g h n] unfolding first_child_def
  by (auto intro!: nav_read node_green_eq nav_first_node_from)

lemma nav_last_child_or_token:
  "red_wf E g h \<Longrightarrow> n < length h \<Longrightarrow>
   nav E g h (last_child_or_token E n) (\<lambda>h' r. last_element_before h' n (length (node_children (h ! n))) r)"
  using node_range [of g h n] unfolding last_child_or_token_def iter_len_def gn_children_iter_def
    node_children_def [symmetric]
  by (auto intro!: nav_read node_green_eq nav_last_element_before simp: node_children_def [symmetric])

lemma nav_last_child:
  "red_wf E g h \<Longrightarrow> n < length h \<Longrightarrow>
   nav E g h (last_child E n) (\<lambda>h' r. last_node_before h' n (length (node_children (h ! n))) r)"
  using node_range [of g h n] unfolding last_child_def iter_len_def gn_children_iter_def
  by (auto intro!: nav_read node_green_eq nav_last_node_before simp: node_children_def [symmetric])

text \<open>The siblings of the \<open>i\<close>-th child of \<open>n\<close>.\<close>

lemma child_node_data:
  assumes "red_wf E g h" "child_at h n i (Node c)"
  shows "\<exists>offset. node_data_of h c = Inr (h ! c) \<and> as_child (nd_kind (h ! c)) = Some (n, as_u32 i, offset)"
  using child_at_elem [OF assms] by (auto simp: node_data_of_def)

lemma index_Suc:
  assumes "red_wf E g h" "child_at h n i e"
  shows "unat (as_u32 i + 1) = Suc i"
proof -
  have "Suc i \<le> u32_max"
    using child_at_index [OF assms] arity_le [OF red_wf_node [OF assms(1)], of n] assms(2) by (auto simp: child_at_def)
  then have "unat (as_u32 (Suc i)) = Suc i" by (rule unat_as_u32)
  then show ?thesis by (simp add: add.commute)
qed

lemma child_end:
  assumes "red_wf E g h" "child_at h n i e" "element_text_range E h e = Inr r"
  shows "unat (tr_start r) = child_start (h ! n) i" "unat (tr_end r) = child_start (h ! n) (Suc i)"
    "n < length h" "i < length (node_children (h ! n))"
  using child_range [OF assms(1,2)] child_at_index [OF assms(1,2)] assms(2,3)
  by (auto simp: child_start_Suc child_at_def)

lemma nav_element_next_sibling:
  assumes wf: "red_wf E g h" and at: "child_at h n i e"
  shows "nav E g h (element_next_sibling_or_token E e) (\<lambda>h' r. first_element_from h' n (Suc i) r)"
proof -
  obtain r where r: "element_text_range E h e = Inr r" using child_range [OF wf at] by auto
  note e = child_end [OF wf at r]
  note nxt = nav_first_element_from [OF wf e(3) _ e(2)]
  show ?thesis
  proof (cases e)
    case (Node c)
    with child_node_data [OF wf, of n i c] at r nxt e index_Suc [OF wf at] show ?thesis
      by (auto simp: next_sibling_or_token_def with_child_def intro!: nav_read node_green_eq)
  next
    case (Token t)
    with child_at_elem(4) [OF wf at] child_at_index [OF wf at] r nxt e show ?thesis
      by (auto simp: token_next_sibling_or_token_def next_child_or_token_after_def intro!: nav_read node_green_eq)
  qed
qed

lemma nav_element_prev_sibling:
  assumes wf: "red_wf E g h" and at: "child_at h n i e"
  shows "nav E g h (element_prev_sibling_or_token E e) (\<lambda>h' r. last_element_before h' n i r)"
proof -
  obtain r where r: "element_text_range E h e = Inr r" using child_range [OF wf at] by auto
  note e = child_end [OF wf at r]
  note prev = nav_last_element_before [OF wf e(3) _ e(1)]
  show ?thesis
  proof (cases e)
    case (Node c)
    with child_node_data [OF wf, of n i c] at r prev e child_at_index [OF wf at] show ?thesis
      by (auto simp: prev_sibling_or_token_def with_child_def intro!: nav_read node_green_eq)
  next
    case (Token t)
    with child_at_elem(4) [OF wf at] child_at_index [OF wf at] r prev e show ?thesis
      by (auto simp: token_prev_sibling_or_token_def prev_child_or_token_before_def intro!: nav_read node_green_eq)
  qed
qed

lemma nav_next_sibling:
  assumes wf: "red_wf E g h" and at: "child_at h n i (Node c)"
  shows "nav E g h (next_sibling E c) (\<lambda>h' r. first_node_from h' n (Suc i) r)"
proof -
  obtain r where r: "element_text_range E h (Node c) = Inr r" using child_range [OF wf at] by auto
  note e = child_end [OF wf at r]
  from child_node_data [OF wf at] r nav_first_node_from [OF wf e(3) _ e(2)] e index_Suc [OF wf at] show ?thesis
    by (auto simp: next_sibling_def with_child_def intro!: nav_read node_green_eq)
qed

lemma nav_prev_sibling:
  assumes wf: "red_wf E g h" and at: "child_at h n i (Node c)"
  shows "nav E g h (prev_sibling E c) (\<lambda>h' r. last_node_before h' n i r)"
proof -
  obtain r where r: "element_text_range E h (Node c) = Inr r" using child_range [OF wf at] by auto
  note e = child_end [OF wf at r]
  from child_node_data [OF wf at] r nav_last_node_before [OF wf e(3) _ e(1)] e child_at_index [OF wf at] show ?thesis
    by (auto simp: prev_sibling_def with_child_def intro!: nav_read node_green_eq)
qed

text \<open>The root has no siblings.\<close>

lemma root_kind: "red_wf E g h \<Longrightarrow> node_data_of h 0 = Inr (h ! 0) \<and> (\<exists>r. nd_kind (h ! 0) = KRoot g r)"
  by (simp add: red_wf_def node_data_of_def)

lemma nav_root_siblings:
  assumes "red_wf E g h"
  shows "nav E g h (next_sibling_or_token E 0) (\<lambda>_ r. r = None)" "nav E g h (prev_sibling_or_token E 0) (\<lambda>_ r. r = None)"
    "nav E g h (next_sibling E 0) (\<lambda>_ r. r = None)" "nav E g h (prev_sibling E 0) (\<lambda>_ r. r = None)"
  using root_kind [OF assms] assms
  by (auto simp: next_sibling_or_token_def prev_sibling_or_token_def next_sibling_def prev_sibling_def
      with_child_def intro!: nav_read nav_return)

end

text \<open>Every element but the root is the memoised child of its parent.\<close>

lemma elem_cases:
  assumes "red_wf E g h" "elem_in h e"
  obtains (root) "e = Node 0" | (child) n i where "child_at h n i e"
proof (cases e)
  case (Node c)
  show ?thesis
  proof (cases "nd_kind (h ! c)")
    case (KRoot g' r)
    with assms Node red_wf_node [of E g h c] have "c = 0" by (simp add: node_ok_def kind_ok_def)
    with Node root show ?thesis by simp
  next
    case (KChild p j offset)
    with assms Node red_wf_node [of E g h c] have "p < c" "unat j < length (node_children (h ! p))"
      "nd_children (h ! p) ! unat j = Some (Node c)" "c < length h" by (auto simp: node_ok_def kind_ok_def)
    moreover from this have "length (nd_children (h ! p)) = length (node_children (h ! p))"
      by (intro node_ok_length [OF red_wf_node [OF assms(1)]]) simp
    ultimately have "child_at h p (unat j) e" by (simp add: child_at_def Node)
    then show ?thesis by (rule child)
  qed
next
  case (Token t)
  with assms(2) child show ?thesis by simp
qed

end
