(* ===== verification/Red_Path.thy ===== *)
theory Red_Path
  imports Red_Navigation
begin

text \<open>
  Where an element of a red tree is in its green tree: the list of child indices from the
  root. Elements with the same path are the same element (the identity the code compares
  pointers for), and the green element below a red one is the one its path leads to.
\<close>

section \<open>Paths\<close>

function path_of :: "('j, 'x) heap \<Rightarrow> nat \<Rightarrow> nat list" where
  "path_of h n =
     (case nd_kind (h ! n) of
        KRoot _ _ \<Rightarrow> []
      | KChild p i _ \<Rightarrow> if p < n then path_of h p @ [unat i] else [])"
  by auto
termination by (relation "measure snd") auto

declare path_of.simps [simp del]

fun elem_path :: "('j, 'x) heap \<Rightarrow> syntax_element \<Rightarrow> nat list" where
  "elem_path h (Node n) = path_of h n"
| "elem_path h (Token t) = path_of h (st_parent t) @ [unat (st_index t)]"

text \<open>The green element at the end of a path.\<close>

fun sub :: "green_element \<Rightarrow> nat list \<Rightarrow> green_element option" where
  "sub e [] = Some e"
| "sub (Token t) (i # p) = None"
| "sub (Node n) (i # p) = (if i < length (gn_children n) then sub (gn_children n ! i) p else None)"

text \<open>The number of bytes before it.\<close>

fun start_at :: "green_element \<Rightarrow> nat list \<Rightarrow> nat" where
  "start_at e [] = 0"
| "start_at (Token t) (i # p) = 0"
| "start_at (Node n) (i # p) =
     (if i < length (gn_children n)
      then sum_list (map element_len (take i (gn_children n))) + start_at (gn_children n ! i) p else 0)"

lemma sub_snoc:
  "sub e (p @ [i]) =
     (case sub e p of
        Some (Node n) \<Rightarrow> if i < length (gn_children n) then Some (gn_children n ! i) else None
      | _ \<Rightarrow> None)"
  by (induction e p rule: sub.induct) (auto split: node_or_token.split)

lemma start_at_snoc:
  "sub e p = Some (Node n) \<Longrightarrow> i < length (gn_children n) \<Longrightarrow>
   start_at e (p @ [i]) = start_at e p + sum_list (map element_len (take i (gn_children n)))"
  by (induction e p rule: sub.induct) (auto split: if_splits)

text \<open>The green element below a red one.\<close>

fun green_of :: "('j, 'x) heap \<Rightarrow> syntax_element \<Rightarrow> green_element" where
  "green_of h (Node n) = Node (nd_green (h ! n))"
| "green_of h (Token t) = node_children (h ! st_parent t) ! unat (st_index t)"

lemma path_of_root: "red_wf E g h \<Longrightarrow> path_of h 0 = []"
  by (auto simp: red_wf_def path_of.simps)

lemma child_at_path:
  assumes "red_wf E g h" "child_at h n i e"
  shows "elem_path h e = path_of h n @ [i]"
proof (cases e)
  case (Node c)
  with child_at_elem(3) [OF assms] child_at_index [OF assms] show ?thesis
    by (auto simp: path_of.simps [of h c])
next
  case (Token t)
  with child_at_elem(4) [OF assms] child_at_index [OF assms] show ?thesis by auto
qed

lemma child_at_green:
  assumes "red_wf E g h" "child_at h n i e"
  shows "green_of h e = node_children (h ! n) ! i"
  using child_at_elem(3,4) [OF assms] child_at_index [OF assms] by (cases e) auto

lemma path_of_le:
  assumes "heap_le h h'" "red_wf E g h"
  shows "n < length h \<Longrightarrow> path_of h' n = path_of h n"
proof (induction n rule: less_induct)
  case (less n)
  note same = heap_le_node [OF assms(1) less.prems]
  from less show ?case
    by (cases "nd_kind (h ! n)") (auto simp: path_of.simps [of h n] path_of.simps [of h' n] same)
qed

lemma elem_path_le:
  assumes "heap_le h h'" "red_wf E g h" "elem_in h e"
  shows "elem_path h' e = elem_path h e"
  using assms path_of_le [OF assms(1,2)] by (cases e) (auto simp: child_at_def)

lemma elem_path_Nil_iff:
  assumes "red_wf E g h" "elem_in h e"
  shows "elem_path h e = [] \<longleftrightarrow> e = Node 0"
  using assms
proof (cases rule: elem_cases)
  case root
  then show ?thesis using path_of_root [OF assms(1)] by simp
next
  case (child n i)
  then have "elem_path h e \<noteq> []" using child_at_path [OF assms(1)] by simp
  then show ?thesis using path_of_root [OF assms(1)] by auto
qed

text \<open>One red element per path.\<close>

lemma elem_path_inj:
  assumes wf: "red_wf E g h"
  shows "elem_in h e \<Longrightarrow> elem_in h e' \<Longrightarrow> elem_path h e = elem_path h e' \<Longrightarrow> e = e'"
proof (induction "elem_path h e" arbitrary: e e' rule: rev_induct)
  case Nil
  then show ?case using elem_path_Nil_iff [OF wf] by metis
next
  case (snoc i p)
  then obtain n j where at: "child_at h n j e"
    using elem_path_Nil_iff [OF wf, of e] by (metis elem_cases [OF wf] snoc_eq_iff_butlast)
  from snoc obtain n' j' where at': "child_at h n' j' e'"
    using elem_path_Nil_iff [OF wf, of e'] by (metis elem_cases [OF wf] snoc_eq_iff_butlast)
  have paths: "p = path_of h n" "path_of h n = path_of h n'" "j = j'"
    using child_at_path [OF wf at] child_at_path [OF wf at'] snoc.hyps(2) snoc.prems(3) by auto
  have "(Node n :: syntax_element) = Node n'"
    by (rule snoc.hyps(1)) (use paths at at' in \<open>auto simp: child_at_def\<close>)
  then show ?case using at at' paths(3) by (simp add: child_at_fun)
qed

text \<open>The path of an element leads to its green element, and its start is where its text starts.\<close>

lemma node_sub:
  assumes wf: "red_wf E g h"
  shows "n < length h \<Longrightarrow> sub (Node g) (path_of h n) = Some (Node (nd_green (h ! n))) \<and>
    start_at (Node g) (path_of h n) = node_start (h ! n)"
proof (induction n rule: less_induct)
  case (less n)
  show ?case
  proof (cases "nd_kind (h ! n)")
    case (KRoot g' r)
    with less.prems red_wf_node [OF wf less.prems] have n0: "n = 0" by (simp add: node_ok_def kind_ok_def)
    with KRoot wf show ?thesis by (simp add: path_of_root [OF wf]) (auto simp: red_wf_def node_start_def)
  next
    case (KChild p i offset)
    with red_wf_node [OF wf less.prems] have p: "p < n" "unat i < length (node_children (h ! p))"
      "node_children (h ! p) ! unat i = Node (nd_green (h ! n))" "unat offset = child_start (h ! p) (unat i)"
      by (auto simp: node_ok_def kind_ok_def)
    have IH: "sub (Node g) (path_of h p) = Some (Node (nd_green (h ! p)))"
      "start_at (Node g) (path_of h p) = node_start (h ! p)" using less p(1) by auto
    have path: "path_of h n = path_of h p @ [unat i]" using KChild p(1) by (simp add: path_of.simps [of h n])
    show ?thesis
      using p KChild start_at_snoc [OF IH(1), of "unat i"] IH
      by (simp add: path sub_snoc node_children_def [symmetric] node_start_def [of "h ! n"] child_start_def)
  qed
qed

lemma elem_sub:
  assumes wf: "red_wf E g h" and e: "elem_in h e"
  shows "sub (Node g) (elem_path h e) = Some (green_of h e)"
proof (cases e)
  case (Node n)
  with node_sub [OF wf] e show ?thesis by simp
next
  case (Token t)
  with e have at: "child_at h (st_parent t) (unat (st_index t)) e" by simp
  then have "st_parent t < length h" by (simp add: child_at_def)
  with node_sub [OF wf this] child_at_index [OF wf at] Token show ?thesis
    by (simp add: sub_snoc node_children_def)
qed

context red_env
begin

text \<open>The range of an element: where its path starts, as long as its green element.\<close>

lemma element_range:
  assumes wf: "red_wf E g h" and e: "elem_in h e"
  shows "\<exists>r. element_text_range E h e = Inr r \<and> tr_valid r \<and> unat (tr_start r) = start_at (Node g) (elem_path h e) \<and>
    unat (tr_end r) = start_at (Node g) (elem_path h e) + element_len (green_of h e)"
  using wf e
proof (cases rule: elem_cases)
  case root
  with e node_range [OF wf, of 0] node_sub [OF wf, of 0] show ?thesis by (auto simp: child_start_end)
next
  case (child n i)
  then have n: "n < length h" by (simp add: child_at_def)
  note i = child_at_index [OF wf child]
  have "start_at (Node g) (elem_path h e) = child_start (h ! n) i"
    using start_at_snoc [OF node_sub [OF wf n, THEN conjunct1], of i] i node_sub [OF wf n]
    by (simp add: child_at_path [OF wf child] child_start_def node_children_def)
  with child_range [OF wf child] child_at_green [OF wf child] show ?thesis by simp
qed

end

end
