(* ===== verification/Red_Traversal.thy ===== *)
theory Red_Traversal
  imports Red_Path "HOL-Library.Sublist"
begin

text \<open>
  The iterators of \<open>cstree/src/syntax/node.rs\<close> that walk a tree: ancestors, siblings, the
  preorder traversals and the descendants. An \<open>iter::successors\<close> is modelled by the first
  \<open>k\<close> items it yields; the theorems say how many there are.
\<close>

section \<open>Successor iterators\<close>

text \<open>The first \<open>k\<close> items of \<open>iter::successors(first, f)\<close>; yielding an item computes its successor.\<close>

fun successors :: "nat \<Rightarrow> ('a \<Rightarrow> ('j, 'x, 'a option) red) \<Rightarrow> 'a option \<Rightarrow> ('j, 'x, 'a list) red" where
  "successors 0 f cur = returnR []"
| "successors (Suc k) f None = returnR []"
| "successors (Suc k) f (Some x) =
     bindR (f x) (\<lambda>nxt. bindR (successors k f nxt) (\<lambda>xs. returnR (x # xs)))"

definition node_ancestors :: "nat \<Rightarrow> nat \<Rightarrow> ('j, 'x, nat list) red" where
  "node_ancestors k n = successors k (\<lambda>node. readR (\<lambda>h. node_parent h node)) (Some n)"

fun element_ancestors :: "nat \<Rightarrow> syntax_element \<Rightarrow> ('j, 'x, nat list) red" where
  "element_ancestors k (Node it) = node_ancestors k it"
| "element_ancestors k (Token it) = node_ancestors k (st_parent it)"

text \<open>\<open>SyntaxNode::root\<close>: the loop, with the number of rounds it may take.\<close>

fun node_root :: "nat \<Rightarrow> ('j, 'x) heap \<Rightarrow> nat \<Rightarrow> nat outcome" where
  "node_root 0 h current = Inl Out_of_fuel"
| "node_root (Suc k) h current = bindO (node_parent h current) (\<lambda>p.
     case p of Some parent \<Rightarrow> node_root k h parent | None \<Rightarrow> Inr current)"

definition node_resolver :: "nat \<Rightarrow> ('j, 'x) heap \<Rightarrow> nat \<Rightarrow> 'j option outcome" where
  "node_resolver k h n = bindO (node_root k h n) (\<lambda>r. bindO (node_data_of h r) (\<lambda>d.
     case nd_kind d of KRoot _ resolver \<Rightarrow> Inr resolver | KChild _ _ _ \<Rightarrow> Inl Unreachable))"

definition try_resolved :: "nat \<Rightarrow> ('j, 'x) heap \<Rightarrow> nat \<Rightarrow> nat option outcome" where
  "try_resolved k h n = bindO (node_resolver k h n) (\<lambda>r. Inr (map_option (\<lambda>_. n) r))"

definition resolved :: "nat \<Rightarrow> ('j, 'x) heap \<Rightarrow> nat \<Rightarrow> nat outcome" where
  "resolved k h n = bindO (try_resolved k h n) (\<lambda>r. case r of None \<Rightarrow> Inl No_resolver | Some n' \<Rightarrow> Inr n')"

definition siblings :: "nat \<Rightarrow> ('s, 'd, 'i, 'e) env \<Rightarrow> nat \<Rightarrow> direction \<Rightarrow> ('j, 'x, nat list) red" where
  "siblings k E n dir = successors k
     (\<lambda>node. case dir of Next \<Rightarrow> next_sibling E node | Prev \<Rightarrow> prev_sibling E node) (Some n)"

definition siblings_with_tokens :: "nat \<Rightarrow> ('s, 'd, 'i, 'e) env \<Rightarrow> syntax_element \<Rightarrow> direction \<Rightarrow>
  ('j, 'x, syntax_element list) red" where
  "siblings_with_tokens k E me dir = successors k
     (\<lambda>el. case dir of Next \<Rightarrow> element_next_sibling_or_token E el | Prev \<Rightarrow> element_prev_sibling_or_token E el)
     (Some me)"

section \<open>Preorder traversals\<close>

definition preorder_step :: "('s, 'd, 'i, 'e) env \<Rightarrow> nat \<Rightarrow> nat walk_event \<Rightarrow> ('j, 'x, nat walk_event option) red" where
  "preorder_step E me pos =
     (case pos of
        Enter node \<Rightarrow> bindR (first_child E node) (\<lambda>c.
          returnR (Some (case c of Some child \<Rightarrow> Enter child | None \<Rightarrow> Leave node)))
      | Leave node \<Rightarrow>
          if node = me then returnR None
          else bindR (next_sibling E node) (\<lambda>s.
            case s of
              Some sibling \<Rightarrow> returnR (Some (Enter sibling))
            | None \<Rightarrow> bindR (readR (\<lambda>h. bindO (node_parent h node) unwrap)) (\<lambda>p. returnR (Some (Leave p)))))"

definition preorder :: "nat \<Rightarrow> ('s, 'd, 'i, 'e) env \<Rightarrow> nat \<Rightarrow> ('j, 'x, nat walk_event list) red" where
  "preorder k E me = successors k (preorder_step E me) (Some (Enter me))"

definition preorder_with_tokens_step :: "('s, 'd, 'i, 'e) env \<Rightarrow> syntax_element \<Rightarrow> syntax_element walk_event \<Rightarrow>
  ('j, 'x, syntax_element walk_event option) red" where
  "preorder_with_tokens_step E me pos =
     (case pos of
        Enter (Node node) \<Rightarrow> bindR (first_child_or_token E node) (\<lambda>c.
          returnR (Some (case c of Some child \<Rightarrow> Enter child | None \<Rightarrow> Leave (Node node))))
      | Enter (Token token) \<Rightarrow> returnR (Some (Leave (Token token)))
      | Leave el \<Rightarrow>
          if el = me then returnR None
          else bindR (element_next_sibling_or_token E el) (\<lambda>s.
            case s of
              Some sibling \<Rightarrow> returnR (Some (Enter sibling))
            | None \<Rightarrow> bindR (readR (\<lambda>h. bindO (element_parent h el) unwrap)) (\<lambda>p. returnR (Some (Leave (Node p))))))"

definition preorder_with_tokens :: "nat \<Rightarrow> ('s, 'd, 'i, 'e) env \<Rightarrow> nat \<Rightarrow> ('j, 'x, syntax_element walk_event list) red" where
  "preorder_with_tokens k E n = successors k (preorder_with_tokens_step E (Node n)) (Some (Enter (Node n)))"

text \<open>\<open>filter_map\<close> of the events of a traversal.\<close>

fun entered :: "'a walk_event list \<Rightarrow> 'a list" where
  "entered [] = []"
| "entered (Enter x # es) = x # entered es"
| "entered (Leave x # es) = entered es"

definition descendants :: "nat \<Rightarrow> ('s, 'd, 'i, 'e) env \<Rightarrow> nat \<Rightarrow> ('j, 'x, nat list) red" where
  "descendants k E n = bindR (preorder k E n) (\<lambda>es. returnR (entered es))"

definition descendants_with_tokens :: "nat \<Rightarrow> ('s, 'd, 'i, 'e) env \<Rightarrow> nat \<Rightarrow> ('j, 'x, syntax_element list) red" where
  "descendants_with_tokens k E n = bindR (preorder_with_tokens k E n) (\<lambda>es. returnR (entered es))"

section \<open>The walk of a green tree\<close>

text \<open>The events of a preorder traversal, as paths.\<close>

function walk_node :: "nat list \<Rightarrow> green_node \<Rightarrow> nat list walk_event list"
  and walk_children :: "nat list \<Rightarrow> nat \<Rightarrow> green_element list \<Rightarrow> nat list walk_event list" where
  "walk_node p (GreenNode h cs) = Enter p # walk_children p 0 cs @ [Leave p]"
| "walk_children p i [] = []"
| "walk_children p i (Node n # cs) = walk_node (p @ [i]) n @ walk_children p (Suc i) cs"
| "walk_children p i (Token t # cs) = Enter (p @ [i]) # Leave (p @ [i]) # walk_children p (Suc i) cs"
  by pat_completeness auto
termination
  by (relation "measure (case_sum (\<lambda>(p, n). size n)
      (\<lambda>(p, i, cs). size_list (size_node_or_token size (\<lambda>_. 0)) cs))") auto

fun walk_element :: "nat list \<Rightarrow> green_element \<Rightarrow> nat list walk_event list" where
  "walk_element p (Node n) = walk_node p n"
| "walk_element p (Token t) = [Enter p, Leave p]"

lemma walk_children_Cons: "walk_children p i (c # cs) = walk_element (p @ [i]) c @ walk_children p (Suc i) cs"
  by (cases c) simp_all

section \<open>Stretches of an iteration\<close>

text \<open>From \<open>Some x\<close> in one heap, the iterator yields \<open>xs\<close> and arrives at another item and heap.\<close>

inductive yields :: "('a \<Rightarrow> ('j, 'x, 'a option) red) \<Rightarrow> ('j, 'x) heap \<Rightarrow> 'a option \<Rightarrow> 'a list \<Rightarrow> ('j, 'x) heap \<Rightarrow> 'a option \<Rightarrow> bool"
  for f where
  stop: "yields f h cur [] h cur"
| item: "f x h = Inr (nxt, h1) \<Longrightarrow> yields f h1 nxt xs h2 end \<Longrightarrow> yields f h (Some x) (x # xs) h2 end"

lemma yields_trans:
  "yields f h cur xs h1 mid \<Longrightarrow> yields f h1 mid ys h2 end \<Longrightarrow> yields f h cur (xs @ ys) h2 end"
  by (induction rule: yields.induct) (auto intro: yields.item)

lemma successors_None [simp]: "successors k f None = returnR []"
  by (cases k) simp_all

lemma yields_successors:
  "yields f h cur xs h2 None \<Longrightarrow> length xs \<le> k \<Longrightarrow> successors k f cur h = Inr (xs, h2)"
proof (induction h cur xs h2 "None :: 'a option" arbitrary: k rule: yields.induct)
  case (stop h)
  then show ?case by (simp add: returnR_def)
next
  case (item x h nxt h1 xs h2)
  then obtain m where "k = Suc m" "length xs \<le> m" by (cases k) auto
  with item show ?case by (simp add: bindR_def returnR_def)
qed

section \<open>Ancestors and the root\<close>

lemma node_parent_eq:
  "n < length h \<Longrightarrow> node_parent h n = Inr (case nd_kind (h ! n) of KRoot _ _ \<Rightarrow> None | KChild p _ _ \<Rightarrow> Some p)"
  by (simp add: node_parent_def node_data_of_def split: red_kind.split)

lemma parent_less: "red_wf E g h \<Longrightarrow> n < length h \<Longrightarrow> nd_kind (h ! n) = KChild p i offset \<Longrightarrow> p < n"
  using red_wf_node [of E g h n] by (auto simp: node_ok_def kind_ok_def)

lemma KRoot_0: "red_wf E g h \<Longrightarrow> n < length h \<Longrightarrow> nd_kind (h ! n) = KRoot g' r \<Longrightarrow> n = 0"
  using red_wf_node [of E g h n] by (auto simp: node_ok_def kind_ok_def)

lemma node_root_eq:
  assumes wf: "red_wf E g h"
  shows "n < length h \<Longrightarrow> n < k \<Longrightarrow> node_root k h n = Inr 0"
proof (induction k arbitrary: n)
  case (Suc k)
  then show ?case
    using parent_less [OF wf Suc.prems(1)] KRoot_0 [OF wf Suc.prems(1)]
    by (cases "nd_kind (h ! n)") (fastforce simp: node_parent_eq)+
qed simp

lemma node_ancestors_eq:
  assumes wf: "red_wf E g h"
  shows "n < length h \<Longrightarrow> length (path_of h n) < k \<Longrightarrow>
    \<exists>ns. node_ancestors k n h = Inr (ns, h) \<and> (\<forall>m \<in> set ns. m < length h) \<and>
      map (path_of h) ns = rev (prefixes (path_of h n))"
proof (induction n arbitrary: k rule: less_induct)
  case (less n)
  obtain m where k: "k = Suc m" using less.prems(2) by (cases k) auto
  show ?case
  proof (cases "nd_kind (h ! n)")
    case (KRoot g' r)
    with KRoot_0 [OF wf less.prems(1)] path_of_root [OF wf] less.prems(1) show ?thesis
      by (auto simp: node_ancestors_def k node_parent_eq bindR_def readR_def returnR_def)
  next
    case (KChild p i offset)
    have p: "p < n" "p < length h" using parent_less [OF wf less.prems(1) KChild] less.prems(1) by auto
    have path: "path_of h n = path_of h p @ [unat i]" using KChild p(1) by (simp add: path_of.simps [of h n])
    with less.prems(2) k have "length (path_of h p) < m" by simp
    from less.IH [OF p this] obtain ns where "node_ancestors m p h = Inr (ns, h)" "\<forall>m \<in> set ns. m < length h"
      "map (path_of h) ns = rev (prefixes (path_of h p))" by blast
    then show ?thesis
      using KChild less.prems(1) path
      by (intro exI [of _ "n # ns"])
        (simp add: node_ancestors_def k node_parent_eq bindR_def readR_def returnR_def prefixes_snoc)
  qed
qed

section \<open>The preorder traversal with tokens\<close>

fun event_path :: "('j, 'x) heap \<Rightarrow> syntax_element walk_event \<Rightarrow> nat list walk_event" where
  "event_path h (Enter e) = Enter (elem_path h e)"
| "event_path h (Leave e) = Leave (elem_path h e)"

fun event_in :: "('j, 'x) heap \<Rightarrow> syntax_element walk_event \<Rightarrow> bool" where
  "event_in h (Enter e) \<longleftrightarrow> elem_in h e"
| "event_in h (Leave e) \<longleftrightarrow> elem_in h e"

lemma event_path_le:
  assumes "heap_le h h'" "red_wf E g h" "event_in h x"
  shows "event_path h' x = event_path h x" "event_in h' x"
  using assms elem_path_le [OF assms(1,2)] heap_le_elem_in [OF assms(1)] by (cases x; simp)+

lemma event_paths_le:
  assumes "heap_le h h'" "red_wf E g h" "list_all (event_in h) xs"
  shows "map (event_path h') xs = map (event_path h) xs" "list_all (event_in h') xs"
  using assms event_path_le [OF assms(1,2)] by (auto simp: list_all_iff)

text \<open>
  A stretch of a traversal, over elements or over nodes alone: started at one event it arrives at
  another one, and the events before that one have these paths. \<open>lift\<close> makes them events of elements.
\<close>

definition stretch :: "('s, 'd, 'i, 'e) env \<Rightarrow> green_node \<Rightarrow> ('a walk_event \<Rightarrow> ('j, 'x, 'a walk_event option) red) \<Rightarrow>
    ('a walk_event \<Rightarrow> syntax_element walk_event) \<Rightarrow> ('j, 'x) heap \<Rightarrow> 'a walk_event \<Rightarrow> 'a walk_event \<Rightarrow> nat list walk_event list \<Rightarrow> bool" where
  "stretch E g step lift h start stop es \<longleftrightarrow>
     (\<exists>h' xs. yields step h (Some start) xs h' (Some stop) \<and> red_wf E g h' \<and> heap_le h h' \<and>
        list_all (event_in h') (map lift xs) \<and> map (event_path h') (map lift xs) = es)"

lemma stretch_step:
  assumes wf: "red_wf E g h" and "event_in h (lift start)"
    and 1: "step start h = Inr (Some nxt, h1)" "red_wf E g h1" "heap_le h h1"
      "nxt = stop \<and> es = [] \<or> stretch E g step lift h1 nxt stop es"
  shows "stretch E g step lift h start stop (event_path h (lift start) # es)"
proof -
  have "\<exists>h' xs. yields step h1 (Some nxt) xs h' (Some stop) \<and> red_wf E g h' \<and> heap_le h1 h' \<and>
      list_all (event_in h') (map lift xs) \<and> map (event_path h') (map lift xs) = es"
  proof (cases "nxt = stop \<and> es = []")
    case True
    have "yields step h1 (Some stop) [] h1 (Some stop)" by (rule yields.stop)
    with True 1(2) show ?thesis by (intro exI [of _ h1] exI [of _ "[]"] conjI) simp_all
  next
    case False
    with 1(4) show ?thesis by (simp add: stretch_def)
  qed
  then obtain h' xs where x: "yields step h1 (Some nxt) xs h' (Some stop)" "red_wf E g h'"
    "heap_le h1 h'" "list_all (event_in h') (map lift xs)" "map (event_path h') (map lift xs) = es" by blast
  have "yields step h (Some start) (start # xs) h' (Some stop)"
    using 1(1) x(1) by (rule yields.item)
  moreover have le: "heap_le h h'" using 1(3) x(3) by (rule heap_le_trans)
  moreover have "list_all (event_in h') (map lift (start # xs)) \<and>
      map (event_path h') (map lift (start # xs)) = event_path h (lift start) # es"
    using event_path_le [OF le wf assms(2)] x(4,5) by simp
  ultimately show ?thesis
    using x(2) unfolding stretch_def by (intro exI [of _ h'] exI [of _ "start # xs"] conjI) simp_all
qed

lemma stretch_trans:
  assumes "stretch E g step lift h start mid es"
    and "\<And>h'. red_wf E g h' \<Longrightarrow> heap_le h h' \<Longrightarrow> stretch E g step lift h' mid stop fs"
  shows "stretch E g step lift h start stop (es @ fs)"
proof -
  obtain h1 xs where 1: "yields step h (Some start) xs h1 (Some mid)" "red_wf E g h1"
    "heap_le h h1" "list_all (event_in h1) (map lift xs)" "map (event_path h1) (map lift xs) = es"
    using assms(1) by (auto simp: stretch_def)
  from assms(2) [OF 1(2,3)] obtain h2 ys where 2: "yields step h1 (Some mid) ys h2 (Some stop)"
    "red_wf E g h2" "heap_le h1 h2" "list_all (event_in h2) (map lift ys)" "map (event_path h2) (map lift ys) = fs"
    by (auto simp: stretch_def)
  have "yields step h (Some start) (xs @ ys) h2 (Some stop)"
    using 1(1) 2(1) by (rule yields_trans)
  moreover have "list_all (event_in h2) (map lift (xs @ ys))" "map (event_path h2) (map lift (xs @ ys)) = es @ fs"
    unfolding map_append using event_paths_le [OF 2(3) 1(2,4)] 2(4,5) 1(5) by (simp_all del: map_map)
  ultimately show ?thesis using 2(2) heap_le_trans [OF 1(3) 2(3)] unfolding stretch_def by blast
qed

text \<open>From leaving the root of a traversal, which ends it.\<close>

lemma stretch_end:
  assumes "stretch E g step lift h start stop es" "\<And>h'. step stop h' = Inr (None, h')"
    and "\<And>h'. red_wf E g h' \<Longrightarrow> heap_le h h' \<Longrightarrow> event_in h' (lift stop) \<and> event_path h' (lift stop) = final"
  shows "\<exists>xs h'. yields step h (Some start) xs h' None \<and> red_wf E g h' \<and> heap_le h h' \<and>
    list_all (event_in h') (map lift xs) \<and> map (event_path h') (map lift xs) = es @ [final]"
proof -
  obtain h' xs where x: "yields step h (Some start) xs h' (Some stop)" "red_wf E g h'" "heap_le h h'"
    "list_all (event_in h') (map lift xs)" "map (event_path h') (map lift xs) = es"
    using assms(1) by (auto simp: stretch_def)
  have "yields step h' (Some stop) [stop] h' None"
    using assms(2) by (rule yields.item) (rule yields.stop)
  with x(1) have "yields step h (Some start) (xs @ [stop]) h' None" by (rule yields_trans)
  with x assms(3) [OF x(2,3)] show ?thesis
    by (intro exI [of _ "xs @ [stop]"] exI [of _ h']) simp
qed

context red_env
begin

lemma step_enter:
  assumes wf: "red_wf E g h" and c: "c < length h"
  obtains h' nxt where "preorder_with_tokens_step E me (Enter (Node c)) h = Inr (Some nxt, h')" "red_wf E g h'" "heap_le h h'"
    "node_children (h ! c) = [] \<Longrightarrow> nxt = Leave (Node c)"
    "node_children (h ! c) \<noteq> [] \<Longrightarrow> \<exists>e. nxt = Enter e \<and> child_at h' c 0 e"
proof -
  obtain r h' where r: "first_child_or_token E c h = Inr (r, h')" "red_wf E g h'" "heap_le h h'"
    "first_element_from h' c 0 r"
    using nav_first_child_or_token [OF wf c] by (auto simp: nav_def)
  note same = heap_le_node [OF r(3) c]
  show thesis
  proof (cases r)
    case None
    show thesis
      by (rule that [of "Leave (Node c)" h'])
        (use None r same in \<open>auto simp: preorder_with_tokens_step_def bindR_def returnR_def first_element_from_def\<close>)
  next
    case (Some e)
    with r have at: "child_at h' c 0 e" by (simp add: first_element_from_def)
    show thesis
      by (rule that [of "Enter e" h'])
        (use Some r same at child_at_index [OF r(2) at] in \<open>auto simp: preorder_with_tokens_step_def bindR_def returnR_def\<close>)
  qed
qed

lemma step_leave:
  assumes wf: "red_wf E g h" and at: "child_at h c i e" and me: "e \<noteq> me"
  obtains h' nxt where "preorder_with_tokens_step E me (Leave e) h = Inr (Some nxt, h')" "red_wf E g h'" "heap_le h h'"
    "Suc i < length (node_children (h ! c)) \<Longrightarrow> \<exists>e'. nxt = Enter e' \<and> child_at h' c (Suc i) e'"
    "\<not> Suc i < length (node_children (h ! c)) \<Longrightarrow> nxt = Leave (Node c)"
proof -
  have c: "c < length h" using at by (simp add: child_at_def)
  obtain r h' where r: "element_next_sibling_or_token E e h = Inr (r, h')" "red_wf E g h'" "heap_le h h'"
    "first_element_from h' c (Suc i) r"
    using nav_element_next_sibling [OF wf at] by (auto simp: nav_def)
  note same = heap_le_node [OF r(3) c]
  have parent: "element_parent h' e = Inr (Some c)"
    by (rule child_at_elem(2) [OF r(2) heap_le_child_at [OF r(3) at]])
  show thesis
  proof (cases r)
    case None
    show thesis
      by (rule that [of "Leave (Node c)" h'])
        (use None r parent me same in
          \<open>auto simp: preorder_with_tokens_step_def bindR_def returnR_def readR_def first_element_from_def\<close>)
  next
    case (Some e')
    with r have at': "child_at h' c (Suc i) e'" by (simp add: first_element_from_def)
    show thesis
      by (rule that [of "Enter e'" h'])
        (use Some r me same at' child_at_index [OF r(2) at'] in
          \<open>auto simp: preorder_with_tokens_step_def bindR_def returnR_def\<close>)
  qed
qed

text \<open>
  The traversal started at \<open>me\<close> walks a subtree at least as deep as \<open>me\<close>: from entering its
  root to leaving it, the events are those of the green subtree.
\<close>

abbreviation walks :: "green_node \<Rightarrow> syntax_element \<Rightarrow> ('j, 'x) heap \<Rightarrow> syntax_element walk_event \<Rightarrow> syntax_element walk_event \<Rightarrow>
    nat list walk_event list \<Rightarrow> bool" where
  "walks g me \<equiv> stretch E g (preorder_with_tokens_step E me) (\<lambda>x. x)"

text \<open>Elements deeper than the traversal's own root are not that root.\<close>

lemma deeper_not_me:
  assumes "red_wf E g h" "child_at h c i e" "length (elem_path h me) \<le> length (path_of h c)"
  shows "e \<noteq> me"
  using child_at_path [OF assms(1,2)] assms(3) by auto

lemma depth_le:
  assumes "red_wf E g h" "heap_le h h'" "elem_in h me" "c < length h" "length (elem_path h me) \<le> length (path_of h c)"
  shows "elem_in h' me" "c < length h'" "length (elem_path h' me) \<le> length (path_of h' c)"
    "path_of h' c = path_of h c" "nd_green (h' ! c) = nd_green (h ! c)" "node_children (h' ! c) = node_children (h ! c)"
  using assms heap_le_elem_in elem_path_le [OF assms(2,1)] path_of_le [OF assms(2,1)] heap_le_node [OF assms(2)] by auto

text \<open>From entering the \<open>i\<close>-th child of \<open>c\<close> to leaving \<open>c\<close>.\<close>

lemma walks_children:
  assumes nodes: "\<And>n (h :: ('j, 'x) heap) c. Node n \<in> set cs \<Longrightarrow> red_wf E g h \<Longrightarrow> c < length h \<Longrightarrow> nd_green (h ! c) = n \<Longrightarrow>
      elem_in h me \<Longrightarrow> length (elem_path h me) \<le> length (path_of h c) \<Longrightarrow>
      \<exists>es. walks g me h (Enter (Node c)) (Leave (Node c)) es \<and> es @ [Leave (path_of h c)] = walk_node (path_of h c) n"
    and "red_wf E g (h :: ('j, 'x) heap)" "child_at h c i e" "drop i (node_children (h ! c)) = cs" "elem_in h me"
      "length (elem_path h me) \<le> length (path_of h c)"
  shows "walks g me h (Enter e) (Leave (Node c)) (walk_children (path_of h c) i cs)"
  using assms
proof (induction cs arbitrary: h i e)
  case Nil
  then show ?case using child_at_index [OF Nil.prems(2,3)] by simp
next
  case (Cons d ds)
  note wf = Cons.prems(2) and at = Cons.prems(3) and deep = Cons.prems(5,6)
  have c: "c < length h" using at by (simp add: child_at_def)
  note idx = child_at_index [OF wf at]
  have "node_children (h ! c) ! i # drop (Suc i) (node_children (h ! c)) = d # ds"
    using Cons.prems(4) idx by (simp add: Cons_nth_drop_Suc)
  then have d: "node_children (h ! c) ! i = d" "drop (Suc i) (node_children (h ! c)) = ds" by simp_all
  note nodes' = Cons.prems(1) [OF list.set_intros(2)]
  have path: "elem_path h e = path_of h c @ [i]" by (rule child_at_path [OF wf at])
  have e_in: "elem_in h e" by (rule child_at_elem(1) [OF wf at])
  have leave: "walks g me h' (Leave e) (Leave (Node c)) (Leave (path_of h c @ [i]) # walk_children (path_of h c) (Suc i) ds)"
    if wf': "red_wf E g h'" and le: "heap_le h h'" for h'
  proof -
    note same = depth_le [OF wf le deep(1) c deep(2)]
    have at': "child_at h' c i e" by (rule heap_le_child_at [OF le at])
    obtain h'' nxt where s: "preorder_with_tokens_step E me (Leave e) h' = Inr (Some nxt, h'')" "red_wf E g h''" "heap_le h' h''"
      "Suc i < length (node_children (h' ! c)) \<Longrightarrow> \<exists>e'. nxt = Enter e' \<and> child_at h'' c (Suc i) e'"
      "\<not> Suc i < length (node_children (h' ! c)) \<Longrightarrow> nxt = Leave (Node c)"
      by (rule step_leave [OF wf' at' deeper_not_me [OF wf' at' same(3)]]) (rule that)
    note same' = depth_le [OF wf heap_le_trans [OF le s(3)] deep(1) c deep(2)]
    have "nxt = Leave (Node c) \<and> walk_children (path_of h c) (Suc i) ds = [] \<or>
        walks g me h'' nxt (Leave (Node c)) (walk_children (path_of h c) (Suc i) ds)"
    proof (cases "Suc i < length (node_children (h ! c))")
      case True
      then obtain e' where e': "nxt = Enter e'" "child_at h'' c (Suc i) e'" using s(4) same(6) by auto
      have "walks g me h'' (Enter e') (Leave (Node c)) (walk_children (path_of h'' c) (Suc i) ds)"
        by (rule Cons.IH [OF nodes' s(2) e'(2) _ same'(1,3)]) (assumption+, simp add: same'(6) d(2))
      with e'(1) same'(4) show ?thesis by simp
    next
      case False
      then have "ds = []" using d(2) by simp
      with False s(5) same(6) show ?thesis by simp
    qed
    from stretch_step [OF wf' _ s(1-3) this] show ?thesis
      using heap_le_elem_in [OF le e_in] elem_path_le [OF le wf e_in] path by simp
  qed
  show ?case
  proof (cases d)
    case (Node n)
    with child_at_elem(3,4) [OF wf at] d(1) obtain k where k: "e = Node k" "nd_green (h ! k) = n" by (cases e) auto
    then have "k < length h" using e_in by simp
    have pk: "path_of h k = path_of h c @ [i]" using path k(1) by simp
    have "\<exists>es. walks g me h (Enter (Node k)) (Leave (Node k)) es \<and> es @ [Leave (path_of h k)] = walk_node (path_of h k) n"
      by (rule Cons.prems(1) [OF _ wf \<open>k < length h\<close> k(2) deep(1)]) (use Node deep(2) pk in auto)
    then obtain es where es: "walks g me h (Enter e) (Leave e) es" "es @ [Leave (path_of h c @ [i])] = walk_node (path_of h c @ [i]) n"
      using k(1) pk by auto
    have "walk_children (path_of h c) i (d # ds) = es @ Leave (path_of h c @ [i]) # walk_children (path_of h c) (Suc i) ds"
      using Node es(2) [symmetric] by simp
    with stretch_trans [OF es(1) leave] show ?thesis by simp
  next
    case (Token t)
    with child_at_elem(3) [OF wf at] d(1) obtain t' where t': "e = Token t'" by (cases e) auto
    have "preorder_with_tokens_step E me (Enter e) h = Inr (Some (Leave e), h)"
      by (simp add: t' preorder_with_tokens_step_def returnR_def)
    from stretch_step [OF wf _ this wf heap_le_refl disjI2 [OF leave [OF wf heap_le_refl]]] e_in path Token
    show ?thesis by simp
  qed
qed

lemma walks_node:
  "red_wf E g h \<Longrightarrow> c < length h \<Longrightarrow> nd_green (h ! c) = n \<Longrightarrow> elem_in h me \<Longrightarrow>
   length (elem_path h me) \<le> length (path_of h c) \<Longrightarrow>
   \<exists>es. walks g me h (Enter (Node c)) (Leave (Node c)) es \<and> es @ [Leave (path_of h c)] = walk_node (path_of h c) n"
proof (induction n arbitrary: h c rule: green_node_induct)
  case (GreenNode hd cs)
  note wf = GreenNode.prems(1) and c = GreenNode.prems(2) and deep = GreenNode.prems(4,5)
  have cs: "node_children (h ! c) = cs" using GreenNode.prems(3) by (simp add: node_children_def)
  obtain h' nxt where s: "preorder_with_tokens_step E me (Enter (Node c)) h = Inr (Some nxt, h')" "red_wf E g h'" "heap_le h h'"
    "node_children (h ! c) = [] \<Longrightarrow> nxt = Leave (Node c)"
    "node_children (h ! c) \<noteq> [] \<Longrightarrow> \<exists>e. nxt = Enter e \<and> child_at h' c 0 e"
    by (rule step_enter [OF wf c]) (rule that)
  note same = depth_le [OF wf s(3) deep(1) c deep(2)]
  have "nxt = Leave (Node c) \<and> walk_children (path_of h c) 0 cs = [] \<or>
      walks g me h' nxt (Leave (Node c)) (walk_children (path_of h c) 0 cs)"
  proof (cases "cs = []")
    case True
    with s(4) cs show ?thesis by simp
  next
    case False
    then obtain e where e: "nxt = Enter e" "child_at h' c 0 e" using s(5) cs by auto
    have "walks g me h' (Enter e) (Leave (Node c)) (walk_children (path_of h' c) 0 cs)"
      by (rule walks_children [OF _ s(2) e(2)]) (use GreenNode.IH same cs in auto)
    with e same show ?thesis by simp
  qed
  from stretch_step [OF wf _ s(1-3) this] c have "walks g me h (Enter (Node c)) (Leave (Node c))
      (Enter (path_of h c) # walk_children (path_of h c) 0 cs)" by simp
  then show ?case by auto
qed

text \<open>The whole traversal.\<close>

lemma preorder_with_tokens_yields:
  assumes wf: "red_wf E g h" and c: "c < length h"
  shows "\<exists>xs h'. yields (preorder_with_tokens_step E (Node c)) h (Some (Enter (Node c))) xs h' None \<and> red_wf E g h' \<and>
    heap_le h h' \<and> list_all (event_in h') xs \<and> map (event_path h') xs = walk_node (path_of h c) (nd_green (h ! c))"
proof -
  have c_in: "elem_in h (Node c)" using c by simp
  have "length (elem_path h (Node c)) \<le> length (path_of h c)" by simp
  from walks_node [OF wf c refl c_in this] obtain es where es: "walks g (Node c) h (Enter (Node c)) (Leave (Node c)) es"
    "es @ [Leave (path_of h c)] = walk_node (path_of h c) (nd_green (h ! c))" by (elim exE conjE)
  have "\<exists>xs h'. yields (preorder_with_tokens_step E (Node c)) h (Some (Enter (Node c))) xs h' None \<and> red_wf E g h' \<and>
    heap_le h h' \<and> list_all (event_in h') (map (\<lambda>x. x) xs) \<and>
    map (event_path h') (map (\<lambda>x. x) xs) = es @ [Leave (path_of h c)]"
  proof (rule stretch_end [OF es(1)])
    fix h' assume le: "heap_le h h'"
    show "event_in h' (Leave (Node c)) \<and> event_path h' (Leave (Node c)) = Leave (path_of h c)"
      using path_of_le [OF le wf c] heap_le_node(1) [OF le c] by simp
  qed (simp add: preorder_with_tokens_step_def returnR_def)
  then show ?thesis by (simp only: es(2) list.map_ident)
qed

lemma preorder_with_tokens_walk:
  assumes wf: "red_wf E g h" and c: "c < length h"
    and k: "length (walk_node (path_of h c) (nd_green (h ! c))) \<le> k"
  shows "\<exists>xs h'. preorder_with_tokens k E c h = Inr (xs, h') \<and> red_wf E g h' \<and> heap_le h h' \<and> list_all (event_in h') xs \<and>
    map (event_path h') xs = walk_node (path_of h c) (nd_green (h ! c))"
proof -
  obtain xs h' where xs: "yields (preorder_with_tokens_step E (Node c)) h (Some (Enter (Node c))) xs h' None" "red_wf E g h'"
    "heap_le h h'" "list_all (event_in h') xs" "map (event_path h') xs = walk_node (path_of h c) (nd_green (h ! c))"
    using preorder_with_tokens_yields [OF wf c] by blast
  then have "length xs \<le> k" using k by (metis length_map)
  from yields_successors [OF xs(1) this] xs(2-5) show ?thesis by (auto simp: preorder_with_tokens_def)
qed

end

end
