(* ===== verification/Red_Preorder.thy ===== *)
theory Red_Preorder
  imports Red_Traversal
begin

text \<open>
  The preorder traversal of the nodes alone (\<open>SyntaxNode::preorder\<close> and \<open>descendants\<close> of
  \<open>cstree/src/syntax/node.rs\<close>): it visits the nodes of a subtree in the order of the green tree,
  and it neither reads nor changes the data of a node.
\<close>

section \<open>The walk of the nodes of a green tree\<close>

function walk_nodes :: "nat list \<Rightarrow> green_node \<Rightarrow> nat list walk_event list"
  and walk_child_nodes :: "nat list \<Rightarrow> nat \<Rightarrow> green_element list \<Rightarrow> nat list walk_event list" where
  "walk_nodes p (GreenNode h cs) = Enter p # walk_child_nodes p 0 cs @ [Leave p]"
| "walk_child_nodes p i [] = []"
| "walk_child_nodes p i (Node n # cs) = walk_nodes (p @ [i]) n @ walk_child_nodes p (Suc i) cs"
| "walk_child_nodes p i (Token t # cs) = walk_child_nodes p (Suc i) cs"
  by pat_completeness auto
termination
  by (relation "measure (case_sum (\<lambda>(p, n). size n)
      (\<lambda>(p, i, cs). size_list (size_node_or_token size (\<lambda>_. 0)) cs))") auto

fun node_event :: "nat walk_event \<Rightarrow> syntax_element walk_event" where
  "node_event (Enter n) = Enter (Node n)"
| "node_event (Leave n) = Leave (Node n)"

section \<open>The traversal\<close>

text \<open>The event after the children of \<open>c\<close> from some index on were looked at.\<close>

abbreviation next_event :: "nat \<Rightarrow> nat option \<Rightarrow> nat walk_event" where
  "next_event c r \<equiv> (case r of Some k \<Rightarrow> Enter k | None \<Rightarrow> Leave c)"

lemma first_node_from_node:
  assumes "red_wf E g h" "first_node_from h c i r" "i < length (node_children (h ! c))" "node_children (h ! c) ! i = Node n"
  obtains k where "r = Some k" "child_at h c i (Node k)"
proof (cases r)
  case None
  then show thesis using assms(2-4) by (auto simp: first_node_from_def)
next
  case (Some k)
  with assms(2) obtain j where j: "i \<le> j" "child_at h c j (Node k)"
    "\<forall>m. i \<le> m \<and> m < j \<longrightarrow> as_node (node_children (h ! c) ! m) = None" by (auto simp: first_node_from_def)
  with assms(4) have "j = i" by (metis as_node.simps(1) le_eq_less_or_eq option.distinct(1) order_refl)
  with Some j(2) show thesis by (intro that) simp_all
qed

lemma first_node_from_token:
  assumes wf: "red_wf E g h" and r: "first_node_from h c i r" and t: "node_children (h ! c) ! i = Token t"
  shows "first_node_from h c (Suc i) r"
proof (cases r)
  case None
  then show ?thesis using r by (auto simp: first_node_from_def)
next
  case (Some k)
  with r obtain j where j: "i \<le> j" "child_at h c j (Node k)"
    "\<forall>m. i \<le> m \<and> m < j \<longrightarrow> as_node (node_children (h ! c) ! m) = None" by (auto simp: first_node_from_def)
  have "j \<noteq> i" using child_at_elem(3) [OF wf j(2) refl] t by auto
  then have "Suc i \<le> j" using j(1) by simp
  with Some j(2,3) show ?thesis by (auto simp: first_node_from_def intro!: exI [of _ j])
qed

lemma ball_subset: "A \<subseteq> B \<Longrightarrow> \<forall>x \<in> B. P x \<Longrightarrow> \<forall>x \<in> A. P x"
  by blast

lemma first_node_from_end:
  "red_wf E g h \<Longrightarrow> first_node_from h c i r \<Longrightarrow> length (node_children (h ! c)) \<le> i \<Longrightarrow> r = None"
  using child_at_index [of E g h c] by (cases r) (fastforce simp: first_node_from_def)+

context red_env
begin

lemma node_step_enter:
  assumes "red_wf E g h" "c < length h"
  obtains h' r where "preorder_step E me (Enter c) h = Inr (Some (next_event c r), h')" "red_wf E g h'" "heap_le h h'"
    "first_node_from h' c 0 r"
proof -
  obtain r h' where r: "first_child E c h = Inr (r, h')" "red_wf E g h'" "heap_le h h'" "first_node_from h' c 0 r"
    using nav_first_child [OF assms] by (auto simp: nav_def)
  show thesis
    by (rule that [OF _ r(2-4)]) (use r(1) in \<open>auto simp: preorder_step_def bindR_def returnR_def split: option.split\<close>)
qed

lemma node_step_leave:
  assumes wf: "red_wf E g h" and at: "child_at h p i (Node c)" and me: "c \<noteq> me"
  obtains h' r where "preorder_step E me (Leave c) h = Inr (Some (next_event p r), h')" "red_wf E g h'" "heap_le h h'"
    "first_node_from h' p (Suc i) r"
proof -
  obtain r h' where r: "next_sibling E c h = Inr (r, h')" "red_wf E g h'" "heap_le h h'" "first_node_from h' p (Suc i) r"
    using nav_next_sibling [OF wf at] by (auto simp: nav_def)
  have "element_parent h' (Node c) = Inr (Some p)"
    by (rule child_at_elem(2) [OF r(2) heap_le_child_at [OF r(3) at]])
  with r(1) me show thesis
    by (intro that [OF _ r(2-4)]) (auto simp: preorder_step_def bindR_def returnR_def readR_def split: option.split)
qed

abbreviation node_walks :: "green_node \<Rightarrow> nat \<Rightarrow> ('j, 'x) heap \<Rightarrow> nat walk_event \<Rightarrow> nat walk_event \<Rightarrow> nat list walk_event list \<Rightarrow> bool" where
  "node_walks g me \<equiv> stretch E g (preorder_step E me) node_event"

text \<open>From the first node among the children of \<open>c\<close> from \<open>i\<close> on to leaving \<open>c\<close>.\<close>

lemma walk_the_nodes:
  assumes nodes: "\<forall>n \<in> {n. Node n \<in> set cs}. \<forall>(h :: ('j, 'x) heap) c. red_wf E g h \<longrightarrow> c < length h \<longrightarrow> nd_green (h ! c) = n \<longrightarrow>
      me < length h \<longrightarrow> length (path_of h me) \<le> length (path_of h c) \<longrightarrow>
      (\<exists>es. node_walks g me h (Enter c) (Leave c) es \<and> es @ [Leave (path_of h c)] = walk_nodes (path_of h c) n)"
    and "red_wf E g (h :: ('j, 'x) heap)" "c < length h" "first_node_from h c i r" "drop i (node_children (h ! c)) = cs"
      "me < length h" "length (path_of h me) \<le> length (path_of h c)"
  shows "next_event c r = Leave c \<and> walk_child_nodes (path_of h c) i cs = [] \<or>
    node_walks g me h (next_event c r) (Leave c) (walk_child_nodes (path_of h c) i cs)"
  using assms
proof (induction cs arbitrary: h i r)
  case Nil
  then show ?case using first_node_from_end [OF Nil.prems(2,4)] by simp
next
  case (Cons d ds)
  note wf = Cons.prems(2) and c = Cons.prems(3) and from_i = Cons.prems(4) and deep = Cons.prems(6,7)
  have i: "i < length (node_children (h ! c))" using Cons.prems(5) by (metis drop_eq_Nil linorder_not_le list.distinct(1))
  have "node_children (h ! c) ! i # drop (Suc i) (node_children (h ! c)) = d # ds"
    using Cons.prems(5) i by (simp add: Cons_nth_drop_Suc)
  then have d: "node_children (h ! c) ! i = d" "drop (Suc i) (node_children (h ! c)) = ds" by simp_all
  have "{n. Node n \<in> set ds} \<subseteq> {n. Node n \<in> set (d # ds)}" by auto
  note nodes' = ball_subset [OF this Cons.prems(1)]
  have deep': "elem_in h (Node me)" "length (elem_path h (Node me)) \<le> length (path_of h c)" using deep by simp_all
  show ?case
  proof (cases d)
    case (Token t)
    have "first_node_from h c (Suc i) r" by (rule first_node_from_token [OF wf from_i]) (use d(1) Token in simp)
    from Cons.IH [OF nodes' wf c this d(2) deep] Token show ?thesis by simp
  next
    case (Node n)
    with d(1) have n: "node_children (h ! c) ! i = Node n" by simp
    obtain k where k: "r = Some k" "child_at h c i (Node k)" by (rule first_node_from_node [OF wf from_i i n])
    have path: "path_of h k = path_of h c @ [i]" using child_at_path [OF wf k(2)] by simp
    have k_in: "k < length h" "nd_green (h ! k) = n" using child_at_elem(1,3) [OF wf k(2)] n by auto
    have "n \<in> {n. Node n \<in> set (d # ds)}" "length (path_of h me) \<le> length (path_of h k)" using Node deep path by simp_all
    from Cons.prems(1) [rule_format, OF this(1) wf k_in deep(1) this(2)] obtain es where
      es: "node_walks g me h (Enter k) (Leave k) es" "es @ [Leave (path_of h k)] = walk_nodes (path_of h k) n" by blast
    have leave: "node_walks g me h' (Leave k) (Leave c) (Leave (path_of h k) # walk_child_nodes (path_of h c) (Suc i) ds)"
      if wf': "red_wf E g h'" and le: "heap_le h h'" for h'
    proof -
      have at': "child_at h' c i (Node k)" by (rule heap_le_child_at [OF le k(2)])
      note same = depth_le [OF wf le deep'(1) c deep'(2)]
      have "k \<noteq> me" using deeper_not_me [OF wf' at' same(3)] by simp
      then obtain h'' r' where s: "preorder_step E me (Leave k) h' = Inr (Some (next_event c r'), h'')" "red_wf E g h''"
        "heap_le h' h''" "first_node_from h'' c (Suc i) r'" by (rule node_step_leave [OF wf' at']) (rule that)
      note same' = depth_le [OF wf heap_le_trans [OF le s(3)] deep'(1) c deep'(2)]
      have drop: "drop (Suc i) (node_children (h'' ! c)) = ds" by (simp add: same'(6) d(2))
      have me': "me < length h''" "length (path_of h'' me) \<le> length (path_of h'' c)" using same'(1,3) by simp_all
      from Cons.IH [OF nodes' s(2) same'(2) s(4) drop me']
      have "next_event c r' = Leave c \<and> walk_child_nodes (path_of h c) (Suc i) ds = [] \<or>
        node_walks g me h'' (next_event c r') (Leave c) (walk_child_nodes (path_of h c) (Suc i) ds)"
        unfolding same'(4) .
      from stretch_step [OF wf' _ s(1-3) this] show ?thesis
        using path_of_le [OF le wf k_in(1)] heap_le_node(1) [OF le k_in(1)] by simp
    qed
    have "walk_child_nodes (path_of h c) i (d # ds) = es @ Leave (path_of h k) # walk_child_nodes (path_of h c) (Suc i) ds"
      using Node es(2) [unfolded path, symmetric] by (simp add: path)
    with stretch_trans [OF es(1) leave] k(1) show ?thesis by simp
  qed
qed

lemma node_walks_node:
  "red_wf E g h \<Longrightarrow> c < length h \<Longrightarrow> nd_green (h ! c) = n \<Longrightarrow> me < length h \<Longrightarrow>
   length (path_of h me) \<le> length (path_of h c) \<Longrightarrow>
   \<exists>es. node_walks g me h (Enter c) (Leave c) es \<and> es @ [Leave (path_of h c)] = walk_nodes (path_of h c) n"
proof (induction n arbitrary: h c rule: green_node_induct)
  case (GreenNode hd cs)
  note wf = GreenNode.prems(1) and c = GreenNode.prems(2) and deep = GreenNode.prems(4,5)
  obtain h' r where s: "preorder_step E me (Enter c) h = Inr (Some (next_event c r), h')" "red_wf E g h'" "heap_le h h'"
    "first_node_from h' c 0 r" by (rule node_step_enter [OF wf c]) (rule that)
  have deep': "elem_in h (Node me)" "length (elem_path h (Node me)) \<le> length (path_of h c)" using deep by simp_all
  note same = depth_le [OF wf s(3) deep'(1) c deep'(2)]
  have cs: "drop 0 (node_children (h' ! c)) = cs" using GreenNode.prems(3) same(6) by (simp add: node_children_def)
  have me': "me < length h'" "length (path_of h' me) \<le> length (path_of h' c)" using same(1,3) by simp_all
  have "next_event c r = Leave c \<and> walk_child_nodes (path_of h' c) 0 cs = [] \<or>
      node_walks g me h' (next_event c r) (Leave c) (walk_child_nodes (path_of h' c) 0 cs)"
    by (rule walk_the_nodes [OF _ s(2) same(2) s(4) cs me'], intro ballI allI impI, rule GreenNode.IH) simp_all
  then have "next_event c r = Leave c \<and> walk_child_nodes (path_of h c) 0 cs = [] \<or>
      node_walks g me h' (next_event c r) (Leave c) (walk_child_nodes (path_of h c) 0 cs)" unfolding same(4) .
  from stretch_step [OF wf _ s(1-3) this] c have "node_walks g me h (Enter c) (Leave c)
      (Enter (path_of h c) # walk_child_nodes (path_of h c) 0 cs)" by simp
  then show ?case by (intro exI [of _ "Enter (path_of h c) # walk_child_nodes (path_of h c) 0 cs"]) simp
qed

lemma preorder_yields:
  assumes wf: "red_wf E g h" and c: "c < length h"
  shows "\<exists>xs h'. yields (preorder_step E c) h (Some (Enter c)) xs h' None \<and> red_wf E g h' \<and> heap_le h h' \<and>
    list_all (event_in h') (map node_event xs) \<and>
    map (event_path h') (map node_event xs) = walk_nodes (path_of h c) (nd_green (h ! c))"
proof -
  have "length (path_of h c) \<le> length (path_of h c)" by simp
  from node_walks_node [OF wf c refl c this] obtain es where es: "node_walks g c h (Enter c) (Leave c) es"
    "es @ [Leave (path_of h c)] = walk_nodes (path_of h c) (nd_green (h ! c))" by (elim exE conjE)
  show ?thesis
    unfolding es(2) [symmetric]
  proof (rule stretch_end [OF es(1)])
    fix h' assume le: "heap_le h h'"
    show "event_in h' (node_event (Leave c)) \<and> event_path h' (node_event (Leave c)) = Leave (path_of h c)"
      using path_of_le [OF le wf c] heap_le_node(1) [OF le c] by simp
  qed (simp add: preorder_step_def returnR_def)
qed

end

end
