(* ===== verification/Red_Tokens.thy ===== *)
theory Red_Tokens
  imports Red_Traversal
begin

text \<open>
  \<open>cstree/src/syntax/{token,node,element}.rs\<close>: the first and last token of a subtree, the
  next and previous token of a tree, the data of a token, and the replacement of a node or token
  in the green tree. The recursion of the code is bounded by fuel; the lemmas say how much is
  enough.
\<close>

section \<open>First and last tokens\<close>

fun node_first_token :: "nat \<Rightarrow> ('s, 'd, 'i, 'e) env \<Rightarrow> nat \<Rightarrow> ('j, 'x, syntax_token option) red" where
  "node_first_token 0 E n = panicR Out_of_fuel"
| "node_first_token (Suc k) E n = bindR (first_child_or_token E n) (\<lambda>c.
     case c of
       None \<Rightarrow> returnR None
     | Some (Node it) \<Rightarrow> node_first_token k E it
     | Some (Token it) \<Rightarrow> returnR (Some it))"

fun node_last_token :: "nat \<Rightarrow> ('s, 'd, 'i, 'e) env \<Rightarrow> nat \<Rightarrow> ('j, 'x, syntax_token option) red" where
  "node_last_token 0 E n = panicR Out_of_fuel"
| "node_last_token (Suc k) E n = bindR (last_child_or_token E n) (\<lambda>c.
     case c of
       None \<Rightarrow> returnR None
     | Some (Node it) \<Rightarrow> node_last_token k E it
     | Some (Token it) \<Rightarrow> returnR (Some it))"

fun element_first_token :: "nat \<Rightarrow> ('s, 'd, 'i, 'e) env \<Rightarrow> syntax_element \<Rightarrow> ('j, 'x, syntax_token option) red" where
  "element_first_token k E (Node it) = node_first_token k E it"
| "element_first_token k E (Token it) = returnR (Some it)"

fun element_last_token :: "nat \<Rightarrow> ('s, 'd, 'i, 'e) env \<Rightarrow> syntax_element \<Rightarrow> ('j, 'x, syntax_token option) red" where
  "element_last_token k E (Node it) = node_last_token k E it"
| "element_last_token k E (Token it) = returnR (Some it)"

section \<open>Next and previous tokens\<close>

text \<open>\<open>ancestors().find_map(f)\<close>: the first ancestor on which \<open>f\<close> yields something.\<close>

fun ancestors_find_map :: "nat \<Rightarrow> (nat \<Rightarrow> ('j, 'x, 'a option) red) \<Rightarrow> nat option \<Rightarrow> ('j, 'x, 'a option) red" where
  "ancestors_find_map k f None = returnR None"
| "ancestors_find_map 0 f (Some n) = panicR Out_of_fuel"
| "ancestors_find_map (Suc k) f (Some n) =
     bindR (readR (\<lambda>h. node_parent h n)) (\<lambda>parent. bindR (f n) (\<lambda>r.
       case r of Some x \<Rightarrow> returnR (Some x) | None \<Rightarrow> ancestors_find_map k f parent))"

definition next_token :: "nat \<Rightarrow> ('s, 'd, 'i, 'e) env \<Rightarrow> syntax_token \<Rightarrow> ('j, 'x, syntax_token option) red" where
  "next_token k E t = bindR (token_next_sibling_or_token E t) (\<lambda>s.
     case s of
       Some element \<Rightarrow> element_first_token k E element
     | None \<Rightarrow> bindR (ancestors_find_map k (next_sibling_or_token E) (Some (st_parent t))) (\<lambda>r.
         case r of None \<Rightarrow> returnR None | Some element \<Rightarrow> element_first_token k E element))"

definition prev_token :: "nat \<Rightarrow> ('s, 'd, 'i, 'e) env \<Rightarrow> syntax_token \<Rightarrow> ('j, 'x, syntax_token option) red" where
  "prev_token k E t = bindR (token_prev_sibling_or_token E t) (\<lambda>s.
     case s of
       Some element \<Rightarrow> element_last_token k E element
     | None \<Rightarrow> bindR (ancestors_find_map k (prev_sibling_or_token E) (Some (st_parent t))) (\<lambda>r.
         case r of None \<Rightarrow> returnR None | Some element \<Rightarrow> element_last_token k E element))"

section \<open>Token data\<close>

definition token_static_data :: "('s, 'd, 'i, 'e) env \<Rightarrow> ('j, 'x) heap \<Rightarrow> syntax_token \<Rightarrow> 'd option outcome" where
  "token_static_data E h t = bindO (token_kind E h t) (\<lambda>k. Inr (sx_static_data (en_syntax E) k))"

definition resolve_data :: "('s, 'd, 'i, 'e) env \<Rightarrow> ('j, 'x) heap \<Rightarrow> 'i \<Rightarrow> syntax_token \<Rightarrow> 'd outcome" where
  "resolve_data E h resolver t = bindO (token_static_data E h t) (\<lambda>s.
     case s of
       Some d \<Rightarrow> Inr d
     | None \<Rightarrow> bindO (token_green h t) (\<lambda>g. bindO (green_token_data (resolve (en_interner E) resolver) g) unwrap))"

definition data_key :: "('j, 'x) heap \<Rightarrow> syntax_token \<Rightarrow> token_key option outcome" where
  "data_key h t = bindO (token_green h t) (\<lambda>g. Inr (gt_data g))"

text \<open>The two debug assertions are checked when \<open>debug_assertions\<close> are compiled in.\<close>

definition check_static :: "('s, 'd, 'i, 'e) env \<Rightarrow> ('j, 'x) heap \<Rightarrow> syntax_token \<Rightarrow> unit outcome" where
  "check_static E h t =
     (if en_debug E then bindO (token_static_data E h t) (\<lambda>s. if s \<noteq> None then Inr () else Inl Assertion_failed)
      else Inr ())"

text \<open>The two tokens may belong to two trees.\<close>

definition data_eq :: "('s, 'd, 'i, 'e) env \<Rightarrow> ('j, 'x) heap \<Rightarrow> syntax_token \<Rightarrow> ('j, 'x) heap \<Rightarrow> syntax_token \<Rightarrow> bool outcome" where
  "data_eq E h self h' other = bindO (data_key h self) (\<lambda>key.
     case key of
       Some k1 \<Rightarrow> bindO (data_key h' other) (\<lambda>key'.
         case key' of Some k2 \<Rightarrow> Inr (k1 = k2) | None \<Rightarrow> Inr False)
     | None \<Rightarrow> bindO (check_static E h self) (\<lambda>_. bindO (check_static E h' other) (\<lambda>_.
         bindO (token_syntax_kind h self) (\<lambda>k. bindO (token_syntax_kind h' other) (\<lambda>k'. Inr (k = k'))))))"

section \<open>Replacing a node or a token\<close>

text \<open>
  The children handed to \<open>GreenNode::new\<close>: the child whose index, cast to \<open>u32\<close>, is \<open>me\<close> is
  the replacement, which can be taken only once.
\<close>

fun replace_child :: "nat \<Rightarrow> u32 \<Rightarrow> green_element option \<Rightarrow> green_element list \<Rightarrow> green_element list outcome" where
  "replace_child i me replacement [] = Inr []"
| "replace_child i me replacement (child # children) =
     (if as_u32 i = me then
        bindO (unwrap replacement) (\<lambda>r. bindO (replace_child (Suc i) me None children) (\<lambda>cs. Inr (r # cs)))
      else bindO (replace_child (Suc i) me replacement children) (\<lambda>cs. Inr (child # cs)))"

fun node_replace_with :: "nat \<Rightarrow> ('s, 'd, 'i, 'e) env \<Rightarrow> ('j, 'x) heap \<Rightarrow> nat \<Rightarrow> green_node \<Rightarrow> green_node outcome" where
  "node_replace_with 0 E h n replacement = Inl Out_of_fuel"
| "node_replace_with (Suc k) E h n replacement =
     bindO (node_syntax_kind h n) (\<lambda>kind.
     if kind \<noteq> gn_kind replacement then Inl Kind_mismatch
     else bindO (node_data_of h n) (\<lambda>d.
       case as_child (nd_kind d) of
         None \<Rightarrow> Inr replacement
       | Some (parent, me, _) \<Rightarrow>
           bindO (node_green h parent) (\<lambda>g.
           bindO (replace_child 0 me (Some (Node replacement)) (gn_children_iter g)) (\<lambda>children.
           bindO (node_syntax_kind h parent) (\<lambda>parent_kind.
             node_replace_with k E h parent (green_node_new (en_text E) (en_hash E) parent_kind children))))))"

definition token_replace_with :: "nat \<Rightarrow> ('s, 'd, 'i, 'e) env \<Rightarrow> ('j, 'x) heap \<Rightarrow> syntax_token \<Rightarrow> green_token \<Rightarrow> green_node outcome" where
  "token_replace_with k E h t replacement =
     bindO (token_syntax_kind h t) (\<lambda>kind.
     if kind \<noteq> gt_kind replacement then Inl Kind_mismatch
     else bindO (node_green h (st_parent t)) (\<lambda>g.
       bindO (replace_child 0 (st_index t) (Some (Token replacement)) (gn_children_iter g)) (\<lambda>children.
       bindO (node_syntax_kind h (st_parent t)) (\<lambda>parent_kind.
         node_replace_with k E h (st_parent t) (green_node_new (en_text E) (en_hash E) parent_kind children)))))"

section \<open>Substitution in a green tree\<close>

text \<open>
  The tree with the element at a path replaced and the nodes above it made anew, which is what
  \<open>replace_with\<close> is to compute.
\<close>

fun subst_at :: "text_ops \<Rightarrow> hasher \<Rightarrow> green_element \<Rightarrow> nat list \<Rightarrow> green_element \<Rightarrow> green_element" where
  "subst_at T H e [] x = x"
| "subst_at T H (Token t) (i # p) x = Token t"
| "subst_at T H (Node n) (i # p) x =
     Node (green_node_new T H (gn_kind n) ((gn_children n)[i := subst_at T H (gn_children n ! i) p x]))"

lemma subst_at_snoc:
  "sub e p = Some (Node m) \<Longrightarrow>
   subst_at T H e (p @ [i]) x = subst_at T H e p (Node (green_node_new T H (gn_kind m) ((gn_children m)[i := x])))"
  by (induction e p rule: sub.induct) (auto split: if_splits)

lemma sub_subst_at: "sub e p \<noteq> None \<Longrightarrow> sub (subst_at T H e p x) p = Some x"
  by (induction e p rule: sub.induct) (auto split: if_splits)

text \<open>Everything beside the path is as it was.\<close>

lemma sub_subst_at_beside:
  "sub e p \<noteq> None \<Longrightarrow> \<not> prefix p q \<Longrightarrow> \<not> prefix q p \<Longrightarrow> sub (subst_at T H e p x) q = sub e q"
proof (induction e p arbitrary: q rule: sub.induct)
  case (3 n i p)
  then show ?case by (cases q) (auto split: if_splits simp: nth_list_update)
qed simp_all

lemma subst_at_wf:
  "element_wf T H e \<Longrightarrow> element_wf T H x \<Longrightarrow> element_wf T H (subst_at T H e p x)"
proof (induction T H e p x rule: subst_at.induct)
  case (3 T H n i p x)
  obtain hd cs where n: "n = GreenNode hd cs" by (cases n)
  show ?case
  proof (cases "i < length cs")
    case True
    with 3 n show ?thesis by (auto simp: green_wf_new simp del: green_wf_GreenNode
        dest!: set_update_subset_insert [THEN subsetD] intro: nth_mem) (simp_all)
  next
    case False
    with 3 n show ?thesis by (auto simp: green_wf_new list_update_beyond)
  qed
qed simp_all

text \<open>Putting back what is there changes nothing.\<close>

lemma subst_at_self: "element_wf T H e \<Longrightarrow> sub e p = Some x \<Longrightarrow> subst_at T H e p x = e"
proof (induction e p rule: sub.induct)
  case (3 n i p)
  obtain hd cs where n: "n = GreenNode hd cs" by (cases n)
  with 3 show ?case by (cases hd) (auto simp: green_node_new_def gn_kind_def split: if_splits)
qed simp_all

section \<open>The functions that replace\<close>

lemma replace_child_past:
  "j < i \<Longrightarrow> i + length cs \<le> u32_max \<Longrightarrow> replace_child i (as_u32 j) r cs = Inr cs"
proof (induction cs arbitrary: i)
  case (Cons c cs)
  then show ?case by (simp add: as_u32_inj)
qed simp

lemma replace_child_eq:
  "i \<le> j \<Longrightarrow> j < i + length cs \<Longrightarrow> i + length cs \<le> u32_max \<Longrightarrow>
   replace_child i (as_u32 j) (Some x) cs = Inr (cs[j - i := x])"
proof (induction cs arbitrary: i)
  case (Cons c cs)
  show ?case
  proof (cases "i = j")
    case True
    with Cons.prems show ?thesis by (simp add: replace_child_past)
  next
    case False
    with Cons.prems have "as_u32 i \<noteq> as_u32 j" "j - i = Suc (j - Suc i)" by (auto simp: as_u32_inj)
    with False Cons show ?thesis by simp
  qed
qed simp

lemma node_replace_with_eq:
  assumes wf: "red_wf E g h"
  shows "n < length h \<Longrightarrow> n < k \<Longrightarrow> gn_kind (nd_green (h ! n)) = gn_kind r \<Longrightarrow>
    \<exists>m. node_replace_with k E h n r = Inr m \<and>
      subst_at (en_text E) (en_hash E) (Node g) (path_of h n) (Node r) = Node m"
proof (induction k arbitrary: n r)
  case (Suc k)
  note n = Suc.prems(1)
  show ?case
  proof (cases "nd_kind (h ! n)")
    case (KRoot g' res)
    with KRoot_0 [OF wf n] path_of_root [OF wf] Suc.prems show ?thesis
      by (simp add: node_syntax_kind_def node_green_eq node_data_of_def)
  next
    case (KChild p i offset)
    with red_wf_node [OF wf n] have p: "p < n" "unat i < length (node_children (h ! p))"
      by (auto simp: node_ok_def kind_ok_def)
    then have p': "p < length h" using n by simp
    have path: "path_of h n = path_of h p @ [unat i]" using KChild p(1) by (simp add: path_of.simps [of h n])
    let ?cs = "(node_children (h ! p))[unat i := Node r]"
    let ?new = "green_node_new (en_text E) (en_hash E) (gn_kind (nd_green (h ! p))) ?cs"
    have "as_u32 (unat i) = i" by simp
    then have "replace_child 0 i (Some (Node r)) (gn_children (nd_green (h ! p))) = Inr ?cs"
      using replace_child_eq [of 0 "unat i" "node_children (h ! p)" "Node r"] p(2) arity_le [OF red_wf_node [OF wf p']]
      by (simp add: node_children_def)
    then have "node_replace_with (Suc k) E h n r = node_replace_with k E h p ?new"
      using KChild Suc.prems n p' p(1)
      by (simp add: node_syntax_kind_def node_green_eq node_data_of_def gn_children_iter_def)
    moreover obtain m where "node_replace_with k E h p ?new = Inr m"
      "subst_at (en_text E) (en_hash E) (Node g) (path_of h p) (Node ?new) = Node m"
      using Suc.IH [of p ?new] p p' Suc.prems by auto
    ultimately show ?thesis
      using path subst_at_snoc [OF node_sub [OF wf p', THEN conjunct1]] by (simp add: node_children_def)
  qed
qed simp

lemma token_green_eq:
  assumes wf: "red_wf E g h" and t: "elem_in h (Token t)"
  obtains tok where "token_green h t = Inr tok" "green_of h (Token t) = Token tok"
    "node_children (h ! st_parent t) ! unat (st_index t) = Token tok"
    "st_parent t < length h" "unat (st_index t) < length (node_children (h ! st_parent t))"
proof -
  from t have at: "child_at h (st_parent t) (unat (st_index t)) (Token t)" by simp
  then have p: "st_parent t < length h" by (simp add: child_at_def)
  have i: "unat (st_index t) < length (node_children (h ! st_parent t))" using child_at_index [OF wf at] by simp
  from child_at_elem(4) [OF wf at refl] obtain tok where
    tok: "node_children (h ! st_parent t) ! unat (st_index t) = Token tok" by blast
  with i have "vec_get (node_children (h ! st_parent t)) (unat (st_index t)) = Some (Token tok)"
    by (simp add: vec_get_def)
  then have "token_green h t = Inr tok"
    by (simp add: token_green_def node_green_eq [OF p] iter_nth_eq gn_children_iter_def node_children_def)
  with tok i p show thesis by (intro that) simp_all
qed

lemma token_replace_with_eq:
  assumes wf: "red_wf E g h" and t: "elem_in h (Token t)" and k: "st_parent t < k"
    and kind: "token_green h t = Inr tok" "gt_kind tok = gt_kind r"
  shows "\<exists>m. token_replace_with k E h t r = Inr m \<and>
    subst_at (en_text E) (en_hash E) (Node g) (elem_path h (Token t)) (Token r) = Node m"
proof -
  obtain p where p: "st_parent t < length h" "unat (st_index t) < length (node_children (h ! st_parent t))"
    by (rule token_green_eq [OF wf t])
  let ?p = "st_parent t"
  let ?new = "green_node_new (en_text E) (en_hash E) (gn_kind (nd_green (h ! ?p)))
      ((node_children (h ! ?p))[unat (st_index t) := Token r])"
  have "as_u32 (unat (st_index t)) = st_index t" by simp
  then have "replace_child 0 (st_index t) (Some (Token r)) (gn_children (nd_green (h ! ?p))) =
      Inr ((node_children (h ! ?p))[unat (st_index t) := Token r])"
    using replace_child_eq [of 0 "unat (st_index t)" "node_children (h ! ?p)" "Token r"] p
      arity_le [OF red_wf_node [OF wf p(1)]]
    by (simp add: node_children_def)
  then have "token_replace_with k E h t r = node_replace_with k E h ?p ?new"
    using kind p(1)
    by (simp add: token_replace_with_def token_syntax_kind_def node_syntax_kind_def node_green_eq gn_children_iter_def)
  with node_replace_with_eq [OF wf p(1) k, of ?new] show ?thesis
    using subst_at_snoc [OF node_sub [OF wf p(1), THEN conjunct1]] by (auto simp: node_children_def)
qed

end
