(* ===== verification/Serde.thy ===== *)
theory Serde
  imports Builder Red_Preorder Red_Tokens
begin

text \<open>
  \<open>cstree/src/serde_impls.rs\<close>: a tree as a stream of events and a list of node data, and back.
  The types of the \<open>serde\<close> data model that a token's payload can be are a datatype; a format is a
  function on them. Errors of the format are values of a parameter type in the input.
\<close>

section \<open>Events and payloads\<close>

datatype serde_value = S_str bytes | S_bytes bytes | S_seq "nat list"

datatype event = EnterNode u32 bool | EvToken u32 serde_value | LeaveNode

datatype 'r de_error = Format_error 'r | Invalid_element | Invalid_tree | Too_many_data

text \<open>\<open>impl Serialize for TokenPayload\<close>: valid UTF-8 is a string, anything else bytes.\<close>

definition payload_serialize :: "bytes \<Rightarrow> serde_value" where
  "payload_serialize bs = (if utf8_valid bs then S_str bs else S_bytes bs)"

text \<open>The visitor of \<open>impl Deserialize for TokenPayload\<close>; \<open>visit_seq\<close> reads elements of type \<open>u8\<close>.\<close>

fun payload_deserialize :: "serde_value \<Rightarrow> 'r de_error + bytes" where
  "payload_deserialize (S_str bs) = Inr bs"
| "payload_deserialize (S_bytes bs) = Inr bs"
| "payload_deserialize (S_seq ns) = (if list_all (\<lambda>n. n < 256) ns then Inr (map of_nat ns) else Inl Invalid_element)"

section \<open>Serialising a tree\<close>

text \<open>
  The closure of \<open>gen_serialize!\<close> on one event of the traversal, given the data collected so far.
  \<open>with_data\<close> says whether the macro got a \<open>data_list\<close>.
\<close>

definition event_of :: "('s, 'd, 'i, 'e) env \<Rightarrow> bool \<Rightarrow> 'i \<Rightarrow> ('j, 'x) heap \<Rightarrow> syntax_element walk_event \<Rightarrow> 'x list \<Rightarrow>
  (event option \<times> 'x list) outcome" where
  "event_of E with_data resolver h ev data =
     (case ev of
        Enter (Node node) \<Rightarrow>
          bindO (if with_data then get_data h node else Inr None) (\<lambda>d.
          let (data, has_data) = (case d of Some x \<Rightarrow> (data @ [x], True) | None \<Rightarrow> (data, False))
          in bindO (node_kind E h node) (\<lambda>kind.
             Inr (Some (EnterNode (sx_into_raw (en_syntax E) kind) has_data), data)))
      | Enter (Token tok) \<Rightarrow>
          bindO (token_kind E h tok) (\<lambda>kind.
          bindO (resolve_data E h resolver tok) (\<lambda>d.
          Inr (Some (EvToken (sx_into_raw (en_syntax E) kind) (payload_serialize (td_as_bytes (en_data E) d))), data)))
      | Leave (Node _) \<Rightarrow> Inr (Some LeaveNode, data)
      | Leave (Token _) \<Rightarrow> Inr (None, data))"

text \<open>
  \<open>events.collect()\<close>: the traversal computes its next position before it yields the current one.
\<close>

fun collect_events :: "nat \<Rightarrow> ('s, 'd, 'i, 'e) env \<Rightarrow> bool \<Rightarrow> 'i \<Rightarrow> nat \<Rightarrow> syntax_element walk_event option \<Rightarrow> event list \<Rightarrow> 'x list \<Rightarrow>
  ('j, 'x, event list \<times> 'x list) red" where
  "collect_events k E with_data resolver me None evs data = returnR (evs, data)"
| "collect_events 0 E with_data resolver me (Some ev) evs data = panicR Out_of_fuel"
| "collect_events (Suc k) E with_data resolver me (Some ev) evs data =
     bindR (preorder_with_tokens_step E (Node me) ev) (\<lambda>cursor.
     bindR (readR (\<lambda>h. event_of E with_data resolver h ev data)) (\<lambda>(e, data).
       collect_events k E with_data resolver me cursor (case e of Some e \<Rightarrow> evs @ [e] | None \<Rightarrow> evs) data))"

text \<open>The two elements of the tuple that is serialised.\<close>

definition serialize :: "nat \<Rightarrow> ('s, 'd, 'i, 'e) env \<Rightarrow> bool \<Rightarrow> 'i \<Rightarrow> nat \<Rightarrow> ('j, 'x, event list \<times> 'x list) red" where
  "serialize k E with_data resolver node = collect_events k E with_data resolver node (Some (Enter (Node node))) [] []"

definition serialize_with_data :: "nat \<Rightarrow> ('s, 'd, 'i, 'e) env \<Rightarrow> 'i \<Rightarrow> nat \<Rightarrow> ('j, 'x, event list \<times> 'x list) red" where
  "serialize_with_data k E resolver node = serialize k E True resolver node"

definition serialize_with_resolver :: "nat \<Rightarrow> ('s, 'd, 'i, 'e) env \<Rightarrow> 'i \<Rightarrow> nat \<Rightarrow> ('j, 'x, event list \<times> 'x list) red" where
  "serialize_with_resolver k E resolver node = serialize k E False resolver node"

section \<open>Deserialising a tree\<close>

text \<open>The loop of \<open>EventVisitor::visit_seq\<close>; an element that the format fails to read is \<open>Inl\<close>.\<close>

fun build_events :: "('s, 'd, 'i, 'e) env \<Rightarrow> ('r + event) list \<Rightarrow> ('s, 'i) builder \<Rightarrow> bool list \<Rightarrow>
  ('r de_error + ('s, 'i) builder \<times> bool list) outcome" where
  "build_events E [] builder data_indices = Inr (Inr (builder, data_indices))"
| "build_events E (Inl e # seq) builder data_indices = Inr (Inl (Format_error e))"
| "build_events E (Inr (EnterNode kind has_data) # seq) builder data_indices =
     bindO (sx_from_raw (en_syntax E) kind) (\<lambda>kind.
       build_events E seq (start_node builder kind) (data_indices @ [has_data]))"
| "build_events E (Inr (EvToken kind payload) # seq) builder data_indices =
     (case payload_deserialize payload of
        Inl e \<Rightarrow> Inr (Inl e)
      | Inr bs \<Rightarrow>
          bindO (sx_from_raw (en_syntax E) kind) (\<lambda>kind.
          bindO (token_from_bytes E builder kind bs) (\<lambda>builder.
            build_events E seq builder data_indices)))"
| "build_events E (Inr LeaveNode # seq) builder data_indices =
     bindO (finish_node E builder) (\<lambda>builder. build_events E seq builder data_indices)"

definition visit_events :: "('s, 'd, 'd token_interner, 'e) env \<Rightarrow> ('r + event) list \<Rightarrow>
  ('r de_error + (nat \<times> ('d token_interner, 'x) heap) \<times> bool list) outcome" where
  "visit_events E seq = bindO (build_events E seq builder_new []) (\<lambda>r.
     case r of
       Inl e \<Rightarrow> Inr (Inl e)
     | Inr (builder, data_indices) \<Rightarrow>
         bindO (builder_finish builder) (\<lambda>(tree, cache).
         bindO (unwrap cache) (\<lambda>cache.
         bindO (unwrap (into_interner cache)) (\<lambda>interner.
           Inr (Inr (new_root_with_resolver tree interner, data_indices))))))"

text \<open>
  \<open>tree.descendants().zip(data_indices).try_for_each(..)\<close>: the zip asks the traversal first. The
  result is the data left over.
\<close>

fun attach_data :: "nat \<Rightarrow> ('s, 'd, 'i, 'e) env \<Rightarrow> nat \<Rightarrow> nat walk_event option \<Rightarrow> bool list \<Rightarrow> 'x list \<Rightarrow>
  ('j, 'x, 'r de_error + 'x list) red" where
  "attach_data k E me None data_indices data = returnR (Inr data)"
| "attach_data 0 E me (Some ev) data_indices data = panicR Out_of_fuel"
| "attach_data (Suc k) E me (Some ev) data_indices data =
     bindR (preorder_step E me ev) (\<lambda>cursor.
       case ev of
         Leave _ \<Rightarrow> attach_data k E me cursor data_indices data
       | Enter node \<Rightarrow>
           (case data_indices of
              [] \<Rightarrow> returnR (Inr data)
            | has_data # data_indices \<Rightarrow>
                if has_data then
                  (case data of
                     [] \<Rightarrow> returnR (Inl Invalid_tree)
                   | d # data \<Rightarrow> bindR (set_data node d) (\<lambda>_. attach_data k E me cursor data_indices data))
                else attach_data k E me cursor data_indices data))"

text \<open>\<open>impl Deserialize for ResolvedNode\<close>: the root and the heap of the new tree.\<close>

definition deserialize :: "nat \<Rightarrow> ('s, 'd, 'd token_interner, 'e) env \<Rightarrow> ('r + event) list \<Rightarrow> 'r + 'x list \<Rightarrow>
  ('r de_error + nat \<times> ('d token_interner, 'x) heap) outcome" where
  "deserialize k E seq data = bindO (visit_events E seq) (\<lambda>r.
     case r of
       Inl e \<Rightarrow> Inr (Inl e)
     | Inr ((tree, h), data_indices) \<Rightarrow>
         (case data of
            Inl e \<Rightarrow> Inr (Inl (Format_error e))
          | Inr data \<Rightarrow>
              bindO (attach_data k E tree (Some (Enter tree)) data_indices data h) (\<lambda>(r, h).
                case r of
                  Inl e \<Rightarrow> Inr (Inl e)
                | Inr rest \<Rightarrow> Inr (if rest \<noteq> [] then Inl Too_many_data else Inr (tree, h)))))"

end
