(* ===== verification/Red_Data.thy ===== *)
theory Red_Data
  imports Red_Preorder
begin

text \<open>
  The data of nodes and the traversal of the nodes do not meet: a step of the traversal neither
  reads nor changes the data of any node, and a node it creates has none. So a traversal can be
  compared with the same one on a heap whose data was changed on the way.
\<close>

section \<open>Heaps with other data\<close>

definition repaint :: "(nat \<Rightarrow> 'x option \<Rightarrow> 'x option) \<Rightarrow> ('j, 'x) heap \<Rightarrow> ('j, 'x) heap" where
  "repaint u h = map (\<lambda>n. (h ! n)\<lparr>nd_data := u n (nd_data (h ! n))\<rparr>) [0..<length h]"

lemma length_repaint [simp]: "length (repaint u h) = length h"
  by (simp add: repaint_def)

lemma repaint_nth [simp]: "n < length h \<Longrightarrow> repaint u h ! n = (h ! n)\<lparr>nd_data := u n (nd_data (h ! n))\<rparr>"
  by (simp add: repaint_def)

lemma repaint_update:
  "n < length h \<Longrightarrow> repaint u (update_node h n ((h ! n)\<lparr>nd_children := cs\<rparr>)) =
     update_node (repaint u h) n ((repaint u h ! n)\<lparr>nd_children := cs\<rparr>)"
  by (rule nth_equalityI) (auto simp: update_node_def nth_list_update)

lemma repaint_append: "u (length h) None = None \<Longrightarrow> nd_data d = None \<Longrightarrow> repaint u (h @ [d]) = repaint u h @ [d]"
  by (rule nth_equalityI) (auto simp: nth_append less_Suc_eq)

lemma repaint_id: "repaint (\<lambda>_ x. x) h = h"
  by (rule nth_equalityI) simp_all

lemma repaint_set_data:
  "n < length h \<Longrightarrow> set_data n x (repaint u h) = Inr (x, repaint (u(n := \<lambda>_. Some x)) h)"
  by (auto simp: set_data_def node_data_of_def update_node_def nth_list_update intro: nth_equalityI)

section \<open>Computations that do not look at data\<close>

text \<open>The nodes that do not exist yet have no data to change.\<close>

definition old_only :: "(nat \<Rightarrow> 'x option \<Rightarrow> 'x option) \<Rightarrow> ('j, 'x) heap \<Rightarrow> bool" where
  "old_only u h \<longleftrightarrow> (\<forall>n \<ge> length h. u n None = None)"

lemma old_only_le: "old_only u h \<Longrightarrow> length h \<le> length h' \<Longrightarrow> old_only u h'"
  by (simp add: old_only_def)

lemma old_only_id [simp]: "old_only (\<lambda>_ x. x) h"
  by (simp add: old_only_def)

lemma old_only_upd: "old_only u h \<Longrightarrow> n < length h \<Longrightarrow> old_only (u(n := f)) h"
  by (simp add: old_only_def)

definition blind :: "('j, 'x, 'a) red \<Rightarrow> bool" where
  "blind m \<longleftrightarrow> (\<forall>u h r h'. old_only u h \<longrightarrow> m h = Inr (r, h') \<longrightarrow> m (repaint u h) = Inr (r, repaint u h') \<and> length h \<le> length h')"

named_theorems blind

lemma blind_run: "blind m \<Longrightarrow> old_only u h \<Longrightarrow> m h = Inr (r, h') \<Longrightarrow> m (repaint u h) = Inr (r, repaint u h') \<and> length h \<le> length h'"
  by (simp add: blind_def)

lemma blind_return [blind]: "blind (returnR x)"
  by (simp add: blind_def returnR_def)

lemma blind_panic [blind]: "blind (panicR p)"
  by (simp add: blind_def panicR_def)

lemma blind_bind [blind]: "blind m \<Longrightarrow> (\<And>x. blind (f x)) \<Longrightarrow> blind (bindR m f)"
  unfolding blind_def bindR_def
  by (auto simp: bindO_eq_Inr dest: old_only_le) (meson old_only_le order_trans)+

lemma blind_read [blind]: "(\<And>u h. F (repaint u h) = F h) \<Longrightarrow> blind (readR F)"
  by (auto simp: blind_def readR_def bindO_eq_Inr)

lemma node_data_repaint:
  "node_data_of (repaint u h) n = bindO (node_data_of h n) (\<lambda>d. Inr (d\<lparr>nd_data := u n (nd_data d)\<rparr>))"
  by (simp add: node_data_of_def)

lemma reads_repaint [simp]:
  "node_green (repaint u h) n = node_green h n"
  "node_text_range E (repaint u h) n = node_text_range E h n"
  "node_parent (repaint u h) n = node_parent h n"
  "read_slot (repaint u h) n i = read_slot h n i"
  by (simp_all add: node_green_def node_text_range_def node_parent_def read_slot_def node_data_of_def)

lemma token_repaint [simp]: "token_text_range E (repaint u h) t = token_text_range E h t"
  by (simp add: token_text_range_def token_green_def)

lemma check_offset_repaint [simp]: "check_offset E (repaint u h) e offset = check_offset E h e offset"
  by (cases e) (simp_all add: check_offset_def)

lemma blind_get_or_add_element [blind]: "blind (get_or_add_element E n g i offset)"
  unfolding blind_def
proof (intro allI impI)
  fix u h r h' assume u: "old_only u h" and r: "get_or_add_element E n g i offset h = Inr (r, h')"
  have new: "u (length h) None = None" using u by (simp add: old_only_def)
  from r show "get_or_add_element E n g i offset (repaint u h) = Inr (r, repaint u h') \<and> length h \<le> length h'"
  proof (cases "read_slot h n i")
    case (Inr slot)
    show ?thesis
    proof (cases slot)
      case (Some e)
      with Inr r show ?thesis by (auto simp: get_or_add_element_def bindO_eq_Inr)
    next
      case None
      with Inr have n: "n < length h" "i < length (nd_children (h ! n))" "nd_children (h ! n) ! i = None"
        by (auto simp: read_slot_def node_data_of_def bindO_eq_Inr split: if_splits)
      show ?thesis
      proof (cases g)
        case (Token t)
        then show ?thesis
          using r n None Inr repaint_update [of n h u]
          by (auto simp: get_or_add_element_def try_write_def read_slot_def node_data_of_def update_node_def)
      next
        case (Node m)
        let ?d = "node_data_new (KChild n (as_u32 i) offset) m (iter_count (gn_children_iter m))"
        have d: "nd_data ?d = None" by (simp add: node_data_new_def)
        show ?thesis
          using r n None Inr Node repaint_append [of u h, OF new d] repaint_update [of n "h @ [?d]" u]
          by (auto simp: get_or_add_element_def new_child_def Let_def try_write_def read_slot_def node_data_of_def nth_append
              update_node_def)
      qed
    qed
  qed (simp add: get_or_add_element_def)
qed

lemma blind_get_or_add_node [blind]: "blind (get_or_add_node E n g i offset)"
  unfolding get_or_add_node_eq by (rule blind)

lemma blind_add_next_node [blind]: "blind (add_next_node E n it)"
  by (auto simp: add_next_node_def intro!: blind split: list.split prod.split)

lemma blind_add_next_element [blind]: "blind (add_next_element E n it)"
  by (auto simp: add_next_element_def intro!: blind split: list.split prod.split)

lemma blind_first_child [blind]: "blind (first_child E n)" "blind (first_child_or_token E n)"
  unfolding first_child_def first_child_or_token_def by (intro blind; simp)+

lemma blind_with_child [blind]: "(\<And>p i. blind (f p i)) \<Longrightarrow> blind (with_child n f)"
  unfolding blind_def with_child_def bindR_def readR_def
  by (auto simp: node_data_repaint bindO_eq_Inr returnR_def split: option.splits)

lemma blind_next_sibling [blind]: "blind (next_sibling E n)" "blind (next_sibling_or_token E n)"
  unfolding next_sibling_def next_sibling_or_token_def by (intro blind; simp)+

lemma blind_token_next_sibling [blind]: "blind (token_next_sibling_or_token E t)"
  unfolding token_next_sibling_or_token_def next_child_or_token_after_def by (intro blind) simp_all

lemma blind_element_next_sibling [blind]: "blind (element_next_sibling_or_token E e)"
  by (cases e) (simp_all add: blind)

lemma element_parent_repaint [simp]: "element_parent (repaint u h) e = element_parent h e"
  by (cases e) simp_all

lemma blind_preorder_step [blind]: "blind (preorder_step E me ev)"
  unfolding preorder_step_def by (cases ev) (auto intro!: blind split: option.split)

lemma blind_preorder_with_tokens_step [blind]: "blind (preorder_with_tokens_step E me ev)"
  unfolding preorder_with_tokens_step_def
  by (auto intro!: blind split: walk_event.split node_or_token.split option.split)

section \<open>The data at a place of the tree\<close>

definition data_at :: "('j, 'x) heap \<Rightarrow> nat list \<Rightarrow> 'x option" where
  "data_at h p = (case filter (\<lambda>n. path_of h n = p) [0..<length h] of [] \<Rightarrow> None | n # _ \<Rightarrow> nd_data (h ! n))"

lemma data_at_node:
  assumes wf: "red_wf E g h" and n: "n < length h"
  shows "data_at h (path_of h n) = nd_data (h ! n)"
proof -
  have "m = n" if "m < length h" "path_of h m = path_of h n" for m
    using elem_path_inj [OF wf, of "Node m" "Node n"] that n by simp
  then have "set (filter (\<lambda>m. path_of h m = path_of h n) [0..<length h]) = {n}" using n by auto
  then show ?thesis
    unfolding data_at_def by (cases "filter (\<lambda>m. path_of h m = path_of h n) [0..<length h]") auto
qed

lemma data_at_none: "(\<And>n. n < length h \<Longrightarrow> path_of h n \<noteq> p) \<Longrightarrow> data_at h p = None"
  by (auto simp: data_at_def filter_empty_conv split: list.split)

text \<open>Navigation leaves the data at every place as it is.\<close>

lemma data_at_blind:
  assumes "blind m" "m h = Inr (r, h')" "red_wf E g h" "red_wf E g h'" "heap_le h h'"
  shows "data_at h' p = data_at h p"
proof -
  let ?u = "\<lambda>n x. if n < length h then x else None"
  have "repaint ?u h = h" by (rule nth_equalityI) simp_all
  with blind_run [OF assms(1) _ assms(2), of ?u] assms(2) have "repaint ?u h' = h'" by (simp add: old_only_def)
  then have fresh: "nd_data (h' ! n) = None" if "length h \<le> n" "n < length h'" for n
  proof -
    have "nd_data (repaint ?u h' ! n) = None" using that by simp
    with \<open>repaint ?u h' = h'\<close> show ?thesis by simp
  qed
  have old: "path_of h' n = path_of h n \<and> nd_data (h' ! n) = nd_data (h ! n) \<and> n < length h'" if "n < length h" for n
    using that path_of_le [OF assms(5,3) that] assms(5) by (simp add: heap_le_def)
  show ?thesis
  proof (cases "\<exists>n < length h. path_of h n = p")
    case True
    then obtain n where "n < length h" "path_of h n = p" by blast
    with old [of n] data_at_node [OF assms(3), of n] data_at_node [OF assms(4), of n] show ?thesis by simp
  next
    case False
    then have "data_at h p = None" by (intro data_at_none) blast
    moreover have "data_at h' p = None"
    proof (cases "\<exists>n < length h'. path_of h' n = p")
      case True
      then obtain n where n: "n < length h'" "path_of h' n = p" by blast
      with False old have "length h \<le> n" by (metis linorder_not_le)
      with n data_at_node [OF assms(4) n(1)] fresh show ?thesis by simp
    next
      case no: False
      then show ?thesis by (intro data_at_none) blast
    qed
    ultimately show ?thesis by simp
  qed
qed

end
