(* ===== verification/Syntax_Text.thy ===== *)
theory Syntax_Text
  imports Red_Tokens
begin

text \<open>
  \<open>cstree/src/syntax/text.rs\<close>: the data or text that a node covers, without building it.
  \<open>SyntaxData\<close> and \<open>SyntaxText\<close> are a node, a range of it and a resolver; they fold over the
  pieces of the tokens in the range. The iterator over these pieces is lazy: it walks the tree as it
  is asked, here a cursor that \<open>tokens_next\<close> returns updated. The loops are bounded by fuel.
\<close>

section \<open>Text\<close>

text \<open>\<open>str::is_char_boundary\<close> and indexing a \<open>str\<close>, which panics between the bytes of a character.\<close>

definition is_char_boundary :: "bytes \<Rightarrow> nat \<Rightarrow> bool" where
  "is_char_boundary s i \<longleftrightarrow> i = 0 \<or> i = length s \<or> (i < length s \<and> \<not> utf8_cont (s ! i))"

definition str_index :: "rust_str \<Rightarrow> nat \<Rightarrow> nat \<Rightarrow> rust_str outcome" where
  "str_index s i j =
     (if i \<le> j \<and> is_char_boundary (str_bytes s) i \<and> is_char_boundary (str_bytes s) j
      then Inr (Str (take (j - i) (drop i (str_bytes s)))) else Inl Slice_out_of_range)"

text \<open>A \<open>char\<close> is its UTF-8 encoding, whose length the first byte tells. \<open>s.chars().next()\<close>:\<close>

definition char_width :: "u8 \<Rightarrow> nat" where
  "char_width b = (if b < 0x80 then 1 else if b < 0xE0 then 2 else if b < 0xF0 then 3 else 4)"

fun first_char :: "bytes \<Rightarrow> bytes option" where
  "first_char [] = None"
| "first_char (b # bs) = Some (take (char_width b) (b # bs))"

text \<open>\<open>s.find(c)\<close>: the position of the first occurrence of the character's encoding.\<close>

fun str_find :: "bytes \<Rightarrow> bytes \<Rightarrow> nat option" where
  "str_find c [] = (if c = [] then Some 0 else None)"
| "str_find c (b # bs) = (if take (length c) (b # bs) = c then Some 0 else map_option Suc (str_find c bs))"

section \<open>Ranges to slice by\<close>

text \<open>The types that implement \<open>SyntaxTextRange\<close>.\<close>

datatype slice_arg =
    Arg_TextRange text_range
  | Arg_Range text_size text_size
  | Arg_RangeFrom text_size
  | Arg_RangeTo text_size
  | Arg_RangeFull

fun arg_start :: "slice_arg \<Rightarrow> text_size option" where
  "arg_start (Arg_TextRange r) = Some (tr_start r)"
| "arg_start (Arg_Range a b) = Some a"
| "arg_start (Arg_RangeFrom a) = Some a"
| "arg_start (Arg_RangeTo b) = None"
| "arg_start Arg_RangeFull = None"

fun arg_end :: "slice_arg \<Rightarrow> text_size option" where
  "arg_end (Arg_TextRange r) = Some (tr_end r)"
| "arg_end (Arg_Range a b) = Some b"
| "arg_end (Arg_RangeFrom a) = None"
| "arg_end (Arg_RangeTo b) = Some b"
| "arg_end Arg_RangeFull = None"

section \<open>Data\<close>

text \<open>\<open>SyntaxData\<close> and \<open>SyntaxText\<close> have the same fields.\<close>

record 'i syntax_data =
  sd_node :: nat
  sd_range :: text_range
  sd_resolver :: 'i

type_synonym 'i syntax_text = "'i syntax_data"

definition syntax_data_new :: "('s, 'd, 'i, 'e) env \<Rightarrow> ('j, 'x) heap \<Rightarrow> nat \<Rightarrow> 'i \<Rightarrow> 'i syntax_data outcome" where
  "syntax_data_new E h node resolver = bindO (node_text_range E h node) (\<lambda>r.
     Inr \<lparr>sd_node = node, sd_range = r, sd_resolver = resolver\<rparr>)"

definition data_len :: "text_ops \<Rightarrow> 'i syntax_data \<Rightarrow> text_size" where
  "data_len T v = tr_len T (sd_range v)"

definition data_is_empty :: "text_ops \<Rightarrow> 'i syntax_data \<Rightarrow> bool" where
  "data_is_empty T v \<longleftrightarrow> tr_is_empty T (sd_range v)"

definition data_slice :: "text_ops \<Rightarrow> 'i syntax_data \<Rightarrow> slice_arg \<Rightarrow> 'i syntax_data outcome" where
  "data_slice T v rng =
     (let start = (case arg_start rng of Some a \<Rightarrow> a | None \<Rightarrow> 0);
          end = (case arg_end rng of Some b \<Rightarrow> b | None \<Rightarrow> data_len T v)
      in if \<not> start \<le> end then Inl Assertion_failed
         else
           (let len = ts_sub T end start;
                start = ts_add T (tr_start (sd_range v)) start;
                end = ts_add T start len;
                rng = tr_new T start end
            in if \<not> tr_contains_range T (sd_range v) rng then Inl Assertion_failed
               else Inr (v\<lparr>sd_range := rng\<rparr>)))"

text \<open>
  \<open>tokens_with_ranges()\<close>: the tokens among the events of \<open>preorder_with_tokens\<close> whose range
  meets the view's, each with the part of it that does.
\<close>

type_synonym cursor = "syntax_element walk_event option"

definition tokens_with_ranges :: "'i syntax_data \<Rightarrow> cursor" where
  "tokens_with_ranges v = Some (Enter (Node (sd_node v)))"

fun tokens_next :: "nat \<Rightarrow> ('s, 'd, 'i, 'e) env \<Rightarrow> 'i syntax_data \<Rightarrow> cursor \<Rightarrow>
  ('j, 'x, (syntax_token \<times> text_range) option \<times> cursor) red" where
  "tokens_next k E v None = returnR (None, None)"
| "tokens_next 0 E v (Some event) = panicR Out_of_fuel"
| "tokens_next (Suc k) E v (Some event) =
     bindR (preorder_with_tokens_step E (Node (sd_node v)) event) (\<lambda>cursor.
       case event of
         Enter (Token token) \<Rightarrow>
           bindR (readR (\<lambda>h. token_text_range E h token)) (\<lambda>token_range.
             case tr_intersect (en_text E) (sd_range v) token_range of
               None \<Rightarrow> tokens_next k E v cursor
             | Some r \<Rightarrow> returnR (Some (token, tr_sub (en_text E) r (tr_start token_range)), cursor))
       | _ \<Rightarrow> tokens_next k E v cursor)"

text \<open>\<open>Iterator::try_fold\<close>, over any iterator; \<open>Err\<close> is \<open>Inl\<close>.\<close>

fun try_fold :: "nat \<Rightarrow> ('t \<Rightarrow> ('j, 'x, 'b option \<times> 't) red) \<Rightarrow> 't \<Rightarrow> 'a \<Rightarrow> ('a \<Rightarrow> 'b \<Rightarrow> ('j, 'x, 'e + 'a) red) \<Rightarrow>
  ('j, 'x, 'e + 'a) red" where
  "try_fold 0 nxt it acc f = panicR Out_of_fuel"
| "try_fold (Suc k) nxt it acc f = bindR (nxt it) (\<lambda>(x, it').
     case x of
       None \<Rightarrow> returnR (Inr acc)
     | Some b \<Rightarrow> bindR (f acc b) (\<lambda>r. case r of Inl e \<Rightarrow> returnR (Inl e) | Inr acc' \<Rightarrow> try_fold k nxt it' acc' f))"

text \<open>The bytes of a token in a range of it.\<close>

definition data_chunk :: "('s, 'd, 'i, 'e) env \<Rightarrow> ('j, 'x) heap \<Rightarrow> 'i \<Rightarrow> syntax_token \<times> text_range \<Rightarrow> bytes outcome" where
  "data_chunk E h resolver = (\<lambda>(token, r).
     let start = unat (tr_start r); end = unat (tr_end r)
     in bindO (resolve_data E h resolver token) (\<lambda>d. slice_range (td_as_bytes (en_data E) d) start end))"

definition data_try_fold_chunks :: "nat \<Rightarrow> ('s, 'd, 'i, 'e) env \<Rightarrow> 'i syntax_data \<Rightarrow> 'a \<Rightarrow> ('a \<Rightarrow> bytes \<Rightarrow> ('r + 'a) outcome) \<Rightarrow>
  ('j, 'x, 'r + 'a) red" where
  "data_try_fold_chunks k E v init f = try_fold k (tokens_next k E v) (tokens_with_ranges v) init
     (\<lambda>acc item. bindR (readR (\<lambda>h. data_chunk E h (sd_resolver v) item)) (\<lambda>chunk. readR (\<lambda>_. f acc chunk)))"

text \<open>\<open>Void\<close> has no values, so \<open>Err\<close> cannot happen.\<close>

definition data_fold_chunks :: "nat \<Rightarrow> ('s, 'd, 'i, 'e) env \<Rightarrow> 'i syntax_data \<Rightarrow> 'a \<Rightarrow> ('a \<Rightarrow> bytes \<Rightarrow> 'a outcome) \<Rightarrow> ('j, 'x, 'a) red" where
  "data_fold_chunks k E v init f =
     bindR (data_try_fold_chunks k E v init (\<lambda>acc chunk. bindO (f acc chunk) (\<lambda>a. Inr (Inr a :: unit + _)))) (\<lambda>r.
       case r of Inr t \<Rightarrow> returnR t | Inl _ \<Rightarrow> panicR Unreachable)"

text \<open>The closures of \<open>try_for_each_chunk\<close> are \<open>FnMut\<close>: what they capture is their state.\<close>

definition data_try_for_each_chunk :: "nat \<Rightarrow> ('s, 'd, 'i, 'e) env \<Rightarrow> 'i syntax_data \<Rightarrow> 'a \<Rightarrow> ('a \<Rightarrow> bytes \<Rightarrow> ('r + 'a) outcome) \<Rightarrow>
  ('j, 'x, 'r + 'a) red" where
  "data_try_for_each_chunk k E v captured f = data_try_fold_chunks k E v captured f"

definition data_for_each_chunk :: "nat \<Rightarrow> ('s, 'd, 'i, 'e) env \<Rightarrow> 'i syntax_data \<Rightarrow> 'a \<Rightarrow> ('a \<Rightarrow> bytes \<Rightarrow> 'a outcome) \<Rightarrow>
  ('j, 'x, 'a) red" where
  "data_for_each_chunk k E v captured f = data_fold_chunks k E v captured f"

section \<open>Text\<close>

definition syntax_text_new :: "('s, rust_str, 'i, 'e) env \<Rightarrow> ('j, 'x) heap \<Rightarrow> nat \<Rightarrow> 'i \<Rightarrow> 'i syntax_text outcome" where
  "syntax_text_new E h node resolver = bindO (node_text_range E h node) (\<lambda>r.
     Inr \<lparr>sd_node = node, sd_range = r, sd_resolver = resolver\<rparr>)"

definition text_len :: "text_ops \<Rightarrow> 'i syntax_text \<Rightarrow> text_size" where
  "text_len T v = tr_len T (sd_range v)"

definition text_is_empty :: "text_ops \<Rightarrow> 'i syntax_text \<Rightarrow> bool" where
  "text_is_empty T v \<longleftrightarrow> tr_is_empty T (sd_range v)"

definition text_slice :: "text_ops \<Rightarrow> 'i syntax_text \<Rightarrow> slice_arg \<Rightarrow> 'i syntax_text outcome" where
  "text_slice T v rng =
     (let start = (case arg_start rng of Some a \<Rightarrow> a | None \<Rightarrow> 0);
          end = (case arg_end rng of Some b \<Rightarrow> b | None \<Rightarrow> text_len T v)
      in if \<not> start \<le> end then Inl Assertion_failed
         else
           (let len = ts_sub T end start;
                start = ts_add T (tr_start (sd_range v)) start;
                end = ts_add T start len
            in if \<not> start \<le> end then Inl Bad_slice
               else
                 (let rng = tr_new T start end
                  in if \<not> tr_contains_range T (sd_range v) rng then Inl Bad_slice
                     else Inr (v\<lparr>sd_range := rng\<rparr>))))"

definition resolve_text :: "('s, rust_str, 'i, 'e) env \<Rightarrow> ('j, 'x) heap \<Rightarrow> 'i \<Rightarrow> syntax_token \<Rightarrow> rust_str outcome" where
  "resolve_text E h resolver t = resolve_data E h resolver t"

definition text_chunk :: "('s, rust_str, 'i, 'e) env \<Rightarrow> ('j, 'x) heap \<Rightarrow> 'i \<Rightarrow> syntax_token \<times> text_range \<Rightarrow> rust_str outcome" where
  "text_chunk E h resolver = (\<lambda>(token, r).
     bindO (resolve_text E h resolver token) (\<lambda>s. str_index s (unat (tr_start r)) (unat (tr_end r))))"

text \<open>\<open>tokens_with_ranges\<close> is that of \<open>SyntaxData\<close>.\<close>

definition text_try_fold_chunks :: "nat \<Rightarrow> ('s, rust_str, 'i, 'e) env \<Rightarrow> 'i syntax_text \<Rightarrow> 'a \<Rightarrow>
  ('a \<Rightarrow> bytes \<Rightarrow> ('r + 'a) outcome) \<Rightarrow> ('j, 'x, 'r + 'a) red" where
  "text_try_fold_chunks k E v init f = try_fold k (tokens_next k E v) (tokens_with_ranges v) init
     (\<lambda>acc item. bindR (readR (\<lambda>h. text_chunk E h (sd_resolver v) item)) (\<lambda>chunk. readR (\<lambda>_. f acc (str_bytes chunk))))"

definition text_fold_chunks :: "nat \<Rightarrow> ('s, rust_str, 'i, 'e) env \<Rightarrow> 'i syntax_text \<Rightarrow> 'a \<Rightarrow> ('a \<Rightarrow> bytes \<Rightarrow> 'a outcome) \<Rightarrow>
  ('j, 'x, 'a) red" where
  "text_fold_chunks k E v init f =
     bindR (text_try_fold_chunks k E v init (\<lambda>acc chunk. bindO (f acc chunk) (\<lambda>a. Inr (Inr a :: unit + _)))) (\<lambda>r.
       case r of Inr t \<Rightarrow> returnR t | Inl _ \<Rightarrow> panicR Unreachable)"

definition text_try_for_each_chunk :: "nat \<Rightarrow> ('s, rust_str, 'i, 'e) env \<Rightarrow> 'i syntax_text \<Rightarrow> 'a \<Rightarrow>
  ('a \<Rightarrow> bytes \<Rightarrow> ('r + 'a) outcome) \<Rightarrow> ('j, 'x, 'r + 'a) red" where
  "text_try_for_each_chunk k E v captured f = text_try_fold_chunks k E v captured f"

definition text_for_each_chunk :: "nat \<Rightarrow> ('s, rust_str, 'i, 'e) env \<Rightarrow> 'i syntax_text \<Rightarrow> 'a \<Rightarrow> ('a \<Rightarrow> bytes \<Rightarrow> 'a outcome) \<Rightarrow>
  ('j, 'x, 'a) red" where
  "text_for_each_chunk k E v captured f = text_fold_chunks k E v captured f"

definition contains_char :: "nat \<Rightarrow> ('s, rust_str, 'i, 'e) env \<Rightarrow> 'i syntax_text \<Rightarrow> bytes \<Rightarrow> ('j, 'x, bool) red" where
  "contains_char k E v c =
     bindR (text_try_for_each_chunk k E v () (\<lambda>_ chunk. Inr (if str_find c chunk \<noteq> None then Inl () else Inr ()))) (\<lambda>r.
       returnR (case r of Inl _ \<Rightarrow> True | Inr _ \<Rightarrow> False))"

definition found :: "'a + 'b \<Rightarrow> 'a option" where
  "found res = (case res of Inl x \<Rightarrow> Some x | Inr _ \<Rightarrow> None)"

definition find_char :: "nat \<Rightarrow> ('s, rust_str, 'i, 'e) env \<Rightarrow> 'i syntax_text \<Rightarrow> bytes \<Rightarrow> ('j, 'x, text_size option) red" where
  "find_char k E v c =
     bindR (text_try_for_each_chunk k E v 0 (\<lambda>acc chunk.
       case str_find c chunk of
         Some pos \<Rightarrow> Inr (Inl (ts_add (en_text E) acc (as_u32 pos)))
       | None \<Rightarrow> Inr (Inr (ts_add (en_text E) acc (as_u32 (length chunk)))))) (\<lambda>res. returnR (found res))"

definition char_at :: "nat \<Rightarrow> ('s, rust_str, 'i, 'e) env \<Rightarrow> 'i syntax_text \<Rightarrow> text_size \<Rightarrow> ('j, 'x, bytes option) red" where
  "char_at k E v offset =
     bindR (text_try_for_each_chunk k E v 0 (\<lambda>start chunk.
       let end = ts_add (en_text E) start (as_u32 (length chunk))
       in if start \<le> offset \<and> offset < end then
            (let off = unat (ts_sub (en_text E) offset start)
             in bindO (str_index (Str chunk) off (length chunk)) (\<lambda>s.
                bindO (unwrap (first_char (str_bytes s))) (\<lambda>c. Inr (Inl c))))
          else Inr (Inr end))) (\<lambda>res. returnR (found res))"

text \<open>\<open>Display\<close> and \<open>to_string()\<close>: the formatter of a \<open>String\<close> never fails.\<close>

definition text_to_string :: "nat \<Rightarrow> ('s, rust_str, 'i, 'e) env \<Rightarrow> 'i syntax_text \<Rightarrow> ('j, 'x, rust_str) red" where
  "text_to_string k E v =
     bindR (text_try_for_each_chunk k E v [] (\<lambda>out chunk. Inr (Inr (out @ chunk) :: unit + bytes))) (\<lambda>res.
       case res of Inr out \<Rightarrow> returnR (Str out) | Inl _ \<Rightarrow> panicR Unreachable)"

text \<open>\<open>PartialEq<str>\<close>\<close>

definition text_eq_str :: "nat \<Rightarrow> ('s, rust_str, 'i, 'e) env \<Rightarrow> 'i syntax_text \<Rightarrow> rust_str \<Rightarrow> ('j, 'x, bool) red" where
  "text_eq_str k E v rhs =
     bindR (text_try_for_each_chunk k E v (str_bytes rhs) (\<lambda>rhs chunk.
       if take (length chunk) rhs \<noteq> chunk then Inr (Inl ())
       else bindO (str_index (Str rhs) (length chunk) (length rhs)) (\<lambda>r. Inr (Inr (str_bytes r))))) (\<lambda>r.
       returnR (case r of Inl _ \<Rightarrow> False | Inr rhs \<Rightarrow> rhs = []))"

section \<open>Two texts\<close>

text \<open>
  \<open>zip_texts\<close> takes any two iterators of tokens with ranges. They are called on one state \<open>'w\<close>,
  which is the heap of the tree that both texts are in, or the heaps of the two trees. The \<open>while\<close>
  loops that pass over empty ranges:
\<close>

fun skip_empty :: "nat \<Rightarrow> text_ops \<Rightarrow> ('t \<Rightarrow> 'w \<Rightarrow> ((('a \<times> text_range) option \<times> 't) \<times> 'w) outcome) \<Rightarrow>
  'a \<times> text_range \<Rightarrow> 't \<Rightarrow> 'w \<Rightarrow> ((('a \<times> text_range) option \<times> 't) \<times> 'w) outcome" where
  "skip_empty 0 T nxt x xs w = Inl Out_of_fuel"
| "skip_empty (Suc k) T nxt x xs w =
     (if tr_is_empty T (snd x) then
        bindO (nxt xs w) (\<lambda>((y, xs), w). case y of None \<Rightarrow> Inr ((None, xs), w) | Some x \<Rightarrow> skip_empty k T nxt x xs w)
      else Inr ((Some x, xs), w))"

definition starts_with :: "rust_str \<Rightarrow> rust_str \<Rightarrow> bool" where
  "starts_with s p \<longleftrightarrow> take (length (str_bytes p)) (str_bytes s) = str_bytes p"

fun zip_loop :: "nat \<Rightarrow> text_ops \<Rightarrow>
  ('t \<Rightarrow> 'w \<Rightarrow> ((('a \<times> text_range) option \<times> 't) \<times> 'w) outcome) \<Rightarrow>
  ('u \<Rightarrow> 'w \<Rightarrow> ((('b \<times> text_range) option \<times> 'u) \<times> 'w) outcome) \<Rightarrow>
  ('a \<times> text_range \<Rightarrow> 'w \<Rightarrow> rust_str outcome) \<Rightarrow> ('b \<times> text_range \<Rightarrow> 'w \<Rightarrow> rust_str outcome) \<Rightarrow>
  'a \<times> text_range \<Rightarrow> 'b \<times> text_range \<Rightarrow> 't \<Rightarrow> 'u \<Rightarrow> 'w \<Rightarrow> ((unit option \<times> 't \<times> 'u) \<times> 'w) outcome" where
  "zip_loop 0 T nx ny tx ty x y xs ys w = Inl Out_of_fuel"
| "zip_loop (Suc k) T nx ny tx ty x y xs ys w =
     bindO (skip_empty k T nx x xs w) (\<lambda>((x, xs), w).
     case x of
       None \<Rightarrow> Inr ((None, xs, ys), w)
     | Some x \<Rightarrow>
         bindO (skip_empty k T ny y ys w) (\<lambda>((y, ys), w).
         case y of
           None \<Rightarrow> Inr ((None, xs, ys), w)
         | Some y \<Rightarrow>
             bindO (tx x w) (\<lambda>x_text. bindO (ty y w) (\<lambda>y_text.
             if \<not> (starts_with x_text y_text \<or> starts_with y_text x_text) then Inr ((Some (), xs, ys), w)
             else
               (let advance = min (tr_len T (snd x)) (tr_len T (snd y))
                in zip_loop k T nx ny tx ty
                     (fst x, tr_new T (ts_add T (tr_start (snd x)) advance) (tr_end (snd x)))
                     (fst y, tr_new T (ts_add T (tr_start (snd y)) advance) (tr_end (snd y))) xs ys w)))))"

definition zip_texts :: "nat \<Rightarrow> text_ops \<Rightarrow>
  ('t \<Rightarrow> 'w \<Rightarrow> ((('a \<times> text_range) option \<times> 't) \<times> 'w) outcome) \<Rightarrow>
  ('u \<Rightarrow> 'w \<Rightarrow> ((('b \<times> text_range) option \<times> 'u) \<times> 'w) outcome) \<Rightarrow>
  ('a \<times> text_range \<Rightarrow> 'w \<Rightarrow> rust_str outcome) \<Rightarrow> ('b \<times> text_range \<Rightarrow> 'w \<Rightarrow> rust_str outcome) \<Rightarrow>
  't \<Rightarrow> 'u \<Rightarrow> 'w \<Rightarrow> ((unit option \<times> 't \<times> 'u) \<times> 'w) outcome" where
  "zip_texts k T nx ny tx ty xs ys w =
     bindO (nx xs w) (\<lambda>((x, xs), w).
     case x of
       None \<Rightarrow> Inr ((None, xs, ys), w)
     | Some x \<Rightarrow> bindO (ny ys w) (\<lambda>((y, ys), w).
         case y of
           None \<Rightarrow> Inr ((None, xs, ys), w)
         | Some y \<Rightarrow> zip_loop k T nx ny tx ty x y xs ys w))"

text \<open>\<open>it.all(|it| it.1.is_empty())\<close>\<close>

fun all_empty :: "nat \<Rightarrow> text_ops \<Rightarrow> ('t \<Rightarrow> 'w \<Rightarrow> ((('a \<times> text_range) option \<times> 't) \<times> 'w) outcome) \<Rightarrow> 't \<Rightarrow> 'w \<Rightarrow>
  (bool \<times> 'w) outcome" where
  "all_empty 0 T nxt xs w = Inl Out_of_fuel"
| "all_empty (Suc k) T nxt xs w = bindO (nxt xs w) (\<lambda>((x, xs), w).
     case x of
       None \<Rightarrow> Inr (True, w)
     | Some x \<Rightarrow> if tr_is_empty T (snd x) then all_empty k T nxt xs w else Inr (False, w))"

definition text_eq :: "nat \<Rightarrow> text_ops \<Rightarrow>
  ('t \<Rightarrow> 'w \<Rightarrow> ((('a \<times> text_range) option \<times> 't) \<times> 'w) outcome) \<Rightarrow>
  ('u \<Rightarrow> 'w \<Rightarrow> ((('b \<times> text_range) option \<times> 'u) \<times> 'w) outcome) \<Rightarrow>
  ('a \<times> text_range \<Rightarrow> 'w \<Rightarrow> rust_str outcome) \<Rightarrow> ('b \<times> text_range \<Rightarrow> 'w \<Rightarrow> rust_str outcome) \<Rightarrow>
  text_range \<Rightarrow> text_range \<Rightarrow> 't \<Rightarrow> 'u \<Rightarrow> 'w \<Rightarrow> (bool \<times> 'w) outcome" where
  "text_eq k T nx ny tx ty r1 r2 lhs rhs w =
     (if tr_len T r1 \<noteq> tr_len T r2 then Inr (False, w)
      else
        bindO (zip_texts k T nx ny tx ty lhs rhs w) (\<lambda>((r, lhs, rhs), w).
        if r \<noteq> None then Inr (False, w)
        else bindO (all_empty k T nx lhs w) (\<lambda>(b, w).
          if \<not> b then Inr (False, w) else all_empty k T ny rhs w)))"

text \<open>The two texts of one tree, and of two trees.\<close>

definition text_eq_same :: "nat \<Rightarrow> ('s, rust_str, 'i, 'e) env \<Rightarrow> 'i syntax_text \<Rightarrow> 'i syntax_text \<Rightarrow> ('j, 'x, bool) red" where
  "text_eq_same k E v v' = text_eq k (en_text E) (tokens_next k E v) (tokens_next k E v')
     (\<lambda>x h. text_chunk E h (sd_resolver v) x) (\<lambda>x h. text_chunk E h (sd_resolver v') x)
     (sd_range v) (sd_range v') (tokens_with_ranges v) (tokens_with_ranges v')"

definition on_fst :: "('t \<Rightarrow> 'w \<Rightarrow> ('a \<times> 'w) outcome) \<Rightarrow> 't \<Rightarrow> 'w \<times> 'v \<Rightarrow> ('a \<times> 'w \<times> 'v) outcome" where
  "on_fst f it = (\<lambda>(w, v). bindO (f it w) (\<lambda>(a, w). Inr (a, w, v)))"

definition on_snd :: "('t \<Rightarrow> 'v \<Rightarrow> ('a \<times> 'v) outcome) \<Rightarrow> 't \<Rightarrow> 'w \<times> 'v \<Rightarrow> ('a \<times> 'w \<times> 'v) outcome" where
  "on_snd f it = (\<lambda>(w, v). bindO (f it v) (\<lambda>(a, v). Inr (a, w, v)))"

definition text_eq_two :: "nat \<Rightarrow> ('s, rust_str, 'i, 'e) env \<Rightarrow> 'i syntax_text \<Rightarrow> ('s2, rust_str, 'i2, 'e2) env \<Rightarrow> 'i2 syntax_text \<Rightarrow>
  ('j, 'x) heap \<times> ('j2, 'x2) heap \<Rightarrow> (bool \<times> ('j, 'x) heap \<times> ('j2, 'x2) heap) outcome" where
  "text_eq_two k E v E2 v2 = text_eq k (en_text E) (on_fst (tokens_next k E v)) (on_snd (tokens_next k E2 v2))
     (\<lambda>x (h, h2). text_chunk E h (sd_resolver v) x) (\<lambda>x (h, h2). text_chunk E2 h2 (sd_resolver v2) x)
     (sd_range v) (sd_range v2) (tokens_with_ranges v) (tokens_with_ranges v2)"

end
