(* ===== verification/Utf8.thy ===== *)
theory Utf8
  imports Syntax_Text
begin

text \<open>
  Facts of UTF-8 that the operations on \<open>str\<close> rest on: a valid string is a sequence of
  characters, each a first byte and its continuation bytes, and may be cut between them.
\<close>

section \<open>The first character\<close>

text \<open>\<open>b # ds\<close> is the encoding of a character.\<close>

definition utf8_char :: "bytes \<Rightarrow> bool" where
  "utf8_char c \<longleftrightarrow> (\<exists>b ds. c = b # ds \<and> length c = char_width b \<and> \<not> utf8_cont b \<and> list_all (\<lambda>d. utf8_cont d) ds \<and>
     (\<forall>r. utf8_valid (c @ r) \<longleftrightarrow> utf8_valid r))"

lemma utf8_char_I:
  assumes "length ds + 1 = char_width b" "\<not> utf8_cont b" "list_all (\<lambda>d. utf8_cont d) ds"
    "\<And>r. utf8_valid (b # ds @ r) \<longleftrightarrow> utf8_valid r"
  shows "utf8_char (b # ds)"
  using assms by (simp add: utf8_char_def)

lemma utf8_valid_first:
  assumes "utf8_valid (b # bs)"
  obtains c r where "b # bs = c @ r" "utf8_char c" "utf8_valid r"
proof -
  consider "b < 0x80" | "0xC2 \<le> b" "b \<le> 0xDF" | "0xE0 \<le> b" "b \<le> 0xEF" | "0xF0 \<le> b" "b \<le> 0xF4"
    using assms by (auto split: if_splits)
  then show thesis
  proof cases
    case 1
    then have "utf8_char [b]" "utf8_valid bs"
      using assms by (auto simp: char_width_def intro!: utf8_char_I)
    then show thesis by (intro that [of "[b]" bs]) simp_all
  next
    case 2
    then have b: "\<not> b < 0x80" "b < 0xE0" "\<not> utf8_cont b" "char_width b = 2"
      by (auto simp: char_width_def word_less_nat_alt word_le_nat_alt)
    with 2 assms obtain c1 r where bs: "bs = c1 # r" "utf8_cont c1" "utf8_valid r"
      by (auto split: list.splits)
    then have "utf8_char [b, c1]" using 2 b by (intro utf8_char_I) auto
    with bs show thesis by (intro that [of "[b, c1]" r]) simp_all
  next
    case 3
    then have b: "\<not> b < 0x80" "\<not> (0xC2 \<le> b \<and> b \<le> 0xDF)" "\<not> utf8_cont b" "char_width b = 3"
      by (auto simp: char_width_def word_less_nat_alt word_le_nat_alt)
    let ?ok = "\<lambda>c1 :: u8. if b = 0xE0 then 0xA0 \<le> c1 \<and> c1 \<le> 0xBF else if b = 0xED then 0x80 \<le> c1 \<and> c1 \<le> 0x9F else utf8_cont c1"
    have step: "utf8_valid (b # c1 # c2 # r) \<longleftrightarrow> ?ok c1 \<and> utf8_cont c2 \<and> utf8_valid r" for c1 c2 r
      using 3 b(1,2) by (simp only: utf8_valid.simps(2) [of b] list.case if_True if_False simp_thms)
    obtain c1 c2 r where bs: "bs = c1 # c2 # r"
      using assms 3 b(1,2) by (simp only: utf8_valid.simps(2) [of b] list.case if_True if_False simp_thms split: list.splits)
    with assms step have c: "?ok c1" "utf8_cont c2" "utf8_valid r" by blast+
    then have "utf8_cont c1" by (auto simp: word_le_nat_alt split: if_splits)
    with c b step have "utf8_char [b, c1, c2]" by (intro utf8_char_I) (simp_all del: utf8_valid.simps)
    with bs c show thesis by (intro that [of "[b, c1, c2]" r]) simp_all
  next
    case 4
    then have b: "\<not> b < 0x80" "\<not> (0xC2 \<le> b \<and> b \<le> 0xDF)" "\<not> (0xE0 \<le> b \<and> b \<le> 0xEF)" "\<not> utf8_cont b" "char_width b = 4"
      by (auto simp: char_width_def word_less_nat_alt word_le_nat_alt)
    let ?ok = "\<lambda>c1 :: u8. if b = 0xF0 then 0x90 \<le> c1 \<and> c1 \<le> 0xBF else if b = 0xF4 then 0x80 \<le> c1 \<and> c1 \<le> 0x8F else utf8_cont c1"
    have step: "utf8_valid (b # c1 # c2 # c3 # r) \<longleftrightarrow> ?ok c1 \<and> utf8_cont c2 \<and> utf8_cont c3 \<and> utf8_valid r" for c1 c2 c3 r
      using 4 b(1-3) by (simp only: utf8_valid.simps(2) [of b] list.case if_True if_False simp_thms)
    obtain c1 c2 c3 r where bs: "bs = c1 # c2 # c3 # r"
      using assms 4 b(1-3) by (simp only: utf8_valid.simps(2) [of b] list.case if_True if_False simp_thms split: list.splits)
    with assms step have c: "?ok c1" "utf8_cont c2" "utf8_cont c3" "utf8_valid r" by blast+
    then have "utf8_cont c1" by (auto simp: word_le_nat_alt split: if_splits)
    with c b step have "utf8_char [b, c1, c2, c3]" by (intro utf8_char_I) (simp_all del: utf8_valid.simps)
    with bs c show thesis by (intro that [of "[b, c1, c2, c3]" r]) simp_all
  qed
qed

lemma utf8_charD:
  assumes "utf8_char c"
  shows "c \<noteq> []" "\<not> utf8_cont (hd c)" "length c = char_width (hd c)" "\<And>i. 0 < i \<Longrightarrow> i < length c \<Longrightarrow> utf8_cont (c ! i)"
    "\<And>r. utf8_valid (c @ r) \<longleftrightarrow> utf8_valid r"
  using assms by (auto simp: utf8_char_def nth_Cons' list_all_length)

text \<open>Induction over the characters of a string.\<close>

lemma utf8_induct [consumes 1, case_names Nil Char]:
  assumes "utf8_valid s" "P []" "\<And>c r. utf8_char c \<Longrightarrow> utf8_valid r \<Longrightarrow> P r \<Longrightarrow> P (c @ r)"
  shows "P s"
  using assms(1)
proof (induction "length s" arbitrary: s rule: less_induct)
  case less
  show ?case
  proof (cases s)
    case Nil
    with assms(2) show ?thesis by simp
  next
    case (Cons b bs)
    with less.prems obtain c r where "s = c @ r" "utf8_char c" "utf8_valid r"
      using utf8_valid_first [of b bs] by metis
    with less.hyps [of r] utf8_charD(1) [of c] assms(3) show ?thesis by simp
  qed
qed

section \<open>Boundaries\<close>

lemma utf8_first_boundary: "utf8_valid (b # bs) \<Longrightarrow> \<not> utf8_cont b"
  by (erule utf8_valid_first) (metis append_is_Nil_conv hd_append2 list.sel(1) utf8_charD(1,2))

lemma utf8_valid_append: "utf8_valid s \<Longrightarrow> utf8_valid (s @ t) \<longleftrightarrow> utf8_valid t"
  by (induction s rule: utf8_induct) (simp_all add: utf8_charD(5))

lemma utf8_cut:
  assumes "utf8_valid s" "is_char_boundary s i"
  shows "utf8_valid (take i s) \<and> utf8_valid (drop i s)"
  using assms
proof (induction s arbitrary: i rule: utf8_induct)
  case (Char c r)
  show ?case
  proof (cases "i < length c")
    case True
    with Char.prems utf8_charD(4) [OF Char.hyps(1), of i] have "i = 0"
      by (auto simp: is_char_boundary_def nth_append)
    with Char.hyps show ?thesis by (simp add: utf8_charD(5))
  next
    case False
    then have "is_char_boundary r (i - length c)"
      using Char.prems by (auto simp: is_char_boundary_def nth_append)
    from Char.IH [OF this] False Char.hyps(1) show ?thesis by (simp add: utf8_charD(5))
  qed
qed simp

lemma utf8_boundary_iff: "utf8_valid s \<Longrightarrow> i \<le> length s \<Longrightarrow> is_char_boundary s i \<longleftrightarrow> utf8_valid (drop i s)"
proof
  assume s: "utf8_valid s" "is_char_boundary s i"
  then show "utf8_valid (drop i s)" using utf8_cut by blast
next
  assume s: "i \<le> length s" "utf8_valid (drop i s)"
  then show "is_char_boundary s i"
    using utf8_first_boundary [of "s ! i" "drop (Suc i) s"] by (cases "i = length s") (auto simp: is_char_boundary_def Cons_nth_drop_Suc)
qed

text \<open>A valid string that is the start of another ends at a boundary of it.\<close>

lemma utf8_prefix_boundary:
  assumes "utf8_valid p" "utf8_valid (p @ r)"
  shows "is_char_boundary (p @ r) (length p)"
  using assms utf8_boundary_iff [of "p @ r" "length p"] utf8_valid_append by simp

lemma is_char_boundary_ends [simp]: "is_char_boundary s 0" "is_char_boundary s (length s)"
  by (simp_all add: is_char_boundary_def)

text \<open>Indexing at boundaries.\<close>

lemma str_index_Inr:
  "i \<le> j \<Longrightarrow> is_char_boundary s i \<Longrightarrow> is_char_boundary s j \<Longrightarrow> str_index (Str s) i j = Inr (Str (take (j - i) (drop i s)))"
  by (simp add: str_index_def)

lemma utf8_slice:
  assumes "utf8_valid s" "is_char_boundary s i" "is_char_boundary s j" "i \<le> j"
  shows "utf8_valid (take (j - i) (drop i s))"
proof -
  have j: "utf8_valid (take j s)" using utf8_cut [OF assms(1,3)] by blast
  have i: "utf8_valid (take i s)" using utf8_cut [OF assms(1,2)] by blast
  have "take j s = take i s @ take (j - i) (drop i s)" using assms(4) by (metis le_add_diff_inverse take_add)
  with i j utf8_valid_append show ?thesis by metis
qed

section \<open>Characters\<close>

lemma first_char_append: "utf8_char c \<Longrightarrow> first_char (c @ r) = Some c"
  using utf8_charD(1,3) [of c] by (cases c) (simp_all add: take_Cons')

lemma first_char_valid:
  assumes "utf8_valid s" "s \<noteq> []"
  obtains c r where "first_char s = Some c" "s = c @ r" "utf8_char c" "utf8_valid r"
proof -
  from assms(2) obtain b bs where s: "s = b # bs" by (cases s) auto
  with assms(1) obtain c r where "s = c @ r" "utf8_char c" "utf8_valid r" using utf8_valid_first [of b bs] by metis
  with first_char_append that show thesis by blast
qed

text \<open>The first occurrence of a character.\<close>

lemma str_find_Some:
  "c \<noteq> [] \<Longrightarrow> str_find c s = Some i \<longleftrightarrow>
     i + length c \<le> length s \<and> take (length c) (drop i s) = c \<and> (\<forall>j < i. take (length c) (drop j s) \<noteq> c)"
proof (induction s arbitrary: i)
  case (Cons b bs)
  show ?case
  proof (cases "take (length c) (b # bs) = c")
    case True
    then have "length c \<le> length (b # bs)" by (metis length_take min.cobounded2 min.commute)
    with True show ?thesis by (cases i) (auto dest: spec [of _ 0])
  next
    case False
    then have "i \<noteq> 0 \<and> (\<forall>j < i. take (length c) (drop j (b # bs)) \<noteq> c) \<longleftrightarrow>
        i \<noteq> 0 \<and> (\<forall>j < i - 1. take (length c) (drop j bs) \<noteq> c)"
      by (cases i) (auto simp: less_Suc_eq_0_disj)
    with False Cons show ?thesis by (cases i) (auto simp: less_Suc_eq_0_disj)
  qed
qed auto

lemma str_find_None:
  "c \<noteq> [] \<Longrightarrow> str_find c s = None \<longleftrightarrow> (\<forall>i. take (length c) (drop i s) \<noteq> c)"
  by (induction s) (auto, (metis drop0 drop_Suc_Cons nat.exhaust)+)

end
