(* ===== verification/Syntax_Text_Chunks.thy ===== *)
theory Syntax_Text_Chunks
  imports Utf8
begin

text \<open>
  What the folds of \<open>text.rs\<close> see: the pieces of the tokens in a range, whichever way the tree
  grows between two steps of the lazy iterator, and their bytes, which together are the part of
  the node's text in the range.
\<close>

section \<open>The order of the events\<close>

fun walk_path :: "'a walk_event \<Rightarrow> 'a" where
  "walk_path (Enter p) = p"
| "walk_path (Leave p) = p"

text \<open>The event after an event of the traversal of the node at \<open>me\<close>.\<close>

fun green_next :: "green_node \<Rightarrow> nat list \<Rightarrow> nat list walk_event \<Rightarrow> nat list walk_event option" where
  "green_next g me (Enter p) =
     (case sub (Node g) p of
        Some (Node n) \<Rightarrow> if gn_children n = [] then Some (Leave p) else Some (Enter (p @ [0]))
      | _ \<Rightarrow> Some (Leave p))"
| "green_next g me (Leave p) =
     (if p = me then None
      else case sub (Node g) (butlast p) of
        Some (Node n) \<Rightarrow>
          if Suc (last p) < length (gn_children n) then Some (Enter (butlast p @ [Suc (last p)])) else Some (Leave (butlast p))
      | _ \<Rightarrow> None)"

text \<open>The rest of a traversal that is at an event.\<close>

fun green_chain :: "green_node \<Rightarrow> nat list \<Rightarrow> nat list walk_event option \<Rightarrow> nat list walk_event list \<Rightarrow> bool" where
  "green_chain g me None evs \<longleftrightarrow> evs = []"
| "green_chain g me (Some ev) [] \<longleftrightarrow> False"
| "green_chain g me (Some ev) (x # evs) \<longleftrightarrow> x = ev \<and> green_chain g me (green_next g me ev) evs"

definition event_ok :: "('j, 'x) heap \<Rightarrow> nat list \<Rightarrow> syntax_element walk_event \<Rightarrow> bool" where
  "event_ok h me ev \<longleftrightarrow> event_in h ev \<and> prefix me (walk_path (event_path h ev))"

definition cursor_ok :: "('j, 'x) heap \<Rightarrow> nat list \<Rightarrow> cursor \<Rightarrow> bool" where
  "cursor_ok h me c \<longleftrightarrow> pred_option (event_ok h me) c"

lemma event_ok_le:
  assumes "heap_le h h'" "red_wf E g h" "event_ok h me ev"
  shows "event_ok h' me ev" "event_path h' ev = event_path h ev"
  using event_path_le [OF assms(1,2), of ev] assms(3) by (simp_all add: event_ok_def)

context red_env
begin

text \<open>In any heap the traversal goes on as in the green tree.\<close>

lemma nav_preorder_step:
  assumes wf: "red_wf E g (h :: ('j, 'x) heap)" and n: "n < length h" and ev: "event_ok h (path_of h n) ev"
  shows "nav E g h (preorder_with_tokens_step E (Node n) ev) (\<lambda>h' c. cursor_ok h' (path_of h n) c \<and>
    map_option (event_path h') c = green_next g (path_of h n) (event_path h ev))"
proof -
  let ?me = "path_of h n" and ?step = "preorder_with_tokens_step E (Node n)"
  let ?Q = "\<lambda>h' c. cursor_ok h' ?me c \<and> map_option (event_path h') c = green_next g ?me (event_path h ev)"
  have child: "event_ok h' ?me (Enter e) \<and> event_path h' (Enter e) = Enter (path_of h c @ [i])"
    if "red_wf E g h'" "heap_le h h'" "c < length h" "child_at h' c i e" "prefix ?me (path_of h c)"
    for h' :: "('j, 'x) heap" and c i e
    using child_at_path [OF that(1,4)] child_at_elem(1) [OF that(1,4)] path_of_le [OF that(2) wf that(3)] that(5)
    by (simp add: event_ok_def)
  have leave: "event_ok h' ?me (Leave (Node c)) \<and> event_path h' (Leave (Node c)) = Leave (path_of h c)"
    if "heap_le h h'" "c < length h" "prefix ?me (path_of h c)" for h' :: "('j, 'x) heap" and c
    using heap_le_node(1) [OF that(1,2)] path_of_le [OF that(1) wf that(2)] that(3) by (simp add: event_ok_def)
  show ?thesis
  proof (cases ev)
    case (Enter e)
    show ?thesis
    proof (cases e)
      case (Token t)
      from ev Enter Token have t: "elem_in h (Token t)" "prefix ?me (elem_path h (Token t))"
        by (simp_all add: event_ok_def)
      obtain tok where "green_of h (Token t) = Token tok" by (rule token_green_eq [OF wf t(1)])
      with elem_sub [OF wf t(1)] have "sub (Node g) (elem_path h (Token t)) = Some (Token tok)" by simp
      with t show ?thesis
        by (simp add: Enter Token preorder_with_tokens_step_def nav_return [OF wf] cursor_ok_def event_ok_def
            del: elem_path.simps elem_in.simps)
    next
      case (Node c)
      from ev Enter Node have c: "c < length h" "prefix ?me (path_of h c)" by (simp_all add: event_ok_def)
      have sub: "sub (Node g) (path_of h c) = Some (Node (nd_green (h ! c)))" using node_sub [OF wf c(1)] by simp
      obtain h' nxt where s: "?step (Enter (Node c)) h = Inr (Some nxt, h')" "red_wf E g h'" "heap_le h h'"
        "node_children (h ! c) = [] \<Longrightarrow> nxt = Leave (Node c)"
        "node_children (h ! c) \<noteq> [] \<Longrightarrow> \<exists>e. nxt = Enter e \<and> child_at h' c 0 e"
        by (rule step_enter [where me = "Node n", OF wf c(1)]) (rule that)
      have "?Q h' (Some nxt)"
      proof (cases "node_children (h ! c) = []")
        case True
        with s(4) leave [OF s(3) c] sub show ?thesis
          by (simp add: cursor_ok_def Enter Node node_children_def)
      next
        case False
        with s(5) obtain e' where e': "nxt = Enter e'" "child_at h' c 0 e'" by auto
        from child [OF s(2,3) c(1) e'(2) c(2)] e'(1) False sub show ?thesis
          by (simp add: cursor_ok_def Enter Node node_children_def)
      qed
      with s show ?thesis by (auto simp: nav_def Enter Node)
    qed
  next
    case (Leave e)
    from ev Leave have e: "elem_in h e" "prefix ?me (elem_path h e)" by (simp_all add: event_ok_def)
    have me: "e = Node n \<longleftrightarrow> elem_path h e = ?me"
      using elem_path_inj [OF wf e(1), of "Node n"] n by auto
    show ?thesis
    proof (cases "e = Node n")
      case True
      then show ?thesis
        by (auto simp: Leave preorder_with_tokens_step_def cursor_ok_def intro!: nav_return [OF wf])
    next
      case False
      with me e(2) have "elem_path h e \<noteq> []" by auto
      with elem_path_Nil_iff [OF wf e(1)] have "e \<noteq> Node 0" by blast
      with elem_cases [OF wf e(1)] obtain c i where at: "child_at h c i e" by blast
      have c: "c < length h" using at by (simp add: child_at_def)
      have path: "elem_path h e = path_of h c @ [i]" by (rule child_at_path [OF wf at])
      have pre: "prefix ?me (path_of h c)" using e(2) me False path by (auto simp: prefix_snoc)
      have sub: "sub (Node g) (path_of h c) = Some (Node (nd_green (h ! c)))" using node_sub [OF wf c] by simp
      obtain h' nxt where s: "?step (Leave e) h = Inr (Some nxt, h')" "red_wf E g h'" "heap_le h h'"
        "Suc i < length (node_children (h ! c)) \<Longrightarrow> \<exists>e'. nxt = Enter e' \<and> child_at h' c (Suc i) e'"
        "\<not> Suc i < length (node_children (h ! c)) \<Longrightarrow> nxt = Leave (Node c)"
        by (rule step_leave [OF wf at False]) (rule that)
      have "?Q h' (Some nxt)"
      proof (cases "Suc i < length (node_children (h ! c))")
        case True
        with s(4) obtain e' where e': "nxt = Enter e'" "child_at h' c (Suc i) e'" by auto
        from child [OF s(2,3) c e'(2) pre] e'(1) True sub me False path show ?thesis
          by (simp add: cursor_ok_def Leave node_children_def)
      next
        case no: False
        with s(5) leave [OF s(3) c pre] sub me False path show ?thesis
          by (simp add: cursor_ok_def Leave node_children_def)
      qed
      with s show ?thesis by (auto simp: nav_def Leave)
    qed
  qed
qed

text \<open>The events of a traversal are a chain.\<close>

lemma yields_chain:
  assumes "yields (preorder_with_tokens_step E (Node n)) (h :: ('j, 'x) heap) cur xs h2 None"
  shows "red_wf E g h \<Longrightarrow> n < length h \<Longrightarrow> cursor_ok h (path_of h n) cur \<Longrightarrow>
    heap_le h h2 \<and> green_chain g (path_of h n) (map_option (event_path h) cur) (map (event_path h2) xs)"
  using assms
proof (induction h cur xs h2 "None :: cursor" rule: yields.induct)
  case (stop h)
  then show ?case by simp
next
  case (item x h nxt h1 xs h2)
  have ok: "event_ok h (path_of h n) x" using item.prems(3) by (simp add: cursor_ok_def)
  from nav_preorder_step [OF item.prems(1,2) ok] item.hyps(1)
  have 1: "red_wf E g h1" "heap_le h h1" "cursor_ok h1 (path_of h n) nxt"
    "map_option (event_path h1) nxt = green_next g (path_of h n) (event_path h x)" by (auto simp: nav_def)
  note same = heap_le_node(1) [OF 1(2) item.prems(2)] path_of_le [OF 1(2) item.prems(1,2)]
  from item.hyps(3) [OF 1(1) same(1)] 1(3) same(2)
  have 2: "heap_le h1 h2" "green_chain g (path_of h n) (map_option (event_path h1) nxt) (map (event_path h2) xs)"
    by simp_all
  have le: "heap_le h h2" using 1(2) 2(1) by (rule heap_le_trans)
  have "event_path h2 x = event_path h x" by (rule event_ok_le(2) [OF le item.prems(1) ok])
  with le 1(4) 2(2) show ?case by simp
qed

lemma walk_chain:
  assumes wf: "red_wf E g (h :: ('j, 'x) heap)" and n: "n < length h"
  shows "green_chain g (path_of h n) (Some (Enter (path_of h n))) (walk_node (path_of h n) (nd_green (h ! n)))"
proof -
  obtain xs h2 where xs: "yields (preorder_with_tokens_step E (Node n)) h (Some (Enter (Node n))) xs h2 None"
    "map (event_path h2) xs = walk_node (path_of h n) (nd_green (h ! n))"
    using preorder_with_tokens_yields [OF wf n] by blast
  have "cursor_ok h (path_of h n) (Some (Enter (Node n)))" using n by (simp add: cursor_ok_def event_ok_def)
  from yields_chain [OF xs(1) wf n this] xs(2) show ?thesis by simp
qed

end

section \<open>Pieces of tokens\<close>

text \<open>The part of the token at \<open>p\<close> that is in the range from \<open>a\<close> to \<open>b\<close>, as offsets into the token.\<close>

definition piece :: "green_node \<Rightarrow> nat \<Rightarrow> nat \<Rightarrow> nat list \<Rightarrow> (nat list \<times> nat \<times> nat) option" where
  "piece g a b p =
     (case sub (Node g) p of
        Some (Token t) \<Rightarrow>
          (let s = start_at (Node g) p; e = s + unat (gt_data_len t)
           in if max a s \<le> min b e then Some (p, max a s - s, min b e - s) else None)
      | _ \<Rightarrow> None)"

definition pieces :: "green_node \<Rightarrow> nat \<Rightarrow> nat \<Rightarrow> nat list walk_event list \<Rightarrow> (nat list \<times> nat \<times> nat) list" where
  "pieces g a b evs = List.map_filter (piece g a b) (entered evs)"

lemma pieces_simps [simp]:
  "pieces g a b [] = []"
  "pieces g a b (Leave p # evs) = pieces g a b evs"
  "pieces g a b (Enter p # evs) = (case piece g a b p of None \<Rightarrow> pieces g a b evs | Some x \<Rightarrow> x # pieces g a b evs)"
  by (simp_all add: pieces_def map_filter_simps split: option.split)

lemma entered_append [simp]: "entered (xs @ ys) = entered xs @ entered ys"
  by (induction xs rule: entered.induct) simp_all

lemma pieces_append [simp]: "pieces g a b (xs @ ys) = pieces g a b xs @ pieces g a b ys"
  by (simp add: pieces_def map_filter_def)

text \<open>The cursor of a view has the rest of the traversal before it.\<close>

definition at_rest :: "green_node \<Rightarrow> ('j, 'x) heap \<Rightarrow> nat list \<Rightarrow> cursor \<Rightarrow> nat list walk_event list \<Rightarrow> bool" where
  "at_rest g h me c evs \<longleftrightarrow> cursor_ok h me c \<and> green_chain g me (map_option (event_path h) c) evs"

lemma at_rest_le:
  assumes "heap_le h h'" "red_wf E g h" "at_rest g h me c evs"
  shows "at_rest g h' me c evs"
  using assms(3) event_ok_le [OF assms(1,2)] by (cases c) (auto simp: at_rest_def cursor_ok_def)

text \<open>An item of the iterator: the token of a piece and its range.\<close>

definition piece_item :: "('j, 'x) heap \<Rightarrow> syntax_token \<times> text_range \<Rightarrow> nat list \<times> nat \<times> nat \<Rightarrow> bool" where
  "piece_item h = (\<lambda>(t, r) x. elem_in h (Token t) \<and> tr_valid r \<and> x = (elem_path h (Token t), unat (tr_start r), unat (tr_end r)))"

lemma piece_item_le:
  assumes "heap_le h h'" "red_wf E g h" "piece_item h i x"
  shows "piece_item h' i x"
  using assms(3) heap_le_elem_in [OF assms(1)] elem_path_le [OF assms(1,2)]
  by (auto simp: piece_item_def simp del: elem_in.simps elem_path.simps)

context red_env
begin

lemma token_piece:
  assumes wf: "red_wf E g h" and t: "elem_in h (Token t)" and view: "tr_valid view"
  obtains r where "token_text_range E h t = Inr r" "tr_valid r"
    "case tr_intersect (en_text E) view r of
       None \<Rightarrow> piece g (unat (tr_start view)) (unat (tr_end view)) (elem_path h (Token t)) = None
     | Some q \<Rightarrow> tr_valid (tr_sub (en_text E) q (tr_start r)) \<and>
         piece g (unat (tr_start view)) (unat (tr_end view)) (elem_path h (Token t)) =
           Some (elem_path h (Token t), unat (tr_start (tr_sub (en_text E) q (tr_start r))),
             unat (tr_end (tr_sub (en_text E) q (tr_start r))))"
proof -
  obtain tok where tok: "green_of h (Token t) = Token tok" by (rule token_green_eq [OF wf t])
  obtain r where r: "element_text_range E h (Token t) = Inr r" "tr_valid r"
    "unat (tr_start r) = start_at (Node g) (elem_path h (Token t))"
    "unat (tr_end r) = start_at (Node g) (elem_path h (Token t)) + element_len (green_of h (Token t))"
    using element_range [OF wf t] by blast
  have sub: "sub (Node g) (elem_path h (Token t)) = Some (Token tok)" using elem_sub [OF wf t] tok by simp
  let ?p = "elem_path h (Token t)" and ?a = "tr_start view" and ?b = "tr_end view"
  let ?q = "\<lparr>tr_start = max ?a (tr_start r), tr_end = min ?b (tr_end r)\<rparr>"
  have max_min: "unat (max x y) = max (unat x) (unat y)" "unat (min x y) = min (unat x) (unat y)" for x y :: u32
    by (simp_all add: max_def min_def word_le_nat_alt)
  have piece: "piece g (unat ?a) (unat ?b) ?p =
      (if max ?a (tr_start r) \<le> min ?b (tr_end r)
       then Some (?p, unat (max ?a (tr_start r)) - unat (tr_start r), unat (min ?b (tr_end r)) - unat (tr_start r)) else None)"
    using r(3,4) tok by (simp add: piece_def sub word_le_nat_alt max_min Let_def del: elem_path.simps)
  show thesis
  proof (rule that [of r])
    show "token_text_range E h t = Inr r" using r(1) by simp
    show "tr_valid r" by (rule r(2))
    show "case tr_intersect (en_text E) view r of
       None \<Rightarrow> piece g (unat ?a) (unat ?b) ?p = None
     | Some q \<Rightarrow> tr_valid (tr_sub (en_text E) q (tr_start r)) \<and>
         piece g (unat ?a) (unat ?b) ?p =
           Some (?p, unat (tr_start (tr_sub (en_text E) q (tr_start r))), unat (tr_end (tr_sub (en_text E) q (tr_start r))))"
    proof (cases "max ?a (tr_start r) \<le> min ?b (tr_end r)")
      case False
      then show ?thesis by (simp add: intersect [OF view r(2)] piece del: elem_path.simps max.bounded_iff min.bounded_iff)
    next
      case True
      have le: "tr_start r \<le> max ?a (tr_start r)" by simp
      then have le': "tr_start r \<le> min ?b (tr_end r)" using True by (rule order_trans)
      have "tr_sub (en_text E) ?q (tr_start r) =
          \<lparr>tr_start = max ?a (tr_start r) - tr_start r, tr_end = min ?b (tr_end r) - tr_start r\<rparr>"
        using range_sub [of ?q "tr_start r"] True le by (simp add: tr_valid_def del: max.bounded_iff min.bounded_iff)
      moreover have "max ?a (tr_start r) - tr_start r \<le> min ?b (tr_end r) - tr_start r"
        using True le le' by (simp add: word_le_nat_alt unat_sub del: max.bounded_iff min.bounded_iff)
      ultimately show ?thesis
        using True le le'
        by (simp add: intersect [OF view r(2)] piece tr_valid_def unat_sub del: elem_path.simps max.bounded_iff min.bounded_iff)
    qed
  qed
qed

text \<open>The iterator yields the next piece.\<close>

lemma nav_tokens_next:
  assumes view: "tr_valid (sd_range v)"
  shows "red_wf E g (h :: ('j, 'x) heap) \<Longrightarrow> sd_node v < length h \<Longrightarrow> me = path_of h (sd_node v) \<Longrightarrow> at_rest g h me c evs \<Longrightarrow>
    length evs \<le> k \<Longrightarrow>
    nav E g h (tokens_next k E v c) (\<lambda>h' (x, c'). \<exists>evs'. at_rest g h' me c' evs' \<and> length evs' \<le> length evs \<and>
      (let ps = pieces g (unat (tr_start (sd_range v))) (unat (tr_end (sd_range v))) in
       case x of
         None \<Rightarrow> c' = None \<and> ps evs = []
       | Some i \<Rightarrow> \<exists>y. piece_item h' i y \<and> ps evs = y # ps evs'))"
proof (induction k arbitrary: h c evs)
  case 0
  then have "evs = []" by simp
  with 0 have "c = None" by (cases c) (simp_all add: at_rest_def)
  with 0 \<open>evs = []\<close> show ?case by (auto intro!: nav_return)
next
  case (Suc k h c evs)
  note wf = Suc.prems(1) and n = Suc.prems(2) and me = Suc.prems(3)
  let ?ps = "pieces g (unat (tr_start (sd_range v))) (unat (tr_end (sd_range v)))"
  let ?Q = "\<lambda>evs h' (x, c'). \<exists>evs'. at_rest g h' me c' evs' \<and> length evs' \<le> length evs \<and>
      (case x of None \<Rightarrow> c' = None \<and> ?ps evs = [] | Some i \<Rightarrow> \<exists>y. piece_item h' i y \<and> ?ps evs = y # ?ps evs')"
  show ?case
  proof (cases c)
    case None
    with Suc.prems have "evs = []" by (simp add: at_rest_def)
    with None Suc.prems show ?thesis by (auto intro!: nav_return)
  next
    case (Some ev)
    then obtain evs1 where evs: "evs = event_path h ev # evs1" "event_ok h me ev"
      "green_chain g me (green_next g me (event_path h ev)) evs1"
      using Suc.prems(4) by (cases evs) (auto simp: at_rest_def cursor_ok_def)
    have k: "length evs1 \<le> k" using Suc.prems(5) evs(1) by simp
    have skip: "nav E g h1 (tokens_next k E v c1) (?Q evs)"
      if "red_wf E g h1" "heap_le h h1" "at_rest g h1 me c1 evs1" "?ps evs = ?ps evs1" for h1 :: "('j, 'x) heap" and c1
    proof -
      have "nav E g h1 (tokens_next k E v c1) (?Q evs1)"
        using Suc.IH [OF that(1) _ _ that(3) k] heap_le_node(1) [OF that(2) n] path_of_le [OF that(2) wf n] me
        by (simp add: Let_def)
      then show ?thesis
      proof (rule nav_mono)
        fix h' and r :: "(syntax_token \<times> text_range) option \<times> cursor" assume "?Q evs1 h' r"
        then obtain evs' where "at_rest g h' me (snd r) evs'" "length evs' \<le> length evs1"
          "case fst r of None \<Rightarrow> snd r = None \<and> ?ps evs1 = [] | Some i \<Rightarrow> \<exists>y. piece_item h' i y \<and> ?ps evs1 = y # ?ps evs'"
          by (auto simp: case_prod_beta)
        with that(4) evs(1) show "?Q evs h' r"
          by (cases "fst r") (auto simp: case_prod_beta intro!: exI [of _ evs'])
      qed
    qed
    have "nav E g h (tokens_next (Suc k) E v (Some ev)) (?Q evs)"
      unfolding tokens_next.simps
    proof (rule nav_bind [OF nav_preorder_step [OF wf n evs(2) [unfolded me]]])
      fix h1 :: "('j, 'x) heap" and c1
      assume wf1: "red_wf E g h1" and le: "heap_le h h1" and c1: "cursor_ok h1 (path_of h (sd_node v)) c1 \<and>
        map_option (event_path h1) c1 = green_next g (path_of h (sd_node v)) (event_path h ev)"
      have rest: "at_rest g h1 me c1 evs1" using c1 evs(3) me by (simp add: at_rest_def)
      note next1 = skip [OF wf1 le rest]
      show "nav E g h1 (case ev of
          Enter (Token token) \<Rightarrow>
            bindR (readR (\<lambda>h. token_text_range E h token)) (\<lambda>token_range.
              case tr_intersect (en_text E) (sd_range v) token_range of
                None \<Rightarrow> tokens_next k E v c1
              | Some r \<Rightarrow> returnR (Some (token, tr_sub (en_text E) r (tr_start token_range)), c1))
        | _ \<Rightarrow> tokens_next k E v c1) (?Q evs)"
      proof (cases ev)
        case (Leave e)
        with next1 evs(1) show ?thesis by simp
      next
        case (Enter e)
        show ?thesis
        proof (cases e)
          case (Node m)
          have "m < length h" using evs(2) Enter Node by (simp add: event_ok_def)
          with node_sub [OF wf] have "sub (Node g) (path_of h m) = Some (Node (nd_green (h ! m)))" by simp
          then have "piece g x y (path_of h m) = None" for x y by (simp add: piece_def)
          with next1 evs(1) Enter Node show ?thesis by simp
        next
          case (Token t)
          have t: "elem_in h (Token t)" using evs(2) Enter Token by (simp add: event_ok_def)
          have t1: "elem_in h1 (Token t)" "elem_path h1 (Token t) = elem_path h (Token t)"
            using heap_le_elem_in [OF le t] elem_path_le [OF le wf t] by simp_all
          obtain r where r: "token_text_range E h1 t = Inr r"
            "case tr_intersect (en_text E) (sd_range v) r of
               None \<Rightarrow> piece g (unat (tr_start (sd_range v))) (unat (tr_end (sd_range v))) (elem_path h1 (Token t)) = None
             | Some q \<Rightarrow> tr_valid (tr_sub (en_text E) q (tr_start r)) \<and>
                 piece g (unat (tr_start (sd_range v))) (unat (tr_end (sd_range v))) (elem_path h1 (Token t)) =
                   Some (elem_path h1 (Token t), unat (tr_start (tr_sub (en_text E) q (tr_start r))),
                     unat (tr_end (tr_sub (en_text E) q (tr_start r))))"
            by (rule token_piece [OF wf1 t1(1) view])
          have evs': "evs = Enter (elem_path h (Token t)) # evs1" using evs(1) Enter Token by simp
          have "nav E g h1 (case tr_intersect (en_text E) (sd_range v) r of
                None \<Rightarrow> tokens_next k E v c1
              | Some q \<Rightarrow> returnR (Some (t, tr_sub (en_text E) q (tr_start r)), c1)) (?Q evs)"
          proof (cases "tr_intersect (en_text E) (sd_range v) r")
            case None
            with next1 evs' r(2) t1(2) show ?thesis by (simp del: elem_path.simps)
          next
            case (Some q)
            with r(2) t1 evs' rest show ?thesis
              by (auto simp: piece_item_def simp del: elem_path.simps elem_in.simps intro!: nav_return [OF wf1] exI [of _ evs1])
          qed
          with r(1) Enter Token show ?thesis by (simp add: nav_read [where a = r])
        qed
      qed
    qed
    then show ?thesis by (simp add: Some Let_def)
  qed
qed

end

end
