(* ===== verification/Syntax_Text_Bytes.thy ===== *)
theory Syntax_Text_Bytes
  imports Syntax_Text_Chunks Builder_Theorems
begin

text \<open>
  The bytes of the pieces: put together they are the part of the node's text in the view's
  range, and a fold over the chunks is a fold over these bytes, on every tree whose tokens resolve
  to data of their stored length.
\<close>

section \<open>The text of a green element\<close>

definition token_bytes :: "('s, 'd, 'i, 'e) env \<Rightarrow> 'i \<Rightarrow> green_token \<Rightarrow> bytes" where
  "token_bytes E i t = (case green_resolve E i t of Inr d \<Rightarrow> td_as_bytes (en_data E) d | Inl _ \<Rightarrow> [])"

definition element_bytes :: "('s, 'd, 'i, 'e) env \<Rightarrow> 'i \<Rightarrow> green_element \<Rightarrow> bytes" where
  "element_bytes E i e = concat (map (token_bytes E i) (element_tokens e))"

text \<open>Every token resolves, to data of the stored length.\<close>

definition token_ok :: "('s, 'd, 'i, 'e) env \<Rightarrow> 'i \<Rightarrow> green_token \<Rightarrow> bool" where
  "token_ok E i t \<longleftrightarrow> (\<exists>d. green_resolve E i t = Inr d \<and> length (td_as_bytes (en_data E) d) = unat (gt_data_len t))"

definition text_ok :: "('s, 'd, 'i, 'e) env \<Rightarrow> 'i \<Rightarrow> green_node \<Rightarrow> bool" where
  "text_ok E i g \<longleftrightarrow> list_all (token_ok E i) (green_tokens g)"

lemma token_ok_length: "token_ok E i t \<Longrightarrow> length (token_bytes E i t) = unat (gt_data_len t)"
  by (auto simp: token_ok_def token_bytes_def)

lemma element_bytes_Token [simp]: "element_bytes E i (Token t) = token_bytes E i t"
  by (simp add: element_bytes_def)

lemma element_bytes_Node [simp]: "element_bytes E i (Node n) = concat (map (element_bytes E i) (gn_children n))"
proof -
  have *: "concat (map (token_bytes E i) (concat (map element_tokens cs))) = concat (map (element_bytes E i) cs)" for cs
    by (induction cs) (simp_all add: element_bytes_def)
  obtain h cs where n: "n = GreenNode h cs" by (cases n)
  show ?thesis unfolding n element_bytes_def [of E i "Node (GreenNode h cs)"] using * by simp
qed

lemma length_element_bytes:
  "list_all (token_ok E i) (element_tokens e) \<Longrightarrow> length (element_bytes E i e) = element_len e"
proof -
  have "list_all (token_ok E i) ts \<Longrightarrow> length (concat (map (token_bytes E i) ts)) = tokens_len ts" for ts
    by (induction ts) (simp_all add: token_ok_length tokens_len_def)
  then show "list_all (token_ok E i) (element_tokens e) \<Longrightarrow> ?thesis"
    by (simp add: element_bytes_def element_len_def)
qed

lemma sub_tokens: "sub e p = Some x \<Longrightarrow> set (element_tokens x) \<subseteq> set (element_tokens e)"
proof (induction e p rule: sub.induct)
  case (3 n i p)
  then have i: "i < length (gn_children n)" and s: "sub (gn_children n ! i) p = Some x" by (simp_all split: if_splits)
  have "set (element_tokens (gn_children n ! i)) \<subseteq> set (element_tokens (Node n))"
    using nth_mem [OF i] by (cases n) auto
  with 3 i s show ?case by auto
qed simp_all

lemma text_ok_sub: "text_ok E i g \<Longrightarrow> sub (Node g) p = Some x \<Longrightarrow> list_all (token_ok E i) (element_tokens x)"
  using sub_tokens [of "Node g" p x] by (auto simp: text_ok_def list_all_iff)

section \<open>Cutting text\<close>

text \<open>The part of \<open>bs\<close>, which starts at \<open>s\<close>, between \<open>a\<close> and \<open>b\<close>.\<close>

definition cut :: "nat \<Rightarrow> nat \<Rightarrow> nat \<Rightarrow> bytes \<Rightarrow> bytes" where
  "cut a b s bs = take (b - max a s) (drop (a - s) bs)"

lemma cut_Nil [simp]: "cut a b s [] = []"
  by (simp add: cut_def)

lemma cut_append: "cut a b s (xs @ ys) = cut a b s xs @ cut a b (s + length xs) ys"
proof -
  consider "a \<le> s" | "s \<le> a" "a \<le> s + length xs" | "s + length xs < a" by linarith
  then show ?thesis
  proof cases
    case 1
    then have "max a s = s" "max a (s + length xs) = s + length xs" "a - s = 0" "a - (s + length xs) = 0" by simp_all
    then show ?thesis by (simp add: cut_def)
  next
    case 2
    then have "max a s = a" "max a (s + length xs) = s + length xs" "a - (s + length xs) = 0" by simp_all
    with 2 show ?thesis by (simp add: cut_def add.commute)
  next
    case 3
    then have "max a s = a" "max a (s + length xs) = a" by simp_all
    with 3 show ?thesis by (simp add: cut_def)
  qed
qed

lemma cut_piece:
  assumes "a \<le> b"
  shows "cut a b s bs =
    (if max a s \<le> min b (s + length bs)
     then take (min b (s + length bs) - s - (max a s - s)) (drop (max a s - s) bs) else [])"
proof (cases "max a s \<le> min b (s + length bs)")
  case True
  have "max a s - s = a - s" by simp
  moreover have "take (b - max a s) (drop (a - s) bs) = take (min b (s + length bs) - s - (a - s)) (drop (a - s) bs)"
    using True assms by (cases "b \<le> s + length bs"; cases "a \<le> s") (auto simp: max_def min_def)
  ultimately show ?thesis using True by (simp add: cut_def)
next
  case False
  with assms have "b < s \<or> s + length bs < a" by auto
  then show ?thesis using False assms by (auto simp: cut_def)
qed

definition piece_bytes :: "('s, 'd, 'i, 'e) env \<Rightarrow> 'i \<Rightarrow> green_node \<Rightarrow> nat list \<times> nat \<times> nat \<Rightarrow> bytes" where
  "piece_bytes E i g = (\<lambda>(p, lo, hi).
     case sub (Node g) p of Some (Token t) \<Rightarrow> take (hi - lo) (drop lo (token_bytes E i t)) | _ \<Rightarrow> [])"

lemma piece_bytes_token:
  assumes "sub (Node g) p = Some (Token t)" "token_ok E i t" "a \<le> b"
  shows "(case piece g a b p of None \<Rightarrow> [] | Some x \<Rightarrow> piece_bytes E i g x) =
    cut a b (start_at (Node g) p) (token_bytes E i t)"
  using assms(1) cut_piece [OF assms(3)] token_ok_length [OF assms(2)] by (simp add: piece_def piece_bytes_def Let_def)

lemma concat_pieces:
  assumes ok: "text_ok E i g" and ab: "a \<le> b"
  shows "sub (Node g) p = Some (Node n) \<Longrightarrow>
      concat (map (piece_bytes E i g) (pieces g a b (walk_node p n))) =
        cut a b (start_at (Node g) p) (element_bytes E i (Node n))"
    and "sub (Node g) p = Some (Node m) \<Longrightarrow> gn_children m = pre @ cs \<Longrightarrow> j = length pre \<Longrightarrow>
      concat (map (piece_bytes E i g) (pieces g a b (walk_children p j cs))) =
        cut a b (start_at (Node g) p + sum_list (map element_len pre)) (concat (map (element_bytes E i) cs))"
proof (induction p n and p j cs arbitrary: and m pre rule: walk_node_walk_children.induct)
  case (1 p h cs)
  then have "piece g a b p = None" by (simp add: piece_def)
  with 1(1) [of "GreenNode h cs" "[]"] 1(2) show ?case by simp
next
  case (2 p j)
  then show ?case by simp
next
  case (3 p j n cs)
  have sub: "sub (Node g) (p @ [j]) = Some (Node n)" using 3 by (simp add: sub_snoc)
  have start: "start_at (Node g) (p @ [j]) = start_at (Node g) p + sum_list (map element_len pre)"
    using start_at_snoc [OF 3(3), of j] 3(4,5) by simp
  have len: "length (element_bytes E i (Node n)) = element_len (Node n)"
    by (rule length_element_bytes [OF text_ok_sub [OF ok sub]])
  have "concat (map (piece_bytes E i g) (pieces g a b (walk_children p (Suc j) cs))) =
      cut a b (start_at (Node g) p + sum_list (map element_len (pre @ [Node n]))) (concat (map (element_bytes E i) cs))"
    using 3(2) [OF 3(3), of "pre @ [Node n]"] 3(4,5) by simp
  moreover have "concat (map (piece_bytes E i g) (pieces g a b (walk_node (p @ [j]) n))) =
      cut a b (start_at (Node g) p + sum_list (map element_len pre)) (element_bytes E i (Node n))"
    using 3(1) [OF sub] start by simp
  ultimately show ?case
    using len by (simp only: walk_children.simps pieces_append map_append concat_append list.map concat.simps cut_append)
      (simp add: add.assoc)
next
  case (4 p j t cs)
  have sub: "sub (Node g) (p @ [j]) = Some (Token t)" using 4 by (simp add: sub_snoc)
  have start: "start_at (Node g) (p @ [j]) = start_at (Node g) p + sum_list (map element_len pre)"
    using start_at_snoc [OF 4(2), of j] 4(3,4) by simp
  have t: "token_ok E i t" using text_ok_sub [OF ok sub] by simp
  have "concat (map (piece_bytes E i g) (pieces g a b (walk_children p (Suc j) cs))) =
      cut a b (start_at (Node g) p + sum_list (map element_len (pre @ [Token t]))) (concat (map (element_bytes E i) cs))"
    using 4(1) [OF 4(2), of "pre @ [Token t]"] 4(3,4) by simp
  moreover have "concat (map (piece_bytes E i g) (pieces g a b (walk_children p j (Token t # cs)))) =
      (case piece g a b (p @ [j]) of None \<Rightarrow> [] | Some x \<Rightarrow> piece_bytes E i g x) @
      concat (map (piece_bytes E i g) (pieces g a b (walk_children p (Suc j) cs)))"
    by (simp split: option.split)
  ultimately show ?case
    using piece_bytes_token [OF sub t ab] start token_ok_length [OF t]
    by (simp add: cut_append add.assoc element_len_simps)
qed

text \<open>A cut of the whole.\<close>

lemma cut_whole: "s \<le> a \<Longrightarrow> cut a b s bs = take (b - a) (drop (a - s) bs)"
  by (simp add: cut_def)

section \<open>Views\<close>

text \<open>A view of a node of the tree, its pieces, its text, and the number of events of the traversal.\<close>

definition view_ok :: "('j, 'x) heap \<Rightarrow> 'i syntax_data \<Rightarrow> bool" where
  "view_ok h v \<longleftrightarrow> sd_node v < length h \<and> tr_valid (sd_range v) \<and> node_start (h ! sd_node v) \<le> unat (tr_start (sd_range v)) \<and>
     unat (tr_end (sd_range v)) \<le> node_start (h ! sd_node v) + green_len (nd_green (h ! sd_node v))"

definition view_events :: "('j, 'x) heap \<Rightarrow> 'i syntax_data \<Rightarrow> nat list walk_event list" where
  "view_events h v = walk_node (path_of h (sd_node v)) (nd_green (h ! sd_node v))"

definition view_pieces :: "green_node \<Rightarrow> ('j, 'x) heap \<Rightarrow> 'i syntax_data \<Rightarrow> (nat list \<times> nat \<times> nat) list" where
  "view_pieces g h v = pieces g (unat (tr_start (sd_range v))) (unat (tr_end (sd_range v))) (view_events h v)"

definition view_bytes :: "('s, 'd, 'i, 'e) env \<Rightarrow> ('j, 'x) heap \<Rightarrow> 'i syntax_data \<Rightarrow> bytes" where
  "view_bytes E h v =
     take (unat (tr_end (sd_range v)) - unat (tr_start (sd_range v)))
       (drop (unat (tr_start (sd_range v)) - node_start (h ! sd_node v))
         (element_bytes E (sd_resolver v) (Node (nd_green (h ! sd_node v)))))"

definition view_chunks :: "('s, 'd, 'i, 'e) env \<Rightarrow> green_node \<Rightarrow> ('j, 'x) heap \<Rightarrow> 'i syntax_data \<Rightarrow> bytes list" where
  "view_chunks E g h v = map (piece_bytes E (sd_resolver v) g) (view_pieces g h v)"

lemma concat_view_chunks:
  assumes wf: "red_wf E g h" and v: "view_ok h v" and ok: "text_ok E (sd_resolver v) g"
  shows "concat (view_chunks E g h v) = view_bytes E h v"
proof -
  let ?n = "sd_node v" and ?a = "unat (tr_start (sd_range v))" and ?b = "unat (tr_end (sd_range v))"
  have n: "?n < length h" using v by (simp add: view_ok_def)
  have ab: "?a \<le> ?b" using v by (simp add: view_ok_def tr_valid_def word_le_nat_alt)
  from node_sub [OF wf n] have sub: "sub (Node g) (path_of h ?n) = Some (Node (nd_green (h ! ?n)))"
    "start_at (Node g) (path_of h ?n) = node_start (h ! ?n)" by auto
  from concat_pieces(1) [OF ok ab sub(1)] sub(2) v show ?thesis
    by (simp add: view_chunks_def view_pieces_def view_events_def view_bytes_def cut_whole view_ok_def)
qed

lemma length_pieces: "length (pieces g a b evs) \<le> length evs"
  by (induction evs rule: entered.induct) (auto split: option.split)

text \<open>Every piece is of a token, and within it.\<close>

lemma pieces_token:
  assumes "x \<in> set (pieces g a b evs)"
  obtains p lo hi t where "x = (p, lo, hi)" "piece g a b p = Some x" "sub (Node g) p = Some (Token t)" "lo \<le> hi" "hi \<le> unat (gt_data_len t)"
proof -
  from assms obtain p where p: "piece g a b p = Some x" by (auto simp: pieces_def map_filter_def)
  then obtain t where t: "sub (Node g) p = Some (Token t)"
    by (auto simp: piece_def split: option.splits node_or_token.splits)
  let ?s = "start_at (Node g) p"
  from p t have x: "x = (p, max a ?s - ?s, min b (?s + unat (gt_data_len t)) - ?s)"
    "max a ?s \<le> min b (?s + unat (gt_data_len t))" by (auto simp: piece_def Let_def split: if_splits)
  show thesis
    by (rule that [OF x(1) p t]) (use x(2) in \<open>auto intro: diff_le_mono\<close>)
qed

section \<open>Folds\<close>

primrec fold_while :: "('a \<Rightarrow> 'b \<Rightarrow> ('r + 'a) outcome) \<Rightarrow> 'a \<Rightarrow> 'b list \<Rightarrow> ('r + 'a) outcome" where
  "fold_while f acc [] = Inr (Inr acc)"
| "fold_while f acc (x # xs) = bindO (f acc x) (\<lambda>r. case r of Inl e \<Rightarrow> Inr (Inl e) | Inr acc' \<Rightarrow> fold_while f acc' xs)"

lemma fold_while_map: "fold_while f acc (map h xs) = fold_while (\<lambda>a x. f a (h x)) acc xs"
proof (induction xs arbitrary: acc)
  case (Cons x xs)
  show ?case by (simp add: Cons.IH cong: sum.case_cong)
qed simp

text \<open>\<open>m\<close> only adds to the heap and returns what \<open>r\<close> says.\<close>

definition computes :: "('s, 'd, 'i, 'e) env \<Rightarrow> green_node \<Rightarrow> ('j, 'x) heap \<Rightarrow> ('j, 'x, 'a) red \<Rightarrow> 'a outcome \<Rightarrow> bool" where
  "computes E g h m r \<longleftrightarrow> (\<exists>h'. m h = bindO r (\<lambda>a. Inr (a, h')) \<and> red_wf E g h' \<and> heap_le h h')"

lemma computes_bind_return: "computes E g h m r \<Longrightarrow> computes E g h (bindR m (\<lambda>x. returnR (f x))) (bindO r (\<lambda>x. Inr (f x)))"
  unfolding computes_def by (cases r) (auto simp: bindR_def returnR_def)

lemma computes_Inr: "computes E g h m (Inr a) \<longleftrightarrow> nav E g h m (\<lambda>_ r. r = a)"
  by (auto simp: computes_def nav_def)

lemma resolve_data_green: "token_green h t = Inr tok \<Longrightarrow> resolve_data E h i t = green_resolve E i tok"
  by (simp add: resolve_data_def token_static_data_def token_kind_def token_syntax_kind_def green_resolve_def bindO_assoc
      cong: option.case_cong)

context red_env
begin

lemma try_fold_pieces:
  assumes view: "tr_valid (sd_range v)"
    and f: "\<And>(h' :: ('j, 'x) heap) acc i x. red_wf E g h' \<Longrightarrow> piece_item h' i x \<Longrightarrow> x \<in> X \<Longrightarrow>
      f acc i h' = bindO (F acc x) (\<lambda>r. Inr (r, h'))"
  shows "red_wf E g (h :: ('j, 'x) heap) \<Longrightarrow> sd_node v < length h \<Longrightarrow> me = path_of h (sd_node v) \<Longrightarrow> at_rest g h me c evs \<Longrightarrow>
    length evs \<le> k' \<Longrightarrow> ps = pieces g (unat (tr_start (sd_range v))) (unat (tr_end (sd_range v))) evs \<Longrightarrow> set ps \<subseteq> X \<Longrightarrow>
    length ps < k \<Longrightarrow> computes E g h (try_fold k (tokens_next k' E v) c acc f) (fold_while F acc ps)"
proof (induction k arbitrary: h c evs ps acc)
  case (Suc k h c evs ps acc)
  note wf = Suc.prems(1)
  obtain x c' h1 evs' where s: "tokens_next k' E v c h = Inr ((x, c'), h1)" "red_wf E g h1" "heap_le h h1"
    "at_rest g h1 me c' evs'" "length evs' \<le> length evs"
    "case x of None \<Rightarrow> c' = None \<and> ps = []
     | Some i \<Rightarrow> \<exists>y. piece_item h1 i y \<and> ps = y # pieces g (unat (tr_start (sd_range v))) (unat (tr_end (sd_range v))) evs'"
    using nav_tokens_next [OF view Suc.prems(1-5)] Suc.prems(6) by (auto simp: nav_def Let_def)
  show ?case
  proof (cases x)
    case None
    with s show ?thesis by (auto simp: computes_def bindR_def returnR_def)
  next
    case (Some i)
    with s(6) obtain y where y: "piece_item h1 i y"
      "ps = y # pieces g (unat (tr_start (sd_range v))) (unat (tr_end (sd_range v))) evs'" by auto
    have fi: "f acc i h1 = bindO (F acc y) (\<lambda>r. Inr (r, h1))"
      using f [OF s(2) y(1)] Suc.prems(7) y(2) by simp
    show ?thesis
    proof (cases "F acc y")
      case (Inl p)
      with s Some fi y(2) show ?thesis by (auto simp: computes_def bindR_def)
    next
      case (Inr r)
      show ?thesis
      proof (cases r)
        case Inl': (Inl e)
        with Inr s Some fi y(2) show ?thesis by (auto simp: computes_def bindR_def returnR_def)
      next
        case Inr': (Inr acc')
        have "computes E g h1 (try_fold k (tokens_next k' E v) c' acc' f)
            (fold_while F acc' (pieces g (unat (tr_start (sd_range v))) (unat (tr_end (sd_range v))) evs'))"
          using Suc.IH [OF s(2) _ _ s(4)] heap_le_node(1) [OF s(3) Suc.prems(2)] path_of_le [OF s(3) wf Suc.prems(2)]
            Suc.prems(3,5,7,8) s(5) y(2) by auto
        with Inr Inr' s Some fi y(2) show ?thesis
          by (auto simp: computes_def bindR_def returnR_def intro: heap_le_trans)
      qed
    qed
  qed
qed simp

lemma fold_view:
  assumes wf: "red_wf E g (h :: ('j, 'x) heap)" and v: "view_ok h v" and k: "length (view_events h v) < k"
    and f: "\<And>(h' :: ('j, 'x) heap) acc i x. red_wf E g h' \<Longrightarrow> piece_item h' i x \<Longrightarrow> x \<in> set (view_pieces g h v) \<Longrightarrow>
      f acc i h' = bindO (F acc x) (\<lambda>r. Inr (r, h'))"
  shows "computes E g h (try_fold k (tokens_next k E v) (tokens_with_ranges v) acc f) (fold_while F acc (view_pieces g h v))"
proof (rule try_fold_pieces [OF _ f wf])
  have n: "sd_node v < length h" using v by (simp add: view_ok_def)
  show "at_rest g h (path_of h (sd_node v)) (tokens_with_ranges v) (view_events h v)"
    using walk_chain [OF wf n] n
    by (simp add: at_rest_def tokens_with_ranges_def cursor_ok_def event_ok_def view_events_def)
  show "length (view_pieces g h v) < k" using length_pieces k unfolding view_pieces_def by (rule le_less_trans)
qed (use v k in \<open>auto simp: view_ok_def view_pieces_def\<close>)

text \<open>The data of a piece.\<close>

lemma piece_item_data:
  assumes wf: "red_wf E g h'" and i: "piece_item h' (t, r) x" and x: "x \<in> set (pieces g a b evs)" and ok: "text_ok E i g"
  obtains tok d p where "x = (p, unat (tr_start r), unat (tr_end r))" "sub (Node g) p = Some (Token tok)"
    "resolve_data E h' i t = Inr d" "td_as_bytes (en_data E) d = token_bytes E i tok"
    "green_resolve E i tok = Inr d" "unat (tr_start r) \<le> unat (tr_end r)" "unat (tr_end r) \<le> length (token_bytes E i tok)"
    "piece g a b p = Some x"
proof -
  from x obtain p lo hi tok where p: "x = (p, lo, hi)" "piece g a b p = Some x" "sub (Node g) p = Some (Token tok)" "lo \<le> hi"
    "hi \<le> unat (gt_data_len tok)" by (rule pieces_token)
  from i have t: "elem_in h' (Token t)" "x = (elem_path h' (Token t), unat (tr_start r), unat (tr_end r))"
    by (simp_all add: piece_item_def)
  obtain tok' where tok': "token_green h' t = Inr tok'" "green_of h' (Token t) = Token tok'" by (rule token_green_eq [OF wf t(1)])
  have "tok' = tok" using elem_sub [OF wf t(1)] tok'(2) p(1,3) t(2) by simp
  moreover have tok: "token_ok E i tok" using text_ok_sub [OF ok p(3)] by simp
  ultimately obtain d where "green_resolve E i tok = Inr d" "resolve_data E h' i t = Inr d"
    using resolve_data_green [OF tok'(1), of E i] by (auto simp: token_ok_def)
  then show thesis
    using p t(2) token_ok_length [OF tok] by (intro that [of p tok d]) (simp_all add: token_bytes_def)
qed

lemma data_chunk_piece:
  assumes "red_wf E g h'" "piece_item h' i x" "x \<in> set (pieces g a b evs)" "text_ok E resolver g"
  shows "data_chunk E h' resolver i = Inr (piece_bytes E resolver g x)"
proof -
  obtain t r where i: "i = (t, r)" by (cases i)
  obtain tok d p where "x = (p, unat (tr_start r), unat (tr_end r))" "sub (Node g) p = Some (Token tok)"
    "resolve_data E h' resolver t = Inr d" "td_as_bytes (en_data E) d = token_bytes E resolver tok"
    "green_resolve E resolver tok = Inr d" "unat (tr_start r) \<le> unat (tr_end r)"
    "unat (tr_end r) \<le> length (token_bytes E resolver tok)"
    by (rule piece_item_data [OF assms(1) assms(2) [unfolded i] assms(3,4)])
  then show ?thesis by (simp add: i data_chunk_def slice_range_def piece_bytes_def Let_def)
qed

lemma data_try_fold_chunks_eq:
  assumes wf: "red_wf E g (h :: ('j, 'x) heap)" and v: "view_ok h v" and ok: "text_ok E (sd_resolver v) g"
    and k: "length (view_events h v) < k"
  shows "computes E g h (data_try_fold_chunks k E v init f) (fold_while f init (view_chunks E g h v))"
  unfolding data_try_fold_chunks_def view_chunks_def fold_while_map
proof (rule fold_view [OF wf v k])
  fix h' :: "('j, 'x) heap" and acc i x assume "red_wf E g h'" "piece_item h' i x" "x \<in> set (view_pieces g h v)"
  with ok have "data_chunk E h' (sd_resolver v) i = Inr (piece_bytes E (sd_resolver v) g x)"
    unfolding view_pieces_def by (intro data_chunk_piece)
  then show "bindR (readR (\<lambda>h. data_chunk E h (sd_resolver v) i)) (\<lambda>chunk. readR (\<lambda>_. f acc chunk)) h' =
      bindO (f acc (piece_bytes E (sd_resolver v) g x)) (\<lambda>r. Inr (r, h'))"
    by (simp add: bindR_def readR_def)
qed

end

section \<open>Text\<close>

text \<open>For \<open>str\<close> the tokens' bytes are UTF-8 and the ends of the view are between characters.\<close>

definition text_valid :: "('s, 'd, 'i, 'e) env \<Rightarrow> 'i \<Rightarrow> green_node \<Rightarrow> bool" where
  "text_valid E i g \<longleftrightarrow> text_ok E i g \<and> list_all (\<lambda>t. utf8_valid (token_bytes E i t)) (green_tokens g)"

definition view_cut_ok :: "('s, 'd, 'i, 'e) env \<Rightarrow> ('j, 'x) heap \<Rightarrow> 'i syntax_data \<Rightarrow> bool" where
  "view_cut_ok E h v \<longleftrightarrow>
     (let s = node_start (h ! sd_node v);
          bs = element_bytes E (sd_resolver v) (Node (nd_green (h ! sd_node v)))
      in is_char_boundary bs (unat (tr_start (sd_range v)) - s) \<and> is_char_boundary bs (unat (tr_end (sd_range v)) - s))"

text \<open>No cut at \<open>x\<close> is inside a character of \<open>bs\<close>, which starts at \<open>s\<close>.\<close>

definition cut_ok :: "nat \<Rightarrow> nat \<Rightarrow> bytes \<Rightarrow> bool" where
  "cut_ok x s bs \<longleftrightarrow> (s \<le> x \<and> x < s + length bs \<longrightarrow> \<not> utf8_cont (bs ! (x - s)))"

lemma cut_ok_append:
  assumes "cut_ok x s (xs @ ys)"
  shows "cut_ok x s xs" "cut_ok x (s + length xs) ys"
proof -
  have all: "\<not> utf8_cont ((xs @ ys) ! (x - s))" if "s \<le> x" "x < s + (length xs + length ys)"
    using assms that unfolding cut_ok_def by simp
  show "cut_ok x s xs" unfolding cut_ok_def
  proof (intro impI, elim conjE)
    assume x: "s \<le> x" "x < s + length xs"
    then have "x - s < length xs" "x < s + (length xs + length ys)" by linarith+
    with all [OF x(1)] show "\<not> utf8_cont (xs ! (x - s))" by (simp only: nth_append if_True simp_thms)
  qed
  show "cut_ok x (s + length xs) ys" unfolding cut_ok_def
  proof (intro impI, elim conjE)
    assume x: "s + length xs \<le> x" "x < s + length xs + length ys"
    then have "\<not> x - s < length xs" "x - s - length xs = x - (s + length xs)" "s \<le> x" "x < s + (length xs + length ys)"
      by linarith+
    with all show "\<not> utf8_cont (ys ! (x - (s + length xs)))" by (simp only: nth_append if_False simp_thms)
  qed
qed

lemma cut_ok_sub:
  "sub e p = Some (Token t) \<Longrightarrow> list_all (token_ok E i) (element_tokens e) \<Longrightarrow> cut_ok x s (element_bytes E i e) \<Longrightarrow>
   cut_ok x (s + start_at e p) (token_bytes E i t)"
proof (induction e p arbitrary: s rule: sub.induct)
  case (3 n j p)
  then have j: "j < length (gn_children n)" and sub: "sub (gn_children n ! j) p = Some (Token t)" by (simp_all split: if_splits)
  let ?cs = "gn_children n"
  have toks: "set (element_tokens c) \<subseteq> set (element_tokens (Node n))" if "c \<in> set ?cs" for c
    using that by (cases n) auto
  then have ok: "list_all (token_ok E i) (element_tokens c)" if "c \<in> set ?cs" for c
    using that 3(3) by (auto simp: list_all_iff)
  have len: "length (concat (map (element_bytes E i) (take j ?cs))) = sum_list (map element_len (take j ?cs))"
  proof -
    have "map (\<lambda>c. length (element_bytes E i c)) (take j ?cs) = map element_len (take j ?cs)"
      using ok by (intro map_cong [OF refl] length_element_bytes) (auto dest: in_set_takeD)
    then show ?thesis by (simp only: length_concat map_map comp_def)
  qed
  have "element_bytes E i (Node n) = concat (map (element_bytes E i) (take j ?cs)) @ element_bytes E i (?cs ! j) @
      concat (map (element_bytes E i) (drop (Suc j) ?cs))"
    unfolding element_bytes_Node by (subst id_take_nth_drop [OF j]) simp
  with 3(4) have "cut_ok x (s + sum_list (map element_len (take j ?cs))) (element_bytes E i (?cs ! j))"
    using cut_ok_append len by metis
  from 3(1) [OF j sub ok this] j show ?case by (simp add: add.assoc)
qed simp_all

lemma sub_append: "sub e (p @ q) = (case sub e p of None \<Rightarrow> None | Some x \<Rightarrow> sub x q)"
  by (induction e p rule: sub.induct) auto

lemma start_at_append: "sub e p = Some x \<Longrightarrow> start_at e (p @ q) = start_at e p + start_at x q"
  by (induction e p rule: sub.induct) (auto split: if_splits)

lemma walk_prefix:
  "ev \<in> set (walk_node p n) \<Longrightarrow> prefix p (walk_path ev)"
  "ev \<in> set (walk_children p j cs) \<Longrightarrow> prefix p (walk_path ev)"
proof (induction p n and p j cs arbitrary: ev and ev rule: walk_node_walk_children.induct)
  case (3 p i n cs)
  then show ?case by (auto dest: append_prefixD)
qed auto

lemma piecesE:
  assumes "x \<in> set (pieces g a b evs)"
  obtains p lo hi where "x = (p, lo, hi)" "Enter p \<in> set evs" "piece g a b p = Some x"
proof -
  from assms obtain p where p: "p \<in> set (entered evs)" "piece g a b p = Some x" by (auto simp: pieces_def map_filter_def)
  have "Enter p \<in> set evs" using p(1) by (induction evs rule: entered.induct) auto
  moreover have "fst x = p" using p(2) by (auto simp: piece_def Let_def split: option.splits node_or_token.splits if_splits)
  ultimately show thesis using that p(2) by (metis prod.collapse)
qed

lemma utf8_valid_concat: "list_all (\<lambda>t. utf8_valid (f t)) ts \<Longrightarrow> utf8_valid (concat (map f ts))"
  by (induction ts) (simp_all add: utf8_valid_append)

lemma view_piece_cut:
  assumes wf: "red_wf E g h" and v: "view_ok h v" and ok: "text_valid E (sd_resolver v) g" and c: "view_cut_ok E h v"
    and x: "(p, lo, hi) \<in> set (view_pieces g h v)" and tok: "sub (Node g) p = Some (Token t)"
  shows "is_char_boundary (token_bytes E (sd_resolver v) t) lo \<and> is_char_boundary (token_bytes E (sd_resolver v) t) hi"
proof -
  let ?n = "sd_node v" and ?a = "unat (tr_start (sd_range v))" and ?b = "unat (tr_end (sd_range v))"
  let ?g = "nd_green (h ! ?n)" and ?s0 = "node_start (h ! ?n)" and ?bs = "element_bytes E (sd_resolver v) (Node (nd_green (h ! ?n)))"
  let ?t = "token_bytes E (sd_resolver v) t"
  have n: "?n < length h" using v by (simp add: view_ok_def)
  note at = node_sub [OF wf n]
  have "Enter p \<in> set (view_events h v)" and piece: "piece g ?a ?b p = Some (p, lo, hi)"
    using x by (auto simp: view_pieces_def elim!: piecesE)
  then have "prefix (path_of h ?n) p" using walk_prefix(1) by (fastforce simp: view_events_def)
  then obtain q where p: "p = path_of h ?n @ q" by (auto simp: prefix_def)
  have q: "sub (Node ?g) q = Some (Token t)" using tok at by (simp add: p sub_append)
  have start: "start_at (Node g) p = ?s0 + start_at (Node ?g) q" using at q by (simp add: p start_at_append)
  have toks: "list_all (token_ok E (sd_resolver v)) (green_tokens ?g)"
    "list_all (\<lambda>t. utf8_valid (token_bytes E (sd_resolver v) t)) (green_tokens ?g)"
    using ok sub_tokens [OF at [THEN conjunct1]] by (auto simp: text_valid_def text_ok_def list_all_iff)
  have valid: "utf8_valid ?bs" using toks(2) unfolding element_bytes_def element_tokens.simps by (rule utf8_valid_concat)
  have cut: "cut_ok x (start_at (Node g) p) ?t" if "is_char_boundary ?bs (x - ?s0)" "?s0 \<le> x" for x
  proof -
    have "\<not> utf8_cont (?bs ! (x - ?s0))" if "x < ?s0 + length ?bs"
    proof (cases "x = ?s0")
      case True
      with that have "?bs \<noteq> []" by auto
      with True valid utf8_first_boundary show ?thesis by (cases ?bs) auto
    next
      case False
      with that \<open>?s0 \<le> x\<close> \<open>is_char_boundary ?bs (x - ?s0)\<close> show ?thesis by (auto simp: is_char_boundary_def)
    qed
    then have "cut_ok x ?s0 ?bs" by (simp add: cut_ok_def)
    with cut_ok_sub [OF q _ this] toks(1) start show ?thesis by simp
  qed
  have ab: "?s0 \<le> ?a" "?s0 \<le> ?b" using v by (auto simp: view_ok_def tr_valid_def word_le_nat_alt)
  have cuts: "cut_ok ?a (start_at (Node g) p) ?t" "cut_ok ?b (start_at (Node g) p) ?t"
    using cut [of ?a] cut [of ?b] ab c by (simp_all add: view_cut_ok_def Let_def)
  have len: "length ?t = unat (gt_data_len t)"
    using text_ok_sub [of E "sd_resolver v" g, OF _ tok] ok by (auto simp: text_valid_def token_ok_length)
  let ?s = "start_at (Node g) p"
  have lo: "lo = max ?a ?s - ?s" "hi = min ?b (?s + length ?t) - ?s" "max ?a ?s \<le> min ?b (?s + length ?t)"
    using piece tok len by (auto simp: piece_def Let_def split: if_splits)
  have "is_char_boundary ?t lo"
    using cuts(1) lo by (cases "?a \<le> ?s") (auto simp: cut_ok_def is_char_boundary_def)
  moreover have "is_char_boundary ?t hi"
    using cuts(2) lo by (cases "?s + length ?t \<le> ?b") (auto simp: cut_ok_def is_char_boundary_def)
  ultimately show ?thesis by simp
qed

lemma text_chunk_piece:
  fixes E :: "('s, rust_str, 'i, 'e) env"
  assumes T: "text_size (en_text E)" and wf: "red_wf E g h" and v: "view_ok h v" and ok: "text_valid E (sd_resolver v) g" and c: "view_cut_ok E h v"
    and E: "td_as_bytes (en_data E) = str_bytes"
    and h': "red_wf E g h'" "piece_item h' i x" "x \<in> set (view_pieces g h v)"
  shows "text_chunk E h' (sd_resolver v) i = Inr (Str (piece_bytes E (sd_resolver v) g x)) \<and>
    utf8_valid (piece_bytes E (sd_resolver v) g x)"
proof -
  obtain t r where i: "i = (t, r)" by (cases i)
  have text_ok: "text_ok E (sd_resolver v) g" using ok by (simp add: text_valid_def)
  obtain tok d p where p: "x = (p, unat (tr_start r), unat (tr_end r))" "sub (Node g) p = Some (Token tok)"
    "resolve_data E h' (sd_resolver v) t = Inr d" "td_as_bytes (en_data E) d = token_bytes E (sd_resolver v) tok"
    "unat (tr_start r) \<le> unat (tr_end r)" "unat (tr_end r) \<le> length (token_bytes E (sd_resolver v) tok)"
    by (rule red_env.piece_item_data [OF red_env.intro [OF T] h'(1) h'(2) [unfolded i] h'(3) [unfolded view_pieces_def] text_ok])
  have b: "is_char_boundary (token_bytes E (sd_resolver v) tok) (unat (tr_start r))"
    "is_char_boundary (token_bytes E (sd_resolver v) tok) (unat (tr_end r))"
    using view_piece_cut [OF wf v ok c _ p(2), of "unat (tr_start r)" "unat (tr_end r)"] h'(3) p(1) by auto
  have "utf8_valid (token_bytes E (sd_resolver v) tok)"
    using sub_tokens [OF p(2)] ok by (auto simp: text_valid_def list_all_iff)
  from utf8_slice [OF this b p(5)] have "utf8_valid (piece_bytes E (sd_resolver v) g x)" by (simp add: piece_bytes_def p(1,2))
  moreover have "d = Str (token_bytes E (sd_resolver v) tok)" using p(4) E by (cases d) simp
  ultimately show ?thesis
    using p b by (simp add: i text_chunk_def resolve_text_def str_index_Inr piece_bytes_def)
qed

lemma text_try_fold_chunks_eq:
  fixes E :: "('s, rust_str, 'i, 'e) env"
  assumes T: "text_size (en_text E)" and wf: "red_wf E g (h :: ('j, 'x) heap)" and v: "view_ok h v" and ok: "text_valid E (sd_resolver v) g"
    and c: "view_cut_ok E h v" and E: "td_as_bytes (en_data E) = str_bytes" and k: "length (view_events h v) < k"
  shows "computes E g h (text_try_fold_chunks k E v init f) (fold_while f init (view_chunks E g h v))"
  unfolding text_try_fold_chunks_def view_chunks_def fold_while_map
proof (rule red_env.fold_view [OF red_env.intro [OF T] wf v k])
  fix h' :: "('j, 'x) heap" and acc i x assume "red_wf E g h'" "piece_item h' i x" "x \<in> set (view_pieces g h v)"
  from text_chunk_piece [OF T wf v ok c E this]
  show "bindR (readR (\<lambda>h. text_chunk E h (sd_resolver v) i)) (\<lambda>chunk. readR (\<lambda>_. f acc (str_bytes chunk))) h' =
      bindO (f acc (piece_bytes E (sd_resolver v) g x)) (\<lambda>r. Inr (r, h'))"
    by (simp add: bindR_def readR_def)
qed

end
