(* ===== verification/Serde_Lemmas.thy ===== *)
theory Serde_Lemmas
  imports Serde Red_Data Syntax_Text_Bytes
begin

text \<open>
  The two halves of a round trip: what \<open>serialize\<close> yields for a tree, in terms of its green tree and
  of the data at its places, and what the builder and the second traversal make of it.
\<close>

section \<open>Attaching data\<close>

text \<open>The changes of data that the loop makes along the nodes it enters.\<close>

fun mark_all :: "nat list \<Rightarrow> bool list \<Rightarrow> 'x list \<Rightarrow> (nat \<Rightarrow> 'x option \<Rightarrow> 'x option) \<Rightarrow> nat \<Rightarrow> 'x option \<Rightarrow> 'x option" where
  "mark_all (n # ns) (True # fs) (d # ds) u = mark_all ns fs ds (u(n := \<lambda>_. Some d))"
| "mark_all (n # ns) (False # fs) ds u = mark_all ns fs ds u"
| "mark_all _ _ _ u = u"

lemma preorder_step_in: "preorder_step E me (Enter n) h = Inr r \<Longrightarrow> n < length h"
  by (auto simp: preorder_step_def bindR_def first_child_def readR_def node_green_def node_data_of_def bindO_eq_Inr
      split: if_splits)

abbreviation n_flags :: "bool list \<Rightarrow> nat" where
  "n_flags fs \<equiv> length (filter (\<lambda>f. f) fs)"

lemma attach_data_run:
  assumes "yields (preorder_step E me) h cur xs h' None"
  shows "old_only u h \<Longrightarrow> length xs \<le> k \<Longrightarrow> length fs = length (entered xs) \<Longrightarrow>
    \<exists>hf. attach_data k E me cur fs ds (repaint u h) =
        Inr (if n_flags fs \<le> length ds then Inr (drop (n_flags fs) ds) else Inl Invalid_tree, hf) \<and>
      (n_flags fs \<le> length ds \<longrightarrow> hf = repaint (mark_all (entered xs) fs ds u) h')"
  using assms
proof (induction h cur xs h' "None :: nat walk_event option" arbitrary: u k fs ds rule: yields.induct)
  case (stop h)
  then show ?case by (simp add: returnR_def)
next
  case (item x h nxt h1 xs h2)
  obtain m where k: "k = Suc m" "length xs \<le> m" using item.prems(2) by (cases k) auto
  from blind_run [OF blind_preorder_step item.prems(1) item.hyps(1)]
  have step: "preorder_step E me x (repaint u h) = Inr (nxt, repaint u h1)" "length h \<le> length h1" by simp_all
  have u1: "old_only u h1" using item.prems(1) step(2) by (rule old_only_le)
  show ?case
  proof (cases x)
    case (Leave n)
    with item.hyps(3) [OF u1 k(2), of fs ds] item.prems(3) step k show ?thesis by (simp add: bindR_def)
  next
    case (Enter n)
    with item.prems(3) obtain f fs' where fs: "fs = f # fs'" "length fs' = length (entered xs)" by (cases fs) auto
    have n: "n < length h1" using preorder_step_in [of E me n h] item.hyps(1) Enter step(2) by fastforce
    show ?thesis
    proof (cases f)
      case False
      with item.hyps(3) [OF u1 k(2) fs(2), of ds] step Enter fs(1) k(1) show ?thesis by (auto simp: bindR_def)
    next
      case True
      show ?thesis
      proof (cases ds)
        case Nil
        with True step Enter fs k(1) show ?thesis by (simp add: bindR_def returnR_def)
      next
        case (Cons d ds')
        with item.hyps(3) [OF old_only_upd [OF u1 n, of "\<lambda>_. Some d"] k(2) fs(2), of ds'] True step Enter fs(1) k(1)
        show ?thesis by (auto simp: bindR_def repaint_set_data [OF n])
      qed
    qed
  qed
qed

lemma mark_all_data:
  "mark_all ns (map (\<lambda>n. D n \<noteq> None) ns) (List.map_filter D ns) u m = (if m \<in> set ns \<and> D m \<noteq> None then (\<lambda>_. D m) else u m)"
proof (induction ns arbitrary: u)
  case (Cons n ns)
  show ?case
  proof (cases "D n")
    case None
    with Cons show ?thesis by (auto simp: map_filter_simps)
  next
    case (Some d)
    with Cons [of "u(n := \<lambda>_. Some d)"] show ?thesis
      by (cases "m = n") (auto simp: map_filter_simps fun_upd_same fun_upd_other simp del: fun_upd_apply)
  qed
qed (simp add: map_filter_simps)

lemma n_flags_data: "n_flags (map (\<lambda>n. D n \<noteq> None) ns) = length (List.map_filter D ns)"
  by (induction ns) (auto simp: map_filter_simps split: option.split)

section \<open>What is serialised\<close>

text \<open>The event of \<open>serde_impls.rs\<close> for an event of the walk of a green tree, and the data that goes with it.\<close>

definition out_event :: "('s, 'd, 'i, 'e) env \<Rightarrow> 'i \<Rightarrow> green_node \<Rightarrow> (nat list \<Rightarrow> 'x option) \<Rightarrow> nat list walk_event \<Rightarrow> event option" where
  "out_event E r g D ev =
     (case sub (Node g) (walk_path ev) of
        Some (Node n) \<Rightarrow> Some (case ev of Enter p \<Rightarrow> EnterNode (gn_kind n) (D p \<noteq> None) | Leave _ \<Rightarrow> LeaveNode)
      | Some (Token t) \<Rightarrow>
          (case ev of Enter _ \<Rightarrow> Some (EvToken (gt_kind t) (payload_serialize (token_bytes E r t))) | Leave _ \<Rightarrow> None)
      | None \<Rightarrow> None)"

definition out_data :: "green_node \<Rightarrow> (nat list \<Rightarrow> 'x option) \<Rightarrow> nat list walk_event \<Rightarrow> 'x option" where
  "out_data g D ev = (case ev of Enter p \<Rightarrow> (case sub (Node g) p of Some (Node _) \<Rightarrow> D p | _ \<Rightarrow> None) | Leave _ \<Rightarrow> None)"

text \<open>Every element has a kind of the language, and every token data.\<close>

definition serde_ok :: "('s, 'd, 'i, 'e) env \<Rightarrow> 'i \<Rightarrow> green_element \<Rightarrow> bool" where
  "serde_ok E r e \<longleftrightarrow> (\<forall>p x. sub e p = Some x \<longrightarrow>
     (\<exists>k. ge_kind x = sx_into_raw (en_syntax E) k) \<and> (\<forall>t. x = Token t \<longrightarrow> (\<exists>d. green_resolve E r t = Inr d)))"

definition data_seen :: "bool \<Rightarrow> ('j, 'x) heap \<Rightarrow> nat list \<Rightarrow> 'x option" where
  "data_seen with_data h p = (if with_data then data_at h p else None)"

lemma serde_ok_element:
  assumes wf: "red_wf E g h" and x: "elem_in h x" "prefix me (elem_path h x)"
    and ok: "sub (Node g) me = Some e" "serde_ok E r e"
  obtains k where "ge_kind (green_of h x) = sx_into_raw (en_syntax E) k"
    "\<And>t. green_of h x = Token t \<Longrightarrow> \<exists>d. green_resolve E r t = Inr d"
proof -
  obtain q where q: "elem_path h x = me @ q" using x(2) by (auto simp: prefix_def)
  have "sub (Node g) (me @ q) = Some (green_of h x)" using elem_sub [OF wf x(1)] q by simp
  then have "sub e q = Some (green_of h x)" using ok(1) by (simp add: sub_append)
  with ok(2) have "\<exists>k. ge_kind (green_of h x) = sx_into_raw (en_syntax E) k"
    "\<And>t. green_of h x = Token t \<Longrightarrow> \<exists>d. green_resolve E r t = Inr d" by (auto simp: serde_ok_def)
  then show thesis using that by blast
qed

lemma event_of_out:
  assumes wf: "red_wf E g h" and ev: "event_in h ev" and syn: "syntax_impl (en_syntax E)"
    and ok: "prefix me (walk_path (event_path h ev))" "sub (Node g) me = Some e" "serde_ok E r e"
  shows "event_of E with_data r h ev data =
    Inr (out_event E r g (data_seen with_data h) (event_path h ev),
      data @ (case out_data g (data_seen with_data h) (event_path h ev) of None \<Rightarrow> [] | Some x \<Rightarrow> [x]))"
proof -
  note from_raw = syntax_impl.from_into_raw [OF syn]
  show ?thesis
  proof (cases ev)
    case (Enter x)
    show ?thesis
    proof (cases x)
      case (Node n)
      with Enter ev have n: "n < length h" by simp
      have "elem_in h (Node n)" "prefix me (elem_path h (Node n))" using n ok(1) Enter Node by simp_all
      then obtain k where k: "gn_kind (nd_green (h ! n)) = sx_into_raw (en_syntax E) k"
        using serde_ok_element [OF wf _ _ ok(2,3), of "Node n"] by auto
      show ?thesis
        using node_sub [OF wf n] n k from_raw
        by (auto simp: Enter Node event_of_def out_event_def out_data_def data_seen_def get_data_def node_data_of_def node_kind_def
            node_syntax_kind_def node_green_def data_at_node [OF wf n] split: option.split)
    next
      case (Token t)
      with Enter ev have t: "elem_in h (Token t)" by simp
      obtain tok where tok: "token_green h t = Inr tok" "green_of h (Token t) = Token tok" by (rule token_green_eq [OF wf t])
      have "prefix me (elem_path h (Token t))" using ok(1) Enter Token by simp
      then obtain k d where k: "gt_kind tok = sx_into_raw (en_syntax E) k" and d: "green_resolve E r tok = Inr d"
        using serde_ok_element [OF wf t _ ok(2,3)] tok(2) by (metis ge_kind.simps(2))
      show ?thesis
        using elem_sub [OF wf t] tok k d from_raw
        by (simp add: Enter Token event_of_def out_event_def out_data_def token_kind_def token_syntax_kind_def
            resolve_data_green token_bytes_def del: elem_path.simps)
    qed
  next
    case (Leave x)
    show ?thesis
    proof (cases x)
      case (Node n)
      with Leave ev have "n < length h" by simp
      with node_sub [OF wf] show ?thesis by (simp add: Leave Node event_of_def out_event_def out_data_def)
    next
      case (Token t)
      with Leave ev have t: "elem_in h (Token t)" by simp
      obtain tok where "green_of h (Token t) = Token tok" by (rule token_green_eq [OF wf t])
      with elem_sub [OF wf t] show ?thesis
        by (simp add: Leave Token event_of_def out_event_def out_data_def del: elem_path.simps)
    qed
  qed
qed

context red_env
begin

text \<open>The loop that collects the events, from any place of the traversal on.\<close>

lemma nav_collect_events:
  assumes syn: "syntax_impl (en_syntax E)" and ok: "sub (Node g) me = Some e" "serde_ok E r e"
  shows "red_wf E g (h :: ('j, 'x) heap) \<Longrightarrow> n < length h \<Longrightarrow> path_of h n = me \<Longrightarrow> cursor_ok h me cur \<Longrightarrow>
    green_chain g me (map_option (event_path h) cur) es \<Longrightarrow> length es \<le> k \<Longrightarrow> D = data_seen with_data h \<Longrightarrow>
    nav E g h (collect_events k E with_data r n cur evs data)
      (\<lambda>h' res. res = (evs @ List.map_filter (out_event E r g D) es, data @ List.map_filter (out_data g D) es) \<and>
         (\<forall>p. data_at h' p = data_at h p))"
proof (induction es arbitrary: h cur k evs data)
  case Nil
  then show ?case by (cases cur) (auto simp: map_filter_simps intro: nav_return)
next
  case (Cons x es)
  note wf = Cons.prems(1) and n = Cons.prems(2) and path = Cons.prems(3)
  obtain ev where cur: "cur = Some ev" "x = event_path h ev" "green_chain g me (green_next g me x) es"
    using Cons.prems(5) by (cases cur) auto
  obtain m where k: "k = Suc m" "length es \<le> m" using Cons.prems(6) by (cases k) auto
  have ev: "event_ok h me ev" using Cons.prems(4) cur(1) by (simp add: cursor_ok_def)
  have "event_ok h (path_of h n) ev" using ev path by simp
  from nav_preorder_step [OF wf n this] obtain c h1 where
    s: "preorder_with_tokens_step E (Node n) ev h = Inr (c, h1)" "red_wf E g h1" "heap_le h h1" "cursor_ok h1 me c"
      "map_option (event_path h1) c = green_next g me x"
    using path cur(2) by (auto simp: nav_def)
  have same: "data_at h1 p = data_at h p" for p
    by (rule data_at_blind [OF blind_preorder_with_tokens_step s(1) wf s(2,3)])
  have D: "D = data_seen with_data h1" using Cons.prems(7) same by (simp add: data_seen_def fun_eq_iff)
  note ev1 = event_ok_le [OF s(3) wf ev]
  have ev_in: "event_in h1 ev" "prefix me (walk_path (event_path h1 ev))" using ev1(1) by (simp_all add: event_ok_def)
  note out = event_of_out [OF s(2) ev_in(1) syn ev_in(2) ok, of with_data data, folded D, unfolded ev1(2) cur(2) [symmetric]]
  let ?evs = "case out_event E r g D x of Some e \<Rightarrow> evs @ [e] | None \<Rightarrow> evs"
  let ?data = "data @ (case out_data g D x of None \<Rightarrow> [] | Some x \<Rightarrow> [x])"
  have "nav E g h1 (collect_events m E with_data r n c ?evs ?data)
      (\<lambda>h' res. res = (?evs @ List.map_filter (out_event E r g D) es, ?data @ List.map_filter (out_data g D) es) \<and>
         (\<forall>p. data_at h' p = data_at h1 p))"
    by (rule Cons.IH [OF s(2) _ _ s(4) _ k(2) D])
      (use heap_le_node(1) [OF s(3) n] path_of_le [OF s(3) wf n] path s(5) cur(3) in simp_all)
  then obtain res h2 where c2: "collect_events m E with_data r n c ?evs ?data h1 = Inr (res, h2)" "red_wf E g h2" "heap_le h1 h2"
    "res = (?evs @ List.map_filter (out_event E r g D) es, ?data @ List.map_filter (out_data g D) es)"
    "\<forall>p. data_at h2 p = data_at h1 p" by (auto simp: nav_def)
  have "collect_events k E with_data r n cur evs data h = Inr (res, h2)"
    using c2(1) by (simp add: k(1) cur(1) bindR_def readR_def s(1) out)
  moreover have "res = (evs @ List.map_filter (out_event E r g D) (x # es), data @ List.map_filter (out_data g D) (x # es))"
    using c2(4) by (simp add: map_filter_simps split: option.split)
  ultimately show ?case
    using c2(2,5) heap_le_trans [OF s(3) c2(3)] same unfolding nav_def by (intro exI [of _ res] exI [of _ h2]) simp
qed

end

end
