(* ===== verification/Serde_Build.thy ===== *)
theory Serde_Build
  imports Serde_Lemmas
begin

text \<open>
  The builder on a stream of events that a tree was serialised to, and trees that two green trees
  represent.
\<close>

section \<open>Formats\<close>

text \<open>
  What a format does to the payload of a token: a string is read back as the same string, bytes as
  the same bytes or as the sequence of their numbers (as JSON does).
\<close>

definition format_ok :: "(serde_value \<Rightarrow> serde_value) \<Rightarrow> bool" where
  "format_ok F \<longleftrightarrow> (\<forall>bs. F (S_str bs) = S_str bs \<and> F (S_bytes bs) \<in> {S_bytes bs, S_seq (map unat bs)})"

fun transport :: "(serde_value \<Rightarrow> serde_value) \<Rightarrow> event \<Rightarrow> event" where
  "transport F (EvToken kind v) = EvToken kind (F v)"
| "transport F (EnterNode kind has_data) = EnterNode kind has_data"
| "transport F LeaveNode = LeaveNode"

lemma payload_round_trip:
  assumes "format_ok F"
  shows "payload_deserialize (F (payload_serialize bs)) = Inr bs"
proof -
  have bound: "unat b < 256" for b :: u8 using unsigned_less [of b] by simp
  have "F (S_bytes bs) = S_bytes bs \<or> F (S_bytes bs) = S_seq (map unat bs)" "F (S_str bs) = S_str bs"
    using assms by (auto simp: format_ok_def)
  then show ?thesis using bound by (auto simp: payload_serialize_def list_all_iff map_idI)
qed

section \<open>Trees and their walks\<close>

text \<open>The tree whose calls are the events: every token is added with \<open>token_from_bytes\<close>.\<close>

primrec bytes_tree :: "('s, 'd, 'i, 'e) env \<Rightarrow> ('s, 'd) tree \<Rightarrow> ('s, 'd) tree" where
  "bytes_tree E (TNode k ts) = TNode k (map (bytes_tree E) ts)"
| "bytes_tree E (TToken k d) = TBytes k (td_as_bytes (en_data E) d)"
| "bytes_tree E (TBytes k bs) = TBytes k bs"
| "bytes_tree E (TStatic k) = TBytes k (case sx_static_data (en_syntax E) k of Some d \<Rightarrow> td_as_bytes (en_data E) d | None \<Rightarrow> [])"

fun walk_element_nodes :: "nat list \<Rightarrow> green_element \<Rightarrow> nat list walk_event list" where
  "walk_element_nodes p (Node n) = walk_nodes p n"
| "walk_element_nodes p (Token t) = []"

lemma walk_child_nodes_Cons: "walk_child_nodes p i (c # cs) = walk_element_nodes (p @ [i]) c @ walk_child_nodes p (Suc i) cs"
  by (cases c) simp_all

lemma map_filter_append: "List.map_filter f (xs @ ys) = List.map_filter f xs @ List.map_filter f ys"
  by (simp add: List.map_filter_def)

lemma entered_walk_shift:
  "entered (walk_nodes (p @ q) n) = map ((@) p) (entered (walk_nodes q n))"
  "entered (walk_child_nodes (p @ q) i cs) = map ((@) p) (entered (walk_child_nodes q i cs))"
proof (induction q n and q i cs rule: walk_nodes_walk_child_nodes.induct)
  case (3 q i n cs)
  then show ?case by simp
qed simp_all

text \<open>Two green trees that represent the same tree have the same walks, lengths and arities.\<close>

definition narrow :: "green_element list \<Rightarrow> bool" where
  "narrow es \<longleftrightarrow> (\<forall>n \<in> set (concat (map element_nodes es)). length (gn_children n) \<le> u32_max)"

lemma narrow_simps [simp]:
  "narrow []"
  "narrow (Token t # es) \<longleftrightarrow> narrow es"
  "narrow (Node (GreenNode h cs) # es) \<longleftrightarrow> length cs \<le> u32_max \<and> narrow cs \<and> narrow es"
  by (simp_all add: narrow_def ball_Un del: subnodes.simps)

lemma narrow_Cons: "narrow (e # es) \<longleftrightarrow> narrow [e] \<and> narrow es"
  by (simp add: narrow_def ball_Un)

lemma represents_TNodeE:
  assumes "represents E i (TNode k ts) e"
  obtains h cs where "e = Node (GreenNode h cs)" "gh_kind h = sx_into_raw (en_syntax E) k" "list_all2 (represents E i) ts cs"
proof (cases e)
  case (Node n)
  with assms that show thesis by (cases n) (simp add: gn_kind_def)
qed (use assms in \<open>simp add: represents.simps(1)\<close>)

lemma same_tree:
  shows "represents E i t e \<Longrightarrow> represents E i' t e' \<Longrightarrow>
      walk_element_nodes p e = walk_element_nodes p e' \<and> element_len e = element_len e' \<and> (narrow [e] \<longrightarrow> narrow [e'])"
    and "list_all2 (represents E i) ts cs \<Longrightarrow> list_all2 (represents E i') ts cs' \<Longrightarrow>
      walk_child_nodes p j cs = walk_child_nodes p j cs' \<and> map element_len cs = map element_len cs' \<and> (narrow cs \<longrightarrow> narrow cs')"
proof (induction t and ts arbitrary: p e e' and p j cs cs' rule: tree_list_induct)
  case (TNode k ts)
  obtain h cs where e: "e = Node (GreenNode h cs)" "list_all2 (represents E i) ts cs"
    using TNode.prems(1) by (rule represents_TNodeE)
  obtain h' cs' where e': "e' = Node (GreenNode h' cs')" "list_all2 (represents E i') ts cs'"
    using TNode.prems(2) by (rule represents_TNodeE)
  have "length cs = length cs'" using list_all2_lengthD [OF e(2)] list_all2_lengthD [OF e'(2)] by simp
  with TNode.IH [OF e(2) e'(2), of p 0] e(1) e'(1) show ?case by (simp add: green_len_GreenNode)
next
  case (Cons t ts)
  obtain c cs1 where c: "cs = c # cs1" "represents E i t c" "list_all2 (represents E i) ts cs1"
    using Cons.prems(1) by (auto simp: list_all2_Cons1)
  obtain c' cs1' where c': "cs' = c' # cs1'" "represents E i' t c'" "list_all2 (represents E i') ts cs1'"
    using Cons.prems(2) by (auto simp: list_all2_Cons1)
  show ?case
    using Cons.IH(1) [OF c(2) c'(2), of "p @ [j]"] Cons.IH(2) [OF c(3) c'(3), of p "Suc j"] narrow_Cons [of c cs1] narrow_Cons [of c' cs1']
    unfolding c(1) c'(1) by (simp add: walk_child_nodes_Cons)
qed (auto simp: represents_leaf_def split: node_or_token.splits option.splits)

lemma sub_represents: "represents E v t e \<Longrightarrow> sub e p = Some x \<Longrightarrow> \<exists>t'. represents E v t' x"
proof (induction e p arbitrary: t rule: sub.induct)
  case (3 n i p)
  then obtain k ts where t: "t = TNode k ts" by (cases t) (auto simp: represents_leaf_def)
  from 3 t have i: "i < length (gn_children n)" "sub (gn_children n ! i) p = Some x" by (auto split: if_splits)
  with 3(2) t have "represents E v (ts ! i) (gn_children n ! i)" by (simp add: list_all2_conv_all_nth)
  from 3(1) [OF i(1) this i(2)] show ?case .
qed auto

lemma represents_leaf_kind:
  "represents E v t (Token x) \<Longrightarrow> \<exists>d. leaf_data E t = Some d \<and> gt_kind x = sx_into_raw (en_syntax E) (leaf_kind t) \<and>
     green_resolve E v x = Inr d \<and> gt_data_len x = as_u32 (length (td_as_bytes (en_data E) d))"
  by (cases t) (auto simp: represents.simps(1) represents_leaf_def split: option.splits)

lemma represents_serde_ok:
  assumes "represents E v t e"
  shows "serde_ok E v e"
  unfolding serde_ok_def
proof (intro allI impI)
  fix p x assume "sub e p = Some x"
  from sub_represents [OF assms this] obtain t' where t': "represents E v t' x" by blast
  show "(\<exists>k. ge_kind x = sx_into_raw (en_syntax E) k) \<and> (\<forall>t. x = Token t \<longrightarrow> (\<exists>d. green_resolve E v t = Inr d))"
  proof (cases x)
    case (Token y)
    with represents_leaf_kind [of E v t' y] t' show ?thesis by auto
  next
    case (Node n)
    with t' obtain k where "gn_kind n = sx_into_raw (en_syntax E) k" by (cases t') (auto simp: represents_leaf_def)
    with Node show ?thesis by auto
  qed
qed

lemma out_simps:
  "sub (Node g) p = Some (Node n) \<Longrightarrow> out_event E r g D (Enter p) = Some (EnterNode (gn_kind n) (D p \<noteq> None))"
  "sub (Node g) p = Some (Node n) \<Longrightarrow> out_event E r g D (Leave p) = Some LeaveNode"
  "sub (Node g) p = Some (Token t) \<Longrightarrow> out_event E r g D (Enter p) = Some (EvToken (gt_kind t) (payload_serialize (token_bytes E r t)))"
  "sub (Node g) p = Some (Token t) \<Longrightarrow> out_event E r g D (Leave p) = None"
  "sub (Node g) p = Some (Node n) \<Longrightarrow> out_data g D (Enter p) = D p"
  "sub (Node g) p = Some (Token t) \<Longrightarrow> out_data g D (Enter p) = None"
  "out_data g D (Leave p) = None"
  by (simp_all add: out_event_def out_data_def)

text \<open>The data that is serialised is that of the nodes in the order of the second traversal.\<close>

lemma out_data_walk:
  "(\<And>q. sub (Node g) (p @ q) = sub (Node n) q) \<Longrightarrow>
     List.map_filter (out_data g D) (walk_node p n) = List.map_filter D (entered (walk_nodes p n))"
  "(\<And>j q. j < length cs \<Longrightarrow> sub (Node g) (p @ (i + j) # q) = sub (cs ! j) q) \<Longrightarrow>
     List.map_filter (out_data g D) (walk_children p i cs) = List.map_filter D (entered (walk_child_nodes p i cs))"
proof (induction p n and p i cs rule: walk_node_walk_children.induct)
  case (1 p h cs)
  have "sub (Node g) p = Some (Node (GreenNode h cs))" using 1(2) [of "[]"] by simp
  moreover have "sub (Node g) (p @ (0 + j) # q) = sub (cs ! j) q" if "j < length cs" for j q
    using 1(2) [of "j # q"] that by simp
  note 1(1) [OF this]
  ultimately have "List.map_filter (out_data g D) (walk_children p 0 cs @ [Leave p]) =
    List.map_filter D (entered (walk_child_nodes p 0 cs))" by (simp add: map_filter_simps map_filter_append out_simps)
  with \<open>sub (Node g) p = Some (Node (GreenNode h cs))\<close> show ?case
    by (simp add: map_filter_simps out_simps split: option.split)
next
  case (3 p i n cs)
  have n: "sub (Node g) ((p @ [i]) @ q) = sub (Node n) q" for q using 3(3) [of 0 q] by simp
  have "sub (Node g) (p @ (Suc i + j) # q) = sub (cs ! j) q" if "j < length cs" for j q
    using 3(3) [of "Suc j" q] that by simp
  with 3(1) [OF n] 3(2) show ?case by (simp add: map_filter_append)
next
  case (4 p i t cs)
  have t: "sub (Node g) (p @ [i]) = Some (Token t)" using 4(2) [of 0 "[]"] by simp
  have "sub (Node g) (p @ (Suc i + j) # q) = sub (cs ! j) q" if "j < length cs" for j q
    using 4(2) [of "Suc j" q] that by simp
  with 4(1) t show ?case by (simp add: map_filter_simps out_simps)
qed (simp add: map_filter_simps)

context tree_env
begin

lemma bytes_tree_ok:
  shows "tree_ok E valid t \<Longrightarrow> tree_ok E valid (bytes_tree E t) \<and> length (leaves (bytes_tree E t)) = length (leaves t) \<and>
      leaf_kind (bytes_tree E t) = leaf_kind t \<and> leaf_data E (bytes_tree E t) = leaf_data E t"
    and "\<forall>t \<in> set ts. tree_ok E valid t \<Longrightarrow> (\<forall>t \<in> set ts. tree_ok E valid (bytes_tree E t)) \<and>
      n_leaves (map (bytes_tree E) ts) = n_leaves ts"
  by (induction t and ts rule: tree_list_induct)
    (auto simp: from_as_bytes static_valid n_leaves_def split: option.splits sum.splits)

lemma bytes_tree_represents:
  shows "tree_ok E valid t \<Longrightarrow> represents E i (bytes_tree E t) e \<longleftrightarrow> represents E i t e"
    and "\<forall>t \<in> set ts. tree_ok E valid t \<Longrightarrow>
      list_all2 (represents E i) (map (bytes_tree E) ts) es \<longleftrightarrow> list_all2 (represents E i) ts es"
proof (induction t and ts arbitrary: e and es rule: tree_list_induct)
  case (TNode k ts)
  then show ?case by (cases e) (simp_all add: represents.simps(1) list_all2_map1)
next
  case (Cons t ts)
  then show ?case by (auto simp: list_all2_Cons1)
qed (auto simp: represents_leaf_def from_as_bytes static_valid split: node_or_token.splits option.splits)

text \<open>Reading the events back makes the calls of the tree.\<close>

lemma build_leaf:
  fixes b :: "('s, 'i) builder"
  assumes F: "format_ok F" and t: "represents E r t (Token x)" "tree_ok E valid t" and x: "sub (Node g) p = Some (Token x)"
  shows "build_events E (map (\<lambda>x. Inr (transport F x)) (List.map_filter (out_event E r g D) [Enter p, Leave p]) @ rest) b fs =
    bindO (run E (events (bytes_tree E t)) b) (\<lambda>b'. build_events E rest b' fs)"
proof -
  obtain d where d: "leaf_data E t = Some d" "gt_kind x = sx_into_raw (en_syntax E) (leaf_kind t)" "green_resolve E r x = Inr d"
    using represents_leaf_kind [OF t(1)] by blast
  have "bytes_tree E t = TBytes (leaf_kind t) (td_as_bytes (en_data E) d)"
    using t(2) d(1) as_from_bytes by (cases t) (auto split: sum.splits)
  moreover have "bindO m (run E []) = m" for m :: "('s, 'i) builder outcome" by (cases m) simp_all
  ultimately show ?thesis
    using d x by (simp add: map_filter_simps out_simps token_bytes_def from_into_raw payload_round_trip [OF F])
qed

lemma build_walk:
  assumes F: "format_ok F"
  shows "represents E r t e \<Longrightarrow> tree_ok E valid t \<Longrightarrow> (\<And>q. sub (Node g) (p @ q) = sub e q) \<Longrightarrow>
      build_events E (map (\<lambda>x. Inr (transport F x)) (List.map_filter (out_event E r g D) (walk_element p e)) @ rest) b fs =
      bindO (run E (events (bytes_tree E t)) b)
        (\<lambda>b'. build_events E rest b' (fs @ map (\<lambda>p. D p \<noteq> None) (entered (walk_element_nodes p e))))"
    and "list_all2 (represents E r) ts cs \<Longrightarrow> \<forall>t \<in> set ts. tree_ok E valid t \<Longrightarrow>
      (\<And>j q. j < length cs \<Longrightarrow> sub (Node g) (p @ (i + j) # q) = sub (cs ! j) q) \<Longrightarrow>
      build_events E (map (\<lambda>x. Inr (transport F x)) (List.map_filter (out_event E r g D) (walk_children p i cs)) @ rest) b fs =
      bindO (run E (events_list (map (bytes_tree E) ts)) b)
        (\<lambda>b'. build_events E rest b' (fs @ map (\<lambda>p. D p \<noteq> None) (entered (walk_child_nodes p i cs))))"
proof (induction t and ts arbitrary: p e rest b fs and p i cs rest b fs rule: tree_list_induct)
  case (TNode k ts)
  obtain h cs where e: "e = Node (GreenNode h cs)" "gh_kind h = sx_into_raw (en_syntax E) k" "list_all2 (represents E r) ts cs"
    using TNode.prems(1) by (rule represents_TNodeE)
  have sub_p: "sub (Node g) p = Some (Node (GreenNode h cs))" using TNode.prems(3) [of "[]"] e(1) by simp
  have "sub (Node g) (p @ (0 + j) # q) = sub (cs ! j) q" if "j < length cs" for j q
    using TNode.prems(3) [of "j # q"] e(1) that by simp
  note children = TNode.IH [OF e(3) _ this]
  have leave: "List.map_filter (out_event E r g D) (walk_children p 0 cs @ [Leave p]) =
      List.map_filter (out_event E r g D) (walk_children p 0 cs) @ [LeaveNode]"
    using sub_p by (simp add: map_filter_append map_filter_simps out_simps)
  show ?case
    using TNode.prems(2) sub_p leave children e
    by (simp add: map_filter_simps out_simps from_into_raw gn_kind_def run_append bindO_assoc cong: bindO_cong)
next
  case (Cons t ts)
  obtain c cs' where c: "cs = c # cs'" "represents E r t c" "list_all2 (represents E r) ts cs'"
    using Cons.prems(1) by (auto simp: list_all2_Cons1)
  have c0: "sub (Node g) ((p @ [i]) @ q) = sub c q" for q using Cons.prems(3) [of 0 q] c(1) by simp
  have "sub (Node g) (p @ (Suc i + j) # q) = sub (cs' ! j) q" if "j < length cs'" for j q
    using Cons.prems(3) [of "Suc j" q] c(1) that by simp
  note IH = Cons.IH(1) [OF c(2) _ c0] Cons.IH(2) [OF c(3) _ this]
  show ?case
    using Cons.prems(2) IH unfolding c(1)
    by (simp add: walk_children_Cons walk_child_nodes_Cons map_filter_append run_append bindO_assoc cong: bindO_cong)
next
  case (TToken k d)
  then obtain x where "e = Token x" by (cases e) (auto simp: represents_leaf_def)
  with TToken build_leaf [OF F, of r "TToken k d" x g p] TToken.prems(3) [of "[]"] show ?case by simp
next
  case (TBytes k bs)
  then obtain x where "e = Token x" by (cases e) (auto simp: represents_leaf_def)
  with TBytes build_leaf [OF F, of r "TBytes k bs" x g p] TBytes.prems(3) [of "[]"] show ?case by simp
next
  case (TStatic k)
  then obtain x where "e = Token x" by (cases e) (auto simp: represents_leaf_def)
  with TStatic build_leaf [OF F, of r "TStatic k" x g p] TStatic.prems(3) [of "[]"] show ?case by simp
qed (simp add: map_filter_simps)

end

end
