(* ===== verification/Serde_Theorems.thy ===== *)
theory Serde_Theorems
  imports Serde_Build
begin

text \<open>
  Serialising a tree and deserialising it again: the same kinds, shape, text and data, in any format
  that keeps strings and bytes; and the errors for data lists that do not fit.
\<close>

section \<open>Heaps whose data was changed\<close>

lemma data_update_simps [simp]:
  "node_children (d\<lparr>nd_data := x\<rparr>) = node_children d"
  "node_start (d\<lparr>nd_data := x\<rparr>) = node_start d"
  "child_start (d\<lparr>nd_data := x\<rparr>) i = child_start d i"
  by (simp_all add: node_children_def node_start_def child_start_def)

lemma path_of_repaint: "n < length h \<Longrightarrow> path_of (repaint u h) n = path_of h n"
proof (induction n rule: less_induct)
  case (less n)
  then show ?case
    by (simp add: path_of.simps [of "repaint u h" n] path_of.simps [of h n] split: red_kind.split)
qed

lemma repaint_node:
  assumes "n < length h"
  shows "node_children (repaint u h ! n) = node_children (h ! n)" "node_start (repaint u h ! n) = node_start (h ! n)"
    "child_start (repaint u h ! n) i = child_start (h ! n) i" "nd_green (repaint u h ! n) = nd_green (h ! n)"
    "nd_children (repaint u h ! n) = nd_children (h ! n)" "nd_kind (repaint u h ! n) = nd_kind (h ! n)"
  using assms by (simp_all add: node_children_def node_start_def child_start_def)

lemma node_ok_repaint:
  assumes "n < length h" "node_ok E h n"
  shows "node_ok E (repaint u h) n"
proof -
  have "kind_ok (repaint u h) n"
  proof (cases "nd_kind (h ! n)")
    case (KChild p i offset)
    then have "p < length h" using assms by (simp add: node_ok_def kind_ok_def)
    with KChild assms show ?thesis by (simp add: node_ok_def kind_ok_def repaint_node)
  qed (use assms in \<open>simp add: node_ok_def kind_ok_def repaint_node\<close>)
  moreover have "slot_ok (repaint u h) n i e" if "slot_ok h n i e" for i e
    using that assms(1) by (cases e) (auto simp: slot_ok_def repaint_node)
  ultimately show ?thesis using assms by (auto simp: node_ok_def repaint_node)
qed

lemma red_wf_repaint:
  assumes "red_wf E g h"
  shows "red_wf E g (repaint u h)"
proof -
  have h: "0 < length h" using assms by (simp add: red_wf_def)
  have "repaint u h \<noteq> []" using h by (metis length_greater_0_conv length_repaint)
  with assms h node_ok_repaint [of _ h E u] show ?thesis by (auto simp: red_wf_def repaint_node)
qed

section \<open>The nodes that the second traversal enters\<close>

lemma entered_paths: "map (path_of h) (entered xs) = entered (map (event_path h) (map node_event xs))"
  by (induction xs rule: entered.induct) simp_all

lemma entered_in: "list_all (event_in h) (map node_event xs) \<Longrightarrow> \<forall>n \<in> set (entered xs). n < length h"
  by (induction xs rule: entered.induct) simp_all

lemma length_entered: "length (entered xs) \<le> length xs"
  by (induction xs rule: entered.induct) simp_all

lemma walk_enters:
  "sub (Node n) q = Some (Node m) \<Longrightarrow> p @ q \<in> set (entered (walk_nodes p n))"
  "j < length cs \<Longrightarrow> sub (cs ! j) q = Some (Node m) \<Longrightarrow> p @ (i + j) # q \<in> set (entered (walk_child_nodes p i cs))"
proof (induction p n and p i cs arbitrary: q and j q rule: walk_nodes_walk_child_nodes.induct)
  case (1 p h cs)
  show ?case
  proof (cases q)
    case (Cons j q')
    with 1 show ?thesis using "1.IH" [of j q'] by (auto split: if_splits)
  qed simp
next
  case (3 p i n cs)
  show ?case
  proof (cases j)
    case 0
    with 3 show ?thesis using "3.IH"(1) [of q] by simp
  next
    case (Suc j')
    with 3 show ?thesis using "3.IH"(2) [of j' q] by simp
  qed
next
  case (4 p i t cs)
  show ?case
  proof (cases j)
    case 0
    with 4 show ?thesis by (cases q) auto
  next
    case (Suc j')
    with 4 show ?thesis using "4.IH" [of j' q] by simp
  qed
qed simp

lemma map_filter_map: "List.map_filter f (map g xs) = List.map_filter (\<lambda>x. f (g x)) xs"
  by (simp add: List.map_filter_def comp_def filter_map)

text \<open>Attaching data to a new tree, by the paths of its nodes.\<close>

context red_env
begin

lemma attach_new_root:
  assumes fits: "green_fits E n" and k: "length (walk_nodes [] n) \<le> k"
  obtains h ns where "red_wf E n h" "nd_kind (h ! 0) = KRoot n (Some i)" "map (path_of h) ns = entered (walk_nodes [] n)"
    "set ns = {..<length h}" "\<forall>m < length h. nd_data (h ! m) = None"
    "\<And>(fs :: bool list) ds. length fs = length ns \<Longrightarrow> \<exists>hf. attach_data k E 0 (Some (Enter 0)) fs ds (snd (make_new_root n (Some i))) =
        Inr (if n_flags fs \<le> length ds then Inr (drop (n_flags fs) ds) else Inl Invalid_tree :: 'r de_error + 'x list, hf) \<and>
      (n_flags fs \<le> length ds \<longrightarrow> hf = repaint (mark_all ns fs ds (\<lambda>_ x. x)) (h :: ('i, 'x) heap))"
proof -
  let ?h0 = "snd (make_new_root n (Some i)) :: ('i, 'x) heap"
  have wf0: "red_wf E n ?h0" by (rule make_new_root_wf(1) [OF fits])
  have 0: "0 < length ?h0" "path_of ?h0 0 = []" "nd_green (?h0 ! 0) = n" "nd_kind (?h0 ! 0) = KRoot n (Some i)"
    using path_of_root [OF wf0] by (simp_all add: make_new_root_def node_data_new_def Let_def)
  obtain xs h where xs: "yields (preorder_step E 0) ?h0 (Some (Enter 0)) xs h None" "red_wf E n h" "heap_le ?h0 h"
    "list_all (event_in h) (map node_event xs)" "map (event_path h) (map node_event xs) = walk_nodes [] n"
    using preorder_yields [OF wf0 0(1)] 0(2,3) by auto
  let ?ns = "entered xs"
  have len: "length xs \<le> k" using arg_cong [OF xs(5), of length] k by simp
  have paths: "map (path_of h) ?ns = entered (walk_nodes [] n)" using xs(5) entered_paths [of h xs] by simp
  note run = attach_data_run [OF xs(1) _ len]
  have all: "m \<in> set ?ns" if m: "m < length h" for m
  proof -
    have "path_of h m \<in> set (entered (walk_nodes [] n))"
      using walk_enters(1) [OF node_sub [OF xs(2) m, THEN conjunct1], of "[]"] by simp
    then obtain m' where m': "m' \<in> set ?ns" "path_of h m' = path_of h m" unfolding paths [symmetric] by auto
    then have "m' < length h" using entered_in [OF xs(4)] by blast
    with m' m elem_path_inj [OF xs(2), of "Node m'" "Node m"] show ?thesis by simp
  qed
  have data: "nd_data (h ! m) = None" if "m < length h" for m
  proof -
    let ?u = "\<lambda>_ _. None :: 'x option" and ?fs = "map (\<lambda>_. False) ?ns"
    have none: "mark_all ms (map (\<lambda>_. False) ms) [] u = u" for ms and u :: "nat \<Rightarrow> 'x option \<Rightarrow> 'x option"
      by (induction ms) auto
    have "repaint ?u ?h0 = ?h0" by (simp add: repaint_def make_new_root_def node_data_new_def Let_def)
    moreover have "attach_data k E 0 (Some (Enter 0)) ?fs [] (repaint u ?h0) = Inr (Inr [] :: unit de_error + 'x list, repaint u h)"
      if "old_only u ?h0" for u
      using run [OF that, of ?fs "[]"] none by auto
    note this [of ?u] this [of "\<lambda>_ x. x"]
    ultimately have "repaint ?u h = h" by (simp add: old_only_def repaint_id)
    with that repaint_nth [OF that, of ?u] show ?thesis by (metis node_data.select_convs(3) node_data.surjective node_data.update_convs(3))
  qed
  show thesis
  proof (rule that [OF xs(2) _ paths])
    show "nd_kind (h ! 0) = KRoot n (Some i)" using heap_le_node(2) [OF xs(3) 0(1)] 0(4) by simp
    show "set ?ns = {..<length h}" using all entered_in [OF xs(4)] by auto
    show "\<forall>m < length h. nd_data (h ! m) = None" using data by blast
    fix fs :: "bool list" and ds :: "'x list"
    assume "length fs = length ?ns"
    then show "\<exists>hf. attach_data k E 0 (Some (Enter 0)) fs ds ?h0 =
        Inr (if n_flags fs \<le> length ds then Inr (drop (n_flags fs) ds) else Inl Invalid_tree :: 'r de_error + 'x list, hf) \<and>
      (n_flags fs \<le> length ds \<longrightarrow> hf = repaint (mark_all ?ns fs ds (\<lambda>_ x. x)) h)"
      by (rule run [OF old_only_id, unfolded repaint_id])
  qed
qed

end

section \<open>Reading a stream back\<close>

text \<open>
  The setting of the theorems: the tree \<open>t\<close> that a node of a red tree represents under the resolver
  it is serialised with is one that the builder takes, its tokens fit a new interner, and the 32-bit
  hashes of the new nodes tell them apart.
\<close>

definition serde_input :: "('s, 'd, 'd token_interner, 'e) env \<Rightarrow> ('d \<Rightarrow> bool) \<Rightarrow> ('d token_interner \<Rightarrow> bool) \<Rightarrow>
    ('d token_interner \<Rightarrow> nat) \<Rightarrow> 'd token_interner \<Rightarrow> green_node \<Rightarrow> ('j, 'x) heap \<Rightarrow> nat \<Rightarrow> ('s, 'd) tree \<Rightarrow> bool" where
  "serde_input E valid ok room r g h c t \<longleftrightarrow>
     tree_env E valid ok room \<and> ok new_interner \<and> red_wf E g h \<and> c < length h \<and>
     represents E r t (Node (nd_green (h ! c))) \<and> tree_ok E valid t \<and> length (leaves t) \<le> room new_interner \<and>
     (\<forall>i n. denote E new_interner (bytes_tree E t) = Inr (i, Node n) \<longrightarrow> inj_on gn_head (set (subnodes n)))"

lemma build_stream:
  fixes E :: "('s, 'd, 'd token_interner, 'e) env"
  assumes env: "tree_env E valid ok room" and new: "ok new_interner" and F: "format_ok F"
    and t: "represents E r t (Node m)" "tree_ok E valid t" "length (leaves t) \<le> room new_interner"
    and sub: "\<And>q. sub (Node g) (p @ q) = sub (Node m) q"
    and inj: "\<forall>i n. denote E new_interner (bytes_tree E t) = Inr (i, Node n) \<longrightarrow> inj_on gn_head (set (subnodes n))"
  shows "\<exists>b n cache i. (\<forall>ps rest fs. build_events E
        (map (\<lambda>x. Inr (transport F x)) (List.map_filter (out_event E r g D) (walk_node p m)) @ rest :: ('r + event) list)
        (builder_new\<lparr>bl_parents := ps\<rparr>) fs =
      build_events E rest (b\<lparr>bl_parents := ps\<rparr>) (fs @ map (\<lambda>p. D p \<noteq> None) (entered (walk_nodes p m)))) \<and>
    (\<forall>ps. builder_finish (b\<lparr>bl_parents := ps\<rparr>) = Inr (n, Some cache)) \<and> into_interner cache = Some i \<and>
    represents E i t (Node n) \<and> green_wf (en_text E) (en_hash E) n"
proof -
  let ?b = "builder_new :: ('s, 'd token_interner) builder"
  obtain k ts where bt: "bytes_tree E t = TNode k ts" using t(1) by (cases t) (auto simp: represents_leaf_def)
  note b_ok = tree_env.bytes_tree_ok(1) [OF env t(2)]
  have interner: "builder_interner ?b = new_interner" "into_owned (bl_cache ?b) = Some node_cache_new"
    by (simp_all add: builder_new_def builder_interner_def node_cache_new_def cache_interner_def)
  have "\<exists>b' n. run E (events (TNode k ts)) ?b = Inr b' \<and>
    builder_finish b' = Inr (n, map_option (\<lambda>_. bl_node_cache b') (into_owned (bl_cache ?b))) \<and>
    represents E (builder_interner b') (TNode k ts) (Node n) \<and>
    green_wf (en_text E) (en_hash E) n \<and> ok (builder_interner b') \<and> env_cache_wf E (bl_node_cache b')"
  proof (rule build_tree [OF env])
    fix i n assume "denote E (builder_interner ?b) (TNode k ts) = Inr (i, Node n)"
    then have "inj_on gn_head (set (subnodes n))" using inj bt interner(1) by simp
    then show "inj_on gn_head (ran (nc_nodes (bl_node_cache ?b)) \<union> set (subnodes n))"
      by (simp add: builder_new_def node_cache_new_def)
  qed (use new t(3) b_ok bt interner in \<open>simp_all add: builder_new_def node_cache_new_def cache_wf_def\<close>)
  then obtain b' n where b': "run E (events (bytes_tree E t)) ?b = Inr b'"
    "builder_finish b' = Inr (n, Some (bl_node_cache b'))" "represents E (builder_interner b') (bytes_tree E t) (Node n)"
    "green_wf (en_text E) (en_hash E) n" using interner(2) bt by auto
  have "build_events E (map (\<lambda>x. Inr (transport F x)) (List.map_filter (out_event E r g D) (walk_node p m)) @ rest)
        (?b\<lparr>bl_parents := ps\<rparr>) fs =
      build_events E rest (b'\<lparr>bl_parents := ps\<rparr>) (fs @ map (\<lambda>p. D p \<noteq> None) (entered (walk_nodes p m)))"
    for ps fs and rest :: "('r + event) list"
    using tree_env.build_walk(1) [OF env F t(1,2), of g p D rest "?b\<lparr>bl_parents := ps\<rparr>" fs] sub b'(1) by (simp add: run_events_parents(1))
  moreover have "builder_finish (b'\<lparr>bl_parents := ps\<rparr>) = Inr (n, Some (bl_node_cache b'))" for ps
    using b'(2) by (simp add: builder_finish_def Let_def split: if_splits)
  moreover have "into_interner (bl_node_cache b') = Some (builder_interner b')"
    using run_interner_owned [OF b'(1)] by (simp add: builder_new_def node_cache_new_def into_interner_def)
  moreover have "represents E (builder_interner b') t (Node n)" using b'(3) tree_env.bytes_tree_represents(1) [OF env t(2)] by simp
  ultimately show ?thesis using b'(4) by blast
qed

text \<open>
  The result of the first visitor: a new root, and a flag for each node. A node that is started before the
  events of the tree and never finished makes no difference to the tree.
\<close>

lemma visit_stream:
  fixes E :: "('s, 'd, 'd token_interner, 'e) env"
  assumes env: "tree_env E valid ok room" and new: "ok new_interner" and F: "format_ok F"
    and t: "represents E r t (Node m)" "tree_ok E valid t" "length (leaves t) \<le> room new_interner"
    and sub: "\<And>q. sub (Node g) (p @ q) = sub (Node m) q"
    and inj: "\<forall>i n. denote E new_interner (bytes_tree E t) = Inr (i, Node n) \<longrightarrow> inj_on gn_head (set (subnodes n))"
    and evs: "evs = map (\<lambda>x. Inr (transport F x)) (List.map_filter (out_event E r g D) (walk_node p m))"
  obtains i n where "visit_events E (evs :: ('r + event) list) =
      Inr (Inr (make_new_root n (Some i) :: nat \<times> ('d token_interner, 'x) heap, map (\<lambda>p. D p \<noteq> None) (entered (walk_nodes p m))))"
    "\<And>k f. visit_events E (Inr (EnterNode (sx_into_raw (en_syntax E) k) f) # evs) =
      Inr (Inr (make_new_root n (Some i) :: nat \<times> ('d token_interner, 'x) heap, f # map (\<lambda>p. D p \<noteq> None) (entered (walk_nodes p m))))"
    "visit_events E (evs @ [Inr LeaveNode]) = (Inl Unwrap_None ::
      ('r de_error + (nat \<times> ('d token_interner, 'x) heap) \<times> bool list) outcome)"
    "represents E i t (Node n)" "green_wf (en_text E) (en_hash E) n"
proof -
  note [simp] = syntax_impl.from_into_raw [OF tree_env.axioms(1) [OF env]]
  obtain b n cache i where run: "\<And>ps rest fs. build_events E (evs @ rest) (builder_new\<lparr>bl_parents := ps\<rparr>) fs =
      build_events E rest (b\<lparr>bl_parents := ps\<rparr>) (fs @ map (\<lambda>p. D p \<noteq> None) (entered (walk_nodes p m)))"
    and fin: "\<And>ps. builder_finish (b\<lparr>bl_parents := ps\<rparr>) = Inr (n, Some cache)" "into_interner cache = Some i"
      "represents E i t (Node n)" "green_wf (en_text E) (en_hash E) n"
    using build_stream [OF env new F t sub inj, where 'r = 'r and D = D] unfolding evs by blast
  have new: "builder_new\<lparr>bl_parents := []\<rparr> = (builder_new :: ('s, 'd token_interner) builder)"
    "start_node (builder_new :: ('s, 'd token_interner) builder) k = builder_new\<lparr>bl_parents := [(k, 0)]\<rparr>" for k
    by (simp_all add: builder_new_def start_node_def)
  show thesis
    by (rule that [OF _ _ _ fin(3,4)])
      (use run [where ps = "[]" and rest = "[]"] run [where ps = "[]" and rest = "[Inr LeaveNode]"] run [where ps = "[(k, 0)]" and rest = "[]" for k] new fin(1,2)
        in \<open>simp_all add: visit_events_def new_root_with_resolver_def finish_node_empty\<close>)
qed

lemma length_walk_nodes:
  "length (walk_nodes p n) \<le> length (walk_node q n)"
  "length (walk_child_nodes p i cs) \<le> length (walk_children q j cs)"
proof (induction q n and q j cs arbitrary: p and p i rule: walk_node_walk_children.induct)
  case (1 q h cs)
  show ?case using 1 [of p 0] by simp
next
  case (3 q j n cs)
  show ?case using 3(1) [of "p @ [i]"] 3(2) [of p "Suc i"] by simp
next
  case (4 q j t cs)
  show ?case using 4 [of p "Suc i"] by simp
qed simp_all

text \<open>Everything that \<open>deserialize\<close> makes of the events, for any list of data.\<close>

lemma deserialize_stream:
  fixes E :: "('s, 'd, 'd token_interner, 'e) env" and h :: "('j, 'y) heap"
  assumes inp: "serde_input E valid ok room r g h c t" and F: "format_ok F"
    and k: "length (walk_node (path_of h c) (nd_green (h ! c))) \<le> k"
  obtains n i ns and h0 :: "('d token_interner, 'x) heap" where "red_wf E n h0" "nd_kind (h0 ! 0) = KRoot n (Some i)"
    "represents E i t (Node n)" "map (path_of h0) ns = entered (walk_nodes [] (nd_green (h ! c)))"
    "set ns = {..<length h0}" "\<forall>m < length h0. nd_data (h0 ! m) = None"
    "\<And>ds. deserialize k E (map (\<lambda>x. Inr (transport F x))
        (List.map_filter (out_event E r g D) (walk_node (path_of h c) (nd_green (h ! c)))) :: ('r + event) list) (Inr ds) =
      Inr (let fs = map (\<lambda>m. D (path_of h c @ path_of h0 m) \<noteq> None) ns in
           if length ds < n_flags fs then Inl Invalid_tree
           else if n_flags fs < length ds then Inl Too_many_data
           else Inr (0, repaint (mark_all ns fs ds (\<lambda>_ x. x)) h0))"
proof -
  let ?p = "path_of h c" and ?m = "nd_green (h ! c)"
  have T: "text_size (en_text E)" using inp by (simp add: serde_input_def tree_env_def)
  have env: "tree_env E valid ok room" and new: "ok new_interner" and wf: "red_wf E g h" and c: "c < length h"
    and t: "represents E r t (Node ?m)" "tree_ok E valid t" "length (leaves t) \<le> room new_interner"
    and inj: "\<forall>i n. denote E new_interner (bytes_tree E t) = Inr (i, Node n) \<longrightarrow> inj_on gn_head (set (subnodes n))"
    using inp by (auto simp: serde_input_def)
  have sub: "sub (Node g) (?p @ q) = sub (Node ?m) q" for q using node_sub [OF wf c] by (simp add: sub_append)
  obtain i n where n: "visit_events E (map (\<lambda>x. Inr (transport F x)) (List.map_filter (out_event E r g D) (walk_node ?p ?m)) :: ('r + event) list) =
      Inr (Inr (make_new_root n (Some i) :: nat \<times> ('d token_interner, 'x) heap, map (\<lambda>p. D p \<noteq> None) (entered (walk_nodes ?p ?m))))"
    "represents E i t (Node n)" "green_wf (en_text E) (en_hash E) n"
    by (rule visit_stream [OF env new F t sub inj refl])
  have same: "walk_nodes [] n = walk_nodes [] ?m" "green_len n = green_len ?m" "narrow [Node ?m] \<longrightarrow> narrow [Node n]"
    using same_tree(1) [OF t(1) n(2), of "[]"] by simp_all
  have "node_ok E h c" using wf c by (simp add: red_wf_def)
  then have "green_fits E n" using n(3) same(2,3) by (simp add: green_fits_def node_ok_def arity_ok_def narrow_def)
  moreover have "length (walk_nodes [] n) \<le> k" using length_walk_nodes(1) [of "[]" ?m ?p] k same(1) by simp
  ultimately obtain h0 :: "('d token_interner, 'x) heap" and ns where
    h0: "red_wf E n h0" "nd_kind (h0 ! 0) = KRoot n (Some i)" "map (path_of h0) ns = entered (walk_nodes [] n)"
    "set ns = {..<length h0}" "\<forall>m < length h0. nd_data (h0 ! m) = None"
    and run: "\<And>(fs :: bool list) ds. length fs = length ns \<Longrightarrow> \<exists>hf. attach_data k E 0 (Some (Enter 0)) fs ds (snd (make_new_root n (Some i))) =
        Inr (if n_flags fs \<le> length ds then Inr (drop (n_flags fs) ds) else Inl Invalid_tree :: 'r de_error + 'x list, hf) \<and>
      (n_flags fs \<le> length ds \<longrightarrow> hf = repaint (mark_all ns fs ds (\<lambda>_ x. x)) h0)"
    by (rule red_env.attach_new_root [OF red_env.intro [OF T], where i = i]) (rule that; assumption)
  have flags: "map (\<lambda>p. D p \<noteq> None) (entered (walk_nodes ?p ?m)) = map (\<lambda>m. D (?p @ path_of h0 m) \<noteq> None) ns"
  proof -
    have "entered (walk_nodes ?p ?m) = map ((@) ?p) (map (path_of h0) ns)"
      using entered_walk_shift(1) [of ?p "[]" ?m] unfolding h0(3) same(1) by simp
    then show ?thesis by simp
  qed
  show thesis
  proof (rule that [OF h0(1,2) n(2) _ h0(4,5)])
    show "map (path_of h0) ns = entered (walk_nodes [] ?m)" using h0(3) same(1) by simp
    fix ds :: "'x list"
    show "deserialize k E (map (\<lambda>x. Inr (transport F x)) (List.map_filter (out_event E r g D) (walk_node ?p ?m)) :: ('r + event) list) (Inr ds) =
      Inr (let fs = map (\<lambda>m. D (?p @ path_of h0 m) \<noteq> None) ns in
           if length ds < n_flags fs then Inl Invalid_tree
           else if n_flags fs < length ds then Inl Too_many_data
           else Inr (0, repaint (mark_all ns fs ds (\<lambda>_ x. x)) h0))"
      (is "?out = Inr (Let ?fs ?res)")
    proof -
      obtain hs where hs: "make_new_root n (Some i) = (0, hs :: ('d token_interner, 'x) heap)"
        by (simp add: make_new_root_def Let_def)
      obtain hf where hf: "attach_data k E 0 (Some (Enter 0)) ?fs ds hs =
          Inr (if n_flags ?fs \<le> length ds then Inr (drop (n_flags ?fs) ds) else Inl Invalid_tree :: 'r de_error + 'x list, hf)"
        "n_flags ?fs \<le> length ds \<longrightarrow> hf = repaint (mark_all ns ?fs ds (\<lambda>_ x. x)) h0"
        using run [of ?fs ds] hs by auto
      have "?out = bindO (attach_data k E 0 (Some (Enter 0)) ?fs ds hs) (\<lambda>(r :: 'r de_error + 'x list, h).
          case r of Inl e \<Rightarrow> Inr (Inl e) | Inr rest \<Rightarrow> Inr (if rest \<noteq> [] then Inl Too_many_data else Inr (0, h)))"
        unfolding deserialize_def n(1) hs flags by simp
      also have "\<dots> = Inr (Let ?fs ?res)" using hf by (simp add: Let_def not_less)
      finally show ?thesis .
    qed
  qed
qed

text \<open>What \<open>serialize\<close> makes of a tree that represents another.\<close>

lemma serialize_stream:
  fixes h :: "('j, 'x) heap"
  assumes inp: "serde_input E valid ok room r g h c t"
    and k: "length (walk_node (path_of h c) (nd_green (h ! c))) \<le> k"
    and D: "D = data_seen with_data h"
  obtains h1 where "serialize k E with_data r c h = Inr (
      (List.map_filter (out_event E r g D) (walk_node (path_of h c) (nd_green (h ! c))),
       List.map_filter (\<lambda>q. D (path_of h c @ q)) (entered (walk_nodes [] (nd_green (h ! c))))), h1)"
    "red_wf E g h1" "heap_le h h1"
proof -
  let ?p = "path_of h c" and ?m = "nd_green (h ! c)"
  have env: "tree_env E valid ok room" and wf: "red_wf E g h" and c: "c < length h" and t: "represents E r t (Node ?m)"
    using inp by (auto simp: serde_input_def)
  have T: "text_size (en_text E)" and syn: "syntax_impl (en_syntax E)" using env by (simp_all add: tree_env_def)
  note sub = node_sub [OF wf c, THEN conjunct1]
  have "nav E g h (serialize k E with_data r c)
      (\<lambda>h' res. res = ([] @ List.map_filter (out_event E r g D) (walk_node ?p ?m), [] @ List.map_filter (out_data g D) (walk_node ?p ?m)) \<and>
         (\<forall>p. data_at h' p = data_at h p))"
    unfolding serialize_def
  proof (rule red_env.nav_collect_events [OF red_env.intro [OF T] syn sub represents_serde_ok [OF t] wf c refl _ _ k D])
    show "cursor_ok h ?p (Some (Enter (Node c)))" using c by (simp add: cursor_ok_def event_ok_def)
    show "green_chain g ?p (map_option (event_path h) (Some (Enter (Node c)))) (walk_node ?p ?m)"
      using red_env.walk_chain [OF red_env.intro [OF T] wf c] by simp
  qed
  then obtain h1 where "serialize k E with_data r c h = Inr ((List.map_filter (out_event E r g D) (walk_node ?p ?m),
      List.map_filter (out_data g D) (walk_node ?p ?m)), h1)" "red_wf E g h1" "heap_le h h1" by (auto simp: nav_def)
  moreover have "List.map_filter (out_data g D) (walk_node ?p ?m) = List.map_filter (\<lambda>q. D (?p @ q)) (entered (walk_nodes [] ?m))"
    using out_data_walk(1) [of g ?p ?m D] sub entered_walk_shift(1) [of ?p "[]" ?m] by (simp add: sub_append map_filter_map)
  ultimately show thesis using that by simp
qed

text \<open>What the data of the new tree are once the collected list is attached.\<close>

lemma attached_data:
  fixes h :: "('j, 'x) heap" and h0 :: "('i, 'x) heap"
  assumes wf: "red_wf E g h" and c: "c < length h" and wf0: "red_wf E n h0"
    and ns: "map (path_of h0) ns = entered (walk_nodes [] (nd_green (h ! c)))" "set ns = {..<length h0}"
    and none: "\<forall>m < length h0. nd_data (h0 ! m) = None"
    and D: "D = data_seen with_data h"
  shows "data_at (repaint (mark_all ns (map (\<lambda>m. D (path_of h c @ path_of h0 m) \<noteq> None) ns)
      (List.map_filter (\<lambda>m. D (path_of h c @ path_of h0 m)) ns) (\<lambda>_ x. x)) h0) q = D (path_of h c @ q)"
    (is "data_at (repaint ?u h0) q = _")
proof (cases "\<exists>m < length h0. path_of h0 m = q")
  case True
  then obtain m where m: "m < length h0" "path_of h0 m = q" by blast
  have "data_at (repaint ?u h0) q = nd_data (repaint ?u h0 ! m)"
    using data_at_node [OF red_wf_repaint [OF wf0], of m ?u] m by (simp add: path_of_repaint)
  also have "\<dots> = D (path_of h c @ q)" using m ns(2) none by (simp add: mark_all_data del: not_None_eq)
  finally show ?thesis .
next
  case False
  have "data_at (repaint ?u h0) q = None" using False by (intro data_at_none) (simp add: path_of_repaint)
  moreover have "path_of h m \<noteq> path_of h c @ q" if m: "m < length h" for m
  proof
    assume eq: "path_of h m = path_of h c @ q"
    from node_sub [OF wf m] node_sub [OF wf c] eq have "sub (Node (nd_green (h ! c))) q = Some (Node (nd_green (h ! m)))"
      by (simp add: sub_append)
    then have "q \<in> path_of h0 ` set ns" using walk_enters(1) [of _ q _ "[]"] ns(1) by (metis append_Nil list.set_map)
    with False ns(2) show False by auto
  qed
  then have "data_at h (path_of h c @ q) = None" by (rule data_at_none)
  ultimately show ?thesis using D by (simp add: data_seen_def)
qed

section \<open>The properties\<close>

text \<open>A tree to serialise: \<open>a+\<close> with data at the root.\<close>

abbreviation ex_marked :: "green_node \<Rightarrow> (rust_str token_interner, nat) heap" where
  "ex_marked n \<equiv> repaint (\<lambda>_ _. Some 7) (snd (make_new_root n None))"

abbreviation ex_serde :: "rust_str token_interner \<Rightarrow> green_node \<Rightarrow> bool" where
  "ex_serde i n \<equiv> serde_input ex_env str_valid (interner_ok str_data str_valid) interner_room i n (ex_marked n) 0 ex_tree"

lemma ex_serde_input:
  obtains i n where "ex_serde i n" "path_of (ex_marked n) 0 = []" "nd_green (ex_marked n ! 0) = n"
    "length (walk_node [] n) \<le> 6" "data_at (ex_marked n) [] = Some 7" "walk_nodes [] n = [Enter [], Leave []]"
proof -
  have ok: "tree_ok ex_env str_valid ex_tree" by (simp add: str_valid_def)
  have room: "length (leaves ex_tree) \<le> interner_room (new_interner :: rust_str token_interner)"
    by (simp add: interner_room_def N_INDICES_def u32_max_def new_interner_def)
  from tree_env.denote_ok(1) [OF tree_env_test interner_ok_new ok room] obtain i e where
    e: "denote ex_env new_interner ex_tree = Inr (i, e)" "represents ex_env i ex_tree e" "element_wf (en_text ex_env) (en_hash ex_env) e"
    by blast
  obtain n where n: "e = Node n" using e(2) by (cases e) (auto simp: represents.simps(1))
  obtain hd x y where g: "n = GreenNode hd [Token x, Token y]" "unat (gt_data_len x) = 1" "unat (gt_data_len y) = 1"
  proof -
    obtain hd a b where ab: "n = GreenNode hd [a, b]" "represents ex_env i (TToken Identifier (Str [0x61])) a" "represents ex_env i (TStatic Plus) b"
      using e(2) n by (cases n) (auto simp: list_all2_Cons1)
    then show thesis
      by (cases a; cases b) (use that in \<open>auto simp: represents_leaf_def str_data_def\<close>)
  qed
  have fits: "green_fits ex_env n" and len: "length (walk_node [] n) \<le> 6"
    using e(3) n g by (simp_all add: green_fits_def arity_ok_def green_len_GreenNode u32_max_def)
  let ?h = "ex_marked n"
  have wf: "red_wf ex_env n ?h" by (rule red_wf_repaint [OF make_new_root_wf(1) [OF fits]])
  have h: "0 < length ?h" "nd_green (?h ! 0) = n" by (simp_all add: make_new_root_def node_data_new_def Let_def)
  have inj: "inj_on gn_head (set (subnodes n))"
    if "denote ex_env new_interner (bytes_tree ex_env ex_tree) = Inr (i, Node n)" for i n
    using that by (auto simp: spec_eval bindO_eq_Inr)
  show thesis
  proof (rule that)
    show "ex_serde i n" using wf h e(2) n ok room inj tree_env_test interner_ok_new by (simp add: serde_input_def)
    show "data_at ?h [] = Some 7" using data_at_node [OF wf h(1)] h(1) path_of_root [OF wf] by simp
  qed (use path_of_root [OF wf] h len g(1) in simp_all)
qed

text \<open>C11: Let a subtree have leaves with the data of their kinds, no more of them than a new interner has room for, and let no two
  different nodes of the tree that the deserialiser builds have the same head, that is kind, length and 32-bit hash of
  the children (it builds through the same cache as a parser, which serves the wrong node on equal heads). Then the subtree, serialised, sent
  through any format that keeps strings and bytes, and deserialised, comes back as a new tree with the same kinds, shape and text under
  its own resolver, and with the data of every node at its place if data was serialised, without any otherwise; every read
  that the traversals make succeeds.\<close>
theorem serde_round_trip:
  fixes h :: "('j, 'x) heap" and E :: "('s, 'd, 'd token_interner, 'e) env"
  assumes inp: "serde_input E valid ok room r g h c t" and F: "format_ok F"
    and k: "length (walk_node (path_of h c) (nd_green (h ! c))) \<le> k"
  shows "\<exists>evs ds h1 n i h2. serialize k E with_data r c h = Inr ((evs, ds), h1) \<and> red_wf E g h1 \<and> heap_le h h1 \<and>
    deserialize k E (map (\<lambda>x. Inr (transport F x)) evs :: ('r + event) list) (Inr ds) = Inr (Inr (0, h2)) \<and>
    red_wf E n h2 \<and> nd_kind (h2 ! 0) = KRoot n (Some i) \<and> represents E i t (Node n) \<and>
    (\<forall>q. data_at h2 q = (if with_data then data_at h (path_of h c @ q) else None))"
proof -
  let ?p = "path_of h c"
  have wf: "red_wf E g h" and c: "c < length h" using inp by (simp_all add: serde_input_def)
  obtain D where D: "D = data_seen with_data h" by simp
  obtain h1 where h1: "serialize k E with_data r c h = Inr (
      (List.map_filter (out_event E r g D) (walk_node ?p (nd_green (h ! c))),
       List.map_filter (\<lambda>q. D (?p @ q)) (entered (walk_nodes [] (nd_green (h ! c))))), h1)" "red_wf E g h1" "heap_le h h1"
    by (rule serialize_stream [OF inp k D])
  obtain n i ns and h0 :: "('d token_interner, 'x) heap" where
    h0: "red_wf E n h0" "nd_kind (h0 ! 0) = KRoot n (Some i)" "represents E i t (Node n)"
      "map (path_of h0) ns = entered (walk_nodes [] (nd_green (h ! c)))" "set ns = {..<length h0}" "\<forall>m < length h0. nd_data (h0 ! m) = None"
    and des: "\<And>ds. deserialize k E (map (\<lambda>x. Inr (transport F x))
        (List.map_filter (out_event E r g D) (walk_node ?p (nd_green (h ! c)))) :: ('r + event) list) (Inr ds) =
      Inr (let fs = map (\<lambda>m. D (?p @ path_of h0 m) \<noteq> None) ns in
           if length ds < n_flags fs then Inl Invalid_tree
           else if n_flags fs < length ds then Inl Too_many_data
           else Inr (0, repaint (mark_all ns fs ds (\<lambda>_ x. x)) h0))"
    by (rule deserialize_stream [OF inp F k, where 'r = 'r and 'x = 'x and D = D]) (rule that; assumption)
  let ?D = "\<lambda>m. D (?p @ path_of h0 m)" and ?ds = "List.map_filter (\<lambda>q. D (?p @ q)) (entered (walk_nodes [] (nd_green (h ! c))))"
  let ?h2 = "repaint (mark_all ns (map (\<lambda>m. ?D m \<noteq> None) ns) (List.map_filter ?D ns) (\<lambda>_ x. x)) h0"
  have ds: "?ds = List.map_filter ?D ns" by (simp add: h0(4) [symmetric] map_filter_map)
  have "deserialize k E (map (\<lambda>x. Inr (transport F x))
      (List.map_filter (out_event E r g D) (walk_node ?p (nd_green (h ! c)))) :: ('r + event) list) (Inr ?ds) = Inr (Inr (0, ?h2))"
    unfolding des ds Let_def n_flags_data by simp
  moreover have wf2: "red_wf E n ?h2" by (rule red_wf_repaint [OF h0(1)])
  moreover have "nd_kind (?h2 ! 0) = KRoot n (Some i)" using h0(1,2) by (simp add: red_wf_def repaint_node)
  moreover have "data_at ?h2 q = (if with_data then data_at h (?p @ q) else None)" for q
    using attached_data [OF wf c h0(1,4-6), of D with_data q] D by (simp add: data_seen_def)
  ultimately show ?thesis using h1 h0(3) by blast
qed

text \<open>A format that writes bytes as a sequence of numbers, as JSON does.\<close>

fun ex_format :: "serde_value \<Rightarrow> serde_value" where
  "ex_format (S_bytes bs) = S_seq (map unat bs)"
| "ex_format v = v"

lemma ex_format_ok: "format_ok ex_format"
  by (simp add: format_ok_def)

theorem serde_round_trip_witness:
  "\<exists>r n evs ds h1 h2. serialize 6 ex_env True r 0 (ex_marked n) = Inr ((evs, ds), h1) \<and>
     deserialize 6 ex_env (map (\<lambda>x. Inr (transport ex_format x) :: unit + event) evs) (Inr ds) = Inr (Inr (0, h2)) \<and>
     data_at h2 [] = Some (7 :: nat)"
proof -
  obtain i n where ex: "ex_serde i n" "path_of (ex_marked n) 0 = []" "nd_green (ex_marked n ! 0) = n"
    "length (walk_node [] n) \<le> 6" "data_at (ex_marked n) [] = Some 7" "walk_nodes [] n = [Enter [], Leave []]" by (rule ex_serde_input)
  have "length (walk_node (path_of (ex_marked n) 0) (nd_green (ex_marked n ! 0))) \<le> 6" unfolding ex(2,3) by (rule ex(4))
  from serde_round_trip [OF ex(1) ex_format_ok this, where 'r = unit and with_data = True] show ?thesis
    unfolding ex(2) using ex(5) by fastforce
qed

text \<open>C12: For a subtree as in the round trip, that is with the data of the kinds, room in the interner and no two different
  nodes to be built with the same kind, length and 32-bit hash of the children: deserialising its events with a list of data that is
  not as long as the one collected with them is an error, that of missing data for a shorter list and that of surplus data for a longer
  one, and not a panic or a tree.\<close>
theorem deserialize_data_count:
  fixes h :: "('j, 'x) heap" and E :: "('s, 'd, 'd token_interner, 'e) env"
  assumes inp: "serde_input E valid ok room r g h c t" and F: "format_ok F"
    and k: "length (walk_node (path_of h c) (nd_green (h ! c))) \<le> k"
    and ds': "serialize k E with_data r c h = Inr ((evs, ds), h1)" "length ds' \<noteq> length ds"
  shows "deserialize k E (map (\<lambda>x. Inr (transport F x)) evs :: ('r + event) list) (Inr (ds' :: 'x list)) =
    Inr (Inl (if length ds' < length ds then Invalid_tree else Too_many_data))"
proof -
  let ?p = "path_of h c"
  obtain D where D: "D = data_seen with_data h" by simp
  obtain h1' where h1: "serialize k E with_data r c h = Inr (
      (List.map_filter (out_event E r g D) (walk_node ?p (nd_green (h ! c))),
       List.map_filter (\<lambda>q. D (?p @ q)) (entered (walk_nodes [] (nd_green (h ! c))))), h1')"
    by (rule serialize_stream [OF inp k D])
  obtain n i ns and h0 :: "('d token_interner, 'x) heap" where
    h0: "map (path_of h0) ns = entered (walk_nodes [] (nd_green (h ! c)))"
    and des: "\<And>ds. deserialize k E (map (\<lambda>x. Inr (transport F x))
        (List.map_filter (out_event E r g D) (walk_node ?p (nd_green (h ! c)))) :: ('r + event) list) (Inr ds) =
      Inr (let fs = map (\<lambda>m. D (?p @ path_of h0 m) \<noteq> None) ns in
           if length ds < n_flags fs then Inl Invalid_tree
           else if n_flags fs < length ds then Inl Too_many_data
           else Inr (0, repaint (mark_all ns fs ds (\<lambda>_ x. x)) h0))"
    by (rule deserialize_stream [OF inp F k, where 'r = 'r and 'x = 'x and D = D]) (rule that; assumption)
  have ds: "ds = List.map_filter (\<lambda>m. D (?p @ path_of h0 m)) ns" and evs: "evs = List.map_filter (out_event E r g D) (walk_node ?p (nd_green (h ! c)))"
    using h1 ds'(1) by (simp_all add: h0 [symmetric] map_filter_map)
  show ?thesis using ds'(2) unfolding evs ds des Let_def n_flags_data by simp
qed

theorem deserialize_data_count_witness:
  "\<exists>r n evs h1. serialize 6 ex_env True r 0 (ex_marked n) = Inr ((evs, [7]), h1) \<and>
     deserialize 6 ex_env (map (\<lambda>x. Inr (transport ex_format x) :: unit + event) evs) (Inr ([] :: nat list)) = Inr (Inl Invalid_tree) \<and>
     deserialize 6 ex_env (map (\<lambda>x. Inr (transport ex_format x) :: unit + event) evs) (Inr [7, 8 :: nat]) = Inr (Inl Too_many_data)"
proof -
  obtain i n where ex: "ex_serde i n" "path_of (ex_marked n) 0 = []" "nd_green (ex_marked n ! 0) = n"
    "length (walk_node [] n) \<le> 6" "data_at (ex_marked n) [] = Some 7" "walk_nodes [] n = [Enter [], Leave []]" by (rule ex_serde_input)
  have k: "length (walk_node (path_of (ex_marked n) 0) (nd_green (ex_marked n ! 0))) \<le> 6" unfolding ex(2,3) by (rule ex(4))
  obtain evs h1 where s: "serialize 6 ex_env True i 0 (ex_marked n) = Inr ((evs, [7]), h1)"
    by (rule serialize_stream [OF ex(1) k refl, where with_data = True])
      (use ex(2,3,5,6) in \<open>simp add: data_seen_def map_filter_simps\<close>)
  have "deserialize 6 ex_env (map (\<lambda>x. Inr (transport ex_format x) :: unit + event) evs) (Inr ([] :: nat list)) = Inr (Inl Invalid_tree)"
    "deserialize 6 ex_env (map (\<lambda>x. Inr (transport ex_format x) :: unit + event) evs) (Inr [7, 8 :: nat]) = Inr (Inl Too_many_data)"
    by (simp_all add: deserialize_data_count [OF ex(1) ex_format_ok k s])
  with s show ?thesis by blast
qed

text \<open>C13: A stream that is not balanced is no error: after the events of a tree, one more \<open>LeaveNode\<close> panics; and a
  node that is entered before them and never left is dropped without notice, while its flag stays and shifts the data
  of all nodes by one.\<close>
theorem deserialize_unbalanced:
  fixes h :: "('j, 'x) heap" and E :: "('s, 'd, 'd token_interner, 'e) env"
  assumes inp: "serde_input E valid ok room r g h c t" and F: "format_ok F"
    and k: "length (walk_node (path_of h c) (nd_green (h ! c))) \<le> k"
    and seq: "serialize k E with_data r c h = Inr ((evs, ds), h1)" "seq = map (\<lambda>x. Inr (transport F x) :: 'r + event) evs"
  shows "visit_events E (seq @ [Inr LeaveNode]) = (Inl Unwrap_None :: ('r de_error + (nat \<times> ('d token_interner, 'x) heap) \<times> bool list) outcome) \<and>
    (\<exists>(root :: nat \<times> ('d token_interner, 'x) heap) flags. visit_events E seq = Inr (Inr (root, flags)) \<and>
       visit_events E (Inr (EnterNode (sx_into_raw (en_syntax E) kind) has_data) # seq) = Inr (Inr (root, has_data # flags)))"
proof -
  let ?p = "path_of h c" and ?m = "nd_green (h ! c)"
  have env: "tree_env E valid ok room" and new: "ok new_interner" and wf: "red_wf E g h" and c: "c < length h"
    and t: "represents E r t (Node ?m)" "tree_ok E valid t" "length (leaves t) \<le> room new_interner"
    and inj: "\<forall>i n. denote E new_interner (bytes_tree E t) = Inr (i, Node n) \<longrightarrow> inj_on gn_head (set (subnodes n))"
    using inp by (auto simp: serde_input_def)
  have sub: "sub (Node g) (?p @ q) = sub (Node ?m) q" for q using node_sub [OF wf c] by (simp add: sub_append)
  obtain D where D: "D = data_seen with_data h" by simp
  obtain h1' where "serialize k E with_data r c h = Inr (
      (List.map_filter (out_event E r g D) (walk_node ?p ?m),
       List.map_filter (\<lambda>q. D (?p @ q)) (entered (walk_nodes [] ?m))), h1')"
    by (rule serialize_stream [OF inp k D])
  with seq have "seq = map (\<lambda>x. Inr (transport F x)) (List.map_filter (out_event E r g D) (walk_node ?p ?m))" by simp
  then obtain i n where v: "visit_events E seq = Inr (Inr (make_new_root n (Some i) :: nat \<times> ('d token_interner, 'x) heap,
        map (\<lambda>p. D p \<noteq> None) (entered (walk_nodes ?p ?m))))"
    "visit_events E (Inr (EnterNode (sx_into_raw (en_syntax E) kind) has_data) # seq) =
      Inr (Inr (make_new_root n (Some i) :: nat \<times> ('d token_interner, 'x) heap, has_data # map (\<lambda>p. D p \<noteq> None) (entered (walk_nodes ?p ?m))))"
    "visit_events E (seq @ [Inr LeaveNode]) = (Inl Unwrap_None ::
      ('r de_error + (nat \<times> ('d token_interner, 'x) heap) \<times> bool list) outcome)"
    by (rule visit_stream [OF env new F t sub inj, where 'x = 'x]) (rule that; simp)
  show ?thesis unfolding v by simp
qed

theorem deserialize_unbalanced_witness:
  "\<exists>r n evs ds h1. serialize 6 ex_env False r 0 (ex_marked n) = Inr ((evs, ds), h1) \<and>
     visit_events ex_env (map (\<lambda>x. Inr (transport ex_format x) :: unit + event) evs @ [Inr LeaveNode]) =
       (Inl Unwrap_None :: (unit de_error + (nat \<times> (rust_str token_interner, nat) heap) \<times> bool list) outcome)"
proof -
  obtain i n where ex: "ex_serde i n" "path_of (ex_marked n) 0 = []" "nd_green (ex_marked n ! 0) = n"
    "length (walk_node [] n) \<le> 6" by (rule ex_serde_input)
  have k: "length (walk_node (path_of (ex_marked n) 0) (nd_green (ex_marked n ! 0))) \<le> 6" unfolding ex(2,3) by (rule ex(4))
  obtain evs ds h1 where s: "serialize 6 ex_env False i 0 (ex_marked n) = Inr ((evs, ds), h1)"
    by (rule serialize_stream [OF ex(1) k refl])
  from deserialize_unbalanced [OF ex(1) ex_format_ok k s refl, where 'r = unit, THEN conjunct1] s show ?thesis by blast
qed

end
