(* ===== verification/Green_Pointer.thy ===== *)
theory Green_Pointer
  imports Green
begin

unbundle bit_operations_syntax

text \<open>
  The pointers of the green tree, \<open>cstree/src/green/{token,element}.rs\<close>: the tag in the
  lowest bit of a \<open>GreenToken\<close>, and \<open>PackedGreenElement\<close>, one word that is either a node or a
  token pointer. Addresses are 64 bits wide. What lies at an address is an argument, \<open>mem\<close>: the
  \<open>Arc\<close>s of the \<open>triomphe\<close> crate allocate and free it. They place a \<open>GreenTokenData\<close>, which is
  declared \<open>align(2)\<close>, and the header of a node, which starts with a word-sized counter, at even
  addresses.
\<close>

type_synonym addr = "64 word"

text \<open>What is allocated at an address.\<close>

type_synonym memory = "addr \<Rightarrow> green_element option"

definition aligned :: "addr \<Rightarrow> bool" where
  "aligned p \<longleftrightarrow> take_bit 1 p = 0"

text \<open>Allocations are aligned and not null.\<close>

definition memory_ok :: "memory \<Rightarrow> bool" where
  "memory_ok mem \<longleftrightarrow> (\<forall>p \<in> dom mem. aligned p \<and> p \<noteq> 0)"

section \<open>Tagged token pointers\<close>

definition IS_TOKEN_TAG :: addr where
  "IS_TOKEN_TAG = 0x1"

datatype green_token_ptr = GreenToken (gp_ptr: addr)

definition add_tag :: "addr \<Rightarrow> addr" where
  "add_tag ptr = (ptr OR IS_TOKEN_TAG)"

definition remove_tag :: "addr \<Rightarrow> addr" where
  "remove_tag ptr = (ptr AND NOT IS_TOKEN_TAG)"

text \<open>\<open>raw_data\<close> dereferences the untagged pointer.\<close>

definition raw_data :: "memory \<Rightarrow> green_token_ptr \<Rightarrow> green_token outcome" where
  "raw_data mem t = (case mem (remove_tag (gp_ptr t)) of Some (Token d) \<Rightarrow> Inr d | _ \<Rightarrow> Inl Undefined_behaviour)"

text \<open>\<open>GreenToken::new\<close>, given the address that \<open>Arc::new\<close> chose.\<close>

definition green_token_new :: "addr \<Rightarrow> green_token \<Rightarrow> memory \<Rightarrow> green_token_ptr \<times> memory" where
  "green_token_new ptr data mem = (GreenToken (add_tag ptr), mem(ptr \<mapsto> Token data))"

text \<open>\<open>Clone\<close>: the counter at the untagged address goes up, the copy is tagged again.\<close>

definition green_token_clone :: "green_token_ptr \<Rightarrow> addr \<times> green_token_ptr" where
  "green_token_clone t = (let ptr = remove_tag (gp_ptr t) in (ptr, GreenToken (add_tag ptr)))"

definition green_token_eq :: "memory \<Rightarrow> green_token_ptr \<Rightarrow> green_token_ptr \<Rightarrow> bool outcome" where
  "green_token_eq mem t u = bindO (raw_data mem t) (\<lambda>a. bindO (raw_data mem u) (\<lambda>b. Inr (a = b)))"

text \<open>\<open>Drop\<close>: the address whose \<open>Arc\<close> is given back.\<close>

definition green_token_drop :: "green_token_ptr \<Rightarrow> addr" where
  "green_token_drop t = remove_tag (gp_ptr t)"

section \<open>Packed elements\<close>

text \<open>A \<open>GreenNode\<close> is its \<open>ThinArc\<close>'s pointer.\<close>

datatype green_node_ptr = GreenNodePtr (np_ptr: addr)

type_synonym green_element_ptr = "(green_node_ptr, green_token_ptr) node_or_token"

datatype packed = Packed (pk_ptr: addr)

text \<open>\<open>From<GreenElement> for PackedGreenElement\<close>: transmutes of the pointers.\<close>

fun pack :: "green_element_ptr \<Rightarrow> packed" where
  "pack (Node n) = Packed (np_ptr n)"
| "pack (Token t) = Packed (gp_ptr t)"

definition packed_is_node :: "packed \<Rightarrow> bool" where
  "packed_is_node e \<longleftrightarrow> (pk_ptr e AND IS_TOKEN_TAG) = 0"

definition packed_into_node :: "packed \<Rightarrow> green_node_ptr option" where
  "packed_into_node e = (if packed_is_node e then Some (GreenNodePtr (pk_ptr e)) else None)"

definition packed_into_token :: "packed \<Rightarrow> green_token_ptr option" where
  "packed_into_token e = (if \<not> packed_is_node e then Some (GreenToken (pk_ptr e)) else None)"

definition packed_as_node :: "packed \<Rightarrow> green_node_ptr option" where
  "packed_as_node e = (if packed_is_node e then Some (GreenNodePtr (pk_ptr e)) else None)"

definition packed_as_token :: "packed \<Rightarrow> green_token_ptr option" where
  "packed_as_token e = (if \<not> packed_is_node e then Some (GreenToken (pk_ptr e)) else None)"

definition unpack :: "packed \<Rightarrow> green_element_ptr outcome" where
  "unpack e =
     (if packed_is_node e then bindO (unwrap (packed_into_node e)) (\<lambda>n. Inr (Node n))
      else bindO (unwrap (packed_into_token e)) (\<lambda>t. Inr (Token t)))"

definition packed_as_ref :: "packed \<Rightarrow> green_element_ptr outcome" where
  "packed_as_ref e =
     (if packed_is_node e then bindO (unwrap (packed_as_node e)) (\<lambda>n. Inr (Node n))
      else bindO (unwrap (packed_as_token e)) (\<lambda>t. Inr (Token t)))"

text \<open>Following a packed pointer.\<close>

definition node_at :: "memory \<Rightarrow> green_node_ptr \<Rightarrow> green_node outcome" where
  "node_at mem n = (case mem (np_ptr n) of Some (Node d) \<Rightarrow> Inr d | _ \<Rightarrow> Inl Undefined_behaviour)"

definition packed_element :: "memory \<Rightarrow> packed \<Rightarrow> green_element outcome" where
  "packed_element mem e = bindO (packed_as_ref e) (\<lambda>r.
     case r of Node n \<Rightarrow> bindO (node_at mem n) (\<lambda>d. Inr (Node d)) | Token t \<Rightarrow> bindO (raw_data mem t) (\<lambda>d. Inr (Token d)))"

text \<open>
  \<open>PartialEq\<close> compares the two options, whose contents are compared by what they point to; two
  \<open>None\<close> are equal.
\<close>

fun opt_eq :: "('a \<Rightarrow> 'a \<Rightarrow> bool outcome) \<Rightarrow> 'a option \<Rightarrow> 'a option \<Rightarrow> bool outcome" where
  "opt_eq eq None None = Inr True"
| "opt_eq eq (Some a) (Some b) = eq a b"
| "opt_eq eq _ _ = Inr False"

definition packed_eq :: "memory \<Rightarrow> packed \<Rightarrow> packed \<Rightarrow> bool outcome" where
  "packed_eq mem e f =
     bindO (opt_eq (\<lambda>m n. bindO (node_at mem m) (\<lambda>a. bindO (node_at mem n) (\<lambda>b. Inr (green_node_eq a b))))
       (packed_as_node e) (packed_as_node f)) (\<lambda>nodes_equal.
     if nodes_equal then opt_eq (green_token_eq mem) (packed_as_token e) (packed_as_token f) else Inr False)"

text \<open>\<open>Drop\<close>: which \<open>Arc\<close> is given back.\<close>

datatype released = Release_node addr | Release_token addr

definition packed_drop :: "packed \<Rightarrow> released" where
  "packed_drop e =
     (if packed_is_node e then Release_node (pk_ptr e) else Release_token (green_token_drop (GreenToken (pk_ptr e))))"

section \<open>The tag\<close>

lemma aligned_bit: "aligned p \<Longrightarrow> \<not> bit p 0"
  using bit_take_bit_iff [of 1 p 0] by (simp only: aligned_def) simp

lemma memory_ok_at: "memory_ok mem \<Longrightarrow> mem p = Some d \<Longrightarrow> aligned p \<and> \<not> bit p 0 \<and> p \<noteq> 0"
  unfolding memory_ok_def using aligned_bit by blast

lemma tag_and: "(p AND IS_TOKEN_TAG) = 0 \<longleftrightarrow> \<not> bit p 0"
  by (simp add: IS_TOKEN_TAG_def and_one_eq bit_0 odd_iff_mod_2_eq_one even_iff_mod_2_eq_zero)

lemma remove_add_tag:
  assumes "aligned p"
  shows "remove_tag (add_tag p) = p"
proof (rule bit_word_eqI)
  fix n assume "n < LENGTH(64)"
  then show "bit (remove_tag (add_tag p)) n \<longleftrightarrow> bit p n"
    using aligned_bit [OF assms]
    by (cases "n = 0") (simp_all add: remove_tag_def add_tag_def IS_TOKEN_TAG_def bit_simps)
qed

lemma add_tag_bit: "bit (add_tag p) 0"
  by (simp add: add_tag_def IS_TOKEN_TAG_def bit_or_iff)

lemma add_tag_nonzero: "add_tag p \<noteq> 0"
  using add_tag_bit [of p] by auto

lemma packed_is_node_iff: "packed_is_node e \<longleftrightarrow> \<not> bit (pk_ptr e) 0"
  by (simp add: packed_is_node_def tag_and)

text \<open>The pointers that code outside the module can hold.\<close>

fun ptr_ok :: "memory \<Rightarrow> green_element_ptr \<Rightarrow> green_element \<Rightarrow> bool" where
  "ptr_ok mem (Node n) (Node d) \<longleftrightarrow> mem (np_ptr n) = Some (Node d)"
| "ptr_ok mem (Token t) (Token d) \<longleftrightarrow> (\<exists>p. t = GreenToken (add_tag p) \<and> mem p = Some (Token d))"
| "ptr_ok mem _ _ \<longleftrightarrow> False"

section \<open>Properties\<close>

text \<open>C40: Packing an element pointer into one word and unpacking it gives the pointer back; the packed word leads to
  exactly the node or token that the pointer led to, never to one of the other kind or to the tagged, odd address.\<close>
theorem pack_unpack:
  assumes "memory_ok mem" "ptr_ok mem r d"
  shows "unpack (pack r) = Inr r \<and> packed_as_ref (pack r) = Inr r \<and> packed_element mem (pack r) = Inr d"
proof (cases r)
  case (Node n)
  with assms obtain m where m: "d = Node m" "mem (np_ptr n) = Some (Node m)" by (cases d) auto
  with memory_ok_at [OF assms(1)] have "\<not> bit (np_ptr n) 0" by blast
  then have "packed_is_node (pack r)" by (simp add: Node packed_is_node_iff)
  with Node m show ?thesis
    by (simp add: unpack_def packed_as_ref_def packed_element_def packed_into_node_def packed_as_node_def node_at_def)
next
  case (Token t)
  with assms obtain p x where p: "d = Token x" "t = GreenToken (add_tag p)" "mem p = Some (Token x)" by (cases d) auto
  with memory_ok_at [OF assms(1)] have "remove_tag (add_tag p) = p" by (blast intro: remove_add_tag)
  moreover have "\<not> packed_is_node (pack r)" using p by (simp add: Token packed_is_node_iff add_tag_bit)
  ultimately show ?thesis using Token p
    by (simp add: unpack_def packed_as_ref_def packed_element_def packed_into_token_def packed_as_token_def raw_data_def)
qed

text \<open>A node at 8 and a token at 16.\<close>

definition ex_memory :: memory where
  "ex_memory = [8 \<mapsto> Node (GreenNode \<lparr>gh_kind = 1, gh_text_len = 0, gh_child_hash = 0\<rparr> []),
     16 \<mapsto> Token \<lparr>gt_kind = 2, gt_data = None, gt_data_len = 1\<rparr>]"

lemma ex_memory_ok: "memory_ok ex_memory"
  by (auto simp: memory_ok_def ex_memory_def aligned_def split: if_splits)

theorem pack_unpack_witness:
  "unpack (pack (Token (GreenToken 17))) = Inr (Token (GreenToken 17)) \<and>
   packed_element ex_memory (Packed 17) = Inr (Token \<lparr>gt_kind = 2, gt_data = None, gt_data_len = 1\<rparr>)"
proof -
  have "ptr_ok ex_memory (Token (GreenToken 17)) (Token \<lparr>gt_kind = 2, gt_data = None, gt_data_len = 1\<rparr>)"
    by (simp add: ex_memory_def add_tag_def IS_TOKEN_TAG_def) (rule exI [of _ 16], simp)
  from pack_unpack [OF ex_memory_ok this] show ?thesis by simp
qed

text \<open>A token made at the address its \<open>Arc\<close> was given is tagged and not null, leads to its data, and is cloned and
  dropped, packed or not, through that very address and as a token; memory stays in order and no other pointer is affected.\<close>
theorem token_life_cycle:
  assumes "memory_ok mem" "aligned p" "p \<noteq> 0" "mem p = None" "green_token_new p data mem = (t, mem')"
  shows "memory_ok mem' \<and> raw_data mem' t = Inr data \<and> ptr_ok mem' (Token t) (Token data) \<and> gp_ptr t \<noteq> 0 \<and>
    green_token_clone t = (p, t) \<and> green_token_drop t = p \<and> packed_drop (pack (Token t)) = Release_token p \<and>
    (\<forall>r d. ptr_ok mem r d \<longrightarrow> ptr_ok mem' r d)"
proof -
  have t: "t = GreenToken (add_tag p)" "mem' = mem(p \<mapsto> Token data)" using assms(5) by (auto simp: green_token_new_def)
  have "ptr_ok mem' r d" if "ptr_ok mem r d" for r d
    using that assms(4) t(2) by (cases r; cases d) auto
  moreover have "ptr_ok mem' (Token t) (Token data)" using t by auto
  moreover have "\<not> packed_is_node (pack (Token t))" by (simp add: t(1) packed_is_node_iff add_tag_bit)
  ultimately show ?thesis
    using assms(1-3) remove_add_tag [OF assms(2)] add_tag_nonzero [of p]
    by (auto simp: t memory_ok_def raw_data_def green_token_clone_def green_token_drop_def packed_drop_def)
qed

theorem token_life_cycle_witness:
  "packed_drop (pack (Token (fst (green_token_new 24 \<lparr>gt_kind = 2, gt_data = None, gt_data_len = 1\<rparr> ex_memory)))) = Release_token 24"
  using token_life_cycle [OF ex_memory_ok, of 24]
  by (simp add: aligned_def ex_memory_def green_token_new_def)

text \<open>Comparing two packed elements never dereferences a wrong pointer and says whether the elements they lead to
  are equal: a node is never equal to a token, and elements of one kind are compared by what they are.\<close>
theorem packed_eq_elements:
  assumes "memory_ok mem" "ptr_ok mem r d" "ptr_ok mem s e"
  shows "packed_eq mem (pack r) (pack s) = Inr (d = e)"
proof -
  have node: "packed_as_node (pack q) = into_node q" "packed_as_token (pack q) = into_token q" if "ptr_ok mem q x" for q x
    using pack_unpack [OF assms(1) that]
    by (cases q; auto simp: packed_as_ref_def packed_as_node_def packed_as_token_def bindO_eq_Inr split: if_splits)+
  have data: "raw_data mem t = Inr x" if "ptr_ok mem (Token t) (Token x)" for t x
    using that memory_ok_at [OF assms(1)] by (auto simp: raw_data_def remove_add_tag)
  show ?thesis
  proof (cases r)
    case (Node m)
    with assms(2) obtain a where a: "d = Node a" "node_at mem m = Inr a" by (cases d) (auto simp: node_at_def)
    show ?thesis
    proof (cases s)
      case Node': (Node n)
      with assms(3) obtain b where "e = Node b" "node_at mem n = Inr b" by (cases e) (auto simp: node_at_def)
      with Node Node' a node [OF assms(2)] node [OF assms(3)] show ?thesis
        by (simp add: packed_eq_def green_node_eq_iff)
    next
      case (Token u)
      with assms(3) obtain y where "e = Token y" by (cases e) auto
      with Node Token a node [OF assms(2)] node [OF assms(3)] show ?thesis by (simp add: packed_eq_def)
    qed
  next
    case (Token t)
    with assms(2) obtain x where x: "d = Token x" "raw_data mem t = Inr x" using data by (cases d) auto
    show ?thesis
    proof (cases s)
      case (Node n)
      with assms(3) obtain b where "e = Node b" by (cases e) auto
      with Token Node x node [OF assms(2)] node [OF assms(3)] show ?thesis by (simp add: packed_eq_def)
    next
      case Token': (Token u)
      with assms(3) obtain y where "e = Token y" "raw_data mem u = Inr y" using data by (cases e) auto
      with Token Token' x node [OF assms(2)] node [OF assms(3)] show ?thesis
        by (simp add: packed_eq_def green_token_eq_def)
    qed
  qed
qed

theorem packed_eq_elements_witness:
  "packed_eq ex_memory (Packed 8) (Packed 17) = Inr False \<and> packed_eq ex_memory (Packed 17) (Packed 17) = Inr True"
proof -
  have t: "ptr_ok ex_memory (Token (GreenToken 17)) (Token \<lparr>gt_kind = 2, gt_data = None, gt_data_len = 1\<rparr>)"
    by (simp add: ex_memory_def add_tag_def IS_TOKEN_TAG_def) (rule exI [of _ 16], simp)
  have n: "ptr_ok ex_memory (Node (GreenNodePtr 8)) (Node (GreenNode \<lparr>gh_kind = 1, gh_text_len = 0, gh_child_hash = 0\<rparr> []))"
    by (simp add: ex_memory_def)
  show ?thesis using packed_eq_elements [OF ex_memory_ok n t] packed_eq_elements [OF ex_memory_ok t t] by simp
qed

end
