(* ===== verification/Red_Iter.thy ===== *)
theory Red_Iter
  imports Red_Path
begin

text \<open>
  The child iterators of \<open>cstree/src/syntax/iter.rs\<close>. An iterator is a value that \<open>next\<close>
  returns updated; calling it creates the child it yields.
\<close>

section \<open>The inner iterator\<close>

record child_iter =
  it_green :: children_iter
  it_offset :: text_size
  it_index :: nat

definition child_iter_new :: "('s, 'd, 'i, 'e) env \<Rightarrow> ('j, 'x) heap \<Rightarrow> nat \<Rightarrow> child_iter outcome" where
  "child_iter_new E h parent = bindO (node_text_range E h parent) (\<lambda>r.
     bindO (node_green h parent) (\<lambda>g.
     Inr \<lparr>it_green = gn_children_iter g, it_offset = tr_start r, it_index = 0\<rparr>))"

definition child_iter_next :: "text_ops \<Rightarrow> child_iter \<Rightarrow> (green_element \<times> nat \<times> text_size) option \<times> child_iter" where
  "child_iter_next T it =
     (case iter_next (it_green it) of
        (None, green) \<Rightarrow> (None, it\<lparr>it_green := green\<rparr>)
      | (Some element, green) \<Rightarrow>
          (Some (element, it_index it, it_offset it),
           \<lparr>it_green = green, it_offset = ts_add T (it_offset it) (ge_text_len element), it_index = it_index it + 1\<rparr>))"

definition child_iter_size_hint :: "child_iter \<Rightarrow> nat \<times> nat option" where
  "child_iter_size_hint it = iter_size_hint (it_green it)"

definition child_iter_count :: "child_iter \<Rightarrow> nat" where
  "child_iter_count it = iter_count (it_green it)"

definition child_iter_len :: "child_iter \<Rightarrow> nat" where
  "child_iter_len it = iter_len (it_green it)"

section \<open>Child nodes\<close>

record node_children_iter =
  nc_inner :: child_iter
  nc_parent :: nat

text \<open>\<open>SyntaxNode::children\<close>\<close>

definition children_of :: "('s, 'd, 'i, 'e) env \<Rightarrow> ('j, 'x) heap \<Rightarrow> nat \<Rightarrow> node_children_iter outcome" where
  "children_of E h n = bindO (child_iter_new E h n) (\<lambda>inner. Inr \<lparr>nc_inner = inner, nc_parent = n\<rparr>)"

lemma child_iter_next_shorter [termination_simp]:
  "child_iter_next T it = (Some x, it') \<Longrightarrow> length (it_green it') < length (it_green it)"
  by (cases "it_green it") (auto simp: child_iter_next_def)

text \<open>The loop passes over the tokens.\<close>

function node_children_next :: "('s, 'd, 'i, 'e) env \<Rightarrow> node_children_iter \<Rightarrow>
  ('j, 'x, nat option \<times> node_children_iter) red" where
  "node_children_next E it =
     (case child_iter_next (en_text E) (nc_inner it) of
        (None, inner) \<Rightarrow> returnR (None, it\<lparr>nc_inner := inner\<rparr>)
      | (Some (element, index, offset), inner) \<Rightarrow>
          (case as_node element of
             Some node \<Rightarrow> bindR (get_or_add_node E (nc_parent it) node index offset) (\<lambda>e.
               bindR (readR (\<lambda>_. unwrap (as_node e))) (\<lambda>c. returnR (Some c, it\<lparr>nc_inner := inner\<rparr>)))
           | None \<Rightarrow> node_children_next E (it\<lparr>nc_inner := inner\<rparr>)))"
  by pat_completeness auto
termination
  by (relation "measure (\<lambda>(E, it). length (it_green (nc_inner it)))") (auto dest: child_iter_next_shorter [OF sym])

declare node_children_next.simps [simp del]

definition node_children_size_hint :: "node_children_iter \<Rightarrow> nat \<times> nat option" where
  "node_children_size_hint it = child_iter_size_hint (nc_inner it)"

definition node_children_count :: "node_children_iter \<Rightarrow> nat" where
  "node_children_count it = child_iter_count (nc_inner it)"

definition node_children_len :: "node_children_iter \<Rightarrow> nat" where
  "node_children_len it = child_iter_len (nc_inner it)"

section \<open>Child elements\<close>

record element_children_iter =
  ec_inner :: child_iter
  ec_parent :: nat

text \<open>\<open>SyntaxNode::children_with_tokens\<close>\<close>

definition children_with_tokens :: "('s, 'd, 'i, 'e) env \<Rightarrow> ('j, 'x) heap \<Rightarrow> nat \<Rightarrow> element_children_iter outcome" where
  "children_with_tokens E h n = bindO (child_iter_new E h n) (\<lambda>inner. Inr \<lparr>ec_inner = inner, ec_parent = n\<rparr>)"

definition element_children_next :: "('s, 'd, 'i, 'e) env \<Rightarrow> element_children_iter \<Rightarrow>
  ('j, 'x, syntax_element option \<times> element_children_iter) red" where
  "element_children_next E it =
     (case child_iter_next (en_text E) (ec_inner it) of
        (None, inner) \<Rightarrow> returnR (None, it\<lparr>ec_inner := inner\<rparr>)
      | (Some (green, index, offset), inner) \<Rightarrow>
          bindR (get_or_add_element E (ec_parent it) green index offset) (\<lambda>e. returnR (Some e, it\<lparr>ec_inner := inner\<rparr>)))"

definition element_children_size_hint :: "element_children_iter \<Rightarrow> nat \<times> nat option" where
  "element_children_size_hint it = child_iter_size_hint (ec_inner it)"

definition element_children_count :: "element_children_iter \<Rightarrow> nat" where
  "element_children_count it = child_iter_count (ec_inner it)"

definition element_children_len :: "element_children_iter \<Rightarrow> nat" where
  "element_children_len it = child_iter_len (ec_inner it)"

text \<open>All items an iterator yields before its first \<open>None\<close>, at most \<open>k\<close>.\<close>

fun collect :: "nat \<Rightarrow> ('t \<Rightarrow> ('j, 'x, 'a option \<times> 't) red) \<Rightarrow> 't \<Rightarrow> ('j, 'x, 'a list) red" where
  "collect 0 next it = panicR Out_of_fuel"
| "collect (Suc k) next it = bindR (next it) (\<lambda>(x, it').
     case x of None \<Rightarrow> returnR [] | Some a \<Rightarrow> bindR (collect k next it') (\<lambda>as. returnR (a # as)))"

section \<open>What they yield\<close>

text \<open>An iterator that is to yield the \<open>i\<close>-th child of a node next.\<close>

definition iter_ok :: "('j, 'x) node_data \<Rightarrow> nat \<Rightarrow> child_iter \<Rightarrow> bool" where
  "iter_ok d i it \<longleftrightarrow> i \<le> length (node_children d) \<and> it_green it = drop i (node_children d) \<and> it_index it = i \<and>
     unat (it_offset it) = child_start d i"

lemma iter_ok_same: "nd_green d' = nd_green d \<Longrightarrow> node_start d' = node_start d \<Longrightarrow> iter_ok d' i it \<longleftrightarrow> iter_ok d i it"
  by (simp add: iter_ok_def node_children_def child_start_def)

lemma iter_ok_le: "heap_le h h' \<Longrightarrow> n < length h \<Longrightarrow> iter_ok (h ! n) i it \<Longrightarrow> iter_ok (h' ! n) i it"
  using heap_le_node [of h h' n] by (simp add: iter_ok_def)

lemma child_iter_next_None:
  "iter_ok d i it \<Longrightarrow> \<not> i < length (node_children d) \<Longrightarrow> child_iter_next T it = (None, it)"
  by (cases it) (simp add: iter_ok_def child_iter_next_def)

text \<open>The positions of the nodes among the children.\<close>

abbreviation node_positions :: "green_element list \<Rightarrow> nat \<Rightarrow> nat list" where
  "node_positions cs i \<equiv> filter (\<lambda>j. as_node (cs ! j) \<noteq> None) [i..<length cs]"

context red_env
begin

lemma child_iter_new_ok:
  assumes "red_wf E g h" "n < length h"
  shows "\<exists>it. child_iter_new E h n = Inr it \<and> iter_ok (h ! n) 0 it"
  using node_range [OF assms] assms(2)
  by (auto simp: child_iter_new_def node_green_eq iter_ok_def gn_children_iter_def node_children_def)

lemma child_iter_next_Some:
  assumes ok: "node_ok E h n" and it: "iter_ok (h ! n) i it" and i: "i < length (node_children (h ! n))"
  obtains it' where "child_iter_next (en_text E) it = (Some (node_children (h ! n) ! i, i, it_offset it), it')"
    "iter_ok (h ! n) (Suc i) it'" "unat (it_offset it) = child_start (h ! n) i"
proof -
  let ?c = "node_children (h ! n) ! i"
  note child = node_ok_child [OF ok i]
  have len: "unat (ge_text_len ?c) = element_len ?c" using child by (intro element_len_exact) auto
  have "it_green it = ?c # drop (Suc i) (node_children (h ! n))"
    using it i by (simp add: iter_ok_def Cons_nth_drop_Suc)
  moreover have "unat (ts_add (en_text E) (it_offset it) (ge_text_len ?c)) = child_start (h ! n) (Suc i)"
    using it child len i by (subst unat_add_fits) (simp_all add: iter_ok_def child_start_Suc)
  ultimately show thesis
    using that [of "\<lparr>it_green = drop (Suc i) (node_children (h ! n)),
        it_offset = ts_add (en_text E) (it_offset it) (ge_text_len ?c), it_index = Suc i\<rparr>"] it i
    by (simp add: child_iter_next_def iter_ok_def)
qed

lemma nav_get_or_add_element:
  assumes "red_wf E g h" "n < length h" "i < length (node_children (h ! n))"
    and "el = node_children (h ! n) ! i" "unat offset = child_start (h ! n) i"
  shows "nav E g h (get_or_add_element E n el i offset) (\<lambda>h' e. child_at h' n i e)"
  using get_or_add_element_ok [OF assms] by (auto simp: nav_def)

text \<open>Collecting the children with tokens.\<close>

lemma nav_element_children_next:
  assumes wf: "red_wf E g h" and n: "n < length h" and it: "iter_ok (h ! n) i (ec_inner it)" "ec_parent it = n"
  shows "nav E g h (element_children_next E it) (\<lambda>h' (x, it').
    ec_parent it' = n \<and>
    (case x of
       None \<Rightarrow> i = length (node_children (h ! n)) \<and> it' = it
     | Some e \<Rightarrow> child_at h' n i e \<and> iter_ok (h' ! n) (Suc i) (ec_inner it')))"
proof (cases "i < length (node_children (h ! n))")
  case False
  with it wf show ?thesis
    by (auto simp: element_children_next_def child_iter_next_None [OF it(1)] iter_ok_def intro!: nav_return)
next
  case True
  from child_iter_next_Some [OF red_wf_node [OF wf n] it(1) True] obtain inner where
    s: "child_iter_next (en_text E) (ec_inner it) = (Some (node_children (h ! n) ! i, i, it_offset (ec_inner it)), inner)"
      "iter_ok (h ! n) (Suc i) inner" "unat (it_offset (ec_inner it)) = child_start (h ! n) i" .
  show ?thesis unfolding element_children_next_def s(1) it(2)
    by simp (rule nav_bind [OF nav_get_or_add_element [OF wf n True refl s(3)]],
        rule nav_return, assumption, simp add: it(2) iter_ok_le [OF _ n s(2)])
qed

lemma nav_collect_elements:
  "red_wf E g h \<Longrightarrow> n < length h \<Longrightarrow> iter_ok (h ! n) i (ec_inner it) \<Longrightarrow> ec_parent it = n \<Longrightarrow>
   length (node_children (h ! n)) < i + k \<Longrightarrow>
   nav E g h (collect k (element_children_next E) it) (\<lambda>h' es.
     length es = length (node_children (h ! n)) - i \<and> (\<forall>j < length es. child_at h' n (i + j) (es ! j)))"
proof (induction k arbitrary: h i it)
  case 0
  then show ?case by (simp add: iter_ok_def)
next
  case (Suc k h i it)
  note wf = Suc.prems(1) and n = Suc.prems(2)
  show ?case unfolding collect.simps
  proof (rule nav_bind [OF nav_element_children_next [OF wf n Suc.prems(3,4)]])
    fix h1 r assume wf1: "red_wf E g h1" and le: "heap_le h h1" and r: "case r of (x, it') \<Rightarrow> ec_parent it' = n \<and>
      (case x of None \<Rightarrow> i = length (node_children (h ! n)) \<and> it' = it
       | Some e \<Rightarrow> child_at h1 n i e \<and> iter_ok (h1 ! n) (Suc i) (ec_inner it'))"
    obtain x it' where rx: "r = (x, it')" by (cases r)
    note same = heap_le_node [OF le n]
    show "nav E g h1 (case r of (x, it') \<Rightarrow> (case x of None \<Rightarrow> returnR []
        | Some a \<Rightarrow> bindR (collect k (element_children_next E) it') (\<lambda>as. returnR (a # as))))
      (\<lambda>h' es. length es = length (node_children (h ! n)) - i \<and> (\<forall>j < length es. child_at h' n (i + j) (es ! j)))"
    proof (cases x)
      case None
      with r rx wf1 show ?thesis by (simp add: nav_return)
    next
      case (Some e)
      with r rx have e: "child_at h1 n i e" "iter_ok (h1 ! n) (Suc i) (ec_inner it')" "ec_parent it' = n" by simp_all
      have "nav E g h1 (bindR (collect k (element_children_next E) it') (\<lambda>as. returnR (e # as)))
        (\<lambda>h' es. length es = length (node_children (h ! n)) - i \<and> (\<forall>j < length es. child_at h' n (i + j) (es ! j)))"
      proof (rule nav_bind [OF Suc.IH [OF wf1 same(1) e(2,3)]])
        show "length (node_children (h1 ! n)) < Suc i + k" using Suc.prems(5) same by simp
        fix h2 es assume wf2: "red_wf E g h2" and le2: "heap_le h1 h2"
          and es: "length es = length (node_children (h1 ! n)) - Suc i \<and> (\<forall>j < length es. child_at h2 n (Suc i + j) (es ! j))"
        have "child_at h2 n i e" using le2 e(1) by (rule heap_le_child_at)
        then have "child_at h2 n (i + j) ((e # es) ! j)" if "j < length (e # es)" for j
          using es that by (cases j) auto
        moreover have "i < length (node_children (h ! n))" using e(2) same by (simp add: iter_ok_def)
        ultimately show "nav E g h2 (returnR (e # es))
          (\<lambda>h' es. length es = length (node_children (h ! n)) - i \<and> (\<forall>j < length es. child_at h' n (i + j) (es ! j)))"
          using es same wf2 by (intro nav_return) auto
      qed
      with Some rx show ?thesis by simp
    qed
  qed
qed

text \<open>The next child node passes over tokens.\<close>

lemma nav_node_children_next:
  "red_wf E g h \<Longrightarrow> n < length h \<Longrightarrow> iter_ok (h ! n) i (nc_inner it) \<Longrightarrow> nc_parent it = n \<Longrightarrow>
   nav E g h (node_children_next E it) (\<lambda>h' (x, it').
     nc_parent it' = n \<and>
     (case x of
        None \<Rightarrow> \<forall>j. i \<le> j \<and> j < length (node_children (h ! n)) \<longrightarrow> as_node (node_children (h ! n) ! j) = None
      | Some c \<Rightarrow> \<exists>j \<ge> i. child_at h' n j (Node c) \<and> iter_ok (h' ! n) (Suc j) (nc_inner it') \<and>
          (\<forall>k. i \<le> k \<and> k < j \<longrightarrow> as_node (node_children (h ! n) ! k) = None)))"
proof (induction "length (node_children (h ! n)) - i" arbitrary: i it)
  case 0
  then have "\<not> i < length (node_children (h ! n))" by simp
  with child_iter_next_None [OF 0(4) this] 0 show ?case
    by (auto simp: node_children_next.simps [of E it] intro!: nav_return)
next
  case (Suc m)
  note wf = Suc.prems(1) and n = Suc.prems(2)
  let ?cs = "node_children (h ! n)"
  from Suc.hyps(2) have i: "i < length ?cs" by simp
  from child_iter_next_Some [OF red_wf_node [OF wf n] Suc.prems(3) i] obtain inner where
    s: "child_iter_next (en_text E) (nc_inner it) = (Some (?cs ! i, i, it_offset (nc_inner it)), inner)"
      "iter_ok (h ! n) (Suc i) inner" "unat (it_offset (nc_inner it)) = child_start (h ! n) i" .
  show ?case
  proof (cases "?cs ! i")
    case (Token t)
    have next_eq: "node_children_next E it = node_children_next E (it\<lparr>nc_inner := inner\<rparr>)"
      using Token by (simp add: node_children_next.simps [of E it] s(1))
    have "nav E g h (node_children_next E (it\<lparr>nc_inner := inner\<rparr>)) (\<lambda>h' (x, it').
      nc_parent it' = n \<and>
      (case x of
         None \<Rightarrow> \<forall>j. Suc i \<le> j \<and> j < length ?cs \<longrightarrow> as_node (?cs ! j) = None
       | Some c \<Rightarrow> \<exists>j \<ge> Suc i. child_at h' n j (Node c) \<and> iter_ok (h' ! n) (Suc j) (nc_inner it') \<and>
           (\<forall>k. Suc i \<le> k \<and> k < j \<longrightarrow> as_node (?cs ! k) = None)))"
      by (rule Suc.hyps(1)) (use Suc.hyps(2) Suc.prems s(2) in auto)
    then show ?thesis unfolding next_eq
    proof (rule nav_mono)
      fix h' r
      assume r: "case r of (x, it') \<Rightarrow> nc_parent it' = n \<and>
        (case x of
           None \<Rightarrow> \<forall>j. Suc i \<le> j \<and> j < length ?cs \<longrightarrow> as_node (?cs ! j) = None
         | Some c \<Rightarrow> \<exists>j \<ge> Suc i. child_at h' n j (Node c) \<and> iter_ok (h' ! n) (Suc j) (nc_inner it') \<and>
             (\<forall>k. Suc i \<le> k \<and> k < j \<longrightarrow> as_node (?cs ! k) = None))"
      have skip: "as_node (?cs ! j) = None" if "i \<le> j" "Suc i \<le> j \<Longrightarrow> as_node (?cs ! j) = None" for j
        using that Token by (cases "j = i") auto
      obtain x it' where rx: "r = (x, it')" by (cases r)
      show "case r of (x, it') \<Rightarrow> nc_parent it' = n \<and>
        (case x of
           None \<Rightarrow> \<forall>j. i \<le> j \<and> j < length ?cs \<longrightarrow> as_node (?cs ! j) = None
         | Some c \<Rightarrow> \<exists>j \<ge> i. child_at h' n j (Node c) \<and> iter_ok (h' ! n) (Suc j) (nc_inner it') \<and>
             (\<forall>k. i \<le> k \<and> k < j \<longrightarrow> as_node (?cs ! k) = None))"
      proof (cases x)
        case None
        with r rx skip show ?thesis by auto
      next
        case (Some c)
        with r rx obtain j where "nc_parent it' = n" "Suc i \<le> j" "child_at h' n j (Node c)"
          "iter_ok (h' ! n) (Suc j) (nc_inner it')" "\<forall>k. Suc i \<le> k \<and> k < j \<longrightarrow> as_node (?cs ! k) = None" by auto
        moreover from this have "i \<le> j" "\<forall>k. i \<le> k \<and> k < j \<longrightarrow> as_node (?cs ! k) = None" using skip by auto
        ultimately show ?thesis using Some rx by (auto intro!: exI [of _ j])
      qed
    qed
  next
    case (Node m)
    have next_eq: "node_children_next E it =
        bindR (get_or_add_element E n (?cs ! i) i (it_offset (nc_inner it)))
          (\<lambda>e. bindR (readR (\<lambda>_. unwrap (as_node e))) (\<lambda>c. returnR (Some c, it\<lparr>nc_inner := inner\<rparr>)))"
      using Node by (simp add: node_children_next.simps [of E it] s(1) Suc.prems(4) get_or_add_node_eq)
    show ?thesis unfolding next_eq
    proof (rule nav_bind [OF nav_get_or_add_element [OF wf n i refl s(3)]])
      fix h' e assume wf': "red_wf E g h'" and le: "heap_le h h'" and e: "child_at h' n i e"
      from child_at_elem(4) [OF wf' e] heap_le_node(5) [OF le n] Node obtain c where c: "e = Node c" by (cases e) auto
      have ok: "iter_ok (h' ! n) (Suc i) inner" by (rule iter_ok_le [OF le n s(2)])
      show "nav E g h' (bindR (readR (\<lambda>_. unwrap (as_node e))) (\<lambda>c. returnR (Some c, it\<lparr>nc_inner := inner\<rparr>)))
        (\<lambda>h' (x, it'). nc_parent it' = n \<and>
         (case x of
            None \<Rightarrow> \<forall>j. i \<le> j \<and> j < length ?cs \<longrightarrow> as_node (?cs ! j) = None
          | Some c \<Rightarrow> \<exists>j \<ge> i. child_at h' n j (Node c) \<and> iter_ok (h' ! n) (Suc j) (nc_inner it') \<and>
              (\<forall>k. i \<le> k \<and> k < j \<longrightarrow> as_node (?cs ! k) = None)))"
        using wf' e ok c Suc.prems(4)
        by (intro nav_read [where a = c] nav_return) (auto intro!: exI [of _ i])
    qed
  qed
qed

lemma node_positions_step:
  assumes "i \<le> j" "j < length cs" "as_node (cs ! j) \<noteq> None" "\<forall>k. i \<le> k \<and> k < j \<longrightarrow> as_node (cs ! k) = None"
  shows "node_positions cs i = j # node_positions cs (Suc j)"
proof -
  have "[i..<length cs] = [i..<j] @ [j..<length cs]" using assms(1,2) by (metis upt_add_eq_append le_add_diff_inverse less_imp_le)
  moreover have "[j..<length cs] = j # [Suc j..<length cs]" using assms(2) by (rule upt_conv_Cons)
  moreover have "filter (\<lambda>j. as_node (cs ! j) \<noteq> None) [i..<j] = []" using assms(4) by (auto simp: filter_empty_conv)
  ultimately show ?thesis using assms(3) by simp
qed

lemma nav_collect_nodes:
  "red_wf E g h \<Longrightarrow> n < length h \<Longrightarrow> iter_ok (h ! n) i (nc_inner it) \<Longrightarrow> nc_parent it = n \<Longrightarrow>
   length (node_children (h ! n)) < i + k \<Longrightarrow>
   nav E g h (collect k (node_children_next E) it) (\<lambda>h' cs.
     list_all2 (\<lambda>j c. child_at h' n j (Node c)) (node_positions (node_children (h ! n)) i) cs)"
proof (induction k arbitrary: h i it)
  case 0
  then show ?case by (simp add: iter_ok_def)
next
  case (Suc k h i it)
  note wf = Suc.prems(1) and n = Suc.prems(2)
  let ?cs = "node_children (h ! n)"
  let ?Q = "\<lambda>h' cs. list_all2 (\<lambda>j c. child_at h' n j (Node c)) (node_positions ?cs i) cs"
  show ?case unfolding collect.simps
  proof (rule nav_bind [OF nav_node_children_next [OF wf n Suc.prems(3,4)]])
    fix h1 and r :: "nat option \<times> node_children_iter"
    assume wf1: "red_wf E g h1" and le: "heap_le h h1" and r: "case r of (x, it') \<Rightarrow> nc_parent it' = n \<and>
      (case x of
         None \<Rightarrow> \<forall>j. i \<le> j \<and> j < length ?cs \<longrightarrow> as_node (?cs ! j) = None
       | Some c \<Rightarrow> \<exists>j \<ge> i. child_at h1 n j (Node c) \<and> iter_ok (h1 ! n) (Suc j) (nc_inner it') \<and>
           (\<forall>k. i \<le> k \<and> k < j \<longrightarrow> as_node (?cs ! k) = None))"
    obtain x it' where rx: "r = (x, it')" by (cases r)
    note same = heap_le_node [OF le n]
    show "nav E g h1 (case r of (x, it') \<Rightarrow> (case x of None \<Rightarrow> returnR []
        | Some a \<Rightarrow> bindR (collect k (node_children_next E) it') (\<lambda>as. returnR (a # as)))) ?Q"
    proof (cases x)
      case None
      with r rx have "node_positions ?cs i = []" by (auto simp: filter_empty_conv)
      with None rx wf1 show ?thesis by (auto intro!: nav_return)
    next
      case (Some c)
      with r rx obtain j where j: "nc_parent it' = n" "i \<le> j" "child_at h1 n j (Node c)"
        "iter_ok (h1 ! n) (Suc j) (nc_inner it')" "\<forall>k. i \<le> k \<and> k < j \<longrightarrow> as_node (?cs ! k) = None" by auto
      have jlen: "j < length ?cs" using j(4) same by (simp add: iter_ok_def)
      from child_at_elem(3) [OF wf1 j(3) refl] same have "as_node (?cs ! j) \<noteq> None" by auto
      from node_positions_step [OF j(2) jlen this j(5)] have positions: "node_positions ?cs i = j # node_positions ?cs (Suc j)" .
      have "nav E g h1 (bindR (collect k (node_children_next E) it') (\<lambda>as. returnR (c # as))) ?Q"
      proof (rule nav_bind [OF Suc.IH [OF wf1 same(1) j(4,1)]])
        show "length (node_children (h1 ! n)) < Suc j + k" using Suc.prems(5) same j(2) by simp
        fix h2 cs assume wf2: "red_wf E g h2" and le2: "heap_le h1 h2"
          and cs: "list_all2 (\<lambda>j c. child_at h2 n j (Node c)) (node_positions (node_children (h1 ! n)) (Suc j)) cs"
        have "child_at h2 n j (Node c)" using le2 j(3) by (rule heap_le_child_at)
        with cs have "?Q h2 (c # cs)" unfolding positions same(5) by simp
        with wf2 show "nav E g h2 (returnR (c # cs)) ?Q" by (rule nav_return)
      qed
      with Some rx show ?thesis by simp
    qed
  qed
qed

end

end
