(* ===== verification/Red_Token_Order.thy ===== *)
theory Red_Token_Order
  imports Red_Tokens
begin

text \<open>
  What \<open>first_token\<close>, \<open>last_token\<close>, \<open>next_token\<close> and \<open>prev_token\<close> compute: paths in the green
  tree. The two directions are treated at once, by \<open>Direction\<close>.
\<close>

section \<open>The functions of one direction\<close>

definition sibling :: "direction \<Rightarrow> ('s, 'd, 'i, 'e) env \<Rightarrow> syntax_element \<Rightarrow> ('j, 'x, syntax_element option) red" where
  "sibling dir E e = (case dir of Next \<Rightarrow> element_next_sibling_or_token E e | Prev \<Rightarrow> element_prev_sibling_or_token E e)"

definition end_child :: "direction \<Rightarrow> ('s, 'd, 'i, 'e) env \<Rightarrow> nat \<Rightarrow> ('j, 'x, syntax_element option) red" where
  "end_child dir E n = (case dir of Next \<Rightarrow> first_child_or_token E n | Prev \<Rightarrow> last_child_or_token E n)"

definition end_token :: "direction \<Rightarrow> nat \<Rightarrow> ('s, 'd, 'i, 'e) env \<Rightarrow> syntax_element \<Rightarrow> ('j, 'x, syntax_token option) red" where
  "end_token dir k E e = (case dir of Next \<Rightarrow> element_first_token k E e | Prev \<Rightarrow> element_last_token k E e)"

definition adjacent_token :: "direction \<Rightarrow> nat \<Rightarrow> ('s, 'd, 'i, 'e) env \<Rightarrow> syntax_token \<Rightarrow> ('j, 'x, syntax_token option) red" where
  "adjacent_token dir k E t = (case dir of Next \<Rightarrow> next_token k E t | Prev \<Rightarrow> prev_token k E t)"

lemma end_token_Token [simp]: "end_token dir k E (Token t) = returnR (Some t)"
  by (cases dir) (simp_all add: end_token_def)

lemma end_token_Suc:
  "end_token dir (Suc k) E (Node n) = bindR (end_child dir E n) (\<lambda>c.
     case c of None \<Rightarrow> returnR None | Some e \<Rightarrow> end_token dir k E e)"
proof (cases dir)
  case Next
  show ?thesis
    unfolding Next end_token_def end_child_def direction.case element_first_token.simps node_first_token.simps
    by (intro arg_cong2 [where f = bindR] refl ext) (simp split: option.split node_or_token.split)
next
  case Prev
  show ?thesis
    unfolding Prev end_token_def end_child_def direction.case element_last_token.simps node_last_token.simps
    by (intro arg_cong2 [where f = bindR] refl ext) (simp split: option.split node_or_token.split)
qed

lemma adjacent_token_eq:
  "adjacent_token dir k E t = bindR (sibling dir E (Token t)) (\<lambda>s.
     case s of
       Some e \<Rightarrow> end_token dir k E e
     | None \<Rightarrow> bindR (ancestors_find_map k (\<lambda>n. sibling dir E (Node n)) (Some (st_parent t))) (\<lambda>r.
         case r of None \<Rightarrow> returnR None | Some e \<Rightarrow> end_token dir k E e))"
  by (cases dir) (simp_all add: adjacent_token_def sibling_def end_token_def next_token_def prev_token_def cong: option.case_cong)

section \<open>The paths they follow\<close>

fun step_index :: "direction \<Rightarrow> nat \<Rightarrow> nat \<Rightarrow> nat option" where
  "step_index Next i len = (if Suc i < len then Some (Suc i) else None)"
| "step_index Prev i len = (if 0 < i then Some (i - 1) else None)"

definition end_index :: "direction \<Rightarrow> nat \<Rightarrow> nat option" where
  "end_index dir len = (if len = 0 then None else Some (case dir of Next \<Rightarrow> 0 | Prev \<Rightarrow> len - 1))"

lemma end_index_less: "end_index dir len = Some i \<Longrightarrow> i < len"
  by (cases dir) (auto simp: end_index_def split: if_splits)

lemma step_index_less: "i < len \<Longrightarrow> step_index dir i len = Some j \<Longrightarrow> j < len"
  by (cases dir) (auto split: if_splits)

text \<open>The outermost token at one end of a node, if the nodes on the way are not empty.\<close>

function green_end :: "direction \<Rightarrow> green_node \<Rightarrow> nat list option" where
  "green_end dir (GreenNode h cs) =
     (case end_index dir (length cs) of
        None \<Rightarrow> None
      | Some i \<Rightarrow> (case cs ! i of Node n \<Rightarrow> map_option ((#) i) (green_end dir n) | Token t \<Rightarrow> Some [i]))"
  by pat_completeness auto
termination
proof (relation "measure (size \<circ> snd)", simp)
  fix dir h i n and cs :: "green_element list"
  assume "end_index dir (length cs) = Some i" "cs ! i = Node n"
  then have "Node n \<in> set cs" by (metis end_index_less nth_mem)
  then show "((dir, n), dir, GreenNode h cs) \<in> measure (size \<circ> snd)" by (simp add: size_green_child)
qed

fun elem_end :: "direction \<Rightarrow> green_element \<Rightarrow> nat list option" where
  "elem_end dir (Node n) = green_end dir n"
| "elem_end dir (Token t) = Some []"

lemma green_end_eq:
  "green_end dir n =
     (case end_index dir (length (gn_children n)) of
        None \<Rightarrow> None
      | Some i \<Rightarrow> map_option ((#) i) (elem_end dir (gn_children n ! i)))"
  by (cases n) (simp split: option.split node_or_token.split)

declare green_end.simps [simp del]

text \<open>The sibling of the innermost element on a path, from its end up, that has one.\<close>

fun path_step :: "direction \<Rightarrow> green_element \<Rightarrow> nat list \<Rightarrow> nat list option" where
  "path_step dir e [] = None"
| "path_step dir (Token t) (i # p) = None"
| "path_step dir (Node n) (i # p) =
     (if i < length (gn_children n) then
        (case path_step dir (gn_children n ! i) p of
           Some q \<Rightarrow> Some (i # q)
         | None \<Rightarrow> map_option (\<lambda>j. [j]) (step_index dir i (length (gn_children n))))
      else None)"

lemma path_step_snoc:
  "sub e p = Some (Node m) \<Longrightarrow> i < length (gn_children m) \<Longrightarrow>
   path_step dir e (p @ [i]) =
     (case step_index dir i (length (gn_children m)) of Some j \<Rightarrow> Some (p @ [j]) | None \<Rightarrow> path_step dir e p)"
  by (induction e p rule: sub.induct) (auto split: if_splits option.splits)

lemma path_step_sub: "path_step dir e p = Some q \<Longrightarrow> sub e q \<noteq> None"
  by (induction dir e p arbitrary: q rule: path_step.induct)
    (auto split: if_splits option.splits dest: step_index_less)

text \<open>The token that \<open>next_token\<close> or \<open>prev_token\<close> finds, as a path.\<close>

definition token_step :: "direction \<Rightarrow> green_element \<Rightarrow> nat list \<Rightarrow> nat list option" where
  "token_step dir e p =
     (case path_step dir e p of
        None \<Rightarrow> None
      | Some q \<Rightarrow> (case sub e q of None \<Rightarrow> None | Some x \<Rightarrow> map_option ((@) q) (elem_end dir x)))"

text \<open>The depth of a green tree bounds the recursion.\<close>

fun height :: "green_node \<Rightarrow> nat" where
  "height (GreenNode h cs) = Suc (foldr max (map (\<lambda>e. case e of Node n \<Rightarrow> height n | Token t \<Rightarrow> 0) cs) 0)"

lemma foldr_max_ge: "x \<in> set xs \<Longrightarrow> x \<le> foldr max xs (0 :: nat)"
  by (induction xs) auto

lemma height_child: "Node n \<in> set (gn_children m) \<Longrightarrow> height n < height m"
  using foldr_max_ge [of "height n" "map (\<lambda>e. case e of Node n \<Rightarrow> height n | Token t \<Rightarrow> 0) (gn_children m)"]
  by (cases m) (force simp: less_Suc_eq_le)

lemma height_sub: "sub (Node n) p = Some (Node m) \<Longrightarrow> length p + height m \<le> height n"
proof (induction p arbitrary: n)
  case (Cons i p)
  then have i: "i < length (gn_children n)" by (auto split: if_splits)
  with Cons.prems obtain c where c: "gn_children n ! i = Node c" by (cases "gn_children n ! i"; cases p) auto
  with i have "height c < height n" by (metis height_child nth_mem)
  with Cons i c show ?case by fastforce
qed simp

section \<open>The code follows them\<close>

definition token_result :: "('j, 'x) heap \<Rightarrow> nat list option \<Rightarrow> syntax_token option \<Rightarrow> bool" where
  "token_result h q r \<longleftrightarrow>
     (case q of None \<Rightarrow> r = None | Some p \<Rightarrow> \<exists>t. r = Some t \<and> elem_in h (Token t) \<and> elem_path h (Token t) = p)"

definition child_result :: "('j, 'x) heap \<Rightarrow> nat \<Rightarrow> nat option \<Rightarrow> syntax_element option \<Rightarrow> bool" where
  "child_result h n q r \<longleftrightarrow> (case q of None \<Rightarrow> r = None | Some i \<Rightarrow> \<exists>e. r = Some e \<and> child_at h n i e)"

lemma green_of_token: "red_wf E g h \<Longrightarrow> elem_in h (Token t) \<Longrightarrow> \<exists>tok. green_of h (Token t) = Token tok"
  using child_at_elem(4) [of E g h "st_parent t" "unat (st_index t)" "Token t" t] by auto

lemma first_element_result:
  "red_wf E g h \<Longrightarrow> first_element_from h n k r \<Longrightarrow>
   child_result h n (if k < length (node_children (h ! n)) then Some k else None) r"
  by (cases r) (auto simp: first_element_from_def child_result_def dest: child_at_index)

lemma last_element_result:
  "last_element_before h n k r \<Longrightarrow> child_result h n (if 0 < k then Some (k - 1) else None) r"
  by (cases r) (auto simp: last_element_before_def child_result_def)

context red_env
begin

lemma nav_end_child:
  assumes "red_wf E g h" "n < length h"
  shows "nav E g h (end_child dir E n) (\<lambda>h' r. child_result h' n (end_index dir (length (node_children (h ! n)))) r)"
proof (cases dir)
  case Next
  show ?thesis unfolding end_child_def Next direction.case
  proof (rule nav_mono [OF nav_first_child_or_token [OF assms]])
    fix h' r assume "red_wf E g h'" "heap_le h h'" "first_element_from h' n 0 r"
    from first_element_result [OF this(1,3)] heap_le_node(5) [OF this(2) assms(2)]
    show "child_result h' n (end_index Next (length (node_children (h ! n)))) r"
      by (auto simp: end_index_def)
  qed
next
  case Prev
  show ?thesis unfolding end_child_def Prev direction.case
  proof (rule nav_mono [OF nav_last_child_or_token [OF assms]])
    fix h' r assume "last_element_before h' n (length (node_children (h ! n))) r"
    from last_element_result [OF this] show "child_result h' n (end_index Prev (length (node_children (h ! n)))) r"
      by (simp add: end_index_def split: if_splits)
  qed
qed

lemma nav_sibling:
  assumes wf: "red_wf E g h" and at: "child_at h n i e"
  shows "nav E g h (sibling dir E e) (\<lambda>h' r. child_result h' n (step_index dir i (length (node_children (h ! n)))) r)"
proof -
  have n: "n < length h" using at by (simp add: child_at_def)
  show ?thesis
  proof (cases dir)
    case Next
    show ?thesis unfolding sibling_def Next direction.case
    proof (rule nav_mono [OF nav_element_next_sibling [OF wf at]])
      fix h' r assume "red_wf E g h'" "heap_le h h'" "first_element_from h' n (Suc i) r"
      from first_element_result [OF this(1,3)] heap_le_node(5) [OF this(2) n]
      show "child_result h' n (step_index Next i (length (node_children (h ! n)))) r" by simp
    qed
  next
    case Prev
    show ?thesis unfolding sibling_def Prev direction.case
    proof (rule nav_mono [OF nav_element_prev_sibling [OF wf at]])
      fix h' r assume "last_element_before h' n i r"
      from last_element_result [OF this] show "child_result h' n (step_index Prev i (length (node_children (h ! n)))) r"
        by simp
    qed
  qed
qed

text \<open>The end of a subtree.\<close>

lemma nav_end_token:
  "red_wf E g h \<Longrightarrow> elem_in h e \<Longrightarrow> (\<forall>n. green_of h e = Node n \<longrightarrow> height n \<le> k) \<Longrightarrow>
   nav E g h (end_token dir k E e) (\<lambda>h' r. token_result h' (map_option ((@) (elem_path h e)) (elem_end dir (green_of h e))) r)"
proof (induction k arbitrary: h e)
  case (0 h e)
  show ?case
  proof (cases e)
    case (Node n)
    with 0 show ?thesis by (cases "nd_green (h ! n)") simp
  next
    case (Token t)
    with 0(1,2) obtain tok where "green_of h e = Token tok" using green_of_token by metis
    with Token 0(1,2) show ?thesis by (simp add: token_result_def nav_return)
  qed
next
  case (Suc k h e)
  show ?case
  proof (cases e)
    case (Token t)
    with Suc.prems(1,2) obtain tok where "green_of h e = Token tok" using green_of_token by metis
    with Token Suc.prems(1,2) show ?thesis by (simp add: token_result_def nav_return)
  next
    case (Node n)
    then have n: "n < length h" using Suc.prems(2) by simp
    let ?cs = "node_children (h ! n)"
    show ?thesis unfolding Node end_token_Suc
    proof (rule nav_bind [OF nav_end_child [OF Suc.prems(1) n]])
      fix h' r assume wf': "red_wf E g h'" and le: "heap_le h h'"
        and r: "child_result h' n (end_index dir (length ?cs)) r"
      note same = heap_le_node [OF le n]
      let ?Q = "\<lambda>h' r. token_result h' (map_option ((@) (elem_path h (Node n))) (elem_end dir (green_of h (Node n)))) r"
      show "nav E g h' (case r of None \<Rightarrow> returnR None | Some e \<Rightarrow> end_token dir k E e) ?Q"
      proof (cases "end_index dir (length ?cs)")
        case None
        with r wf' show ?thesis
          by (simp add: child_result_def nav_return token_result_def green_end_eq [of dir "nd_green (h ! n)"] node_children_def)
      next
        case (Some i)
        with r obtain c where c: "r = Some c" "child_at h' n i c" by (auto simp: child_result_def)
        have green: "green_of h' c = ?cs ! i" using child_at_green [OF wf' c(2)] same by simp
        have path: "elem_path h' c = path_of h n @ [i]"
          using child_at_path [OF wf' c(2)] path_of_le [OF le Suc.prems(1) n] by simp
        have "height m \<le> k" if "green_of h' c = Node m" for m
        proof -
          have "Node m \<in> set ?cs" using end_index_less [OF Some] green that by (metis nth_mem)
          then have "height m < height (nd_green (h ! n))" by (intro height_child) (simp add: node_children_def)
          with Suc.prems(3) Node show ?thesis by simp
        qed
        then have "\<forall>m. green_of h' c = Node m \<longrightarrow> height m \<le> k" by blast
        from Suc.IH [OF wf' child_at_elem(1) [OF wf' c(2)] this]
        have "nav E g h' (end_token dir k E c) (\<lambda>h' r. token_result h' (map_option ((@) (path_of h n @ [i])) (elem_end dir (?cs ! i))) r)"
          by (simp only: green path)
        moreover have "map_option ((@) (path_of h n @ [i])) (elem_end dir (?cs ! i)) =
            map_option ((@) (elem_path h (Node n))) (elem_end dir (green_of h (Node n)))"
          using Some
          by (cases "elem_end dir (gn_children (nd_green (h ! n)) ! i)")
            (simp_all add: green_end_eq [of dir "nd_green (h ! n)"] node_children_def)
        ultimately show ?thesis using c(1) by simp
      qed
    qed
  qed
qed

text \<open>The first ancestor with a sibling, and the token next to a token.\<close>

lemma nav_ancestors_sibling:
  "red_wf E g h \<Longrightarrow> n < length h \<Longrightarrow> length (path_of h n) < k \<Longrightarrow>
   nav E g h (ancestors_find_map k (\<lambda>m. sibling dir E (Node m)) (Some n)) (\<lambda>h' r.
     case path_step dir (Node g) (path_of h n) of
       None \<Rightarrow> r = None
     | Some q \<Rightarrow> \<exists>e. r = Some e \<and> elem_in h' e \<and> elem_path h' e = q)"
proof (induction k arbitrary: h n)
  case (Suc k h n)
  note wf = Suc.prems(1) and n = Suc.prems(2)
  show ?case
  proof (cases "nd_kind (h ! n)")
    case (KRoot g' res)
    then have "n = 0" by (rule KRoot_0 [OF wf n])
    have "nav E g h (sibling dir E (Node 0)) (\<lambda>_ r. r = None)"
      unfolding sibling_def using nav_root_siblings [OF wf] by (cases dir) simp_all
    with KRoot n path_of_root [OF wf] \<open>n = 0\<close> show ?thesis
      by (auto simp: node_parent_eq intro!: nav_read nav_bind [of E g h "sibling dir E (Node 0)"] nav_return)
  next
    case (KChild p i offset)
    obtain j where at: "child_at h p j (Node n)"
    proof (rule elem_cases [OF wf, of "Node n"])
      assume "(Node n :: syntax_element) = Node 0"
      with KChild root_kind [OF wf] show thesis by auto
    next
      fix q j assume "child_at h q j (Node n)"
      with child_at_elem(3) [OF wf this refl] KChild that show thesis by auto
    qed (use n in simp)
    have p: "p < length h" using at by (simp add: child_at_def)
    let ?len = "length (node_children (h ! p))"
    have path: "path_of h n = path_of h p @ [j]" using child_at_path [OF wf at] by simp
    have step: "path_step dir (Node g) (path_of h n) =
        (case step_index dir j ?len of Some j' \<Rightarrow> Some (path_of h p @ [j']) | None \<Rightarrow> path_step dir (Node g) (path_of h p))"
      using path_step_snoc [OF node_sub [OF wf p, THEN conjunct1], of j dir] child_at_index [OF wf at] path
      by (simp add: node_children_def)
    let ?Q = "\<lambda>h' r. case path_step dir (Node g) (path_of h n) of None \<Rightarrow> r = None
      | Some q \<Rightarrow> \<exists>e. r = Some e \<and> elem_in h' e \<and> elem_path h' e = q"
    have "nav E g h (bindR (sibling dir E (Node n)) (\<lambda>r. case r of Some x \<Rightarrow> returnR (Some x)
        | None \<Rightarrow> ancestors_find_map k (\<lambda>m. sibling dir E (Node m)) (Some p))) ?Q"
    proof (rule nav_bind [OF nav_sibling [OF wf at]])
      fix h' r assume wf': "red_wf E g h'" and le: "heap_le h h'" and r: "child_result h' p (step_index dir j ?len) r"
      have p': "path_of h' p = path_of h p" "p < length h'"
        using path_of_le [OF le wf p] heap_le_node [OF le p] by simp_all
      show "nav E g h' (case r of Some x \<Rightarrow> returnR (Some x)
          | None \<Rightarrow> ancestors_find_map k (\<lambda>m. sibling dir E (Node m)) (Some p)) ?Q"
      proof (cases "step_index dir j ?len")
        case None
        with r Suc.IH [OF wf' p'(2)] p'(1) path Suc.prems(3) step show ?thesis by (simp add: child_result_def)
      next
        case (Some j')
        with r obtain e where e: "r = Some e" "child_at h' p j' e" by (auto simp: child_result_def)
        with child_at_path [OF wf' e(2)] child_at_elem(1) [OF wf' e(2)] Some step p'(1) wf' show ?thesis
          by (auto intro!: nav_return)
      qed
    qed
    with KChild n show ?thesis by (auto simp: node_parent_eq intro!: nav_read)
  qed
qed simp

lemma nav_end_token_at:
  assumes wf: "red_wf E g h" and e: "elem_in h e" and k: "height g \<le> k" and q: "sub (Node g) (elem_path h e) = Some x"
  shows "nav E g h (end_token dir k E e) (\<lambda>h' r. token_result h' (map_option ((@) (elem_path h e)) (elem_end dir x)) r)"
proof -
  have x: "green_of h e = x" using elem_sub [OF wf e] q by simp
  have "height n \<le> k" if "green_of h e = Node n" for n
    using height_sub [of g "elem_path h e" n] elem_sub [OF wf e] that k by simp
  with nav_end_token [OF wf e, of k dir] x show ?thesis by simp
qed

lemma nav_adjacent_token:
  assumes wf: "red_wf E g h" and t: "elem_in h (Token t)" and k: "height g \<le> k"
  shows "nav E g h (adjacent_token dir k E t) (\<lambda>h' r. token_result h' (token_step dir (Node g) (elem_path h (Token t))) r)"
proof -
  let ?p = "st_parent t" and ?i = "unat (st_index t)"
  have at: "child_at h ?p ?i (Token t)" using t by simp
  then have p: "?p < length h" by (simp add: child_at_def)
  note sub_p = node_sub [OF wf p, THEN conjunct1]
  have depth: "length (path_of h ?p) < k"
    using height_sub [OF sub_p] k by (cases "nd_green (h ! ?p)") simp
  let ?len = "length (node_children (h ! ?p))"
  have step: "path_step dir (Node g) (elem_path h (Token t)) =
      (case step_index dir ?i ?len of Some j \<Rightarrow> Some (path_of h ?p @ [j]) | None \<Rightarrow> path_step dir (Node g) (path_of h ?p))"
    using path_step_snoc [OF sub_p, of ?i dir] child_at_index [OF wf at] by (simp add: node_children_def)
  let ?Q = "\<lambda>h' r. token_result h' (token_step dir (Node g) (elem_path h (Token t))) r"
  have found: "nav E g h' (end_token dir k E e) ?Q"
    if e: "red_wf E g h'" "elem_in h' e" "path_step dir (Node g) (elem_path h (Token t)) = Some (elem_path h' e)" for h' e
  proof -
    obtain x where x: "sub (Node g) (elem_path h' e) = Some x" using elem_sub [OF e(1,2)] by simp
    from nav_end_token_at [OF e(1,2) k x, of dir] show ?thesis
      by (simp only: token_step_def e(3) x option.case)
  qed
  show ?thesis unfolding adjacent_token_eq
  proof (rule nav_bind [OF nav_sibling [OF wf at]])
    fix h' r assume wf': "red_wf E g h'" and le: "heap_le h h'" and r: "child_result h' ?p (step_index dir ?i ?len) r"
    have p': "path_of h' ?p = path_of h ?p" "?p < length h'"
      using path_of_le [OF le wf p] heap_le_node [OF le p] by simp_all
    show "nav E g h' (case r of Some e \<Rightarrow> end_token dir k E e
      | None \<Rightarrow> bindR (ancestors_find_map k (\<lambda>n. sibling dir E (Node n)) (Some ?p)) (\<lambda>r.
          case r of None \<Rightarrow> returnR None | Some e \<Rightarrow> end_token dir k E e)) ?Q"
    proof (cases "step_index dir ?i ?len")
      case (Some j)
      with r obtain e where e: "r = Some e" "child_at h' ?p j e" by (auto simp: child_result_def)
      with found [OF wf' child_at_elem(1) [OF wf' e(2)]] child_at_path [OF wf' e(2)] step Some p'(1) show ?thesis by simp
    next
      case None
      with step have up: "path_step dir (Node g) (elem_path h (Token t)) = path_step dir (Node g) (path_of h' ?p)"
        using p'(1) by simp
      have "nav E g h' (bindR (ancestors_find_map k (\<lambda>n. sibling dir E (Node n)) (Some ?p)) (\<lambda>r.
          case r of None \<Rightarrow> returnR None | Some e \<Rightarrow> end_token dir k E e)) ?Q"
      proof (rule nav_bind [OF nav_ancestors_sibling [OF wf' p'(2)]])
        show "length (path_of h' ?p) < k" using depth p'(1) by simp
        fix h'' r' assume wf'': "red_wf E g h''" and r': "case path_step dir (Node g) (path_of h' ?p) of
            None \<Rightarrow> r' = None | Some q \<Rightarrow> \<exists>e. r' = Some e \<and> elem_in h'' e \<and> elem_path h'' e = q"
        show "nav E g h'' (case r' of None \<Rightarrow> returnR None | Some e \<Rightarrow> end_token dir k E e) ?Q"
        proof (cases "path_step dir (Node g) (path_of h' ?p)")
          case None
          with r' up wf'' show ?thesis by (simp add: nav_return token_result_def token_step_def)
        next
          case (Some q)
          with r' obtain e where "r' = Some e" "elem_in h'' e" "elem_path h'' e = q" by auto
          with found [OF wf''] Some up show ?thesis by simp
        qed
      qed
      with None r show ?thesis by (simp add: child_result_def)
    qed
  qed
qed

end

section \<open>The order of tokens\<close>

text \<open>The paths of the tokens of a tree in document order.\<close>

function token_paths :: "green_node \<Rightarrow> nat list list"
  and token_paths_from :: "nat \<Rightarrow> green_element list \<Rightarrow> nat list list" where
  "token_paths (GreenNode h cs) = token_paths_from 0 cs"
| "token_paths_from i [] = []"
| "token_paths_from i (Node n # cs) = map ((#) i) (token_paths n) @ token_paths_from (Suc i) cs"
| "token_paths_from i (Token t # cs) = [i] # token_paths_from (Suc i) cs"
  by pat_completeness auto
termination
  by (relation "measure (case_sum size (\<lambda>(i, cs). size_list (size_node_or_token size (\<lambda>_. 0)) cs))") auto

fun element_paths :: "green_element \<Rightarrow> nat list list" where
  "element_paths (Node n) = token_paths n"
| "element_paths (Token t) = [[]]"

lemma token_paths_from_Cons: "token_paths_from i (c # cs) = map ((#) i) (element_paths c) @ token_paths_from (Suc i) cs"
  by (cases c) simp_all

lemma token_paths_from_append:
  "token_paths_from i (xs @ ys) = token_paths_from i xs @ token_paths_from (i + length xs) ys"
  by (induction xs arbitrary: i) (simp_all add: token_paths_from_Cons)

text \<open>A tree in which every node has children.\<close>

definition no_empty :: "green_node \<Rightarrow> bool" where
  "no_empty g \<longleftrightarrow> (\<forall>n \<in> set (subnodes g). gn_children n \<noteq> [])"

fun element_no_empty :: "green_element \<Rightarrow> bool" where
  "element_no_empty (Node n) = no_empty n"
| "element_no_empty (Token t) = True"

lemma no_empty_GreenNode: "no_empty (GreenNode h cs) \<longleftrightarrow> cs \<noteq> [] \<and> (\<forall>c \<in> set cs. element_no_empty c)"
proof -
  have "element_no_empty c \<longleftrightarrow> (\<forall>n \<in> set (case c of Node n \<Rightarrow> subnodes n | Token t \<Rightarrow> []). gn_children n \<noteq> [])" for c
    by (cases c) (simp_all add: no_empty_def)
  then show ?thesis by (auto simp: no_empty_def)
qed

lemma element_end_paths:
  "element_no_empty e \<Longrightarrow> element_paths e \<noteq> [] \<and> elem_end Next e = Some (hd (element_paths e)) \<and>
     elem_end Prev e = Some (last (element_paths e))"
proof (induction "case e of Node n \<Rightarrow> size n | Token t \<Rightarrow> 0" arbitrary: e rule: less_induct)
  case less
  show ?case
  proof (cases e)
    case e: (Node n)
    note Node = e
    obtain hd cs where n: "n = GreenNode hd cs" by (cases n)
    have IH: "element_paths c \<noteq> []" "elem_end Next c = Some (List.hd (element_paths c))"
      "elem_end Prev c = Some (last (element_paths c))" if "c \<in> set cs" for c
    proof -
      have "(case c of Node n \<Rightarrow> size n | Token t \<Rightarrow> 0) < (case e of Node n \<Rightarrow> size n | Token t \<Rightarrow> 0)"
      proof (cases c)
        case (Node m)
        then have "size m < size n" using size_green_child [of m cs] that by (simp add: n)
        then show ?thesis by (simp add: e Node)
      qed (simp add: Node n)
      moreover have "element_no_empty c" using less.prems that by (simp add: Node n no_empty_GreenNode)
      ultimately show "element_paths c \<noteq> []" "elem_end Next c = Some (List.hd (element_paths c))"
        "elem_end Prev c = Some (last (element_paths c))" using less.hyps by blast+
    qed
    from less.prems have cs: "cs \<noteq> []" by (simp add: Node n no_empty_GreenNode)
    then obtain c ds where front: "cs = c # ds" by (cases cs) auto
    from cs obtain us c' where rear: "cs = us @ [c']" by (cases cs rule: rev_cases) auto
    have paths: "element_paths e = token_paths_from 0 cs" by (simp add: Node n)
    have "element_paths e = map ((#) 0) (element_paths c) @ token_paths_from (Suc 0) ds"
      unfolding paths unfolding front by (rule token_paths_from_Cons)
    then have hd_e: "element_paths e \<noteq> []" "List.hd (element_paths e) = 0 # List.hd (element_paths c)"
      using IH(1) [of c] front by (simp_all add: hd_map)
    have "element_paths e = token_paths_from 0 us @ map ((#) (length us)) (element_paths c')"
      unfolding paths unfolding rear by (simp add: token_paths_from_append token_paths_from_Cons)
    then have last_e: "last (element_paths e) = length us # last (element_paths c')"
      using IH(1) [of c'] rear by (simp add: last_map)
    have "elem_end Next e = Some (List.hd (element_paths e))"
      using IH(2) [of c] front hd_e(2) by (simp add: Node green_end_eq n end_index_def)
    moreover have "elem_end Prev e = Some (last (element_paths e))"
      using IH(3) [of c'] rear last_e by (simp add: Node green_end_eq n end_index_def)
    ultimately show ?thesis using hd_e(1) by simp
  qed simp
qed

lemma element_no_empty_sub: "element_no_empty e \<Longrightarrow> sub e q = Some x \<Longrightarrow> element_no_empty x"
proof (induction e q rule: sub.induct)
  case (3 n i p)
  obtain hd cs where "n = GreenNode hd cs" by (cases n)
  with 3 show ?case by (auto simp: no_empty_GreenNode split: if_splits)
qed auto

lemma token_step_Cons:
  assumes "no_empty n" "i < length (gn_children n)"
  shows "token_step dir (Node n) (i # p) =
    (case token_step dir (gn_children n ! i) p of
       Some q \<Rightarrow> Some (i # q)
     | None \<Rightarrow> (case step_index dir i (length (gn_children n)) of
         None \<Rightarrow> None | Some j \<Rightarrow> map_option ((#) j) (elem_end dir (gn_children n ! j))))"
proof -
  let ?c = "gn_children n ! i"
  have ne: "element_no_empty ?c" using assms by (cases n) (simp add: no_empty_GreenNode)
  show ?thesis
  proof (cases "path_step dir ?c p")
    case None
    then show ?thesis using assms(2) step_index_less [OF assms(2), of dir]
      by (auto simp: token_step_def split: option.split)
        (metis append_Cons append_Nil option.map_cong0)
  next
    case (Some q)
    then obtain x where x: "sub ?c q = Some x" using path_step_sub by blast
    then obtain r where "elem_end dir x = Some r"
      using element_end_paths [OF element_no_empty_sub [OF ne x]] by (cases dir) auto
    with Some x assms(2) show ?thesis by (simp add: token_step_def)
  qed
qed

lemma token_paths_from_member:
  "p \<in> set (token_paths_from i cs) \<longleftrightarrow> (\<exists>j q. p = (i + j) # q \<and> j < length cs \<and> q \<in> set (element_paths (cs ! j)))"
proof (induction cs arbitrary: i)
  case (Cons c cs)
  have "(\<exists>j q. p = (i + j) # q \<and> j < length (c # cs) \<and> q \<in> set (element_paths ((c # cs) ! j))) \<longleftrightarrow>
      (\<exists>q. p = i # q \<and> q \<in> set (element_paths c)) \<or>
      (\<exists>j q. p = (Suc i + j) # q \<and> j < length cs \<and> q \<in> set (element_paths (cs ! j)))" (is "?l \<longleftrightarrow> ?r")
  proof
    assume ?l
    then obtain j q where "p = (i + j) # q" "j < length (c # cs)" "q \<in> set (element_paths ((c # cs) ! j))" by blast
    then show ?r by (cases j) auto
  next
    assume ?r
    then show ?l by (elim disjE exE conjE) (rule exI [of _ 0], simp, metis add_Suc_shift length_Cons not_less_eq nth_Cons_Suc)
  qed
  with Cons show ?case by (auto simp: token_paths_from_Cons)
qed simp

lemma distinct_token_paths: "distinct (token_paths n)" "distinct (token_paths_from i cs)"
proof (induction n and i cs rule: token_paths_token_paths_from.induct)
  case (3 i n cs)
  then show ?case by (auto simp: distinct_map token_paths_from_member)
next
  case (4 i t cs)
  then show ?case by (auto simp: token_paths_from_member)
qed simp_all

lemma token_paths_split:
  assumes "i < length cs"
  shows "token_paths_from 0 cs =
    token_paths_from 0 (take i cs) @ map ((#) i) (element_paths (cs ! i)) @ token_paths_from (Suc i) (drop (Suc i) cs)"
proof -
  have "token_paths_from 0 (take i cs @ cs ! i # drop (Suc i) cs) =
      token_paths_from 0 (take i cs) @ map ((#) i) (element_paths (cs ! i)) @ token_paths_from (Suc i) (drop (Suc i) cs)"
    using assms by (simp add: token_paths_from_append token_paths_from_Cons del: append_take_drop_id)
  with assms show ?thesis by (simp add: id_take_nth_drop [symmetric])
qed

lemma element_paths_Node: "element_paths (Node n) = token_paths_from 0 (gn_children n)"
  by (cases n) simp

text \<open>Where no node is empty, the two directions step through the tokens one by one.\<close>

lemma token_step_split:
  "element_no_empty e \<Longrightarrow> p \<in> set (element_paths e) \<Longrightarrow>
   \<exists>xs ys. element_paths e = xs @ p # ys \<and> token_step Next e p = (if ys = [] then None else Some (hd ys)) \<and>
     token_step Prev e p = (if xs = [] then None else Some (last xs))"
proof (induction p arbitrary: e)
  case Nil
  then obtain t where "e = Token t" by (cases e) (auto simp: element_paths_Node token_paths_from_member simp del: element_paths.simps)
  then show ?case by (auto simp: token_step_def)
next
  case (Cons i p)
  obtain n where e: "e = Node n" using Cons.prems(2) by (cases e) auto
  let ?cs = "gn_children n"
  from Cons.prems(2) have i: "i < length ?cs" "p \<in> set (element_paths (?cs ! i))"
    by (auto simp: e element_paths_Node token_paths_from_member simp del: element_paths.simps)
  have ne: "no_empty n" "element_no_empty c" if "c \<in> set ?cs" for c
    using Cons.prems(1) that by (cases n; simp add: e no_empty_GreenNode)+
  note ends = element_end_paths [OF ne(2)]
  from Cons.IH [OF ne(2) i(2)] i(1) obtain xs ys where split: "element_paths (?cs ! i) = xs @ p # ys"
    "token_step Next (?cs ! i) p = (if ys = [] then None else Some (hd ys))"
    "token_step Prev (?cs ! i) p = (if xs = [] then None else Some (last xs))" by auto
  let ?xs = "token_paths_from 0 (take i ?cs) @ map ((#) i) xs"
  let ?ys = "map ((#) i) ys @ token_paths_from (Suc i) (drop (Suc i) ?cs)"
  have paths: "element_paths e = ?xs @ (i # p) # ?ys"
    using token_paths_split [OF i(1)] split(1) by (simp add: e element_paths_Node del: element_paths.simps)
  have nothing_after: "token_paths_from (Suc i) (drop (Suc i) ?cs) = []" if "\<not> Suc i < length ?cs" using that by simp
  have after: "token_paths_from (Suc i) (drop (Suc i) ?cs) \<noteq> [] \<and>
      hd (token_paths_from (Suc i) (drop (Suc i) ?cs)) = Suc i # hd (element_paths (?cs ! Suc i))" if "Suc i < length ?cs"
    using ends [of "?cs ! Suc i"] that
    by (simp add: Cons_nth_drop_Suc [symmetric] token_paths_from_Cons hd_map)
  have before: "token_paths_from 0 (take i ?cs) \<noteq> [] \<and>
      last (token_paths_from 0 (take i ?cs)) = (i - 1) # last (element_paths (?cs ! (i - 1)))" if "0 < i"
  proof -
    have "take i ?cs = take (i - 1) ?cs @ [?cs ! (i - 1)]"
      using that i(1) by (metis Suc_diff_1 less_imp_diff_less take_Suc_conv_app_nth)
    with ends [of "?cs ! (i - 1)"] that i(1) show ?thesis
      by (simp add: token_paths_from_append token_paths_from_Cons last_map)
  qed
  have "token_step Next e (i # p) = (if ?ys = [] then None else Some (hd ?ys))"
    unfolding e token_step_Cons [OF ne(1) i(1), OF nth_mem [OF i(1)]]
    using split(2) after nothing_after ends [of "?cs ! Suc i"]
    by (cases ys) auto
  moreover have "token_step Prev e (i # p) = (if ?xs = [] then None else Some (last ?xs))"
    unfolding e token_step_Cons [OF ne(1) i(1), OF nth_mem [OF i(1)]]
    using split(3) before ends [of "?cs ! (i - 1)"] i(1)
    by (cases xs rule: rev_cases) auto
  ultimately show ?case using paths by blast
qed

end
