(* ===== verification/Red_Search.thy ===== *)
theory Red_Search
  imports Red_Iter Red_Token_Order
begin

text \<open>
  Searching a red tree by text position: \<open>token_at_offset\<close> and \<open>covering_element\<close> of
  \<open>cstree/src/syntax/{node,element}.rs\<close>. The recursion and the loop are bounded by fuel, of which
  the height of the tree is enough.
\<close>

section \<open>Definitions\<close>

text \<open>
  The next item of \<open>children_with_tokens().filter(p)\<close>, or the item that \<open>find(p)\<close> returns: \<open>p\<close>
  only reads.
\<close>

function filter_next :: "('s, 'd, 'i, 'e) env \<Rightarrow> (('j, 'x) heap \<Rightarrow> syntax_element \<Rightarrow> bool outcome) \<Rightarrow>
  element_children_iter \<Rightarrow> ('j, 'x, syntax_element option \<times> element_children_iter) red" where
  "filter_next E p it h = bindO (element_children_next E it h) (\<lambda>((x, it'), h').
     case x of
       None \<Rightarrow> Inr ((None, it'), h')
     | Some child \<Rightarrow> bindO (p h' child) (\<lambda>b.
         if b then Inr ((Some child, it'), h') else filter_next E p it' h'))"
  by pat_completeness auto

lemma element_children_next_shorter:
  "element_children_next E it h = Inr ((Some e, it'), h') \<Longrightarrow>
   length (it_green (ec_inner it')) < length (it_green (ec_inner it))"
  by (auto simp: element_children_next_def bindR_def returnR_def bindO_eq_Inr split: prod.splits option.splits
      dest: child_iter_next_shorter)

termination filter_next
  by (relation "measure (\<lambda>(E, p, it, h). length (it_green (ec_inner it)))")
    (auto dest: element_children_next_shorter)

declare filter_next.simps [simp del]

definition touches :: "('s, 'd, 'i, 'e) env \<Rightarrow> text_size \<Rightarrow> ('j, 'x) heap \<Rightarrow> syntax_element \<Rightarrow> bool outcome" where
  "touches E offset h child = bindO (element_text_range E h child) (\<lambda>child_range.
     Inr (\<not> tr_is_empty (en_text E) child_range \<and> tr_start child_range \<le> offset \<and> offset \<le> tr_end child_range))"

text \<open>\<open>SyntaxElementRef::token_at_offset\<close>, given the same function on nodes.\<close>

definition element_token_at_offset :: "(nat \<Rightarrow> text_size \<Rightarrow> ('j, 'x, syntax_token token_at_offset) red) \<Rightarrow>
  ('s, 'd, 'i, 'e) env \<Rightarrow> syntax_element \<Rightarrow> text_size \<Rightarrow> ('j, 'x, syntax_token token_at_offset) red" where
  "element_token_at_offset on_node E self offset = bindR (readR (\<lambda>h. element_text_range E h self)) (\<lambda>r.
     if \<not> (tr_start r \<le> offset \<and> offset \<le> tr_end r) then panicR Assertion_failed
     else (case self of Token token \<Rightarrow> returnR (TSingle token) | Node node \<Rightarrow> on_node node offset))"

fun node_token_at_offset :: "nat \<Rightarrow> ('s, 'd, 'i, 'e) env \<Rightarrow> nat \<Rightarrow> text_size \<Rightarrow>
  ('j, 'x, syntax_token token_at_offset) red" where
  "node_token_at_offset 0 E n offset = panicR Out_of_fuel"
| "node_token_at_offset (Suc k) E n offset =
     bindR (readR (\<lambda>h. node_text_range E h n)) (\<lambda>range.
     if \<not> (tr_start range \<le> offset \<and> offset \<le> tr_end range) then panicR Bad_offset
     else if tr_is_empty (en_text E) range then returnR TNone
     else
       bindR (readR (\<lambda>h. children_with_tokens E h n)) (\<lambda>children.
       bindR (filter_next E (touches E offset) children) (\<lambda>(l, children).
       bindR (readR (\<lambda>_. unwrap l)) (\<lambda>left.
       bindR (filter_next E (touches E offset) children) (\<lambda>(r, children).
       bindR (filter_next E (touches E offset) children) (\<lambda>(x, children).
       if x \<noteq> None then panicR Assertion_failed
       else (case r of
           Some right \<Rightarrow>
             bindR (element_token_at_offset (node_token_at_offset k E) E left offset) (\<lambda>a.
             bindR (element_token_at_offset (node_token_at_offset k E) E right offset) (\<lambda>b.
               case (a, b) of
                 (TSingle left, TSingle right) \<Rightarrow> returnR (TBetween left right)
               | _ \<Rightarrow> panicR Unreachable))
         | None \<Rightarrow> element_token_at_offset (node_token_at_offset k E) E left offset)))))))"

definition covers :: "('s, 'd, 'i, 'e) env \<Rightarrow> text_range \<Rightarrow> ('j, 'x) heap \<Rightarrow> syntax_element \<Rightarrow> bool outcome" where
  "covers E target h child = bindO (element_text_range E h child) (\<lambda>r. Inr (tr_contains_range (en_text E) r target))"

text \<open>The loop of \<open>covering_element\<close>.\<close>

fun covering_loop :: "nat \<Rightarrow> ('s, 'd, 'i, 'e) env \<Rightarrow> syntax_element \<Rightarrow> text_range \<Rightarrow> ('j, 'x, syntax_element) red" where
  "covering_loop 0 E res target = panicR Out_of_fuel"
| "covering_loop (Suc k) E res target =
     bindR (readR (\<lambda>h. covers E target h res)) (\<lambda>b.
     if \<not> b then panicR Bad_range
     else (case res of
         Token _ \<Rightarrow> returnR res
       | Node node \<Rightarrow>
           bindR (readR (\<lambda>h. children_with_tokens E h node)) (\<lambda>children.
           bindR (filter_next E (covers E target) children) (\<lambda>(child, _).
             case child of Some c \<Rightarrow> covering_loop k E c target | None \<Rightarrow> returnR res))))"

definition covering_element :: "nat \<Rightarrow> ('s, 'd, 'i, 'e) env \<Rightarrow> nat \<Rightarrow> text_range \<Rightarrow> ('j, 'x, syntax_element) red" where
  "covering_element k E n target = covering_loop k E (Node n) target"

section \<open>The filtered iterator\<close>

lemma nav_step: "m h = m' h1 \<Longrightarrow> heap_le h h1 \<Longrightarrow> nav E g h1 m' Q \<Longrightarrow> nav E g h m Q"
  by (auto simp: nav_def intro: heap_le_trans)

context red_env
begin

lemma nav_filter_next:
  "red_wf E g h \<Longrightarrow> n < length h \<Longrightarrow> iter_ok (h ! n) i (ec_inner it) \<Longrightarrow> ec_parent it = n \<Longrightarrow>
   (\<And>h' j e. red_wf E g h' \<Longrightarrow> heap_le h h' \<Longrightarrow> child_at h' n j e \<Longrightarrow> p h' e = Inr (P j)) \<Longrightarrow>
   nav E g h (filter_next E p it) (\<lambda>h' (x, it').
     ec_parent it' = n \<and>
     (case x of
        None \<Rightarrow> iter_ok (h' ! n) (length (node_children (h ! n))) (ec_inner it') \<and>
          filter P [i..<length (node_children (h ! n))] = []
      | Some e \<Rightarrow> \<exists>j. child_at h' n j e \<and> iter_ok (h' ! n) (Suc j) (ec_inner it') \<and>
          filter P [i..<length (node_children (h ! n))] = j # filter P [Suc j..<length (node_children (h ! n))]))"
proof (induction "length (node_children (h ! n)) - i" arbitrary: i it h rule: less_induct)
  case less
  note wf = less.prems(1) and n = less.prems(2)
  let ?len = "length (node_children (h ! n))"
  let ?Q = "\<lambda>i h' (x, it'). ec_parent it' = n \<and> (case x of
      None \<Rightarrow> iter_ok (h' ! n) ?len (ec_inner it') \<and> filter P [i..<?len] = []
    | Some e \<Rightarrow> \<exists>j. child_at h' n j e \<and> iter_ok (h' ! n) (Suc j) (ec_inner it') \<and>
        filter P [i..<?len] = j # filter P [Suc j..<?len])"
  obtain x it' h1 where s: "element_children_next E it h = Inr ((x, it'), h1)" "red_wf E g h1" "heap_le h h1"
    "ec_parent it' = n" "case x of None \<Rightarrow> i = ?len \<and> it' = it
       | Some e \<Rightarrow> child_at h1 n i e \<and> iter_ok (h1 ! n) (Suc i) (ec_inner it')"
    using nav_element_children_next [OF wf n less.prems(3,4)] by (auto simp: nav_def)
  note same = heap_le_node [OF s(3) n]
  show ?case
  proof (cases x)
    case None
    with s have "filter_next E p it h = Inr ((None, it'), h1)" by (simp add: filter_next.simps [of E p it])
    with None s less.prems(3) iter_ok_le [OF s(3) n] show ?thesis by (auto simp: nav_def)
  next
    case (Some e)
    with s(5) have e: "child_at h1 n i e" "iter_ok (h1 ! n) (Suc i) (ec_inner it')" by simp_all
    have i: "i < ?len" using e(2) same by (simp add: iter_ok_def)
    then have upt: "[i..<?len] = i # [Suc i..<?len]" by (rule upt_conv_Cons)
    have p: "p h1 e = Inr (P i)" using less.prems(5) s(2,3) e(1) by blast
    show ?thesis
    proof (cases "P i")
      case True
      with s Some p have "filter_next E p it h = Inr ((Some e, it'), h1)" by (simp add: filter_next.simps [of E p it])
      with s e upt True show ?thesis by (auto simp: nav_def)
    next
      case False
      with s Some p have step: "filter_next E p it h = filter_next E p it' h1" by (simp add: filter_next.simps [of E p it])
      have "nav E g h1 (filter_next E p it') (\<lambda>h' (x, it'). ec_parent it' = n \<and> (case x of
          None \<Rightarrow> iter_ok (h' ! n) (length (node_children (h1 ! n))) (ec_inner it') \<and>
            filter P [Suc i..<length (node_children (h1 ! n))] = []
        | Some e \<Rightarrow> \<exists>j. child_at h' n j e \<and> iter_ok (h' ! n) (Suc j) (ec_inner it') \<and>
            filter P [Suc i..<length (node_children (h1 ! n))] = j # filter P [Suc j..<length (node_children (h1 ! n))]))"
      proof (rule less.hyps)
        show "length (node_children (h1 ! n)) - Suc i < ?len - i" using i same by simp
        fix h' j e assume "red_wf E g h'" "heap_le h1 h'" "child_at h' n j e"
        then show "p h' e = Inr (P j)" using less.prems(5) heap_le_trans [OF s(3)] by blast
      qed (use s e same in auto)
      then have "nav E g h1 (filter_next E p it') (?Q i)" using upt False by (simp only: same filter.simps if_False)
      with step s(3) show ?thesis by (rule nav_step)
    qed
  qed
qed

end

section \<open>The tokens at an offset\<close>

text \<open>The token at the end of \<open>p\<close> is not empty and touches \<open>off\<close>, when the element starts at \<open>b\<close>.\<close>

definition at_offset :: "nat \<Rightarrow> nat \<Rightarrow> green_element \<Rightarrow> nat list \<Rightarrow> bool" where
  "at_offset b off e p \<longleftrightarrow>
     (case sub e p of
        Some x \<Rightarrow> 0 < element_len x \<and> b + start_at e p \<le> off \<and> off \<le> b + start_at e p + element_len x
      | None \<Rightarrow> False)"

definition tokens_at :: "nat \<Rightarrow> nat \<Rightarrow> green_element \<Rightarrow> nat list list" where
  "tokens_at b off e = filter (at_offset b off e) (element_paths e)"

definition hit :: "nat \<Rightarrow> nat \<Rightarrow> green_element \<Rightarrow> bool" where
  "hit b off c \<longleftrightarrow> 0 < element_len c \<and> b \<le> off \<and> off \<le> b + element_len c"

fun tokens_at_from :: "nat \<Rightarrow> nat \<Rightarrow> nat \<Rightarrow> green_element list \<Rightarrow> nat list list" where
  "tokens_at_from b off i [] = []"
| "tokens_at_from b off i (c # cs) = map ((#) i) (tokens_at b off c) @ tokens_at_from (b + element_len c) off (Suc i) cs"

lemma tokens_at_Token: "tokens_at b off (Token t) = (if hit b off (Token t) then [[]] else [])"
  by (simp add: tokens_at_def at_offset_def hit_def)

lemma tokens_at_Node: "tokens_at b off (Node n) = tokens_at_from b off 0 (gn_children n)"
proof -
  have "filter (at_offset b off (Node n)) (token_paths_from (length pre) cs) =
      tokens_at_from (b + sum_list (map element_len pre)) off (length pre) cs"
    if "gn_children n = pre @ cs" for pre cs
    using that
  proof (induction cs arbitrary: pre)
    case (Cons c cs)
    have "at_offset b off (Node n) (length pre # p) = at_offset (b + sum_list (map element_len pre)) off c p" for p
      by (simp add: at_offset_def Cons.prems add.assoc split: option.split)
    then have "filter (at_offset b off (Node n)) (map ((#) (length pre)) (element_paths c)) =
        map ((#) (length pre)) (tokens_at (b + sum_list (map element_len pre)) off c)"
      by (simp add: tokens_at_def filter_map comp_def)
    with Cons.IH [of "pre @ [c]"] Cons.prems show ?case
      by (simp add: token_paths_from_Cons add.assoc)
  qed simp
  from this [of "[]" "gn_children n"] show ?thesis
    by (simp add: tokens_at_def element_paths_Node del: element_paths.simps)
qed

text \<open>
  Of \<open>len\<close> bytes from \<open>b\<close> on: nothing outside; one or two inside, and one at either end.
\<close>

definition good :: "nat \<Rightarrow> nat \<Rightarrow> nat \<Rightarrow> 'a list \<Rightarrow> bool" where
  "good b off len xs \<longleftrightarrow>
     (len = 0 \<or> off < b \<or> b + len < off \<longrightarrow> xs = []) \<and>
     (0 < len \<and> b \<le> off \<and> off \<le> b + len \<longrightarrow>
        length xs \<in> {1, 2} \<and> (off = b \<or> off = b + len \<longrightarrow> length xs = 1))"

lemma good_append: "good b off l xs \<Longrightarrow> good (b + l) off m ys \<Longrightarrow> good b off (l + m) (xs @ ys)"
proof -
  assume x: "good b off l xs" and y: "good (b + l) off m ys"
  consider "l = 0" | "m = 0" | "l \<noteq> 0" "m \<noteq> 0" "off < b + l" | "l \<noteq> 0" "m \<noteq> 0" "off = b + l" | "l \<noteq> 0" "m \<noteq> 0" "b + l < off"
    by linarith
  then show ?thesis
  proof cases
    case 1 with x y show ?thesis by (simp add: good_def)
  next
    case 2 with x y show ?thesis by (simp add: good_def)
  next
    case 3
    then have "ys = []" using y by (simp add: good_def)
    with x 3 show ?thesis by (simp add: good_def)
  next
    case 4
    then have "length xs = 1" "length ys = 1" using x y by (simp_all add: good_def)
    with 4 show ?thesis by (simp add: good_def)
  next
    case 5
    then have "xs = []" using x by (simp add: good_def)
    with y 5 show ?thesis by (simp add: good_def add.assoc)
  qed
qed

lemma good_single: "good b off l (if 0 < l \<and> b \<le> off \<and> off \<le> b + l then [x] else [])"
  by (auto simp: good_def)

lemma good_map: "good b off len (map f xs) \<longleftrightarrow> good b off len xs"
  by (simp add: good_def)

lemma tokens_at_good: "good b off (element_len e) (tokens_at b off e)"
proof -
  have token: "good b off (element_len (Token t)) (tokens_at b off (Token t))" for b t
    unfolding tokens_at_Token hit_def by (rule good_single)
  have node: "good b off (green_len n) (tokens_at b off (Node n))" for n
  proof (induction n arbitrary: b rule: green_node_induct)
    case (GreenNode h cs)
    have "good b off (sum_list (map element_len cs)) (tokens_at_from b off i cs)"
      if "\<forall>c \<in> set cs. \<forall>b. good b off (element_len c) (tokens_at b off c)" for i
      using that
    proof (induction cs arbitrary: b i)
      case (Cons c cs)
      have "good b off (element_len c) (map ((#) i) (tokens_at b off c))" using Cons.prems by (simp add: good_map)
      from good_append [OF this Cons.IH] Cons.prems show ?case by simp
    qed (simp add: good_def)
    moreover have "\<forall>c \<in> set cs. \<forall>b. good b off (element_len c) (tokens_at b off c)"
    proof (intro ballI allI)
      fix c b assume c: "c \<in> set cs"
      show "good b off (element_len c) (tokens_at b off c)"
      proof (cases c)
        case (Node m)
        with GreenNode.IH c show ?thesis by (simp only: element_len_simps)
      next
        case (Token t)
        then show ?thesis by (simp only: token)
      qed
    qed
    ultimately show ?case unfolding tokens_at_Node green_len_GreenNode green_node.sel by blast
  qed
  show ?thesis
  proof (cases e)
    case (Node n)
    then show ?thesis by (simp only: element_len_simps node)
  next
    case (Token t)
    then show ?thesis by (simp only: token)
  qed
qed

text \<open>The children of a node that are hit, and the tokens in them.\<close>

abbreviation child_hit :: "('j, 'x) node_data \<Rightarrow> nat \<Rightarrow> nat \<Rightarrow> bool" where
  "child_hit d off j \<equiv> hit (child_start d j) off (node_children d ! j)"

lemma tokens_at_children:
  "tokens_at (node_start d) off (Node (nd_green d)) =
     concat (map (\<lambda>j. map ((#) j) (tokens_at (child_start d j) off (node_children d ! j)))
       (filter (child_hit d off) [0..<length (node_children d)]))"
proof -
  let ?f = "\<lambda>j. map ((#) j) (tokens_at (child_start d j) off (node_children d ! j))"
  have "tokens_at_from (child_start d i) off i (drop i (node_children d)) =
      concat (map ?f (filter (child_hit d off) [i..<length (node_children d)]))" if "i \<le> length (node_children d)" for i
    using that
  proof (induction "length (node_children d) - i" arbitrary: i)
    case (Suc m)
    then have i: "i < length (node_children d)" by simp
    have none: "tokens_at (child_start d i) off (node_children d ! i) = []" if "\<not> child_hit d off i"
      using tokens_at_good [of "child_start d i" off "node_children d ! i"] that by (auto simp: good_def hit_def)
    have "tokens_at_from (child_start d (Suc i)) off (Suc i) (drop (Suc i) (node_children d)) =
        concat (map ?f (filter (child_hit d off) [Suc i..<length (node_children d)]))"
      using Suc i by simp
    moreover have "drop i (node_children d) = node_children d ! i # drop (Suc i) (node_children d)"
      using i by (simp add: Cons_nth_drop_Suc)
    ultimately show ?case using none by (simp add: upt_conv_Cons [OF i] child_start_Suc [OF i])
  qed simp
  from this [of 0] show ?thesis by (simp add: tokens_at_Node node_children_def)
qed

text \<open>At most two children are hit, and two only where they meet.\<close>

lemma child_hit_meet:
  assumes "child_hit d off i" "child_hit d off j" "i < j" "j < length (node_children d)"
  shows "off = child_start d i + element_len (node_children d ! i)" "off = child_start d j"
proof -
  have "child_start d (Suc i) \<le> child_start d j" using assms(3) by (intro child_start_mono) simp
  moreover have "child_start d (Suc i) = child_start d i + element_len (node_children d ! i)"
    using assms by (intro child_start_Suc) simp
  ultimately show "off = child_start d i + element_len (node_children d ! i)" "off = child_start d j"
    using assms by (auto simp: hit_def)
qed

lemma child_hits_le_2:
  assumes "filter (child_hit d off) [0..<length (node_children d)] = i # j # k # rest"
  shows False
proof -
  have s: "sorted_wrt (<) (i # j # k # rest)"
    using sorted_wrt_filter [of "(<)" "[0..<length (node_children d)]" "child_hit d off"] unfolding assms
    by (simp add: sorted_wrt_upt)
  have m: "x < length (node_children d) \<and> child_hit d off x" if "x \<in> set (i # j # k # rest)" for x
    using that unfolding assms [symmetric] by simp
  from s have "i < j" "j < k" by simp_all
  moreover have "child_hit d off i" "child_hit d off j" "child_hit d off k" "j < length (node_children d)"
    "k < length (node_children d)" using m by simp_all
  ultimately have "off = child_start d j" "off = child_start d j + element_len (node_children d ! j)"
    using child_hit_meet(2) [where i = i and j = j] child_hit_meet(1) [where i = j and j = k] by blast+
  with \<open>child_hit d off j\<close> show False by (simp add: hit_def)
qed

section \<open>\<open>token_at_offset\<close> finds them\<close>

definition offset_result :: "('j, 'x) heap \<Rightarrow> nat list list \<Rightarrow> syntax_token token_at_offset \<Rightarrow> bool" where
  "offset_result h ps r \<longleftrightarrow>
     list_all2 (\<lambda>p t. elem_in h (Token t) \<and> elem_path h (Token t) = p) ps (token_at_offset_items r)"

lemma offset_result_le:
  assumes "heap_le h h'" "red_wf E g h" "offset_result h ps r"
  shows "offset_result h' ps r"
  using assms(3) heap_le_elem_in [OF assms(1)] elem_path_le [OF assms(1,2)]
  unfolding offset_result_def by (auto elim!: list_all2_mono simp del: elem_path.simps elem_in.simps)

lemma offset_result_single: "offset_result h [p] r \<longleftrightarrow> (\<exists>t. r = TSingle t \<and> elem_in h (Token t) \<and> elem_path h (Token t) = p)"
  by (cases r) (auto simp: offset_result_def)

context red_env
begin

lemma child_touches:
  assumes wf: "red_wf E g h'" and le: "heap_le h h'" and n: "n < length h" and at: "child_at h' n j e"
  shows "touches E offset h' e = Inr (child_hit (h ! n) (unat offset) j)"
proof -
  obtain r where r: "element_text_range E h' e = Inr r" "tr_valid r" "unat (tr_start r) = child_start (h' ! n) j"
    "unat (tr_end r) = child_start (h' ! n) j + element_len (node_children (h' ! n) ! j)"
    using child_range [OF wf at] by blast
  have "tr_is_empty (en_text E) r \<longleftrightarrow> element_len (node_children (h' ! n) ! j) = 0"
    using is_empty [OF r(2)] r(3,4) by (auto simp: word_unat_eq_iff)
  with r heap_le_node [OF le n] show ?thesis by (auto simp: touches_def hit_def word_le_nat_alt)
qed

lemma filter_touching:
  assumes n: "n < length h" and wf: "red_wf E g h'" and le: "heap_le h h'"
    and it: "iter_ok (h' ! n) i (ec_inner it)" "ec_parent it = n"
  obtains x it' h'' where "filter_next E (touches E offset) it h' = Inr ((x, it'), h'')" "red_wf E g h''" "heap_le h' h''"
    "ec_parent it' = n"
    "x = None \<Longrightarrow> iter_ok (h'' ! n) (length (node_children (h ! n))) (ec_inner it') \<and>
       filter (child_hit (h ! n) (unat offset)) [i..<length (node_children (h ! n))] = []"
    "\<And>e. x = Some e \<Longrightarrow> \<exists>j. child_at h'' n j e \<and> iter_ok (h'' ! n) (Suc j) (ec_inner it') \<and>
       filter (child_hit (h ! n) (unat offset)) [i..<length (node_children (h ! n))] =
         j # filter (child_hit (h ! n) (unat offset)) [Suc j..<length (node_children (h ! n))]"
proof -
  note same = heap_le_node [OF le n]
  let ?P = "child_hit (h ! n) (unat offset)" and ?len = "length (node_children (h ! n))"
  have P: "touches E offset h'' e = Inr (?P j)" if "red_wf E g h''" "heap_le h' h''" "child_at h'' n j e" for h'' j e
    by (rule child_touches [OF that(1) heap_le_trans [OF le that(2)] n that(3)])
  have "nav E g h' (filter_next E (touches E offset) it) (\<lambda>h'' (x, it'). ec_parent it' = n \<and>
     (case x of
        None \<Rightarrow> iter_ok (h'' ! n) ?len (ec_inner it') \<and> filter ?P [i..<?len] = []
      | Some e \<Rightarrow> \<exists>j. child_at h'' n j e \<and> iter_ok (h'' ! n) (Suc j) (ec_inner it') \<and>
          filter ?P [i..<?len] = j # filter ?P [Suc j..<?len]))"
    using nav_filter_next [OF wf same(1) it P] by (simp only: same)
  then obtain r h'' where q: "filter_next E (touches E offset) it h' = Inr (r, h'')" "red_wf E g h''" "heap_le h' h''"
    "case r of (x, it') \<Rightarrow> ec_parent it' = n \<and> (case x of
        None \<Rightarrow> iter_ok (h'' ! n) ?len (ec_inner it') \<and> filter ?P [i..<?len] = []
      | Some e \<Rightarrow> \<exists>j. child_at h'' n j e \<and> iter_ok (h'' ! n) (Suc j) (ec_inner it') \<and>
          filter ?P [i..<?len] = j # filter ?P [Suc j..<?len])" unfolding nav_def by blast
  obtain x it' where r: "r = (x, it')" by (cases r)
  show thesis
    by (rule that [of x it' h'']) (use q in \<open>simp_all add: r\<close>)
qed

lemma nav_element_token_at:
  assumes wf: "red_wf E g h" and at: "child_at h n j e"
    and hit: "hit (child_start (h ! n) j) off (node_children (h ! n) ! j)" and off: "off = unat offset"
    and rec: "\<And>c. e = Node c \<Longrightarrow> nav E g h (rec c offset) (\<lambda>h' r.
      offset_result h' (map ((@) (path_of h c)) (tokens_at (node_start (h ! c)) off (Node (nd_green (h ! c))))) r)"
  shows "nav E g h (element_token_at_offset rec E e offset) (\<lambda>h' r.
    offset_result h' (map ((@) (path_of h n @ [j])) (tokens_at (child_start (h ! n) j) off (node_children (h ! n) ! j))) r)"
proof -
  obtain r where r: "element_text_range E h e = Inr r" "unat (tr_start r) = child_start (h ! n) j"
    "unat (tr_end r) = child_start (h ! n) j + element_len (node_children (h ! n) ! j)"
    using child_range [OF wf at] by blast
  with hit off have inside: "tr_start r \<le> offset \<and> offset \<le> tr_end r" by (simp add: hit_def word_le_nat_alt)
  have path: "elem_path h e = path_of h n @ [j]" by (rule child_at_path [OF wf at])
  show ?thesis
  proof (cases e)
    case (Token t)
    obtain tok where tok: "node_children (h ! n) ! j = Token tok" using child_at_elem(4) [OF wf at Token] by blast
    have "elem_in h (Token t)" using child_at_elem(1) [OF wf at] Token by simp
    with Token r(1) inside tok hit path wf show ?thesis
      unfolding element_token_at_offset_def
      by (intro nav_read [where a = r]) (auto simp: tokens_at_Token offset_result_single intro!: nav_return)
  next
    case (Node c)
    from child_at_elem(3) [OF wf at Node] have c: "node_children (h ! n) ! j = Node (nd_green (h ! c))"
      "node_start (h ! c) = child_start (h ! n) j" by (auto simp: node_start_def)
    from rec [OF Node] path Node c inside r(1) show ?thesis
      unfolding element_token_at_offset_def by (intro nav_read [where a = r]) simp_all
  qed
qed

lemma nav_token_at_offset:
  "red_wf E g (h :: ('j, 'x) heap) \<Longrightarrow> n < length h \<Longrightarrow> height (nd_green (h ! n)) \<le> k \<Longrightarrow>
   node_start (h ! n) \<le> unat offset \<Longrightarrow> unat offset \<le> node_start (h ! n) + green_len (nd_green (h ! n)) \<Longrightarrow>
   nav E g h (node_token_at_offset k E n offset) (\<lambda>h' r.
     offset_result h' (map ((@) (path_of h n)) (tokens_at (node_start (h ! n)) (unat offset) (Node (nd_green (h ! n))))) r)"
proof (induction k arbitrary: h n)
  case 0
  then show ?case by (cases "nd_green (h ! n)") simp
next
  case (Suc k h n)
  note wf = Suc.prems(1) and n = Suc.prems(2)
  let ?off = "unat offset" and ?d = "h ! n"
  let ?cs = "node_children ?d" and ?g = "nd_green ?d"
  let ?ps = "map ((@) (path_of h n)) (tokens_at (node_start ?d) ?off (Node ?g))"
  let ?Q = "\<lambda>h' r. offset_result h' ?ps r"
  obtain r where r: "node_text_range E h n = Inr r" "tr_valid r" "unat (tr_start r) = node_start ?d"
    "unat (tr_end r) = node_start ?d + green_len ?g"
    using node_range [OF wf n] by (auto simp: child_start_end)
  have inside: "tr_start r \<le> offset" "offset \<le> tr_end r" using r Suc.prems(4,5) by (simp_all add: word_le_nat_alt)
  have empty: "tr_is_empty (en_text E) r \<longleftrightarrow> green_len ?g = 0"
    using is_empty [OF r(2)] r(3,4) by (auto simp: word_unat_eq_iff)
  show ?case
  proof (cases "green_len ?g = 0")
    case True
    then have "tokens_at (node_start ?d) ?off (Node ?g) = []"
      using tokens_at_good [of "node_start ?d" ?off "Node ?g"] by (simp add: good_def)
    with True inside empty r(1) wf show ?thesis
      by (auto simp: offset_result_def intro!: nav_read [where a = r] nav_return)
  next
    case False
    let ?hits = "filter (child_hit ?d ?off) [0..<length ?cs]"
    have "tokens_at (node_start ?d) ?off (Node ?g) \<noteq> []"
      using tokens_at_good [of "node_start ?d" ?off "Node ?g"] False Suc.prems(4,5) by (auto simp: good_def)
    moreover have "tokens_at (node_start ?d) ?off (Node ?g) = []" if "?hits = []"
      unfolding tokens_at_children that by simp
    ultimately have "?hits \<noteq> []" by blast
    then obtain i rest where hits: "?hits = i # rest" by (cases ?hits) auto
    let ?p = "touches E offset" and ?P = "child_hit ?d ?off"
    obtain it0 where it0: "children_with_tokens E h n = Inr it0" "iter_ok (h ! n) 0 (ec_inner it0)" "ec_parent it0 = n"
      using child_iter_new_ok [OF wf n] by (auto simp: children_with_tokens_def)
    obtain x1 it1 h1 where s1: "filter_next E ?p it0 h = Inr ((x1, it1), h1)" "red_wf E g h1" "heap_le h h1" "ec_parent it1 = n"
      "x1 = None \<Longrightarrow> iter_ok (h1 ! n) (length ?cs) (ec_inner it1) \<and> ?hits = []"
      "\<And>e. x1 = Some e \<Longrightarrow> \<exists>j. child_at h1 n j e \<and> iter_ok (h1 ! n) (Suc j) (ec_inner it1) \<and>
        ?hits = j # filter ?P [Suc j..<length ?cs]"
      by (rule filter_touching [OF n wf heap_le_refl it0(2,3)]) (rule that)
    from s1(5) hits obtain l where l: "x1 = Some l" by (cases x1) auto
    from s1(6) [OF l] hits have l': "child_at h1 n i l" "iter_ok (h1 ! n) (Suc i) (ec_inner it1)"
      "rest = filter ?P [Suc i..<length ?cs]" by auto
    obtain x2 it2 h2 where s2: "filter_next E ?p it1 h1 = Inr ((x2, it2), h2)" "red_wf E g h2" "heap_le h1 h2" "ec_parent it2 = n"
      "x2 = None \<Longrightarrow> iter_ok (h2 ! n) (length ?cs) (ec_inner it2) \<and> filter ?P [Suc i..<length ?cs] = []"
      "\<And>e. x2 = Some e \<Longrightarrow> \<exists>j. child_at h2 n j e \<and> iter_ok (h2 ! n) (Suc j) (ec_inner it2) \<and>
        filter ?P [Suc i..<length ?cs] = j # filter ?P [Suc j..<length ?cs]"
      by (rule filter_touching [OF n s1(2,3) l'(2) s1(4)]) (rule that)
    note le2 = heap_le_trans [OF s1(3) s2(3)]
    obtain m where m: "iter_ok (h2 ! n) m (ec_inner it2)" "filter ?P [m..<length ?cs] = []"
    proof (cases x2)
      case None
      with s2(5) that [of "length ?cs"] show ?thesis by simp
    next
      case (Some e)
      with s2(6) obtain j where j: "iter_ok (h2 ! n) (Suc j) (ec_inner it2)" "rest = j # filter ?P [Suc j..<length ?cs]"
        using l'(3) by auto
      have "filter ?P [Suc j..<length ?cs] = []"
        using child_hits_le_2 [of ?d ?off i j] hits j(2) by (cases "filter ?P [Suc j..<length ?cs]") auto
      with j that show ?thesis by blast
    qed
    obtain x3 it3 h3 where s3: "filter_next E ?p it2 h2 = Inr ((x3, it3), h3)" "red_wf E g h3" "heap_le h2 h3" "x3 = None"
    proof (rule filter_touching [OF n s2(2) le2 m(1) s2(4)])
      fix x it' h'' assume "filter_next E ?p it2 h2 = Inr ((x, it'), h'')" "red_wf E g h''" "heap_le h2 h''"
        "\<And>e. x = Some e \<Longrightarrow> \<exists>j. child_at h'' n j e \<and> iter_ok (h'' ! n) (Suc j) (ec_inner it') \<and>
          filter ?P [m..<length ?cs] = j # filter ?P [Suc j..<length ?cs]"
      with m(2) that show thesis by (cases x) auto
    qed
    note le3 = heap_le_trans [OF le2 s3(3)]
    note same3 = heap_le_node [OF le3 n]
    let ?el = "\<lambda>e. element_token_at_offset (node_token_at_offset k E) E e offset"
    let ?rest = "case x2 of
         Some right \<Rightarrow> bindR (?el l) (\<lambda>a. bindR (?el right) (\<lambda>b. case (a, b) of
           (TSingle left, TSingle right) \<Rightarrow> returnR (TBetween left right) | _ \<Rightarrow> panicR Unreachable))
       | None \<Rightarrow> ?el l"
    have run: "node_token_at_offset (Suc k) E n offset h = ?rest h3"
      using r(1) inside empty False it0(1) s1(1) l s2(1) s3(1,4) by (simp add: bindR_def readR_def)
    have visit: "nav E g h' (?el e) (\<lambda>h' r. offset_result h' (map ((@) (path_of h n @ [j]))
        (tokens_at (child_start ?d j) ?off (?cs ! j))) r)"
      if at: "red_wf E g h'" "heap_le h h'" "child_at h' n j e" and j: "child_hit ?d ?off j" for h' :: "('j, 'x) heap" and j e
    proof -
      note same = heap_le_node [OF at(2) n]
      have "nav E g h' (node_token_at_offset k E c offset) (\<lambda>h'' r. offset_result h'' (map ((@) (path_of h' c))
          (tokens_at (node_start (h' ! c)) ?off (Node (nd_green (h' ! c))))) r)" if c: "e = Node c" for c
      proof (rule Suc.IH [OF at(1)])
        from child_at_elem(3) [OF at(1,3) c] same have green: "?cs ! j = Node (nd_green (h' ! c))"
          "node_start (h' ! c) = child_start ?d j" by (auto simp: node_start_def)
        show "c < length h'" using child_at_elem(1) [OF at(1,3)] c by simp
        have "j < length ?cs" using child_at_index [OF at(1,3)] same by simp
        then have "Node (nd_green (h' ! c)) \<in> set (gn_children ?g)" using green(1) by (metis node_children_def nth_mem)
        from height_child [OF this] Suc.prems(3) show "height (nd_green (h' ! c)) \<le> k" by simp
        show "node_start (h' ! c) \<le> ?off" "?off \<le> node_start (h' ! c) + green_len (nd_green (h' ! c))"
          using j green by (simp_all add: hit_def)
      qed
      from nav_element_token_at [where rec = "node_token_at_offset k E" and off = ?off, OF at(1,3) _ refl this] j path_of_le [OF at(2) wf n] show ?thesis
        by (simp only: same)
    qed
    have prefix: "map ((@) p) (map ((#) x) ps) = map ((@) (p @ [x])) ps" for p x and ps :: "nat list list" by simp
    have i: "child_hit ?d ?off i" "i < length ?cs" using hits filter_set [of ?P "[0..<length ?cs]"] by (auto simp: set_eq_iff)
    have l3: "child_at h3 n i l" by (rule heap_le_child_at [OF heap_le_trans [OF s2(3) s3(3)] l'(1)])
    show ?thesis
    proof (rule nav_step [where m = "node_token_at_offset (Suc k) E n offset" and m' = ?rest, OF run le3])
      show "nav E g h3 ?rest ?Q"
      proof (cases x2)
        case None
        with s2(5) l'(3) hits have "?hits = [i]" by simp
        then have "?ps = map ((@) (path_of h n @ [i])) (tokens_at (child_start ?d i) ?off (?cs ! i))"
          unfolding tokens_at_children by simp
        with visit [OF s3(2) le3 l3 i(1)] None show ?thesis by simp
      next
        case (Some right)
        with s2(6) obtain j where j: "child_at h2 n j right" "filter ?P [Suc i..<length ?cs] = j # filter ?P [Suc j..<length ?cs]"
          by blast
        have "filter ?P [Suc j..<length ?cs] = []"
          using child_hits_le_2 [of ?d ?off i j] hits l'(3) j(2) by (cases "filter ?P [Suc j..<length ?cs]") auto
        then have two: "?hits = [i, j]" using hits l'(3) j(2) by simp
        have "j \<in> set (filter ?P [Suc i..<length ?cs])" using j(2) by simp
        then have jj: "?P j" "i < j" "j < length ?cs" by auto
        note meet = child_hit_meet [OF i(1) jj]
        obtain p where p: "tokens_at (child_start ?d i) ?off (?cs ! i) = [p]"
          using tokens_at_good [of "child_start ?d i" ?off "?cs ! i"] i(1) meet(1)
          by (auto simp: good_def hit_def length_Suc_conv)
        obtain q where q: "tokens_at (child_start ?d j) ?off (?cs ! j) = [q]"
          using tokens_at_good [of "child_start ?d j" ?off "?cs ! j"] jj(1) meet(2)
          by (auto simp: good_def hit_def length_Suc_conv)
        have ps: "?ps = [path_of h n @ i # p, path_of h n @ j # q]" unfolding tokens_at_children two by (simp add: p q)
        have "nav E g h3 (bindR (?el l) (\<lambda>a. bindR (?el right) (\<lambda>b. case (a, b) of
           (TSingle left, TSingle right) \<Rightarrow> returnR (TBetween left right) | _ \<Rightarrow> panicR Unreachable))) ?Q"
        proof (rule nav_bind [OF visit [OF s3(2) le3 l3 i(1)]])
          fix h4 a assume wf4: "red_wf E g h4" and le4: "heap_le h3 h4"
            and a: "offset_result h4 (map ((@) (path_of h n @ [i])) (tokens_at (child_start ?d i) ?off (?cs ! i))) a"
          have r4: "child_at h4 n j right"
            by (rule heap_le_child_at [OF heap_le_trans [OF s3(3) le4] j(1)])
          show "nav E g h4 (bindR (?el right) (\<lambda>b. case (a, b) of
             (TSingle left, TSingle right) \<Rightarrow> returnR (TBetween left right) | _ \<Rightarrow> panicR Unreachable)) ?Q"
          proof (rule nav_bind [OF visit [OF wf4 heap_le_trans [OF le3 le4] r4 jj(1)]])
            fix h5 b assume wf5: "red_wf E g h5" and le5: "heap_le h4 h5"
              and b: "offset_result h5 (map ((@) (path_of h n @ [j])) (tokens_at (child_start ?d j) ?off (?cs ! j))) b"
            from offset_result_le [OF le5 wf4 a] p obtain t where t: "a = TSingle t" "elem_in h5 (Token t)"
              "elem_path h5 (Token t) = path_of h n @ i # p" by (auto simp: offset_result_single simp del: elem_path.simps elem_in.simps)
            from b q obtain u where u: "b = TSingle u" "elem_in h5 (Token u)"
              "elem_path h5 (Token u) = path_of h n @ j # q" by (auto simp: offset_result_single simp del: elem_path.simps elem_in.simps)
            show "nav E g h5 (case (a, b) of
               (TSingle left, TSingle right) \<Rightarrow> returnR (TBetween left right) | _ \<Rightarrow> panicR Unreachable) ?Q"
              using wf5 t u by (simp add: nav_return offset_result_def ps del: elem_path.simps elem_in.simps)
          qed
        qed
        with Some show ?thesis by simp
      qed
    qed
  qed
qed

end

end
