(* ===== verification/Red_Theorems.thy ===== *)
theory Red_Theorems
  imports Red_Traversal
begin

text \<open>
  The properties of the red tree: every element exists once and has the text range of its
  green element, and the navigation functions and the traversals follow the green tree.
\<close>

section \<open>An example\<close>

text \<open>A root with a token, an empty node and a node with one token.\<close>

definition ex_leaf :: "u32 \<Rightarrow> text_size \<Rightarrow> green_token" where
  "ex_leaf k n = \<lparr>gt_kind = k, gt_data = Some (TokenKey k), gt_data_len = n\<rparr>"

definition ex_node :: "u32 \<Rightarrow> green_element list \<Rightarrow> green_node" where
  "ex_node k cs = green_node_new documented_text_ops (\<lambda>_. 0) k cs"

definition ex_green :: green_node where
  "ex_green = ex_node 5 [Token (ex_leaf 1 2), Node (ex_node 4 []), Node (ex_node 4 [Token (ex_leaf 2 3)])]"

abbreviation red_ex_env :: "(test_kind, rust_str, rust_str token_interner, interner_error) env" where
  "red_ex_env \<equiv> test_env (\<lambda>_. 0) True"

abbreviation ex_heap :: "(rust_str token_interner, unit) heap" where
  "ex_heap \<equiv> snd (make_new_root ex_green None)"

lemmas ex_green_defs = ex_green_def ex_node_def ex_leaf_def green_node_new_def

lemma ex_text [simp]: "text_size (en_text (test_env H debug))"
  by (simp add: documented.text_size_axioms)

lemma ex_fits: "green_fits red_ex_env ex_green"
  by (simp add: green_fits_def ex_green_defs arity_ok_def green_len_GreenNode u32_max_def)

lemma ex_wf: "red_wf red_ex_env ex_green ex_heap"
  by (rule make_new_root_wf(1) [OF ex_fits])

lemma ex_green_children:
  "gn_children ex_green = [Token (ex_leaf 1 2), Node (ex_node 4 []), Node (ex_node 4 [Token (ex_leaf 2 3)])]"
  by (simp add: ex_green_def ex_node_def)

lemma ex_len: "green_len ex_green = 5"
  by (simp add: ex_green_defs green_len_GreenNode)

lemma ex_walk: "walk_node [] ex_green = [Enter [], Enter [0], Leave [0], Enter [1], Leave [1], Enter [2], Enter [2, 0],
    Leave [2, 0], Leave [2], Leave []]"
  by (simp add: ex_green_defs)

lemma ex_node_0: "0 < length ex_heap" "nd_green (ex_heap ! 0) = ex_green" "node_children (ex_heap ! 0) = gn_children ex_green"
  by (simp_all add: make_new_root_def node_data_new_def node_children_def Let_def)

lemma ex_start: "node_start (ex_heap ! 0) = 0"
  by (simp add: make_new_root_def node_data_new_def node_start_def Let_def)

lemma ex_path_0 [simp]: "path_of ex_heap 0 = []"
  by (rule path_of_root [OF ex_wf])

section \<open>Red elements\<close>

text \<open>C19: Asking for a child at its own index and offset always succeeds and keeps the tree well formed; whatever
  the tree grows to afterwards, asking again returns the same element and adds nothing: a child is created once.\<close>
theorem child_created_once:
  assumes "text_size (en_text E)" "red_wf E g h" "n < length h" "i < length (node_children (h ! n))"
    and "unat offset = child_start (h ! n) i"
  shows "\<exists>e h1. get_or_add_element E n (node_children (h ! n) ! i) i offset h = Inr (e, h1) \<and> red_wf E g h1 \<and>
    (\<forall>h2. red_wf E g h2 \<and> heap_le h1 h2 \<longrightarrow> get_or_add_element E n (node_children (h ! n) ! i) i offset h2 = Inr (e, h2))"
proof -
  note ok = red_env.get_or_add_element_ok [OF red_env.intro [OF assms(1)]]
  from ok [OF assms(2-4) refl assms(5)] obtain e h1 where
    1: "get_or_add_element E n (node_children (h ! n) ! i) i offset h = Inr (e, h1)" "red_wf E g h1" "heap_le h h1"
      "child_at h1 n i e" by blast
  have "get_or_add_element E n (node_children (h ! n) ! i) i offset h2 = Inr (e, h2)"
    if wf: "red_wf E g h2" and le: "heap_le h1 h2" for h2
  proof -
    have at: "child_at h2 n i e" using le 1(4) by (rule heap_le_child_at)
    note same = heap_le_node [OF heap_le_trans [OF 1(3) le] assms(3)]
    have "read_slot h2 n i = Inr (Some e)"
      using at by (simp add: read_slot_def node_data_of_def child_at_def)
    moreover have "check_offset E h2 e offset = Inr ()"
      by (rule red_env.check_offset_ok [OF red_env.intro [OF assms(1)] wf at]) (simp add: assms(5) same)
    ultimately show ?thesis by (simp add: get_or_add_element_def)
  qed
  with 1 show ?thesis by blast
qed

theorem child_created_once_witness:
  "\<exists>e h1. get_or_add_element red_ex_env 0 (gn_children ex_green ! 1) 1 2 ex_heap = Inr (e, h1) \<and>
     get_or_add_element red_ex_env 0 (gn_children ex_green ! 1) 1 2 h1 = Inr (e, h1)"
proof -
  have "1 < length (node_children (ex_heap ! 0))" "unat (2 :: u32) = child_start (ex_heap ! 0) 1"
    by (simp_all add: child_start_def ex_node_0 ex_green_children ex_leaf_def ex_start)
  from child_created_once [OF ex_text ex_wf ex_node_0(1) this] show ?thesis by (fastforce simp: ex_node_0)
qed

text \<open>In a well-formed tree two elements are the same (the code compares node pointers, and tokens field by
  field) exactly when they are reached by the same child indices from the root, and that path leads to the green
  element they stand for.\<close>
theorem elements_are_paths:
  assumes "red_wf E g h" "elem_in h e" "elem_in h e'"
  shows "(e = e' \<longleftrightarrow> elem_path h e = elem_path h e') \<and> sub (Node g) (elem_path h e) = Some (green_of h e)"
  using elem_path_inj [OF assms] elem_sub [OF assms(1,2)] by blast

theorem elements_are_paths_witness:
  "sub (Node ex_green) (elem_path ex_heap (Node 0)) = Some (green_of ex_heap (Node 0))"
  using elements_are_paths [OF ex_wf, of "Node 0" "Node 0"] ex_node_0 by simp

text \<open>C20: The text range of an element never panics: it starts at the number of bytes before the element in the
  tree's text and is as long as the element's green text, without wrapping around.\<close>
theorem element_range_exact:
  assumes "text_size (en_text E)" "red_wf E g h" "elem_in h e"
  shows "\<exists>r. element_text_range E h e = Inr r \<and> unat (tr_start r) = start_at (Node g) (elem_path h e) \<and>
    unat (tr_end r) = start_at (Node g) (elem_path h e) + element_len (green_of h e)"
  using red_env.element_range [OF red_env.intro [OF assms(1)] assms(2,3)] by blast

theorem element_range_exact_witness:
  "\<exists>r. element_text_range red_ex_env ex_heap (Node 0) = Inr r \<and> unat (tr_start r) = 0 \<and> unat (tr_end r) = 5"
  using element_range_exact [OF ex_text ex_wf, of "Node 0"] ex_node_0 ex_len by simp

section \<open>Siblings\<close>

text \<open>The next sibling of the \<open>i\<close>-th child of \<open>n\<close>, node or token, is the child \<open>i + 1\<close>, and there is none only
  after the last child; going back from it leads to where one came from. The previous sibling of a first child
  is none.\<close>
theorem siblings_exact:
  assumes "text_size (en_text E)" "red_wf E g h" "child_at h n i e"
  shows "\<exists>r h1. element_next_sibling_or_token E e h = Inr (r, h1) \<and> red_wf E g h1 \<and> heap_le h h1 \<and>
    (case r of
       None \<Rightarrow> Suc i = length (node_children (h ! n))
     | Some e' \<Rightarrow> child_at h1 n (Suc i) e' \<and> (\<exists>h2. element_prev_sibling_or_token E e' h1 = Inr (Some e, h2))) \<and>
    (i = 0 \<longrightarrow> (\<exists>h3. element_prev_sibling_or_token E e h = Inr (None, h3)))"
proof -
  note env = red_env.intro [OF assms(1)]
  obtain r h1 where 1: "element_next_sibling_or_token E e h = Inr (r, h1)" "red_wf E g h1" "heap_le h h1"
    "first_element_from h1 n (Suc i) r"
    using red_env.nav_element_next_sibling [OF env assms(2,3)] by (auto simp: nav_def)
  have n: "n < length h" using assms(3) by (simp add: child_at_def)
  note same = heap_le_node [OF 1(3) n]
  have r: "case r of None \<Rightarrow> Suc i = length (node_children (h ! n))
     | Some e' \<Rightarrow> child_at h1 n (Suc i) e' \<and> (\<exists>h2. element_prev_sibling_or_token E e' h1 = Inr (Some e, h2))"
  proof (cases r)
    case None
    with 1(4) child_at_index [OF assms(2,3)] same show ?thesis by (simp add: first_element_from_def)
  next
    case (Some e')
    with 1(4) have at: "child_at h1 n (Suc i) e'" by (simp add: first_element_from_def)
    obtain r' h2 where 2: "element_prev_sibling_or_token E e' h1 = Inr (r', h2)" "heap_le h1 h2"
      "last_element_before h2 n (Suc i) r'"
      using red_env.nav_element_prev_sibling [OF env 1(2) at] by (auto simp: nav_def)
    then obtain e'' where "r' = Some e''" "child_at h2 n i e''"
      by (cases r') (auto simp: last_element_before_def)
    moreover have "child_at h2 n i e" using heap_le_trans [OF 1(3) 2(2)] assms(3) by (rule heap_le_child_at)
    ultimately have "r' = Some e" by (simp add: child_at_fun)
    with Some at 2(1) show ?thesis by auto
  qed
  have "\<exists>h3. element_prev_sibling_or_token E e h = Inr (None, h3)" if "i = 0"
    using red_env.nav_element_prev_sibling [OF env assms(2,3)] that
    by (auto simp: nav_def last_element_before_def split: option.splits)
  with 1 r show ?thesis by (intro exI [of _ r] exI [of _ h1]) blast
qed

lemma ex_child:
  assumes "i < 3"
  obtains e h where "red_wf red_ex_env ex_green h" "child_at h 0 i e" "heap_le ex_heap h"
    "node_children (h ! 0) = gn_children ex_green" "path_of h 0 = []" "0 < length h"
proof -
  have i: "i < length (node_children (ex_heap ! 0))" using assms by (simp add: ex_node_0 ex_green_children)
  have "child_start (ex_heap ! 0) i \<le> u32_max"
    using node_ok_child(2) [OF red_wf_node [OF ex_wf ex_node_0(1)] i] by simp
  then have "unat (as_u32 (child_start (ex_heap ! 0) i)) = child_start (ex_heap ! 0) i" by (rule unat_as_u32)
  with i obtain e h where "red_wf red_ex_env ex_green h" "heap_le ex_heap h" "child_at h 0 i e"
    using test_red.get_or_add_element_ok [OF ex_wf ex_node_0(1) _ refl] by blast
  then show thesis
    by (intro that [of h e])
      (use heap_le_node [of ex_heap h 0] path_of_le [OF _ ex_wf, of h 0] ex_node_0 in simp_all)
qed

theorem siblings_exact_witness:
  "\<exists>(h :: (rust_str token_interner, unit) heap) e e' h1 h2. red_wf red_ex_env ex_green h \<and> child_at h 0 1 e \<and>
     element_next_sibling_or_token red_ex_env e h = Inr (Some e', h1) \<and> child_at h1 0 2 e' \<and>
     element_prev_sibling_or_token red_ex_env e' h1 = Inr (Some e, h2)"
proof -
  obtain e and h :: "(rust_str token_interner, unit) heap" where 1: "red_wf red_ex_env ex_green h" "child_at h 0 1 e" "node_children (h ! 0) = gn_children ex_green"
    by (rule ex_child [of 1]) (simp, rule that, assumption+)
  from siblings_exact [OF ex_text 1(1,2), unfolded Suc_1] 1(3) obtain e' h1 h2 where
    "element_next_sibling_or_token red_ex_env e h = Inr (Some e', h1)" "child_at h1 0 2 e'"
    "element_prev_sibling_or_token red_ex_env e' h1 = Inr (Some e, h2)"
    by (auto simp: ex_green_defs split: option.splits)
  with 1 show ?thesis by blast
qed

section \<open>Children\<close>

text \<open>The first and the last child of a node are its first and last green child; the first and last child
  \<open>node\<close> are the first and last green child that is a node, and there is none exactly when all children are tokens.\<close>
theorem end_children_exact:
  assumes "text_size (en_text E)" "red_wf E g (h :: ('j, 'x) heap)" "n < length h"
  shows "nav E g h (first_child_or_token E n) (\<lambda>h' r. case r of
      None \<Rightarrow> node_children (h ! n) = [] | Some e \<Rightarrow> elem_path h' e = path_of h n @ [0] \<and> elem_in h' e) \<and>
    nav E g h (last_child_or_token E n) (\<lambda>h' r. case r of
      None \<Rightarrow> node_children (h ! n) = []
    | Some e \<Rightarrow> elem_path h' e = path_of h n @ [length (node_children (h ! n)) - 1] \<and> elem_in h' e) \<and>
    nav E g h (first_child E n) (\<lambda>h' r. first_node_from h' n 0 r) \<and>
    nav E g h (last_child E n) (\<lambda>h' r. last_node_before h' n (length (node_children (h ! n))) r)"
proof -
  note env = red_env.intro [OF assms(1)]
  have path: "elem_path h' e = path_of h n @ [i] \<and> elem_in h' e"
    if "red_wf E g h'" "heap_le h h'" "child_at h' n i e" for h' :: "('j, 'x) heap" and e i
    using child_at_path [OF that(1,3)] child_at_elem(1) [OF that(1,3)] path_of_le [OF that(2) assms(2,3)] by simp
  show ?thesis
  proof (intro conjI)
    show "nav E g h (first_child_or_token E n) (\<lambda>h' r. case r of
      None \<Rightarrow> node_children (h ! n) = [] | Some e \<Rightarrow> elem_path h' e = path_of h n @ [0] \<and> elem_in h' e)"
    proof (rule nav_mono [OF red_env.nav_first_child_or_token [OF env assms(2,3)]])
      fix h' r assume "red_wf E g h'" "heap_le h h'" "first_element_from h' n 0 r"
      then show "case r of None \<Rightarrow> node_children (h ! n) = [] | Some e \<Rightarrow> elem_path h' e = path_of h n @ [0] \<and> elem_in h' e"
        using path [of h'] heap_le_node(5) [of h h' n] assms(3) by (cases r) (simp_all add: first_element_from_def)
    qed
    show "nav E g h (last_child_or_token E n) (\<lambda>h' r. case r of
        None \<Rightarrow> node_children (h ! n) = []
      | Some e \<Rightarrow> elem_path h' e = path_of h n @ [length (node_children (h ! n)) - 1] \<and> elem_in h' e)"
    proof (rule nav_mono [OF red_env.nav_last_child_or_token [OF env assms(2,3)]])
      fix h' r assume "red_wf E g h'" "heap_le h h'" "last_element_before h' n (length (node_children (h ! n))) r"
      then show "case r of None \<Rightarrow> node_children (h ! n) = []
        | Some e \<Rightarrow> elem_path h' e = path_of h n @ [length (node_children (h ! n)) - 1] \<and> elem_in h' e"
        using path [of h'] by (cases r) (auto simp: last_element_before_def)
    qed
  qed (rule red_env.nav_first_child [OF env assms(2,3)], rule red_env.nav_last_child [OF env assms(2,3)])
qed

theorem end_children_exact_witness:
  "\<exists>e h1. first_child_or_token red_ex_env 0 ex_heap = Inr (Some e, h1) \<and> elem_path h1 e = [0]"
  using end_children_exact [OF ex_text ex_wf ex_node_0(1), THEN conjunct1]
  by (auto simp: nav_def ex_green_children ex_node_0 split: option.splits)

section \<open>Ancestors\<close>

text \<open>Walking up from any node terminates: the ancestors of a node, itself included, are the nodes on the path
  to the root, the root is reached after at most as many steps as there are nodes, and the resolver found from any node
  is the one the tree was created with.\<close>
theorem ancestors_exact:
  assumes "red_wf E g h" "n < length h" "length (path_of h n) < k"
  shows "(\<exists>ns. node_ancestors k n h = Inr (ns, h) \<and> (\<forall>m \<in> set ns. m < length h) \<and>
      map (path_of h) ns = rev (prefixes (path_of h n))) \<and>
    node_root (length h) h n = Inr 0 \<and>
    (\<forall>r. nd_kind (h ! 0) = KRoot g r \<longrightarrow> node_resolver (length h) h n = Inr r)"
  using node_ancestors_eq [OF assms] node_root_eq [OF assms(1,2), of "length h"] assms(1,2)
  by (auto simp: node_resolver_def node_data_of_def)

theorem ancestors_exact_witness:
  "node_ancestors 1 0 ex_heap = Inr ([0], ex_heap) \<and> node_resolver 1 ex_heap 0 = Inr None"
proof -
  have "nd_kind (ex_heap ! 0) = KRoot ex_green None" "length ex_heap = 1"
    by (simp_all add: make_new_root_def node_data_new_def Let_def)
  with ancestors_exact [OF ex_wf ex_node_0(1), of 1] show ?thesis by auto
qed

section \<open>Traversals\<close>

text \<open>C18: The preorder traversal with tokens ends after finitely many events and enters and leaves exactly the
  elements of the subtree, each once, in document order, and as properly nested as the green tree is: its events
  are those of a recursive walk of the green node.\<close>
theorem preorder_walks_tree:
  assumes "text_size (en_text E)" "red_wf E g h" "n < length h"
    and "length (walk_node (path_of h n) (nd_green (h ! n))) \<le> k"
  shows "\<exists>events h'. preorder_with_tokens k E n h = Inr (events, h') \<and> red_wf E g h' \<and> heap_le h h' \<and>
    list_all (event_in h') events \<and> map (event_path h') events = walk_node (path_of h n) (nd_green (h ! n))"
  using red_env.preorder_with_tokens_walk [OF red_env.intro [OF assms(1)] assms(2-4)] .

theorem preorder_walks_tree_witness:
  "\<exists>events h'. preorder_with_tokens 20 red_ex_env 0 ex_heap = Inr (events, h') \<and>
     map (event_path h') events = [Enter [], Enter [0], Leave [0], Enter [1], Leave [1], Enter [2], Enter [2, 0],
       Leave [2, 0], Leave [2], Leave []]"
  using preorder_walks_tree [OF ex_text ex_wf ex_node_0(1), of 20] by (auto simp: ex_walk ex_node_0)

end
