(* ===== verification/Red_Token_Theorems.thy ===== *)
theory Red_Token_Theorems
  imports Red_Token_Order Red_Theorems
begin

text \<open>
  The properties of the tokens of a red tree: replacement, the first, last, next and previous
  token, and the comparison of token data.
\<close>

section \<open>Replacement\<close>

text \<open>C22: Replacing a node by one of its kind returns the tree with the replacement at the node's place and
  everything beside it unchanged, with all lengths and hashes up to date; replacing it by one of another kind panics;
  and putting a node in its own place returns the tree itself.\<close>
theorem node_replace_with_correct:
  assumes "red_wf E g h" "n < length h" "green_wf (en_text E) (en_hash E) r"
  shows "if gn_kind r = gn_kind (nd_green (h ! n)) then
      \<exists>m. node_replace_with (Suc n) E h n r = Inr m \<and> green_wf (en_text E) (en_hash E) m \<and>
        sub (Node m) (path_of h n) = Some (Node r) \<and>
        (\<forall>q. \<not> prefix (path_of h n) q \<longrightarrow> \<not> prefix q (path_of h n) \<longrightarrow> sub (Node m) q = sub (Node g) q) \<and>
        (r = nd_green (h ! n) \<longrightarrow> m = g)
    else node_replace_with (Suc n) E h n r = Inl Kind_mismatch"
proof (cases "gn_kind r = gn_kind (nd_green (h ! n))")
  case True
  with node_replace_with_eq [OF assms(1,2), of "Suc n" r] obtain m where m: "node_replace_with (Suc n) E h n r = Inr m"
    "subst_at (en_text E) (en_hash E) (Node g) (path_of h n) (Node r) = Node m" by auto
  note at = node_sub [OF assms(1,2), THEN conjunct1]
  have "green_wf (en_text E) (en_hash E) g"
    using red_wf_node [OF assms(1), of 0] assms(1,2) by (auto simp: red_wf_def node_ok_def)
  then have g: "element_wf (en_text E) (en_hash E) (Node g)" by simp
  have "green_wf (en_text E) (en_hash E) m"
    using subst_at_wf [OF g, of "Node r" "path_of h n"] assms(3) m(2) by simp
  moreover have "sub (Node m) (path_of h n) = Some (Node r)"
    using sub_subst_at [of "Node g" "path_of h n" "en_text E" "en_hash E" "Node r"] at m(2) by simp
  moreover have "sub (Node m) q = sub (Node g) q"
    if "\<not> prefix (path_of h n) q" "\<not> prefix q (path_of h n)" for q
    using sub_subst_at_beside [OF _ that, of "Node g" "en_text E" "en_hash E" "Node r"] at m(2) by simp
  moreover have "r = nd_green (h ! n) \<longrightarrow> m = g" using subst_at_self [OF g at] m(2) by auto
  ultimately show ?thesis using True m(1) by (simp del: node_replace_with.simps)
next
  case False
  with assms(2) show ?thesis by (auto simp: node_syntax_kind_def node_green_eq)
qed

theorem node_replace_with_correct_witness:
  "node_replace_with 1 red_ex_env ex_heap 0 ex_green = Inr ex_green"
proof -
  have "green_wf (en_text red_ex_env) (en_hash red_ex_env) ex_green" using ex_fits by (simp add: green_fits_def)
  from node_replace_with_correct [OF ex_wf ex_node_0(1) this] ex_node_0(2) show ?thesis by auto
qed

text \<open>Replacing a token by one of its kind returns the tree with the new token at its place, everything beside it
  unchanged and all lengths and hashes up to date.\<close>
theorem token_replace_with_correct:
  assumes "red_wf E g h" "elem_in h (Token t)" "token_green h t = Inr tok" "gt_kind tok = gt_kind r"
  shows "\<exists>m. token_replace_with (length h) E h t r = Inr m \<and> green_wf (en_text E) (en_hash E) m \<and>
    sub (Node m) (elem_path h (Token t)) = Some (Token r) \<and>
    (\<forall>q. \<not> prefix (elem_path h (Token t)) q \<longrightarrow> \<not> prefix q (elem_path h (Token t)) \<longrightarrow> sub (Node m) q = sub (Node g) q)"
proof -
  have "st_parent t < length h" using assms(2) by (simp add: child_at_def)
  from token_replace_with_eq [OF assms(1,2) this assms(3,4)] obtain m where
    m: "token_replace_with (length h) E h t r = Inr m"
      "subst_at (en_text E) (en_hash E) (Node g) (elem_path h (Token t)) (Token r) = Node m" by blast
  note at = elem_sub [OF assms(1,2)]
  have "green_wf (en_text E) (en_hash E) g"
    using red_wf_node [OF assms(1), of 0] assms(1) by (auto simp: red_wf_def node_ok_def)
  then have "green_wf (en_text E) (en_hash E) m"
    using subst_at_wf [of "en_text E" "en_hash E" "Node g" "Token r" "elem_path h (Token t)"] m(2) by simp
  moreover have "sub (Node m) (elem_path h (Token t)) = Some (Token r)"
    using sub_subst_at [of "Node g" "elem_path h (Token t)" "en_text E" "en_hash E" "Token r"] at m(2)
    by (simp del: elem_path.simps)
  moreover have "sub (Node m) q = sub (Node g) q"
    if "\<not> prefix (elem_path h (Token t)) q" "\<not> prefix q (elem_path h (Token t))" for q
    using sub_subst_at_beside [OF _ that, of "Node g" "en_text E" "en_hash E" "Token r"] at m(2)
    by (simp del: elem_path.simps)
  ultimately show ?thesis using m(1) by blast
qed

text \<open>The first token of the example, in a tree that has memoised it.\<close>

lemma ex_token:
  obtains t and h :: "(rust_str token_interner, unit) heap" where
    "red_wf red_ex_env ex_green h" "elem_in h (Token t)" "elem_path h (Token t) = [0]" "token_green h t = Inr (ex_leaf 1 2)"
proof -
  obtain e and h :: "(rust_str token_interner, unit) heap" where
    h: "red_wf red_ex_env ex_green h" "child_at h 0 0 e" "node_children (h ! 0) = gn_children ex_green" "path_of h 0 = []"
    by (rule ex_child [of 0]) (simp, rule that, assumption+)
  have green: "green_of h e = Token (ex_leaf 1 2)" using child_at_green [OF h(1,2)] h(3) by (simp add: ex_green_children)
  then obtain t where t: "e = Token t" by (cases e) auto
  have t_in: "elem_in h (Token t)" using child_at_elem(1) [OF h(1,2)] t by simp
  obtain tok where "token_green h t = Inr tok" "green_of h (Token t) = Token tok" by (rule token_green_eq [OF h(1) t_in])
  with green t child_at_path [OF h(1,2)] h(1,4) t_in show thesis by (intro that [of h t]) auto
qed

theorem token_replace_with_correct_witness:
  "\<exists>(h :: (rust_str token_interner, unit) heap) t m. elem_path h (Token t) = [0] \<and>
     token_replace_with (length h) red_ex_env h t (ex_leaf 1 7) = Inr m \<and> sub (Node m) [0] = Some (Token (ex_leaf 1 7)) \<and>
     sub (Node m) [2, 0] = Some (Token (ex_leaf 2 3))"
proof -
  obtain t and h :: "(rust_str token_interner, unit) heap" where t: "red_wf red_ex_env ex_green h" "elem_in h (Token t)"
    "elem_path h (Token t) = [0]" "token_green h t = Inr (ex_leaf 1 2)" by (rule ex_token)
  from token_replace_with_correct [OF t(1,2,4), of "ex_leaf 1 7"] t(3) obtain m where
    m: "token_replace_with (length h) red_ex_env h t (ex_leaf 1 7) = Inr m" "sub (Node m) [0] = Some (Token (ex_leaf 1 7))"
      "\<And>q. \<not> prefix [0] q \<Longrightarrow> \<not> prefix q [0] \<Longrightarrow> sub (Node m) q = sub (Node ex_green) q"
    by (auto simp: ex_leaf_def simp del: elem_path.simps)
  have "sub (Node ex_green) [2, 0] = Some (Token (ex_leaf 2 3))"
    by (simp add: ex_green_children) (simp add: ex_node_def)
  with m(3) [of "[2, 0]"] have "sub (Node m) [2, 0] = Some (Token (ex_leaf 2 3))" by simp
  with m(1,2) t(3) show ?thesis by blast
qed

section \<open>Adjacent tokens\<close>

text \<open>C21: In a tree without empty nodes, \<open>next_token\<close> and \<open>prev_token\<close> step through the tokens of the whole tree one by
  one in document order, in both directions, and return nothing exactly at its ends; they terminate with as much fuel as
  the tree is high.\<close>
theorem adjacent_tokens_in_order:
  assumes "text_size (en_text E)" "red_wf E g h" "no_empty g" "elem_in h (Token t)" "height g \<le> k"
    and "j < length (token_paths g)" "token_paths g ! j = elem_path h (Token t)"
  shows "nav E g h (next_token k E t)
      (\<lambda>h' r. token_result h' (if Suc j < length (token_paths g) then Some (token_paths g ! Suc j) else None) r) \<and>
    nav E g h (prev_token k E t)
      (\<lambda>h' r. token_result h' (if 0 < j then Some (token_paths g ! (j - 1)) else None) r)"
proof -
  let ?p = "elem_path h (Token t)"
  have "?p \<in> set (element_paths (Node g))" using assms(6,7) by (simp del: elem_path.simps) (metis nth_mem)
  with token_step_split [of "Node g" ?p] assms(3) obtain xs ys where split: "token_paths g = xs @ ?p # ys"
    "token_step Next (Node g) ?p = (if ys = [] then None else Some (hd ys))"
    "token_step Prev (Node g) ?p = (if xs = [] then None else Some (last xs))" by (auto simp del: elem_path.simps)
  have "length xs < length (token_paths g)" "token_paths g ! length xs = ?p" using split(1) by simp_all
  then have j: "j = length xs"
    using distinct_token_paths(1) [of g] assms(6,7) by (simp only: nth_eq_iff_index_eq [symmetric])
  have "token_step Next (Node g) ?p = (if Suc j < length (token_paths g) then Some (token_paths g ! Suc j) else None)"
    unfolding split(2) unfolding split(1) j by (cases ys) (simp_all add: nth_append)
  moreover have "token_step Prev (Node g) ?p = (if 0 < j then Some (token_paths g ! (j - 1)) else None)"
    unfolding split(3) unfolding split(1) j by (cases xs rule: rev_cases) (simp_all add: nth_append)
  ultimately show ?thesis
    using red_env.nav_adjacent_token [OF red_env.intro [OF assms(1)] assms(2,4,5), of Next]
      red_env.nav_adjacent_token [OF red_env.intro [OF assms(1)] assms(2,4,5), of Prev]
    by (simp only: adjacent_token_def direction.case)
qed

text \<open>A tree of two tokens.\<close>

definition ex_pair :: green_node where
  "ex_pair = ex_node 5 [Token (ex_leaf 1 2), Node (ex_node 4 [Token (ex_leaf 2 3)])]"

lemma ex_pair_fits: "green_fits red_ex_env ex_pair"
  by (simp add: green_fits_def ex_pair_def ex_green_defs arity_ok_def green_len_GreenNode u32_max_def)

lemma ex_pair_no_empty: "no_empty ex_pair"
  by (simp add: ex_pair_def ex_node_def green_node_new_def no_empty_GreenNode)

lemma ex_pair_paths: "token_paths ex_pair = [[0], [1, 0]]" "height ex_pair = 2"
  by (simp_all add: ex_pair_def ex_node_def green_node_new_def)

lemma fresh_token:
  assumes fits: "green_fits red_ex_env g" and g: "gn_children g = Token tok # cs"
  obtains t and h :: "(rust_str token_interner, unit) heap" where
    "red_wf red_ex_env g h" "elem_in h (Token t)" "elem_path h (Token t) = [0]" "token_green h t = Inr tok"
proof -
  let ?h = "snd (make_new_root g None) :: (rust_str token_interner, unit) heap"
  have wf: "red_wf red_ex_env g ?h" by (rule make_new_root_wf(1) [OF fits])
  have h: "0 < length ?h" "node_children (?h ! 0) = Token tok # cs" "node_start (?h ! 0) = 0"
    using g by (simp_all add: make_new_root_def node_data_new_def node_children_def node_start_def Let_def)
  have "unat (0 :: u32) = child_start (?h ! 0) 0" "0 < length (node_children (?h ! 0))" using h by simp_all
  with test_red.get_or_add_element_ok [OF wf h(1) _ refl] obtain e h' where
    e: "red_wf red_ex_env g h'" "heap_le ?h h'" "child_at h' 0 0 e" by blast
  have "green_of h' e = Token tok" using child_at_green [OF e(1,3)] heap_le_node(5) [OF e(2) h(1)] h(2) by simp
  then obtain t where t: "e = Token t" by (cases e) auto
  have t_in: "elem_in h' (Token t)" using child_at_elem(1) [OF e(1,3)] t by simp
  obtain tok' where "token_green h' t = Inr tok'" "green_of h' (Token t) = Token tok'" by (rule token_green_eq [OF e(1) t_in])
  with \<open>green_of h' e = Token tok\<close> t have "token_green h' t = Inr tok" by simp
  moreover have "elem_path h' (Token t) = [0]"
    using child_at_path [OF e(1,3)] t path_of_le [OF e(2) wf h(1)] path_of_root [OF wf] by simp
  ultimately show thesis using that [OF e(1) t_in] by blast
qed

theorem adjacent_tokens_in_order_witness:
  "\<exists>(h :: (rust_str token_interner, unit) heap) t t' h'. elem_path h (Token t) = [0] \<and>
     next_token 2 red_ex_env t h = Inr (Some t', h') \<and> elem_path h' (Token t') = [1, 0]"
proof -
  obtain t and h :: "(rust_str token_interner, unit) heap" where
    t: "red_wf red_ex_env ex_pair h" "elem_in h (Token t)" "elem_path h (Token t) = [0]"
    by (rule fresh_token [OF ex_pair_fits]) (simp add: ex_pair_def ex_node_def, rule that, assumption+)
  from adjacent_tokens_in_order [OF ex_text t(1) ex_pair_no_empty t(2), of 2 0, THEN conjunct1] t(3)
  show ?thesis by (fastforce simp: nav_def token_result_def ex_pair_paths simp del: elem_path.simps)
qed

text \<open>C23: Where the element after a token is an empty node, \<open>next_token\<close> returns nothing, even when there are more tokens
  further right in the tree: it looks for the first token of that element only.\<close>
theorem next_token_stops_at_empty:
  assumes "text_size (en_text E)" "red_wf E g h" "elem_in h (Token t)" "height g \<le> k"
    and "path_step Next (Node g) (elem_path h (Token t)) = Some q" "sub (Node g) q = Some (Node n)" "gn_children n = []"
  shows "nav E g h (next_token k E t) (\<lambda>_ r. r = None)"
proof -
  have "token_step Next (Node g) (elem_path h (Token t)) = None"
    using assms(5-7) by (simp add: token_step_def green_end_eq end_index_def del: elem_path.simps)
  with red_env.nav_adjacent_token [OF red_env.intro [OF assms(1)] assms(2-4), of Next] show ?thesis
    by (simp add: adjacent_token_def token_result_def del: elem_path.simps)
qed

theorem next_token_stops_at_empty_witness:
  "token_paths ex_green = [[0], [2, 0]] \<and>
   (\<exists>(h :: (rust_str token_interner, unit) heap) t h'. elem_path h (Token t) = [0] \<and>
      next_token 2 red_ex_env t h = Inr (None, h'))"
proof
  show "token_paths ex_green = [[0], [2, 0]]" by (simp add: ex_green_defs)
  obtain t and h :: "(rust_str token_interner, unit) heap" where
    t: "red_wf red_ex_env ex_green h" "elem_in h (Token t)" "elem_path h (Token t) = [0]" by (rule ex_token)
  have "height ex_green \<le> 2" "path_step Next (Node ex_green) [0] = Some [1]"
    "sub (Node ex_green) [1] = Some (Node (ex_node 4 []))" "gn_children (ex_node 4 []) = []"
    by (simp_all add: ex_green_children) (simp_all add: ex_green_defs)
  from next_token_stops_at_empty [OF ex_text t(1,2), unfolded t(3), OF this] t(3)
  show "\<exists>(h :: (rust_str token_interner, unit) heap) t h'. elem_path h (Token t) = [0] \<and>
      next_token 2 red_ex_env t h = Inr (None, h')" by (auto simp: nav_def simp del: elem_path.simps)
qed

text \<open>The first and the last token of a subtree without empty nodes are the first and the last of its tokens in
  document order; the recursion needs no more fuel than the subtree is high.\<close>
theorem end_tokens_exact:
  assumes "text_size (en_text E)" "red_wf E g h" "n < length h" "no_empty (nd_green (h ! n))" "height (nd_green (h ! n)) \<le> k"
  shows "nav E g h (node_first_token k E n)
      (\<lambda>h' r. token_result h' (Some (path_of h n @ hd (token_paths (nd_green (h ! n))))) r) \<and>
    nav E g h (node_last_token k E n)
      (\<lambda>h' r. token_result h' (Some (path_of h n @ last (token_paths (nd_green (h ! n))))) r)"
proof -
  have "nav E g h (end_token dir k E (Node n))
      (\<lambda>h' r. token_result h' (map_option ((@) (path_of h n)) (green_end dir (nd_green (h ! n)))) r)" for dir
    using red_env.nav_end_token [OF red_env.intro [OF assms(1)] assms(2), of "Node n" k dir] assms(3,5) by simp
  from this [of Next] this [of Prev] show ?thesis
    using element_end_paths [of "Node (nd_green (h ! n))"] assms(4) by (simp add: end_token_def)
qed

theorem end_tokens_exact_witness:
  "\<exists>(h :: (rust_str token_interner, unit) heap) t. node_first_token 2 red_ex_env 0 (snd (make_new_root ex_pair None)) = Inr (Some t, h) \<and>
     elem_path h (Token t) = [0]"
proof -
  let ?h = "snd (make_new_root ex_pair None) :: (rust_str token_interner, unit) heap"
  have wf: "red_wf red_ex_env ex_pair ?h" by (rule make_new_root_wf(1) [OF ex_pair_fits])
  have h: "0 < length ?h" "nd_green (?h ! 0) = ex_pair" by (simp_all add: make_new_root_def node_data_new_def Let_def)
  from end_tokens_exact [OF ex_text wf h(1), of 2] show ?thesis
    using path_of_root [OF wf] by (auto simp: h(2) ex_pair_no_empty ex_pair_paths nav_def token_result_def simp del: elem_path.simps)
qed

section \<open>Comparing token data\<close>

text \<open>What a builder makes: a token carries a key exactly if its kind has no static data.\<close>

definition token_data_ok :: "('s, 'd, 'i, 'e) env \<Rightarrow> 'i \<Rightarrow> green_token \<Rightarrow> bool" where
  "token_data_ok E i tok \<longleftrightarrow>
     (\<exists>k. sx_from_raw (en_syntax E) (gt_kind tok) = Inr k \<and>
       (case gt_data tok of
          None \<Rightarrow> sx_static_data (en_syntax E) k \<noteq> None
        | Some key \<Rightarrow> sx_static_data (en_syntax E) k = None \<and> io_try_resolve (en_interner E) i key \<noteq> None))"

lemma token_data_ok_resolve:
  assumes "token_green h t = Inr tok" "token_data_ok E i tok"
  shows "\<exists>d. resolve_data E h i t = Inr d \<and>
    (case gt_data tok of
       None \<Rightarrow> \<exists>k. sx_from_raw (en_syntax E) (gt_kind tok) = Inr k \<and> sx_static_data (en_syntax E) k = Some d
     | Some key \<Rightarrow> io_try_resolve (en_interner E) i key = Some d)"
proof (cases "gt_data tok")
  case None
  with assms show ?thesis
    by (auto simp: token_data_ok_def resolve_data_def token_static_data_def token_kind_def token_syntax_kind_def)
next
  case (Some key)
  with assms show ?thesis
    by (auto simp: token_data_ok_def resolve_data_def token_static_data_def token_kind_def token_syntax_kind_def
        green_token_data_def resolve_def)
qed

lemma check_static_eq:
  assumes "token_green h t = Inr tok" "token_data_ok E i tok"
  shows "check_static E h t = (if en_debug E \<and> gt_data tok \<noteq> None then Inl Assertion_failed else Inr ())"
  using assms
  by (cases "gt_data tok")
    (auto simp: check_static_def token_static_data_def token_kind_def token_syntax_kind_def token_data_ok_def)

text \<open>C28: For tokens as a builder makes them, resolved by the interner both were built with, \<open>data_eq\<close> says that two
  tokens are equal only if they resolve to equal data, and for two tokens that both carry interned data exactly then. Asked
  of a token with static data about one with interned data, it panics when debug assertions are on; nothing else panics.\<close>
theorem data_eq_sound:
  assumes "bounded_interner (en_data E) valid (en_interner E) ok room" "ok i"
    and "token_green h t = Inr a" "token_green h' t' = Inr b" "token_data_ok E i a" "token_data_ok E i b"
  shows "if en_debug E \<and> gt_data a = None \<and> gt_data b \<noteq> None then data_eq E h t h' t' = Inl Assertion_failed
    else \<exists>r. data_eq E h t h' t' = Inr r \<and> (r \<longrightarrow> resolve_data E h i t = resolve_data E h' i t') \<and>
      (gt_data a \<noteq> None \<and> gt_data b \<noteq> None \<longrightarrow> r = (resolve_data E h i t = resolve_data E h' i t'))"
proof -
  note int = bounded_interner.axioms(1) [OF assms(1)]
  note static = check_static_eq [OF assms(3,5)] check_static_eq [OF assms(4,6)]
  from token_data_ok_resolve [OF assms(3,5)] obtain d where d: "resolve_data E h i t = Inr d"
    "case gt_data a of None \<Rightarrow> \<exists>k. sx_from_raw (en_syntax E) (gt_kind a) = Inr k \<and> sx_static_data (en_syntax E) k = Some d
     | Some key \<Rightarrow> io_try_resolve (en_interner E) i key = Some d" by blast
  from token_data_ok_resolve [OF assms(4,6)] obtain d' where d': "resolve_data E h' i t' = Inr d'"
    "case gt_data b of None \<Rightarrow> \<exists>k. sx_from_raw (en_syntax E) (gt_kind b) = Inr k \<and> sx_static_data (en_syntax E) k = Some d'
     | Some key \<Rightarrow> io_try_resolve (en_interner E) i key = Some d'" by blast
  show ?thesis
  proof (cases "gt_data a")
    case (Some key)
    have "key = key' \<longleftrightarrow> d = d'" if "gt_data b = Some key'" for key'
      using interner.resolve_unique [OF int assms(2), of key d key'] d(2) d'(2) Some that by auto
    with Some d(1) d'(1) show ?thesis
      by (cases "gt_data b") (auto simp: data_eq_def data_key_def assms(3,4))
  next
    case None
    show ?thesis
    proof (cases "gt_data b")
      case None': None
      with None static d d' show ?thesis
        by (auto simp: data_eq_def data_key_def assms(3,4) token_syntax_kind_def)
    next
      case (Some key)
      have "gt_kind a \<noteq> gt_kind b"
        using assms(5,6) None Some by (auto simp: token_data_ok_def)
      with None Some static show ?thesis
        by (auto simp: data_eq_def data_key_def assms(3,4) token_syntax_kind_def)
    qed
  qed
qed

text \<open>The tokens \<open>+\<close> (static) and \<open>a\<close> (interned), as the builder makes them.\<close>

definition ex_plus :: green_node where
  "ex_plus = ex_node 5 [Token \<lparr>gt_kind = 0, gt_data = None, gt_data_len = 1\<rparr>,
     Token \<lparr>gt_kind = 1, gt_data = Some (TokenKey 1), gt_data_len = 1\<rparr>]"

abbreviation ex_plus_heap :: "(rust_str token_interner, unit) heap" where
  "ex_plus_heap \<equiv> snd (make_new_root ex_plus None)"

definition ex_interner :: "rust_str token_interner" where
  "ex_interner = (case try_get_or_intern str_data new_interner (Str [0x61]) of Inr (Inr (i, _)) \<Rightarrow> i | _ \<Rightarrow> new_interner)"

lemma ex_interner_eq: "\<exists>k. try_get_or_intern str_data new_interner (Str [0x61]) = Inr (Inr (ex_interner, k))"
  by (simp add: ex_interner_def try_get_or_intern_def try_get_or_intern_bytes_def new_interner_def str_data_def
      N_INDICES_def u32_max_def try_from_u32_def)

lemma ex_interner_resolves: "try_resolve ex_interner (TokenKey 1) = Some (Str [0x61])"
  by (simp add: ex_interner_def try_get_or_intern_def try_get_or_intern_bytes_def new_interner_def str_data_def
      N_INDICES_def u32_max_def try_from_u32_def try_resolve_def into_u32_def vec_get_def)

theorem data_eq_sound_witness:
  "data_eq red_ex_env ex_plus_heap \<lparr>st_parent = 0, st_index = 0, st_offset = 0\<rparr>
     ex_plus_heap \<lparr>st_parent = 0, st_index = 1, st_offset = 1\<rparr> = Inl Assertion_failed"
proof -
  have env: "bounded_interner (en_data red_ex_env) str_valid (en_interner red_ex_env) (interner_ok str_data str_valid) interner_room"
    by (simp add: str_payload.default.bounded_interner_axioms)
  have "interner str_data str_valid (default_interner str_data) (interner_ok str_data str_valid)"
    using bounded_interner.axioms(1) [OF env] by simp
  from interner.intern_resolves [OF this, of new_interner "Str [0x61]"] ex_interner_eq
  have ok: "interner_ok str_data str_valid ex_interner" by (auto simp: str_valid_def)
  have a: "token_green ex_plus_heap \<lparr>st_parent = 0, st_index = 0, st_offset = 0\<rparr> =
      Inr \<lparr>gt_kind = 0, gt_data = None, gt_data_len = 1\<rparr>"
    and b: "token_green ex_plus_heap \<lparr>st_parent = 0, st_index = 1, st_offset = 1\<rparr> =
      Inr \<lparr>gt_kind = 1, gt_data = Some (TokenKey 1), gt_data_len = 1\<rparr>"
    by (simp_all add: token_green_def node_green_def node_data_of_def make_new_root_def node_data_new_def Let_def
        iter_nth_eq gn_children_iter_def vec_get_def ex_plus_def ex_node_def)
  have "token_data_ok red_ex_env ex_interner \<lparr>gt_kind = 0, gt_data = None, gt_data_len = 1\<rparr>"
    "token_data_ok red_ex_env ex_interner \<lparr>gt_kind = 1, gt_data = Some (TokenKey 1), gt_data_len = 1\<rparr>"
    by (simp_all add: token_data_ok_def test_from_raw_def ex_interner_resolves)
  from data_eq_sound [OF env ok a b this] show ?thesis by simp
qed

end
