(* ===== verification/Red_Search_Theorems.thy ===== *)
theory Red_Search_Theorems
  imports Red_Search Red_Token_Theorems
begin

text \<open>
  The properties of the child iterators and of the searches by text position:
  \<open>token_at_offset\<close> returns the tokens that touch an offset, \<open>covering_element\<close> the smallest
  element around a range.
\<close>

section \<open>Elements that cover a range\<close>

definition covers_path :: "green_node \<Rightarrow> text_range \<Rightarrow> nat list \<Rightarrow> bool" where
  "covers_path g target p \<longleftrightarrow>
     (case sub (Node g) p of
        Some x \<Rightarrow> start_at (Node g) p \<le> unat (tr_start target) \<and> unat (tr_end target) \<le> start_at (Node g) p + element_len x
      | None \<Rightarrow> False)"

text \<open>Two elements that cover a range that is not empty are above one another.\<close>

fun covers_from :: "green_element \<Rightarrow> nat \<Rightarrow> nat \<Rightarrow> nat list \<Rightarrow> bool" where
  "covers_from e lo hi p =
     (case sub e p of Some x \<Rightarrow> start_at e p \<le> lo \<and> hi \<le> start_at e p + element_len x | None \<Rightarrow> False)"

declare covers_from.simps [simp del]

lemma covers_path_from: "covers_path g target p \<longleftrightarrow> covers_from (Node g) (unat (tr_start target)) (unat (tr_end target)) p"
  by (simp add: covers_path_def covers_from.simps)

lemma covers_from_Nil: "covers_from e lo hi [] \<longleftrightarrow> hi \<le> element_len e"
  by (simp add: covers_from.simps)

lemma covers_from_Cons:
  "covers_from (Node n) lo hi (i # p) \<longleftrightarrow> i < length (gn_children n) \<and>
     (let b = sum_list (map element_len (take i (gn_children n))) in
      b \<le> lo \<and> covers_from (gn_children n ! i) (lo - b) (hi - b) p)"
  by (auto simp: covers_from.simps Let_def split: option.splits)

lemma covers_from_Token: "\<not> covers_from (Token t) lo hi (i # p)"
  by (simp add: covers_from.simps)

text \<open>What covers a range ends after it.\<close>

lemma sub_end_le: "sub e p = Some x \<Longrightarrow> start_at e p + element_len x \<le> element_len e"
proof (induction e p rule: sub.induct)
  case (3 n i p)
  then have i: "i < length (gn_children n)" by (simp split: if_splits)
  obtain h cs where n: "n = GreenNode h cs" by (cases n)
  have "sum_list (map element_len (take (Suc i) (gn_children n))) \<le> green_len n"
    using sum_list_take_le [of "Suc i" "map element_len (gn_children n)"] by (simp add: n green_len_GreenNode take_map)
  with 3 i show ?case by (simp add: take_Suc_conv_app_nth)
qed simp_all

lemma covers_from_whole: "covers_from e lo hi p \<Longrightarrow> hi \<le> element_len e"
  using sub_end_le [of e p] by (auto simp: covers_from.simps split: option.splits)

lemma covers_from_prefix:
  "covers_from e lo hi q \<Longrightarrow> prefix p q \<Longrightarrow> covers_from e lo hi p"
proof (induction p arbitrary: e lo hi q)
  case Nil
  then show ?case by (simp add: covers_from_Nil covers_from_whole)
next
  case (Cons i p)
  then obtain q' where q: "q = i # q'" "prefix p q'" by (auto simp: prefix_def)
  show ?case
  proof (cases e)
    case (Node n)
    with Cons.prems(1) q Cons.IH [OF _ q(2)] show ?thesis by (auto simp: covers_from_Cons Let_def)
  next
    case (Token t)
    with Cons.prems(1) q(1) show ?thesis by (simp add: covers_from_Token)
  qed
qed

lemma covers_from_comparable:
  "covers_from e lo hi p \<Longrightarrow> covers_from e lo hi q \<Longrightarrow> lo < hi \<Longrightarrow> prefix p q \<or> prefix q p"
proof (induction p arbitrary: e lo hi q)
  case (Cons i p)
  show ?case
  proof (cases q)
    case q: (Cons j q')
    with Cons.prems obtain n where n: "e = Node n" by (cases e) (auto simp: covers_from_Token)
    let ?b = "\<lambda>i. sum_list (map element_len (take i (gn_children n)))"
    have *: "i < length (gn_children n)" "?b i \<le> lo" "covers_from (gn_children n ! i) (lo - ?b i) (hi - ?b i) p"
      "j < length (gn_children n)" "?b j \<le> lo" "covers_from (gn_children n ! j) (lo - ?b j) (hi - ?b j) q'"
      using Cons.prems q n by (auto simp: covers_from_Cons Let_def)
    have apart: "\<not> x < y" if "x < length (gn_children n)" "hi - ?b x \<le> element_len (gn_children n ! x)" "?b y \<le> lo"
      for x y
    proof
      assume "x < y"
      then have "?b (Suc x) \<le> ?b y"
        by (metis Suc_leI le_add1 le_add_diff_inverse map_append sum_list_append take_add)
      moreover have "?b (Suc x) = ?b x + element_len (gn_children n ! x)" using that(1) by (simp add: take_Suc_conv_app_nth)
      ultimately show False using that Cons.prems(3) by linarith
    qed
    have "i = j"
      using apart [of i j] apart [of j i] * covers_from_whole by (metis linorder_neqE_nat)
    with * Cons.IH [of "gn_children n ! i" "lo - ?b i" "hi - ?b i" q'] Cons.prems(3) show ?thesis
      by (auto simp: q)
  qed simp
qed simp

section \<open>The covering element\<close>

lemma covers_child:
  assumes wf: "red_wf E g h" and n: "n < length h"
  shows "covers_path g target (path_of h n @ [j]) \<longleftrightarrow>
    j < length (node_children (h ! n)) \<and> child_start (h ! n) j \<le> unat (tr_start target) \<and>
    unat (tr_end target) \<le> child_start (h ! n) j + element_len (node_children (h ! n) ! j)"
  using node_sub [OF wf n] start_at_snoc [of "Node g" "path_of h n" "nd_green (h ! n)" j]
  by (auto simp: covers_path_def sub_snoc node_children_def child_start_def)

context red_env
begin

lemma covers_eq:
  assumes wf: "red_wf E g h" and e: "elem_in h e" and target: "tr_valid target"
  shows "covers E target h e = Inr (covers_path g target (elem_path h e))"
proof -
  obtain r where r: "element_text_range E h e = Inr r" "tr_valid r" "unat (tr_start r) = start_at (Node g) (elem_path h e)"
    "unat (tr_end r) = start_at (Node g) (elem_path h e) + element_len (green_of h e)"
    using element_range [OF wf e] by blast
  with contains_range [OF r(2) target] elem_sub [OF wf e] show ?thesis
    by (simp add: covers_def covers_path_def word_le_nat_alt del: elem_path.simps)
qed

lemma nav_covering_loop:
  "red_wf E g (h :: ('j, 'x) heap) \<Longrightarrow> tr_valid target \<Longrightarrow> elem_in h res \<Longrightarrow> covers_path g target (elem_path h res) \<Longrightarrow>
   0 < k \<Longrightarrow> (\<forall>m. green_of h res = Node m \<longrightarrow> height m < k) \<Longrightarrow>
   nav E g h (covering_loop k E res target) (\<lambda>h' e. elem_in h' e \<and> prefix (elem_path h res) (elem_path h' e) \<and>
     covers_path g target (elem_path h' e) \<and> (\<forall>i. \<not> covers_path g target (elem_path h' e @ [i])))"
proof (induction k arbitrary: h res)
  case (Suc k h res)
  note wf = Suc.prems(1) and target = Suc.prems(2)
  let ?Q = "\<lambda>h' e. elem_in h' e \<and> prefix (elem_path h res) (elem_path h' e) \<and>
    covers_path g target (elem_path h' e) \<and> (\<forall>i. \<not> covers_path g target (elem_path h' e @ [i]))"
  have b: "covers E target h res = Inr True" using covers_eq [OF wf Suc.prems(3) target] Suc.prems(4) by simp
  show ?case
  proof (cases res)
    case (Token t)
    with Suc.prems(3) have "elem_in h (Token t)" by simp
    then obtain tok where "green_of h (Token t) = Token tok" by (rule token_green_eq [OF wf])
    with elem_sub [OF wf Suc.prems(3)] have sub: "sub (Node g) (elem_path h res) = Some (Token tok)" by (simp only: Token)
    have "\<not> covers_path g target (elem_path h res @ [i])" for i by (simp only: covers_path_def sub_snoc sub) simp
    with Suc.prems(3,4) have "?Q h res" by blast
    from nav_return [of E g h ?Q, OF wf this] Token show ?thesis unfolding covering_loop.simps
      by (intro nav_read [where f = "\<lambda>h. covers E target h res", OF b]) simp
  next
    case (Node n)
    with Suc.prems(3) have n: "n < length h" by simp
    obtain it where it: "children_with_tokens E h n = Inr it" "iter_ok (h ! n) 0 (ec_inner it)" "ec_parent it = n"
      using child_iter_new_ok [OF wf n] by (auto simp: children_with_tokens_def)
    let ?P = "\<lambda>j. covers_path g target (path_of h n @ [j])" and ?len = "length (node_children (h ! n))"
    have p: "covers E target h' e = Inr (?P j)" if "red_wf E g h'" "heap_le h h'" "child_at h' n j e" for h' j e
      using covers_eq [OF that(1) child_at_elem(1) [OF that(1,3)] target] child_at_path [OF that(1,3)]
        path_of_le [OF that(2) wf n] by simp
    have "nav E g h (bindR (filter_next E (covers E target) it)
        (\<lambda>(child, _). case child of Some c \<Rightarrow> covering_loop k E c target | None \<Rightarrow> returnR res)) ?Q"
    proof (rule nav_bind [OF nav_filter_next [OF wf n it(2,3) p]])
      fix h1 :: "('j, 'x) heap" and r :: "syntax_element option \<times> element_children_iter"
      assume wf1: "red_wf E g h1" and le: "heap_le h h1" and r: "case r of (x, it') \<Rightarrow> ec_parent it' = n \<and>
         (case x of
            None \<Rightarrow> iter_ok (h1 ! n) ?len (ec_inner it') \<and> filter ?P [0..<?len] = []
          | Some e \<Rightarrow> \<exists>j. child_at h1 n j e \<and> iter_ok (h1 ! n) (Suc j) (ec_inner it') \<and>
              filter ?P [0..<?len] = j # filter ?P [Suc j..<?len])"
      obtain x it' where rx: "r = (x, it')" by (cases r)
      show "nav E g h1 (case r of (child, _) \<Rightarrow> (case child of Some c \<Rightarrow> covering_loop k E c target | None \<Rightarrow> returnR res)) ?Q"
      proof (cases x)
        case None
        with r rx have none: "filter ?P [0..<?len] = []" by simp
        have "\<not> ?P j" for j
          using none covers_child [OF wf n, of target j] by (fastforce simp: filter_empty_conv)
        moreover have "elem_path h1 res = elem_path h res" using elem_path_le [OF le wf] Suc.prems(3) by blast
        ultimately show ?thesis
          using None rx wf1 heap_le_elem_in [OF le Suc.prems(3)] Suc.prems(4) Node by (auto intro!: nav_return)
      next
        case (Some c)
        with r rx obtain j where j: "child_at h1 n j c" "filter ?P [0..<?len] = j # filter ?P [Suc j..<?len]" by auto
        note same = heap_le_node [OF le n]
        have path: "elem_path h1 c = path_of h n @ [j]"
          using child_at_path [OF wf1 j(1)] path_of_le [OF le wf n] by simp
        have "j \<in> set (filter ?P [0..<?len])" using j(2) by simp
        then have P: "?P j" "j < ?len" by simp_all
        have h_n: "height (nd_green (h ! n)) < Suc k" using Suc.prems(6) Node by simp
        have k: "height m < k" if "green_of h1 c = Node m" for m
        proof -
          have "Node m \<in> set (gn_children (nd_green (h ! n)))"
            using child_at_green [OF wf1 j(1)] that same P(2) by (metis node_children_def nth_mem)
          from height_child [OF this] h_n show ?thesis by simp
        qed
        have "0 < height (nd_green (h ! n))" by (cases "nd_green (h ! n)") simp
        with h_n have "0 < k" by simp
        with Suc.IH [OF wf1 target child_at_elem(1) [OF wf1 j(1)]] k P(1) path
        have "nav E g h1 (covering_loop k E c target) (\<lambda>h' e. elem_in h' e \<and> prefix (elem_path h1 c) (elem_path h' e) \<and>
          covers_path g target (elem_path h' e) \<and> (\<forall>i. \<not> covers_path g target (elem_path h' e @ [i])))" by simp
        then have "nav E g h1 (covering_loop k E c target) ?Q"
        proof (rule nav_mono)
          fix h' e assume q: "elem_in h' e \<and> prefix (elem_path h1 c) (elem_path h' e) \<and>
            covers_path g target (elem_path h' e) \<and> (\<forall>i. \<not> covers_path g target (elem_path h' e @ [i]))"
          then have "prefix (path_of h n) (elem_path h' e)" unfolding path by (auto dest: append_prefixD)
          with q show "?Q h' e" unfolding Node by simp
        qed
        with Some rx show ?thesis by simp
      qed
    qed
    from nav_read [where f = "\<lambda>h. children_with_tokens E h n" and k = "\<lambda>children.
           bindR (filter_next E (covers E target) children) (\<lambda>(child, _).
             case child of Some c \<Rightarrow> covering_loop k E c target | None \<Rightarrow> returnR res)" and a = it, OF it(1) this]
    show ?thesis unfolding covering_loop.simps
      by (intro nav_read [where f = "\<lambda>h. covers E target h res", OF b]) (simp add: Node)
  qed
qed simp

end

section \<open>Child iterators\<close>

text \<open>The child iterators yield the children of a node exactly once and in order: \<open>children_with_tokens\<close> all of them,
  \<open>children\<close> those that are nodes.\<close>
theorem child_iterators_exact:
  assumes "text_size (en_text E)" "red_wf E g (h :: ('j, 'x) heap)" "n < length h" "length (node_children (h ! n)) < k"
  shows "nav E g h (bindR (readR (\<lambda>h. children_with_tokens E h n)) (collect k (element_children_next E)))
      (\<lambda>h' es. list_all (elem_in h') es \<and>
        map (elem_path h') es = map (\<lambda>i. path_of h n @ [i]) [0..<length (node_children (h ! n))]) \<and>
    nav E g h (bindR (readR (\<lambda>h. children_of E h n)) (collect k (node_children_next E)))
      (\<lambda>h' cs. list_all (\<lambda>c. c < length h') cs \<and>
        map (path_of h') cs =
          map (\<lambda>i. path_of h n @ [i]) (node_positions (node_children (h ! n)) 0))"
proof -
  note env = red_env.intro [OF assms(1)]
  have at: "elem_in h' e \<and> elem_path h' e = path_of h n @ [i]"
    if "red_wf E g h'" "heap_le h h'" "child_at h' n i e" for h' :: "('j, 'x) heap" and e i
    using child_at_path [OF that(1,3)] child_at_elem(1) [OF that(1,3)] path_of_le [OF that(2) assms(2,3)] by simp
  obtain it where it: "children_with_tokens E h n = Inr it" "iter_ok (h ! n) 0 (ec_inner it)" "ec_parent it = n"
    using red_env.child_iter_new_ok [OF env assms(2,3)] by (auto simp: children_with_tokens_def)
  obtain it' where it': "children_of E h n = Inr it'" "iter_ok (h ! n) 0 (nc_inner it')" "nc_parent it' = n"
    using red_env.child_iter_new_ok [OF env assms(2,3)] by (auto simp: children_of_def)
  have "nav E g h (collect k (element_children_next E) it) (\<lambda>h' es. list_all (elem_in h') es \<and>
      map (elem_path h') es = map (\<lambda>i. path_of h n @ [i]) [0..<length (node_children (h ! n))])"
    by (rule nav_mono [OF red_env.nav_collect_elements [OF env assms(2,3) it(2,3)]])
      (use assms(4) at in \<open>auto simp: list_all_length intro!: nth_equalityI simp del: elem_in.simps elem_path.simps\<close>)
  moreover have "nav E g h (collect k (node_children_next E) it') (\<lambda>h' cs. list_all (\<lambda>c. c < length h') cs \<and>
      map (path_of h') cs = map (\<lambda>i. path_of h n @ [i]) (node_positions (node_children (h ! n)) 0))"
  proof -
    have "nav E g h (collect k (node_children_next E) it') (\<lambda>h' cs.
        list_all2 (\<lambda>j c. child_at h' n j (Node c)) (node_positions (node_children (h ! n)) 0) cs)"
      by (rule red_env.nav_collect_nodes [OF env assms(2,3) it'(2,3)]) (use assms(4) in simp)
    then show ?thesis
    proof (rule nav_mono)
      fix h' :: "('j, 'x) heap" and cs assume "red_wf E g h'" "heap_le h h'"
        "list_all2 (\<lambda>j c. child_at h' n j (Node c)) (node_positions (node_children (h ! n)) 0) cs"
      with at [of h' _ "Node _"] show "list_all (\<lambda>c. c < length h') cs \<and>
          map (path_of h') cs = map (\<lambda>i. path_of h n @ [i]) (node_positions (node_children (h ! n)) 0)"
        by (auto simp: list_all_length list_all2_conv_all_nth simp del: upt.simps filter.simps intro!: nth_equalityI)
    qed
  qed
  ultimately show ?thesis
    using nav_read [where f = "\<lambda>h. children_with_tokens E h n" and k = "collect k (element_children_next E)", OF it(1)]
      nav_read [where f = "\<lambda>h. children_of E h n" and k = "collect k (node_children_next E)", OF it'(1)] by blast
qed

theorem child_iterators_exact_witness:
  "\<exists>cs h'. bindR (readR (\<lambda>h. children_of red_ex_env h 0)) (collect 4 (node_children_next red_ex_env)) ex_heap = Inr (cs, h') \<and>
     map (path_of h') cs = [[1], [2]]"
  using child_iterators_exact [OF ex_text ex_wf ex_node_0(1), of 4, THEN conjunct2]
  by (auto simp: nav_def ex_green_children ex_node_0 upt_rec)

lemma length_positions: "length (filter (\<lambda>j. P (xs ! j)) [0..<length xs]) = length (filter P xs)"
proof (induction xs rule: rev_induct)
  case (snoc x xs)
  have "filter (\<lambda>j. P ((xs @ [x]) ! j)) [0..<length xs] = filter (\<lambda>j. P (xs ! j)) [0..<length xs]"
    by (rule filter_cong) (simp_all add: nth_append)
  with snoc show ?case by simp
qed simp

lemma filter_shorter: "length (filter P xs) \<le> length xs \<and> (length (filter P xs) < length xs \<longleftrightarrow> \<not> list_all P xs)"
proof (induction xs)
  case (Cons x xs)
  then show ?case by (auto simp: le_SucI less_Suc_eq_le)
qed simp

text \<open>C35: Run to its end, the iterator over the child nodes yields as many items as the node's arity says, in at most one step more than
  the node has children. But its length, its count and its size hint are those of the iterator over all children: they are at least
  the number of items it yields, and exceed it exactly if the node has a token among its children.\<close>
theorem node_children_len_counts_tokens:
  assumes "text_size (en_text E)" "red_wf E g h" "n < length h" "children_of E h n = Inr it" "length (node_children (h ! n)) < k"
  shows "\<exists>cs h'. collect k (node_children_next E) it h = Inr (cs, h') \<and> arity h n = Inr (length cs) \<and>
    arity_with_tokens h n = Inr (node_children_len it) \<and> node_children_count it = node_children_len it \<and> node_children_size_hint it = (node_children_len it, Some (node_children_len it)) \<and>
    length cs \<le> node_children_len it \<and>
    (length cs < node_children_len it \<longleftrightarrow> \<not> list_all (\<lambda>e. as_node e \<noteq> None) (node_children (h ! n)))"
proof -
  have it: "it_green (nc_inner it) = node_children (h ! n)"
    using red_env.child_iter_new_ok [OF red_env.intro [OF assms(1)] assms(2,3)] assms(4)
    by (auto simp: children_of_def iter_ok_def)
  have run: "bindR (readR (\<lambda>h. children_of E h n)) (collect k (node_children_next E)) h = collect k (node_children_next E) it h"
    using assms(4) by (simp add: bindR_def readR_def)
  from child_iterators_exact [OF assms(1,2,3,5), THEN conjunct2] obtain cs h' where cs: "collect k (node_children_next E) it h = Inr (cs, h')"
    "map (path_of h') cs = map (\<lambda>i. path_of h n @ [i]) (node_positions (node_children (h ! n)) 0)"
    unfolding nav_def run by blast
  have "length cs = length (node_positions (node_children (h ! n)) 0)" using arg_cong [OF cs(2), of length] by (simp only: length_map)
  then have len: "length cs = length (filter (\<lambda>e. as_node e \<noteq> None) (node_children (h ! n)))" using length_positions [of "\<lambda>e. as_node e \<noteq> None"] by simp
  moreover have "arity h n = Inr (length (filter (\<lambda>e. as_node e \<noteq> None) (node_children (h ! n))))"
    "arity_with_tokens h n = Inr (length (node_children (h ! n)))"
    using assms(3) node_ok_length [OF red_wf_node [OF assms(2,3)]]
    by (simp_all add: arity_def arity_with_tokens_def node_green_def node_data_of_def node_children_def)
  moreover have "node_children_len it = length (node_children (h ! n))" "node_children_count it = length (node_children (h ! n))"
    "node_children_size_hint it = (length (node_children (h ! n)), Some (length (node_children (h ! n))))"
    using it by (simp_all add: node_children_len_def node_children_count_def node_children_size_hint_def child_iter_len_def
        child_iter_count_def child_iter_size_hint_def iter_len_def iter_count_def iter_size_hint_def)
  ultimately show ?thesis using cs(1) filter_shorter [of "\<lambda>e. as_node e \<noteq> None" "node_children (h ! n)"] by auto
qed

theorem node_children_len_counts_tokens_witness:
  "\<exists>it cs h'. children_of red_ex_env ex_heap 0 = Inr it \<and> collect 4 (node_children_next red_ex_env) it ex_heap = Inr (cs, h') \<and>
     length cs = 2 \<and> node_children_len it = 3"
proof -
  obtain it where it: "children_of red_ex_env ex_heap 0 = Inr it"
    using test_red.child_iter_new_ok [OF ex_wf ex_node_0(1)] by (auto simp: children_of_def)
  have "arity ex_heap 0 = Inr 2"
    using ex_node_0(1) by (simp add: arity_def node_green_def node_data_of_def ex_node_0(2) ex_green_children del: length_greater_0_conv)
  moreover have "it_green (nc_inner it) = gn_children ex_green"
    using test_red.child_iter_new_ok [OF ex_wf ex_node_0(1)] it by (auto simp: children_of_def iter_ok_def ex_node_0)
  moreover have "length (node_children (ex_heap ! 0)) < 4" by (simp add: ex_node_0(3) ex_green_children)
  note node_children_len_counts_tokens [OF ex_text ex_wf ex_node_0(1) it this]
  ultimately show ?thesis
    using it by (auto simp: node_children_len_def child_iter_len_def iter_len_def ex_green_children)
qed

section \<open>Searches\<close>

text \<open>C33: For an offset within a node's range \<open>token_at_offset\<close> terminates without panicking and returns exactly the
  tokens of the node's subtree that are not empty and whose range has the offset in it or at an end, left to right: none
  if the node's text is empty, else one or two; for any other offset it panics.\<close>
theorem token_at_offset_exact:
  assumes "text_size (en_text E)" "red_wf E g (h :: ('j, 'x) heap)" "n < length h" "height (nd_green (h ! n)) \<le> k" "0 < k"
  shows "if node_start (h ! n) \<le> unat offset \<and> unat offset \<le> node_start (h ! n) + green_len (nd_green (h ! n))
    then \<exists>r h'. node_token_at_offset k E n offset h = Inr (r, h') \<and> red_wf E g h' \<and> heap_le h h' \<and>
      list_all (\<lambda>t. elem_in h' (Token t)) (token_at_offset_items r) \<and>
      map (\<lambda>t. elem_path h' (Token t)) (token_at_offset_items r) =
        map ((@) (path_of h n)) (filter (at_offset (node_start (h ! n)) (unat offset) (Node (nd_green (h ! n))))
          (token_paths (nd_green (h ! n)))) \<and>
      (r = TNone \<longleftrightarrow> green_len (nd_green (h ! n)) = 0)
    else node_token_at_offset k E n offset h = Inl Bad_offset"
proof -
  note env = red_env.intro [OF assms(1)]
  let ?d = "h ! n"
  show ?thesis
  proof (cases "node_start ?d \<le> unat offset \<and> unat offset \<le> node_start ?d + green_len (nd_green ?d)")
    case True
    let ?ps = "tokens_at (node_start ?d) (unat offset) (Node (nd_green ?d))"
    obtain r h' where r: "node_token_at_offset k E n offset h = Inr (r, h')" "red_wf E g h'" "heap_le h h'"
      "offset_result h' (map ((@) (path_of h n)) ?ps) r"
      using red_env.nav_token_at_offset [OF env assms(2-4) True [THEN conjunct1] True [THEN conjunct2]]
      unfolding nav_def by blast
    have "?ps = [] \<longleftrightarrow> green_len (nd_green ?d) = 0"
      using tokens_at_good [of "node_start ?d" "unat offset" "Node (nd_green ?d)"] True by (auto simp: good_def)
    moreover have "r = TNone \<longleftrightarrow> token_at_offset_items r = []" by (cases r) simp_all
    moreover have "token_at_offset_items r = [] \<longleftrightarrow> ?ps = []"
      using list_all2_lengthD [OF r(4) [unfolded offset_result_def]] by auto
    moreover have "list_all (\<lambda>t. elem_in h' (Token t)) (token_at_offset_items r) \<and>
        map (\<lambda>t. elem_path h' (Token t)) (token_at_offset_items r) = map ((@) (path_of h n)) ?ps"
      using r(4) unfolding offset_result_def
      by (auto simp: list_all_length list_all2_conv_all_nth simp del: elem_in.simps elem_path.simps intro!: nth_equalityI)
    ultimately show ?thesis using True r(1-3) by (simp add: tokens_at_def del: elem_in.simps elem_path.simps)
  next
    case False
    obtain j where k: "k = Suc j" using assms(5) by (cases k) auto
    obtain r where "node_text_range E h n = Inr r" "unat (tr_start r) = node_start ?d"
      "unat (tr_end r) = node_start ?d + green_len (nd_green ?d)"
      using red_env.node_range [OF env assms(2,3)] by (auto simp: child_start_end)
    with False show ?thesis by (auto simp: k bindR_def readR_def panicR_def word_le_nat_alt)
  qed
qed

theorem token_at_offset_exact_witness:
  "\<exists>r h'. node_token_at_offset 3 red_ex_env 0 2 ex_heap = Inr (r, h') \<and>
     map (\<lambda>t. elem_path h' (Token t)) (token_at_offset_items r) = [[0], [2, 0]]"
proof -
  have "height ex_green = 2" by (simp add: ex_green_def ex_node_def green_node_new_def)
  moreover have "filter (at_offset 0 2 (Node ex_green)) (token_paths ex_green) = [[0], [2, 0]]"
    by (simp add: at_offset_def ex_green_defs green_len_GreenNode)
  ultimately show ?thesis
    using token_at_offset_exact [OF ex_text ex_wf ex_node_0(1), of 3 2] ex_node_0(2) ex_start ex_len by auto
qed

text \<open>C34: For a range within a node's range \<open>covering_element\<close> terminates without panicking and returns an element of
  the node's subtree that contains the range while none of its own children does; when the range is not empty that is
  the smallest one: every element of the tree that contains the range contains the result.\<close>
theorem covering_element_smallest:
  assumes "text_size (en_text E)" "red_wf E g (h :: ('j, 'x) heap)" "n < length h" "tr_valid target"
    and "covers_path g target (path_of h n)" "height (nd_green (h ! n)) < k"
  shows "\<exists>e h'. covering_element k E n target h = Inr (e, h') \<and> red_wf E g h' \<and> heap_le h h' \<and> elem_in h' e \<and>
    prefix (path_of h n) (elem_path h' e) \<and> covers_path g target (elem_path h' e) \<and>
    (\<forall>i. \<not> covers_path g target (elem_path h' e @ [i])) \<and>
    (tr_start target < tr_end target \<longrightarrow> (\<forall>q. covers_path g target q \<longrightarrow> prefix q (elem_path h' e)))"
proof -
  have "nav E g h (covering_element k E n target) (\<lambda>h' e. elem_in h' e \<and> prefix (elem_path h (Node n)) (elem_path h' e) \<and>
     covers_path g target (elem_path h' e) \<and> (\<forall>i. \<not> covers_path g target (elem_path h' e @ [i])))"
    unfolding covering_element_def
    using assms by (intro red_env.nav_covering_loop [OF red_env.intro [OF assms(1)] assms(2,4)]) auto
  then obtain e h' where e: "covering_element k E n target h = Inr (e, h')" "red_wf E g h'" "heap_le h h'" "elem_in h' e"
    "prefix (path_of h n) (elem_path h' e)" "covers_path g target (elem_path h' e)"
    "\<forall>i. \<not> covers_path g target (elem_path h' e @ [i])" by (auto simp: nav_def)
  have "prefix q (elem_path h' e)" if "tr_start target < tr_end target" "covers_path g target q" for q
  proof (rule ccontr)
    assume no: "\<not> prefix q (elem_path h' e)"
    have "unat (tr_start target) < unat (tr_end target)" using that(1) by (simp add: word_less_nat_alt)
    with covers_from_comparable [of "Node g" _ _ q "elem_path h' e"] that(2) e(6) no
    have "strict_prefix (elem_path h' e) q" unfolding covers_path_from by (auto simp: strict_prefix_def)
    then obtain i where "prefix (elem_path h' e @ [i]) q" by (auto elim!: strict_prefixE')
    with that(2) have "covers_path g target (elem_path h' e @ [i])"
      unfolding covers_path_from by (rule covers_from_prefix)
    with e(7) show False by blast
  qed
  with e show ?thesis by blast
qed

theorem covering_element_smallest_witness:
  "\<exists>e h'. covering_element 3 red_ex_env 0 \<lparr>tr_start = 3, tr_end = 4\<rparr> ex_heap = Inr (e, h') \<and> prefix [2, 0] (elem_path h' e)"
proof -
  let ?t = "\<lparr>tr_start = 3, tr_end = 4\<rparr> :: text_range"
  have "covers_path ex_green ?t []" "covers_path ex_green ?t [2, 0]"
    by (simp_all add: covers_path_def ex_green_defs green_len_GreenNode)
  moreover have "height ex_green = 2" by (simp add: ex_green_def ex_node_def green_node_new_def)
  ultimately show ?thesis
    using covering_element_smallest [OF ex_text ex_wf ex_node_0(1), of ?t 3] ex_node_0(2) by (auto simp: tr_valid_def)
qed

end
