(* ===== verification/Red_Shared.thy ===== *)
theory Red_Shared
  imports Red_Tree
begin

text \<open>
  A red tree that several threads share (\<open>cstree/src/syntax/node.rs\<close>): the reference count of the
  whole tree, \<open>Clone\<close> and \<open>Drop\<close> of \<open>SyntaxNode\<close> with the recursive release of the tree, and the
  steps of \<open>get_or_add_node\<close> and \<open>get_or_add_element\<close> that can interleave. Addresses are positions
  of the heap and are not used again; an address that was given to \<open>Box::from_raw\<close> is freed, and
  following a pointer to it, or to the freed count, is undefined behaviour. Each access to the
  count is one step, and so is what is done with a slot while its lock is held.
\<close>

section \<open>The state\<close>

text \<open>
  What a thread has left to do of one call: the first \<open>read\<close>; \<open>try_write\<close> of the element it created;
  after it lost the race, the increment, the drop of the element and, for a node, the drop of its
  data; and the last \<open>read\<close>.
\<close>

datatype access =
    First_read nat nat green_element text_size
  | Try_write nat nat syntax_element
  | Lost nat nat syntax_element
  | Lost_drop nat nat syntax_element
  | Lost_free nat nat nat
  | Last_read nat nat

text \<open>
  \<open>sh_handles\<close> are the \<open>SyntaxNode\<close>s that clients own, a token by its parent; \<open>sh_forgotten\<close> counts
  those that were passed to \<open>mem::forget\<close>. A thread borrows one of the handles during a call.
\<close>

record ('i, 'x) shared =
  sh_heap :: "('i, 'x) heap"
  sh_freed :: "nat list"
  sh_count :: u32
  sh_count_live :: bool
  sh_handles :: "nat list"
  sh_forgotten :: nat
  sh_threads :: "(nat \<times> access) list"

definition shared_new :: "green_node \<Rightarrow> 'i option \<Rightarrow> ('i, 'x) shared" where
  "shared_new green resolver =
     (let (root, h) = make_new_root green resolver
      in \<lparr>sh_heap = h, sh_freed = [], sh_count = 1, sh_count_live = True, sh_handles = [root],
          sh_forgotten = 0, sh_threads = []\<rparr>)"

section \<open>Pointers and the count\<close>

definition data_of :: "('i, 'x) shared \<Rightarrow> nat \<Rightarrow> ('i, 'x) node_data outcome" where
  "data_of s n = (if n < length (sh_heap s) \<and> n \<notin> set (sh_freed s) then Inr (sh_heap s ! n) else Inl Undefined_behaviour)"

text \<open>\<open>*self.data().ref_count\<close>\<close>

definition ref_count :: "('i, 'x) shared \<Rightarrow> nat \<Rightarrow> u32 outcome" where
  "ref_count s n = bindO (data_of s n) (\<lambda>_. if sh_count_live s then Inr (sh_count s) else Inl Undefined_behaviour)"

definition fetch_add :: "nat \<Rightarrow> u32 \<Rightarrow> ('i, 'x) shared \<Rightarrow> ('i, 'x) shared outcome" where
  "fetch_add n v s = bindO (ref_count s n) (\<lambda>refs. Inr (s\<lparr>sh_count := refs + v\<rparr>))"

text \<open>\<open>SyntaxNode::clone\<close>: the new handle.\<close>

definition clone_node :: "nat \<Rightarrow> ('i, 'x) shared \<Rightarrow> (nat \<times> ('i, 'x) shared) outcome" where
  "clone_node n s = bindO (fetch_add n 1 s) (\<lambda>s. Inr (n, s))"

text \<open>\<open>SyntaxNode::root\<close>\<close>

fun shared_root :: "nat \<Rightarrow> ('i, 'x) shared \<Rightarrow> nat \<Rightarrow> nat outcome" where
  "shared_root 0 s current = Inl Out_of_fuel"
| "shared_root (Suc k) s current = bindO (data_of s current) (\<lambda>d.
     case as_child (nd_kind d) of Some (parent, _, _) \<Rightarrow> shared_root k s parent | None \<Rightarrow> Inr current)"

definition clear_slot :: "nat \<Rightarrow> nat \<Rightarrow> ('i, 'x) shared \<Rightarrow> ('i, 'x) shared outcome" where
  "clear_slot n i s = bindO (data_of s n) (\<lambda>d.
     Inr (s\<lparr>sh_heap := update_node (sh_heap s) n (d\<lparr>nd_children := (nd_children d)[i := None]\<rparr>)\<rparr>))"

definition free_count :: "('i, 'x) shared \<Rightarrow> ('i, 'x) shared outcome" where
  "free_count s = (if sh_count_live s then Inr (s\<lparr>sh_count_live := False\<rparr>) else Inl Undefined_behaviour)"

section \<open>Dropping nodes\<close>

text \<open>
  \<open>drop_node\<close> is \<open>SyntaxNode::drop\<close>; \<open>drop_recursive\<close> runs \<open>drop_slots\<close> over the indices of the slots;
  \<open>free_data\<close> drops a \<open>Box\<close> of \<open>NodeData\<close>: its parent, then the elements that are still in slots
  (\<open>drop_elements\<close>), then the memory. The fuel bounds the depth of the recursion.
\<close>

function (sequential) drop_node :: "nat \<Rightarrow> nat \<Rightarrow> ('i, 'x) shared \<Rightarrow> ('i, 'x) shared outcome"
  and drop_recursive :: "nat \<Rightarrow> nat \<Rightarrow> ('i, 'x) shared \<Rightarrow> ('i, 'x) shared outcome"
  and drop_slots :: "nat \<Rightarrow> nat \<Rightarrow> nat list \<Rightarrow> ('i, 'x) shared \<Rightarrow> ('i, 'x) shared outcome"
  and free_data :: "nat \<Rightarrow> nat \<Rightarrow> ('i, 'x) shared \<Rightarrow> ('i, 'x) shared outcome"
  and drop_elements :: "nat \<Rightarrow> syntax_element option list \<Rightarrow> ('i, 'x) shared \<Rightarrow> ('i, 'x) shared outcome"
where
  "drop_node k n s = bindO (ref_count s n) (\<lambda>refs.
     let s = s\<lparr>sh_count := refs - 1\<rparr> in
     if refs = 1 then
       (case k of
          0 \<Rightarrow> Inl Out_of_fuel
        | Suc k \<Rightarrow>
            bindO (shared_root (Suc (length (sh_heap s))) s n) (\<lambda>root.
            bindO (drop_recursive k root s) (\<lambda>s.
            bindO (drop_node k root s) (\<lambda>s.
            bindO (free_data k root s) (\<lambda>s. free_count s)))))
     else Inr s)"
| "drop_recursive 0 n s = Inl Out_of_fuel"
| "drop_recursive (Suc k) n s = bindO (data_of s n) (\<lambda>d. drop_slots k n [0..<length (nd_children d)] s)"
| "drop_slots k n [] s = Inr s"
| "drop_slots k n (i # is) s = bindO (data_of s n) (\<lambda>d.
     case nd_children d ! i of
       Some (Node node) \<Rightarrow>
         bindO (drop_recursive k node s) (\<lambda>s.
         bindO (drop_node k node s) (\<lambda>s.
         bindO (clear_slot n i s) (\<lambda>s.
         bindO (free_data k node s) (\<lambda>s. drop_slots k n is s))))
     | Some (Token token) \<Rightarrow>
         bindO (drop_node k (st_parent token) s) (\<lambda>s.
         bindO (clear_slot n i s) (\<lambda>s. drop_slots k n is s))
     | None \<Rightarrow> bindO (clear_slot n i s) (\<lambda>s. drop_slots k n is s))"
| "free_data k n s = bindO (data_of s n) (\<lambda>d.
     case as_child (nd_kind d) of
       Some (parent, _, _) \<Rightarrow>
         bindO (drop_node k parent s) (\<lambda>s.
         bindO (drop_elements k (nd_children d) s) (\<lambda>s. Inr (s\<lparr>sh_freed := n # sh_freed s\<rparr>)))
     | None \<Rightarrow> bindO (drop_elements k (nd_children d) s) (\<lambda>s. Inr (s\<lparr>sh_freed := n # sh_freed s\<rparr>)))"
| "drop_elements k [] s = Inr s"
| "drop_elements k (None # es) s = drop_elements k es s"
| "drop_elements k (Some (Node node) # es) s = bindO (drop_node k node s) (\<lambda>s. drop_elements k es s)"
| "drop_elements k (Some (Token token) # es) s = bindO (drop_node k (st_parent token) s) (\<lambda>s. drop_elements k es s)"
  by pat_completeness auto
termination
  by (relation "measures [\<lambda>x. case x of Inl (Inl (k, _, _)) \<Rightarrow> k | Inl (Inr (k, _, _)) \<Rightarrow> k
      | Inr (Inl (k, _, _, _)) \<Rightarrow> k | Inr (Inr (Inl (k, _, _))) \<Rightarrow> k | Inr (Inr (Inr (k, _, _))) \<Rightarrow> k,
    \<lambda>x. case x of Inl _ \<Rightarrow> 0 | Inr (Inl _) \<Rightarrow> 3 | Inr (Inr (Inl _)) \<Rightarrow> 2 | Inr (Inr (Inr _)) \<Rightarrow> 1,
    \<lambda>x. case x of Inr (Inl (_, _, is, _)) \<Rightarrow> length is | Inr (Inr (Inr (_, es, _))) \<Rightarrow> length es | _ \<Rightarrow> 0]") auto

declare drop_node.simps [simp del]

text \<open>Along a path of the tree addresses increase, so the depth is at most the number of addresses.\<close>

definition drop_fuel :: "('i, 'x) shared \<Rightarrow> nat" where
  "drop_fuel s = length (sh_heap s) + 2"

section \<open>Getting or adding a child\<close>

text \<open>The debug assertion on an element that is read: its \<open>text_range()\<close> follows the pointer to its data, a token's that to its parent.\<close>

definition shared_check :: "('s, 'd, 'k, 'e) env \<Rightarrow> ('i, 'x) shared \<Rightarrow> syntax_element \<Rightarrow> text_size \<Rightarrow> unit outcome" where
  "shared_check E s elem offset =
     (if en_debug E then
        bindO (data_of s (case elem of Node n \<Rightarrow> n | Token t \<Rightarrow> st_parent t)) (\<lambda>_. check_offset E (sh_heap s) elem offset)
      else Inr ())"

text \<open>
  \<open>SyntaxNode::read\<close>, and one step of a call: the element it returns, or what is left to do. Creating the
  element touches nothing that is shared, so it is part of the step before.
\<close>

definition shared_slot :: "('i, 'x) shared \<Rightarrow> nat \<Rightarrow> nat \<Rightarrow> syntax_element option outcome" where
  "shared_slot s n index = bindO (data_of s n) (\<lambda>d.
     if index < length (nd_children d) then Inr (nd_children d ! index) else Inl Undefined_behaviour)"

fun access_step :: "('s, 'd, 'k, 'e) env \<Rightarrow> nat \<Rightarrow> access \<Rightarrow> ('i, 'x) shared \<Rightarrow> ((access + syntax_element) \<times> ('i, 'x) shared) outcome" where
  "access_step E k (First_read n index element offset) s = bindO (shared_slot s n index) (\<lambda>slot.
     case slot of
       Some elem \<Rightarrow> bindO (shared_check E s elem offset) (\<lambda>_. Inr (Inr elem, s))
     | None \<Rightarrow> (case syntax_element_new element n (as_u32 index) offset (sh_heap s) of
         (elem, h) \<Rightarrow> Inr (Inl (Try_write n index elem), s\<lparr>sh_heap := h\<rparr>)))"
| "access_step E k (Try_write n index elem) s = bindO (shared_slot s n index) (\<lambda>slot.
     case slot of
       None \<Rightarrow> bindO (data_of s n) (\<lambda>d. Inr (Inl (Last_read n index),
         s\<lparr>sh_heap := update_node (sh_heap s) n (d\<lparr>nd_children := (nd_children d)[index := Some elem]\<rparr>)\<rparr>))
     | Some _ \<Rightarrow> Inr (Inl (Lost n index elem), s))"
| "access_step E k (Lost n index (Node node)) s = bindO (fetch_add node 2 s) (\<lambda>s. Inr (Inl (Lost_drop n index (Node node)), s))"
| "access_step E k (Lost n index (Token token)) s =
     bindO (fetch_add (st_parent token) 1 s) (\<lambda>s. Inr (Inl (Lost_drop n index (Token token)), s))"
| "access_step E k (Lost_drop n index (Node node)) s = bindO (drop_node k node s) (\<lambda>s. Inr (Inl (Lost_free n index node), s))"
| "access_step E k (Lost_drop n index (Token token)) s =
     bindO (drop_node k (st_parent token) s) (\<lambda>s. Inr (Inl (Last_read n index), s))"
| "access_step E k (Lost_free n index node) s = bindO (free_data k node s) (\<lambda>s. Inr (Inl (Last_read n index), s))"
| "access_step E k (Last_read n index) s = bindO (shared_slot s n index) (\<lambda>slot.
     bindO (unwrap slot) (\<lambda>elem. Inr (Inr elem, s)))"

section \<open>The shared tree as a state machine\<close>

text \<open>
  A client can hold a reference to any node that is in the tree, as long as it owns a handle or
  borrows one that is not dropped before. It can ask for any child by its position and offset
  (\<open>begin_access\<close>). The functions \<open>prev_child_before\<close> and \<open>prev_child_or_token_before\<close> number the children
  from the position \<open>m\<close> they are given backwards, so for an \<open>m\<close> above the number of children the index
  is not that of the element, and can be past the slots (\<open>begin_past_end\<close>).
\<close>

definition in_tree :: "('i, 'x) shared \<Rightarrow> nat \<Rightarrow> bool" where
  "in_tree s n \<longleftrightarrow> n = 0 \<or> (\<exists>d \<in> set (sh_heap s). Some (Node n) \<in> set (nd_children d))"

definition borrows_ok :: "('i, 'x) shared \<Rightarrow> bool" where
  "borrows_ok s \<longleftrightarrow> (\<forall>(b, a) \<in> set (sh_threads s). b \<in> set (sh_handles s))"

datatype shared_label = Cloned nat | Dropped nat | Forgot nat | Began nat nat | Began_past_end nat nat | Worked | Got nat nat syntax_element

fun access_slot :: "access \<Rightarrow> nat \<times> nat" where
  "access_slot (First_read n i _ _) = (n, i)"
| "access_slot (Try_write n i _) = (n, i)"
| "access_slot (Lost n i _) = (n, i)"
| "access_slot (Lost_drop n i _) = (n, i)"
| "access_slot (Lost_free n i _) = (n, i)"
| "access_slot (Last_read n i) = (n, i)"

inductive shared_step :: "('s, 'd, 'k, 'e) env \<Rightarrow> ('i, 'x) shared \<Rightarrow> shared_label \<Rightarrow> ('i, 'x) shared outcome \<Rightarrow> bool" for E where
  clone: "sh_handles s \<noteq> [] \<Longrightarrow> in_tree s n \<Longrightarrow>
    shared_step E s (Cloned n) (bindO (clone_node n s) (\<lambda>(n, s). Inr (s\<lparr>sh_handles := n # sh_handles s\<rparr>)))"
| drop: "sh_handles s = us @ n # vs \<Longrightarrow> s' = s\<lparr>sh_handles := us @ vs\<rparr> \<Longrightarrow> borrows_ok s' \<Longrightarrow>
    shared_step E s (Dropped n) (drop_node (drop_fuel s) n s')"
| forget: "sh_handles s = us @ n # vs \<Longrightarrow> s' = s\<lparr>sh_handles := us @ vs\<rparr> \<Longrightarrow> borrows_ok s' \<Longrightarrow>
    shared_step E s (Forgot n) (Inr (s'\<lparr>sh_forgotten := Suc (sh_forgotten s)\<rparr>))"
| begin_access: "b \<in> set (sh_handles s) \<Longrightarrow> in_tree s n \<Longrightarrow> i < length (gn_children (nd_green (sh_heap s ! n))) \<Longrightarrow>
    shared_step E s (Began n i) (Inr (s\<lparr>sh_threads := (b, First_read n i (gn_children (nd_green (sh_heap s ! n)) ! i) offset) # sh_threads s\<rparr>))"
| begin_past_end: "b \<in> set (sh_handles s) \<Longrightarrow> in_tree s n \<Longrightarrow> cs = gn_children (nd_green (sh_heap s ! n)) \<Longrightarrow>
    length cs < m \<Longrightarrow> j < length cs \<Longrightarrow>
    shared_step E s (Began_past_end n m) (Inr (s\<lparr>sh_threads := (b, First_read n (m - j - 1) (rev cs ! j) offset) # sh_threads s\<rparr>))"
| work: "sh_threads s = us @ (b, a) # vs \<Longrightarrow> access_step E (drop_fuel s) a s = Inr (Inl a', s') \<Longrightarrow>
    shared_step E s Worked (Inr (s'\<lparr>sh_threads := us @ (b, a') # vs\<rparr>))"
| finish: "sh_threads s = us @ (b, a) # vs \<Longrightarrow> access_step E (drop_fuel s) a s = Inr (Inr elem, s') \<Longrightarrow>
    access_slot a = (n, i) \<Longrightarrow> shared_step E s (Got n i elem) (Inr (s'\<lparr>sh_threads := us @ vs\<rparr>))"
| fail: "sh_threads s = us @ (b, a) # vs \<Longrightarrow> access_step E (drop_fuel s) a s = Inl p \<Longrightarrow>
    shared_step E s Worked (Inl p)"

text \<open>An execution, all of whose steps satisfy \<open>B\<close> in the state where they start.\<close>

inductive execution :: "('s, 'd, 'k, 'e) env \<Rightarrow> (('i, 'x) shared \<Rightarrow> shared_label \<Rightarrow> bool) \<Rightarrow> ('i, 'x) shared \<Rightarrow>
  shared_label list \<Rightarrow> ('i, 'x) shared \<Rightarrow> bool" for E B where
  none: "execution E B s [] s"
| more: "execution E B s ls s1 \<Longrightarrow> B s1 l \<Longrightarrow> shared_step E s1 l (Inr s2) \<Longrightarrow> execution E B s (ls @ [l]) s2"

end
