(* ===== verification/Red_Shared_Invariant.thy ===== *)
theory Red_Shared_Invariant
  imports Red_Shared Red_Invariant
begin

text \<open>
  The invariant of a shared tree: the nodes that are neither freed nor private to a thread form a
  tree, and the count is the number of handles, plus the references that threads drop next.
\<close>

section \<open>Trees with dead addresses\<close>

text \<open>\<open>e\<close> was created for slot \<open>i\<close> of \<open>n\<close>.\<close>

fun made_for :: "('i, 'x) heap \<Rightarrow> nat \<Rightarrow> nat \<Rightarrow> syntax_element \<Rightarrow> bool" where
  "made_for h n i (Node c) \<longleftrightarrow> n < c \<and> c < length h \<and> (\<exists>offset. nd_kind (h ! c) = KChild n (as_u32 i) offset)"
| "made_for h n i (Token t) \<longleftrightarrow> n < length h \<and> st_parent t = n \<and> st_index t = as_u32 i \<and> as_token (node_children (h ! n) ! i) \<noteq> None"

definition has_shape :: "('i, 'x) node_data \<Rightarrow> bool" where
  "has_shape d \<longleftrightarrow> arity_ok (nd_green d) \<and> length (nd_children d) = length (node_children d)"

definition tree_wf :: "('i, 'x) heap \<Rightarrow> nat set \<Rightarrow> bool" where
  "tree_wf h X \<longleftrightarrow> 0 < length h \<and> 0 \<notin> X \<and> as_child (nd_kind (h ! 0)) = None \<and> (\<forall>d \<in> set h. has_shape d) \<and>
     (\<forall>n < length h. n \<notin> X \<longrightarrow> n \<noteq> 0 \<longrightarrow>
        (\<exists>p i offset. nd_kind (h ! n) = KChild p i offset \<and> p < n \<and> p \<notin> X \<and> child_at h p (unat i) (Node n))) \<and>
     (\<forall>n i e. child_at h n i e \<longrightarrow> n \<notin> X \<and> made_for h n i e \<and> (\<forall>c. e = Node c \<longrightarrow> c \<notin> X))"

lemma tree_wf_parent:
  assumes "tree_wf h X" "n < length h" "n \<notin> X" "n \<noteq> 0"
  obtains p i offset where "nd_kind (h ! n) = KChild p i offset" "p < n" "p \<notin> X" "child_at h p (unat i) (Node n)"
  using assms by (auto simp: tree_wf_def)

lemma tree_wf_child:
  assumes "tree_wf h X" "child_at h n i e"
  shows "n \<notin> X" "n < length h" "made_for h n i e" "e = Node c \<Longrightarrow> c \<notin> X"
  using assms by (auto simp: tree_wf_def child_at_def)

lemma made_for_le: "heap_le h h' \<Longrightarrow> made_for h n i e \<Longrightarrow> made_for h' n i e"
  by (cases e) (use heap_le_node(5) [of h h' n] in \<open>auto simp: heap_le_def\<close>)

lemma has_shape_index: "has_shape d \<Longrightarrow> i < length (nd_children d) \<Longrightarrow> unat (as_u32 i) = i"
  by (cases "nd_green d") (auto simp: has_shape_def arity_ok_def node_children_def intro: unat_as_u32)

lemma child_at_update:
  assumes "n < length h"
  shows "child_at (update_node h n (d\<lparr>nd_children := cs\<rparr>)) m j e \<longleftrightarrow>
    (if m = n then j < length cs \<and> cs ! j = Some e else child_at h m j e)"
  using assms by (auto simp: child_at_def update_node_def nth_list_update)

lemma child_at_append: "child_at (h @ [d]) m j e \<longleftrightarrow>
    child_at h m j e \<or> m = length h \<and> j < length (nd_children d) \<and> nd_children d ! j = Some e"
  by (auto simp: child_at_def nth_append)

text \<open>A new node that no slot holds.\<close>

lemma tree_wf_append:
  assumes wf: "tree_wf h X" and d: "has_shape d" "\<forall>e \<in> set (nd_children d). e = None" and X: "\<forall>x \<in> X. x < length h"
  shows "tree_wf (h @ [d]) (insert (length h) X)"
proof -
  have new: "child_at (h @ [d]) m j e \<longleftrightarrow> child_at h m j e" for m j e
    using d(2) by (auto simp: child_at_append) (metis nth_mem option.distinct(1))
  have at: "child_at h m j e \<Longrightarrow> m < length h" for m j e by (simp add: child_at_def)
  have le: "heap_le h (h @ [d])" by (rule heap_le_append)
  have kids: "child_at h m j (Node c) \<Longrightarrow> c < length h" for m j c using tree_wf_child(3) [OF wf, of m j "Node c"] by simp
  have old: "\<exists>p i offset. nd_kind ((h @ [d]) ! m) = KChild p i offset \<and> p < m \<and> p \<notin> insert (length h) X \<and> child_at h p (unat i) (Node m)"
    if m: "m < length h" "m \<notin> X" "m \<noteq> 0" for m
  proof -
    obtain p i offset where "nd_kind (h ! m) = KChild p i offset" "p < m" "p \<notin> X" "child_at h p (unat i) (Node m)"
      by (rule tree_wf_parent [OF wf m])
    with m(1) show ?thesis by (auto simp: nth_append)
  qed
  have "n \<noteq> length h \<and> n \<notin> X \<and> made_for (h @ [d]) n i e \<and> (\<forall>c. e = Node c \<longrightarrow> c \<noteq> length h \<and> c \<notin> X)"
    if "child_at h n i e" for n i e
    using tree_wf_child [OF wf that] at [OF that] made_for_le [OF le] kids that by blast
  moreover have "as_child (nd_kind ((h @ [d]) ! 0)) = None" "0 \<noteq> length h" "0 \<notin> X"
    using wf by (auto simp: tree_wf_def nth_append)
  ultimately show ?thesis
    using wf d(1) old unfolding tree_wf_def new by (auto simp: less_Suc_eq)
qed

text \<open>An element that gets into a free slot.\<close>

lemma tree_wf_fill:
  assumes wf: "tree_wf h X" and n: "n < length h" "n \<notin> X" "i < length (nd_children (h ! n))" "nd_children (h ! n) ! i = None"
    and e: "made_for h n i e" and Y: "Y = X - {c. e = Node c}"
  shows "tree_wf (update_node h n ((h ! n)\<lparr>nd_children := (nd_children (h ! n))[i := Some e]\<rparr>)) Y"
    (is "tree_wf ?h Y")
proof -
  have le: "heap_le h ?h" by (rule heap_le_fill [OF n(1,4)])
  have shape: "has_shape (h ! n)" using wf n(1) by (simp add: tree_wf_def)
  have at: "child_at ?h m j x \<longleftrightarrow> child_at h m j x \<or> m = n \<and> j = i \<and> x = e" for m j x
    using n by (auto simp: child_at_update) (auto simp: child_at_def nth_list_update split: if_splits)
  have same: "nd_kind (?h ! m) = nd_kind (h ! m)" for m
    by (cases "m = n") (use n(1) in \<open>simp_all add: update_node_def\<close>)
  have shapes: "has_shape d" if d: "d \<in> set ?h" for d
    using d wf shape by (auto simp: tree_wf_def update_node_def has_shape_def node_children_def dest!: set_update_subset_insert [THEN subsetD])
  have parent: "\<exists>p i offset. nd_kind (?h ! m) = KChild p i offset \<and> p < m \<and> p \<notin> Y \<and> child_at ?h p (unat i) (Node m)"
    if m: "m < length h" "m \<notin> Y" "m \<noteq> 0" for m
  proof (cases "m \<in> X")
    case False
    from tree_wf_parent [OF wf m(1) False m(3)] obtain p i offset where
      "nd_kind (h ! m) = KChild p i offset" "p < m" "p \<notin> X" "child_at h p (unat i) (Node m)" by blast
    then show ?thesis using at same Y by auto
  next
    case True
    with m(2) Y have "e = Node m" by blast
    then show ?thesis using e n(2) at same Y has_shape_index [OF shape n(3)] by auto
  qed
  have "length ?h = length h" by (simp add: update_node_def)
  moreover have "m \<notin> Y \<and> made_for ?h m j x \<and> (\<forall>c. x = Node c \<longrightarrow> c \<notin> Y)" if "child_at ?h m j x" for m j x
    using that e n(2) Y tree_wf_child [OF wf, of m j x] made_for_le [OF le] unfolding at by blast
  ultimately show ?thesis
    using wf parent shapes Y unfolding tree_wf_def same by auto
qed

section \<open>The invariant\<close>

text \<open>The nodes that only one thread knows, and the references that it still has to give back.\<close>

fun privates :: "access \<Rightarrow> nat list" where
  "privates (Try_write _ _ (Node c)) = [c]"
| "privates (Lost _ _ (Node c)) = [c]"
| "privates (Lost_drop _ _ (Node c)) = [c]"
| "privates (Lost_free _ _ c) = [c]"
| "privates _ = []"

fun pending :: "access \<Rightarrow> nat" where
  "pending (Lost_drop _ _ (Node _)) = 2"
| "pending (Lost_drop _ _ (Token _)) = 1"
| "pending (Lost_free _ _ _) = 1"
| "pending _ = 0"

definition private_nodes :: "(nat \<times> access) list \<Rightarrow> nat list" where
  "private_nodes ts = concat (map (\<lambda>(b, a). privates a) ts)"

definition dead :: "('i, 'x) shared \<Rightarrow> nat set" where
  "dead s = set (sh_freed s) \<union> set (private_nodes (sh_threads s))"

definition n_refs :: "('i, 'x) shared \<Rightarrow> nat" where
  "n_refs s = length (sh_handles s) + sh_forgotten s + sum_list (map (\<lambda>(b, a). pending a) (sh_threads s))"

definition filled :: "('i, 'x) heap \<Rightarrow> nat \<Rightarrow> nat \<Rightarrow> bool" where
  "filled h n i \<longleftrightarrow> nd_children (h ! n) ! i \<noteq> None"

fun task_ok :: "('i, 'x) heap \<Rightarrow> access \<Rightarrow> bool" where
  "task_ok h (First_read n i element offset) \<longleftrightarrow> element = node_children (h ! n) ! i"
| "task_ok h (Try_write n i e) \<longleftrightarrow> made_for h n i e"
| "task_ok h (Lost n i e) \<longleftrightarrow> made_for h n i e \<and> filled h n i"
| "task_ok h (Lost_drop n i e) \<longleftrightarrow> made_for h n i e \<and> filled h n i"
| "task_ok h (Lost_free n i c) \<longleftrightarrow> made_for h n i (Node c) \<and> filled h n i"
| "task_ok h (Last_read n i) \<longleftrightarrow> filled h n i"

definition access_ok :: "('i, 'x) heap \<Rightarrow> nat set \<Rightarrow> access \<Rightarrow> bool" where
  "access_ok h X a \<longleftrightarrow> (case access_slot a of (n, i) \<Rightarrow> n < length h \<and> n \<notin> X \<and> i < length (nd_children (h ! n))) \<and> task_ok h a"

definition shared_wf :: "('i, 'x) shared \<Rightarrow> bool" where
  "shared_wf s \<longleftrightarrow> sh_count_live s \<and> tree_wf (sh_heap s) (dead s) \<and>
     distinct (sh_freed s @ private_nodes (sh_threads s)) \<and> (\<forall>x \<in> dead s. x < length (sh_heap s)) \<and>
     (\<forall>b \<in> set (sh_handles s). b < length (sh_heap s) \<and> b \<notin> dead s) \<and> borrows_ok s \<and>
     (\<forall>(b, a) \<in> set (sh_threads s). access_ok (sh_heap s) (dead s) a) \<and> sh_count s = of_nat (n_refs s)"

lemma private_nodes_simps [simp]:
  "private_nodes [] = []"
  "private_nodes ((b, a) # ts) = privates a @ private_nodes ts"
  "private_nodes (us @ vs) = private_nodes us @ private_nodes vs"
  by (simp_all add: private_nodes_def)

lemma filled_le: "heap_le h h' \<Longrightarrow> n < length h \<Longrightarrow> i < length (nd_children (h ! n)) \<Longrightarrow> filled h n i \<Longrightarrow> filled h' n i"
  by (auto simp: heap_le_def filled_def)

lemma access_ok_le:
  assumes le: "heap_le h h'" and a: "access_ok h X a" and X: "\<And>m. m < length h \<Longrightarrow> m \<notin> X \<Longrightarrow> m \<notin> Y"
  shows "access_ok h' Y a"
proof -
  obtain n i where ni: "access_slot a = (n, i)" by fastforce
  with a have n: "n < length h" "n \<notin> X" "i < length (nd_children (h ! n))" by (simp_all add: access_ok_def)
  have "task_ok h' a"
    using a ni n made_for_le [OF le] filled_le [OF le n(1,3)] heap_le_node(5) [OF le n(1)]
    by (cases a) (auto simp: access_ok_def simp del: made_for.simps)
  then show ?thesis using n ni X [OF n(1,2)] le by (auto simp: access_ok_def heap_le_def)
qed

text \<open>What a step of one thread has to establish.\<close>

lemma shared_wf_work:
  assumes wf: "shared_wf s" and ts: "sh_threads s = us @ (b, a) # vs"
    and s': "s' = s\<lparr>sh_heap := h, sh_freed := f, sh_count := c, sh_threads := us @ map (Pair b) as @ vs\<rparr>"
    and le: "heap_le (sh_heap s) h"
    and own: "distinct (f @ concat (map privates as))" "\<And>x. x \<in> set (f @ concat (map privates as)) \<Longrightarrow>
        x < length h \<and> (x \<in> set (sh_freed s) \<union> set (privates a) \<or> length (sh_heap s) \<le> x)"
    and tree: "tree_wf h (dead s')" and ok: "\<And>a'. a' \<in> set as \<Longrightarrow> access_ok h (dead s') a'"
    and c: "c + of_nat (pending a) = sh_count s + of_nat (sum_list (map pending as))"
  shows "shared_wf s'"
proof -
  let ?P = "set (private_nodes us) \<union> set (private_nodes vs)"
  have old: "distinct (sh_freed s @ privates a)" "?P \<inter> (set (sh_freed s) \<union> set (privates a)) = {}"
    "distinct (private_nodes us @ private_nodes vs)"
    using wf ts by (auto simp: shared_wf_def)
  have bound: "\<forall>x \<in> dead s. x < length (sh_heap s)" using wf by (simp add: shared_wf_def)
  have priv: "private_nodes (map (Pair b) as) = concat (map privates as)" by (induction as) simp_all
  have dead: "dead s = set (sh_freed s) \<union> set (privates a) \<union> ?P" "dead s' = set f \<union> set (concat (map privates as)) \<union> ?P"
    using ts s' priv by (auto simp: dead_def)
  have new: "m \<notin> dead s'" if "m < length (sh_heap s)" "m \<notin> dead s" for m
    using that own(2) [of m] unfolding dead by auto
  have P: "x < length (sh_heap s)" "x \<notin> set (sh_freed s) \<union> set (privates a)" if "x \<in> ?P" for x
    using that bound old(2) unfolding dead(1) by blast+
  have dis: "distinct (f @ private_nodes (us @ map (Pair b) as @ vs))"
  proof -
    have "x \<notin> set f \<union> set (concat (map privates as))" if "x \<in> ?P" for x
      using P [OF that] own(2) [of x] by auto
    with own(1) old(3) show ?thesis unfolding private_nodes_simps priv by auto
  qed
  have "\<forall>x \<in> dead s'. x < length h"
  proof
    fix x assume "x \<in> dead s'"
    then consider "x \<in> set (f @ concat (map privates as))" | "x \<in> ?P" unfolding dead(2) by auto
    then show "x < length h"
    proof cases
      case 2
      from P(1) [OF this] le show ?thesis by (simp add: heap_le_def)
    qed (use own(2) in blast)
  qed
  moreover have "\<forall>b \<in> set (sh_handles s). b < length h \<and> b \<notin> dead s'"
    using wf new le by (auto simp: shared_wf_def heap_le_def)
  moreover have "\<forall>(b, a) \<in> set (sh_threads s'). access_ok h (dead s') a"
  proof -
    have "access_ok h (dead s') a'" if "(b', a') \<in> set us \<union> set vs" for b' a'
      using wf ts that by (intro access_ok_le [OF le _ new]) (auto simp: shared_wf_def)
    with ok show ?thesis using s' by auto
  qed
  moreover have "borrows_ok s'" using wf ts s' by (auto simp: shared_wf_def borrows_ok_def)
  moreover have "c = of_nat (n_refs s')"
  proof -
    have "sum_list (map (\<lambda>(b, a). pending a) (map (Pair b) as)) = sum_list (map pending as)" by (induction as) simp_all
    then have "of_nat (n_refs s') + of_nat (pending a) = (of_nat (n_refs s) + of_nat (sum_list (map pending as)) :: u32)"
      using ts s' by (simp add: n_refs_def)
    also have "\<dots> = c + of_nat (pending a)" using c wf by (simp add: shared_wf_def)
    finally show ?thesis by simp
  qed
  moreover have "sh_count_live s' = sh_count_live s" "sh_heap s' = h" "sh_freed s' = f" "sh_handles s' = sh_handles s" "sh_count s' = c"
    "sh_threads s' = us @ map (Pair b) as @ vs" by (simp_all add: s')
  moreover have "sh_count_live s" using wf by (simp add: shared_wf_def)
  ultimately show ?thesis using tree dis unfolding shared_wf_def by simp
qed

end
