(* ===== verification/Red_Shared_Drop.thy ===== *)
theory Red_Shared_Drop
  imports Red_Shared_Invariant
begin

text \<open>
  The release of a tree: after the last handle is gone, \<open>drop_recursive\<close> frees every node of the
  tree once, and none of the decrements on the way finds the count at one again.
\<close>

section \<open>The references within a tree\<close>

text \<open>A node in a slot is referred to from the slot, and refers to its parent; a token refers to its parent.\<close>

fun slot_refs :: "syntax_element option \<Rightarrow> nat" where
  "slot_refs None = 0"
| "slot_refs (Some (Node _)) = 2"
| "slot_refs (Some (Token _)) = 1"

definition inner_refs :: "('i, 'x) heap \<Rightarrow> nat" where
  "inner_refs h = sum_list (map (\<lambda>d. sum_list (map slot_refs (nd_children d))) h)"

abbreviation cleared :: "('i, 'x) heap \<Rightarrow> nat \<Rightarrow> nat \<Rightarrow> ('i, 'x) heap" where
  "cleared h n i \<equiv> update_node h n ((h ! n)\<lparr>nd_children := (nd_children (h ! n))[i := None]\<rparr>)"

lemma inner_refs_cleared:
  assumes "n < length h" "i < length (nd_children (h ! n))"
  shows "inner_refs (cleared h n i) + slot_refs (nd_children (h ! n) ! i) = inner_refs h"
proof -
  let ?f = "\<lambda>d. sum_list (map slot_refs (nd_children d))"
  have "slot_refs (nd_children (h ! n) ! i) \<le> ?f (h ! n)" using assms(2) by (simp add: member_le_sum_list)
  moreover have "?f (h ! n) \<le> sum_list (map ?f h)" using assms(1) by (simp add: member_le_sum_list)
  ultimately show ?thesis
    using assms by (simp add: inner_refs_def update_node_def map_update sum_list_update)
qed

lemma tree_wf_clear:
  assumes wf: "tree_wf h X" and n: "n < length h" "i < length (nd_children (h ! n))"
    and leaf: "\<And>c j x. nd_children (h ! n) ! i = Some (Node c) \<Longrightarrow> \<not> child_at h c j x"
    and Y: "Y = X \<union> {c. nd_children (h ! n) ! i = Some (Node c)}"
  shows "tree_wf (cleared h n i) Y"
proof -
  let ?h = "cleared h n i"
  have shape: "has_shape (h ! n)" using wf n(1) by (simp add: tree_wf_def)
  have at: "child_at ?h m j x \<longleftrightarrow> child_at h m j x \<and> \<not> (m = n \<and> j = i)" for m j x
    using n by (auto simp: child_at_update) (auto simp: child_at_def nth_list_update split: if_splits)
  have same: "nd_kind (?h ! m) = nd_kind (h ! m)" "node_children (?h ! m) = node_children (h ! m)" for m
    by (cases "m = n"; use n(1) in \<open>simp add: update_node_def node_children_def\<close>)+
  have len: "length ?h = length h" by (simp add: update_node_def)
  have made: "made_for ?h m j x \<longleftrightarrow> made_for h m j x" for m j x
    by (cases x) (simp_all only: made_for.simps same len)
  have shapes: "has_shape d" if d: "d \<in> set ?h" for d
    using d wf shape by (auto simp: tree_wf_def update_node_def has_shape_def node_children_def dest!: set_update_subset_insert [THEN subsetD])
  have here: "nd_children (h ! n) ! i = Some x \<longleftrightarrow> child_at h n i x" for x using n by (simp add: child_at_def)
  have parent: "\<exists>p i offset. nd_kind (?h ! m) = KChild p i offset \<and> p < m \<and> p \<notin> Y \<and> child_at ?h p (unat i) (Node m)"
    if m: "m < length h" "m \<notin> Y" "m \<noteq> 0" for m
  proof -
    obtain p j offset where "nd_kind (h ! m) = KChild p j offset" "p < m" "p \<notin> X" "child_at h p (unat j) (Node m)"
      using tree_wf_parent [OF wf m(1) _ m(3)] m(2) Y by blast
    moreover from this have "p \<notin> Y" using leaf Y by blast
    moreover have "\<not> (p = n \<and> unat j = i)" using calculation(4) m(2) Y here by auto
    ultimately show ?thesis using at same by auto
  qed
  have child: "m \<notin> Y \<and> made_for ?h m j x \<and> (\<forall>c. x = Node c \<longrightarrow> c \<notin> Y)" if x: "child_at ?h m j x" for m j x
  proof -
    have old: "child_at h m j x" "\<not> (m = n \<and> j = i)" using x unfolding at by auto
    have clash: False if "x = Node c" "nd_children (h ! n) ! i = Some (Node c)" for c
    proof -
      have "as_u32 j = as_u32 i" "m = n" using tree_wf_child(3) [OF wf old(1)] tree_wf_child(3) [OF wf that(2) [unfolded here]] that(1) by auto
      moreover have "unat (as_u32 j) = j" "unat (as_u32 i) = i"
        using has_shape_index [OF shape] n old(1) \<open>m = n\<close> by (auto simp: child_at_def)
      ultimately show False using old(2) by metis
    qed
    have "m \<notin> Y" using tree_wf_child(1) [OF wf old(1)] leaf [of m j x] old(1) unfolding Y by auto
    moreover have "c \<notin> Y" if "x = Node c" for c using tree_wf_child(4) [OF wf old(1) that] clash [OF that] unfolding Y by auto
    ultimately show ?thesis using tree_wf_child(3) [OF wf old(1)] made by blast
  qed
  have "0 \<notin> Y"
    using wf tree_wf_child(3) [OF wf, of n i "Node 0"] here unfolding Y by (auto simp: tree_wf_def)
  moreover have "0 < length h" "as_child (nd_kind (h ! 0)) = None" using wf by (simp_all add: tree_wf_def)
  ultimately show ?thesis
    unfolding tree_wf_def same len using parent [unfolded same] shapes child by blast
qed

section \<open>Decrements that find another reference\<close>

lemma drop_node_counted:
  assumes "n < length (sh_heap s)" "n \<notin> set (sh_freed s)" "sh_count_live s" "sh_count s \<noteq> 1"
  shows "drop_node k n s = Inr (s\<lparr>sh_count := sh_count s - 1\<rparr>)"
  using assms by (subst drop_node.simps) (simp add: ref_count_def data_of_def Let_def)

lemma drop_elements_None: "\<forall>e \<in> set es. e = None \<Longrightarrow> drop_elements k es s = Inr s"
  by (induction es) auto

lemma free_data_empty:
  assumes n: "n < length (sh_heap s)" "n \<notin> set (sh_freed s)" "\<forall>e \<in> set (nd_children (sh_heap s ! n)). e = None"
    and p: "nd_kind (sh_heap s ! n) = KChild p i offset" "p < length (sh_heap s)" "p \<notin> set (sh_freed s)"
      "sh_count_live s" "sh_count s \<noteq> 1"
  shows "free_data k n s = Inr (s\<lparr>sh_count := sh_count s - 1, sh_freed := n # sh_freed s\<rparr>)"
  using n p by (simp add: data_of_def drop_node_counted drop_elements_None)

text \<open>The count below zero: \<open>x\<close> decrements after the last handle is gone do not find it at one.\<close>

lemma count_below:
  assumes "(c :: u32) + of_nat x = 0" "x < u32_max"
  shows "c \<noteq> 1"
proof
  assume "c = 1"
  with assms(1) have "of_nat (Suc x) = (0 :: u32)" by simp
  then have "2 ^ 32 dvd Suc x" unfolding word_of_nat_eq_0_iff by simp
  with assms(2) show False by (auto simp: u32_max_def dest!: dvd_imp_le)
qed

section \<open>The release of a subtree\<close>

text \<open>
  The state while a tree with \<open>R\<close> references within itself is released: as many of them were given back
  as there are fewer in the heap.
\<close>

definition dying :: "nat \<Rightarrow> ('i, 'x) shared \<Rightarrow> bool" where
  "dying R s \<longleftrightarrow> sh_count_live s \<and> tree_wf (sh_heap s) (set (sh_freed s)) \<and> distinct (sh_freed s) \<and>
     (\<forall>x \<in> set (sh_freed s). x < length (sh_heap s)) \<and> inner_refs (sh_heap s) \<le> R \<and> R < u32_max \<and>
     sh_count s + of_nat (R - inner_refs (sh_heap s)) = 0"

text \<open>What the release of the nodes below \<open>n\<close> leaves as it is.\<close>

definition kept :: "nat \<Rightarrow> ('i, 'x) shared \<Rightarrow> ('i, 'x) shared \<Rightarrow> bool" where
  "kept n s s' \<longleftrightarrow> length (sh_heap s') = length (sh_heap s) \<and>
     (\<exists>fs. sh_freed s' = fs @ sh_freed s \<and> (\<forall>x \<in> set fs. n < x)) \<and>
     (\<forall>m < length (sh_heap s). nd_kind (sh_heap s' ! m) = nd_kind (sh_heap s ! m)) \<and>
     (\<forall>m < length (sh_heap s). m \<noteq> n \<longrightarrow> m \<notin> set (sh_freed s') \<longrightarrow> sh_heap s' ! m = sh_heap s ! m) \<and>
     sh_handles s' = sh_handles s \<and> sh_forgotten s' = sh_forgotten s \<and> sh_threads s' = sh_threads s"

lemma kept_refl: "kept n s s"
  by (simp add: kept_def)

lemma kept_trans: "kept n s1 s2 \<Longrightarrow> kept n s2 s3 \<Longrightarrow> kept n s1 s3"
  by (auto simp: kept_def)

lemma kept_live: "kept n s s' \<Longrightarrow> m \<le> n \<Longrightarrow> m \<notin> set (sh_freed s) \<Longrightarrow> m \<notin> set (sh_freed s')"
  unfolding kept_def by fastforce

lemma clear_slot_eq:
  "n < length (sh_heap s) \<Longrightarrow> n \<notin> set (sh_freed s) \<Longrightarrow>
   clear_slot n i s = Inr (s\<lparr>sh_heap := cleared (sh_heap s) n i\<rparr>)"
  by (simp add: clear_slot_def data_of_def)

lemma kept_cleared:
  assumes "n < length (sh_heap s)" "sh_heap s' = cleared (sh_heap s) n i"
    and "\<exists>fs. sh_freed s' = fs @ sh_freed s \<and> (\<forall>x \<in> set fs. n < x)"
    and "sh_handles s' = sh_handles s" "sh_forgotten s' = sh_forgotten s" "sh_threads s' = sh_threads s"
  shows "kept n s s'"
proof -
  have "nd_kind (sh_heap s' ! m) = nd_kind (sh_heap s ! m)" for m
    by (cases "m = n") (use assms(1,2) in \<open>simp_all add: update_node_def\<close>)
  with assms show ?thesis by (simp add: kept_def update_node_def)
qed

lemma kept_released:
  assumes kept: "kept c s s1" and c: "n < c" and n: "n < length (sh_heap s)"
    and s2: "sh_heap s2 = cleared (sh_heap s1) n i" "sh_freed s2 = c # sh_freed s1"
      "sh_handles s2 = sh_handles s1" "sh_forgotten s2 = sh_forgotten s1" "sh_threads s2 = sh_threads s1"
  shows "kept n s s2"
proof -
  obtain fs where fs: "sh_freed s1 = fs @ sh_freed s" "\<forall>x \<in> set fs. c < x" using kept by (auto simp: kept_def)
  then have "sh_freed s2 = (c # fs) @ sh_freed s \<and> (\<forall>x \<in> set (c # fs). n < x)" using c s2(2) by auto
  then have "\<exists>fs. sh_freed s2 = fs @ sh_freed s \<and> (\<forall>x \<in> set fs. n < x)" by blast
  moreover have "nd_kind (sh_heap s2 ! m) = nd_kind (sh_heap s1 ! m)" for m
    by (cases "m = n") (use n kept s2(1) in \<open>simp_all add: update_node_def kept_def\<close>)
  moreover have "sh_heap s2 ! m = sh_heap s1 ! m" if "m \<noteq> n" for m using that s2(1) by (simp add: update_node_def)
  ultimately show ?thesis using kept s2 by (simp add: kept_def update_node_def)
qed

lemma no_children:
  assumes "n < length h"
  shows "(\<forall>j x. \<not> child_at h n j x) \<longleftrightarrow> (\<forall>e \<in> set (nd_children (h ! n)). e = None)"
  using assms by (simp add: child_at_def all_set_conv_all_nth)

lemma dying_count:
  assumes "dying R s" "child_at (sh_heap s) n i e"
  shows "sh_count s \<noteq> 1" "slot_refs (Some e) = 2 \<Longrightarrow> sh_count s - 1 \<noteq> 1"
proof -
  let ?r = "inner_refs (sh_heap s)"
  have e: "slot_refs (Some e) \<le> ?r"
    using inner_refs_cleared [of n "sh_heap s" i] assms(2) by (simp add: child_at_def)
  have c: "sh_count s + of_nat (R - ?r) = 0" "R < u32_max" "?r \<le> R" using assms(1) unfolding dying_def by blast+
  show "sh_count s \<noteq> 1" by (rule count_below [OF c(1)]) (use c(2) in simp)
  assume 2: "slot_refs (Some e) = 2"
  have "(sh_count s - 1) + of_nat (Suc (R - ?r)) = 0" using c(1) by simp
  then show "sh_count s - 1 \<noteq> 1" by (rule count_below) (use e 2 c(2,3) in linarith)
qed

lemma dying_cleared:
  assumes s: "dying R s" and n: "n < length (sh_heap s)" "i < length (nd_children (sh_heap s ! n))"
    and slot: "slot = nd_children (sh_heap s ! n) ! i" and leaf: "\<And>c j x. slot = Some (Node c) \<Longrightarrow> \<not> child_at (sh_heap s) c j x"
    and s': "sh_heap s' = cleared (sh_heap s) n i" "sh_count s' = sh_count s - of_nat (slot_refs slot)" "sh_count_live s'"
      "sh_freed s' = (case slot of Some (Node c) \<Rightarrow> c # sh_freed s | _ \<Rightarrow> sh_freed s)"
  shows "dying R s'"
proof -
  let ?r = "inner_refs (sh_heap s)" and ?r' = "inner_refs (sh_heap s')"
  have d: "tree_wf (sh_heap s) (set (sh_freed s))" "distinct (sh_freed s)" "\<forall>x \<in> set (sh_freed s). x < length (sh_heap s)"
    "?r \<le> R" "R < u32_max" "sh_count s + of_nat (R - ?r) = 0" using s unfolding dying_def by blast+
  have r: "?r' + slot_refs slot = ?r" using inner_refs_cleared [OF n] slot s'(1) by simp
  have "set (sh_freed s') = set (sh_freed s) \<union> {c. nd_children (sh_heap s ! n) ! i = Some (Node c)}"
    using s'(4) slot by (auto split: option.splits node_or_token.splits)
  then have tree: "tree_wf (sh_heap s') (set (sh_freed s'))"
    unfolding s'(1) using tree_wf_clear [OF d(1) n] leaf slot by blast
  have "c \<notin> set (sh_freed s) \<and> c < length (sh_heap s)" if "slot = Some (Node c)" for c
    using tree_wf_child(3,4) [OF d(1), of n i "Node c"] n slot that by (simp add: child_at_def)
  then have "distinct (sh_freed s')" "\<forall>x \<in> set (sh_freed s'). x < length (sh_heap s')"
    using d(2,3) s'(1,4) by (auto simp: update_node_def split: option.split node_or_token.split)
  moreover have "R - ?r' = (R - ?r) + slot_refs slot" using r d(4) by linarith
  then have "sh_count s' + of_nat (R - ?r') = sh_count s + of_nat (R - ?r)" unfolding s'(2) by (simp only: of_nat_add) simp
  then have "sh_count s' + of_nat (R - ?r') = 0" using d(6) by (rule trans)
  moreover have "?r' \<le> R" using r d(4) by linarith
  ultimately show ?thesis using tree d(5) s'(3) unfolding dying_def by blast
qed

lemma release_slot:
  assumes IH: "\<And>(s :: ('i, 'x) shared) c. dying R s \<Longrightarrow> c < length (sh_heap s) \<Longrightarrow> c \<notin> set (sh_freed s) \<Longrightarrow> length (sh_heap s) \<le> k + c \<Longrightarrow>
      \<exists>s'. drop_recursive k c s = Inr s' \<and> dying R s' \<and> kept c s s' \<and> (\<forall>j x. \<not> child_at (sh_heap s') c j x)"
    and s: "dying R (s :: ('i, 'x) shared)" and n: "n < length (sh_heap s)" "n \<notin> set (sh_freed s)" "length (sh_heap s) \<le> Suc k + n"
    and i: "i < length (nd_children (sh_heap s ! n))"
  shows "\<exists>s'. drop_slots k n (i # is) s = drop_slots k n is s' \<and> dying R s' \<and> kept n s s' \<and>
    sh_heap s' ! n = cleared (sh_heap s) n i ! n"
proof -
  have wf: "tree_wf (sh_heap s) (set (sh_freed s))" and live: "sh_count_live s" using s unfolding dying_def by blast+
  have at: "nd_children (sh_heap s ! n) ! i = Some x \<Longrightarrow> child_at (sh_heap s) n i x" for x using n i by (simp add: child_at_def)
  show ?thesis
  proof (cases "nd_children (sh_heap s ! n) ! i")
    case None
    let ?s = "s\<lparr>sh_heap := cleared (sh_heap s) n i\<rparr>"
    have "drop_slots k n (i # is) s = drop_slots k n is ?s"
      using n None by (simp add: data_of_def clear_slot_eq)
    moreover have "dying R ?s" by (rule dying_cleared [OF s n(1) i refl]) (use None live in simp_all)
    moreover have "kept n s ?s" by (rule kept_cleared [OF n(1)]) simp_all
    ultimately show ?thesis using n(1) by (intro exI [of _ ?s]) simp
  next
    case (Some e)
    show ?thesis
    proof (cases e)
      case (Token t)
      let ?s1 = "s\<lparr>sh_count := sh_count s - 1\<rparr>"
      let ?s = "?s1\<lparr>sh_heap := cleared (sh_heap s) n i\<rparr>"
      have t: "child_at (sh_heap s) n i (Token t)" using at Some Token by simp
      have "st_parent t = n" using tree_wf_child(3) [OF wf t] by simp
      moreover have "drop_node k n s = Inr ?s1" using dying_count(1) [OF s t] n live by (simp add: drop_node_counted)
      moreover have "clear_slot n i ?s1 = Inr ?s" using n by (simp add: clear_slot_eq)
      ultimately have "drop_slots k n (i # is) s = drop_slots k n is ?s"
        using n Some Token by (simp add: data_of_def)
      moreover have "dying R ?s" by (rule dying_cleared [OF s n(1) i refl]) (use Some Token live in simp_all)
      moreover have "kept n s ?s" by (rule kept_cleared [OF n(1)]) simp_all
      ultimately show ?thesis using n(1) by (intro exI [of _ ?s]) simp
    next
      case (Node c)
      have c: "child_at (sh_heap s) n i (Node c)" using at Some Node by simp
      have made: "n < c" "c < length (sh_heap s)" "c \<notin> set (sh_freed s)"
        using tree_wf_child(3,4) [OF wf c] by simp_all
      obtain offset where kind: "nd_kind (sh_heap s ! c) = KChild n (as_u32 i) offset" using tree_wf_child(3) [OF wf c] by auto
      have "length (sh_heap s) \<le> k + c" using n(3) made(1) by simp
      from IH [OF s made(2,3) this] obtain s1 where s1: "drop_recursive k c s = Inr s1" "dying R s1" "kept c s s1"
        "\<forall>j x. \<not> child_at (sh_heap s1) c j x" by blast
      have live1: "sh_count_live s1" and wf1: "tree_wf (sh_heap s1) (set (sh_freed s1))" using s1(2) unfolding dying_def by blast+
      have n1: "n \<notin> set (sh_freed s1)" "c \<notin> set (sh_freed s1)" "length (sh_heap s1) = length (sh_heap s)" "nd_kind (sh_heap s1 ! c) = KChild n (as_u32 i) offset"
        using kept_live [OF s1(3)] n(2) made s1(3) kind by (auto simp: kept_def)
      have same: "sh_heap s1 ! n = sh_heap s ! n" using s1(3) n(1) n1(1) made(1) by (simp add: kept_def)
      have c1: "child_at (sh_heap s1) n i (Node c)" using c n1(3) same by (simp add: child_at_def)
      have empty: "\<forall>x \<in> set (nd_children (sh_heap s1 ! c)). x = None"
        using s1(4) n1(3) made(2) no_children [of c "sh_heap s1"] by simp
      let ?s2 = "s1\<lparr>sh_count := sh_count s1 - 1\<rparr>"
      let ?s3 = "?s2\<lparr>sh_heap := cleared (sh_heap s1) n i\<rparr>"
      let ?s4 = "?s3\<lparr>sh_count := sh_count s1 - 1 - 1, sh_freed := c # sh_freed s1\<rparr>"
      have "drop_node k c s1 = Inr ?s2"
        using dying_count(1) [OF s1(2) c1] n1 made live1 by (simp add: drop_node_counted)
      moreover have "clear_slot n i ?s2 = Inr ?s3" using n(1) n1 by (simp add: clear_slot_eq)
      moreover have "free_data k c ?s3 = Inr ?s4"
      proof -
        have "sh_heap ?s3 ! c = sh_heap s1 ! c" using made(1) by (simp add: update_node_def)
        then show ?thesis
          using free_data_empty [of c ?s3 n "as_u32 i" offset k] dying_count(2) [OF s1(2) c1] n(1) n1 made live1 empty
          by (simp add: update_node_def del: free_data.simps)
      qed
      ultimately have "drop_slots k n (i # is) s = drop_slots k n is ?s4"
        using n Some Node s1(1) by (simp add: data_of_def del: free_data.simps)
      moreover have "dying R ?s4"
        by (rule dying_cleared [OF s1(2), where n = n and i = i, OF _ _ refl]) (use n(1) n1 i same Some Node live1 s1(4) in simp_all)
      moreover have "kept n s ?s4" by (rule kept_released [OF s1(3) made(1) n(1)]) simp_all
      ultimately show ?thesis using n(1) n1 same by (intro exI [of _ ?s4]) (simp add: update_node_def)
    qed
  qed
qed

lemma release_slots:
  assumes IH: "\<And>(s :: ('i, 'x) shared) c. dying R s \<Longrightarrow> c < length (sh_heap s) \<Longrightarrow> c \<notin> set (sh_freed s) \<Longrightarrow> length (sh_heap s) \<le> k + c \<Longrightarrow>
      \<exists>s'. drop_recursive k c s = Inr s' \<and> dying R s' \<and> kept c s s' \<and> (\<forall>j x. \<not> child_at (sh_heap s') c j x)"
  shows "dying R (s :: ('i, 'x) shared) \<Longrightarrow> n < length (sh_heap s) \<Longrightarrow> n \<notin> set (sh_freed s) \<Longrightarrow> length (sh_heap s) \<le> Suc k + n \<Longrightarrow>
    \<forall>i \<in> set is. i < length (nd_children (sh_heap s ! n)) \<Longrightarrow>
    \<exists>s'. drop_slots k n is s = Inr s' \<and> dying R s' \<and> kept n s s' \<and>
      (\<forall>j x. child_at (sh_heap s') n j x \<longleftrightarrow> child_at (sh_heap s) n j x \<and> j \<notin> set is)"
proof (induction "is" arbitrary: s)
  case Nil
  then show ?case by (auto intro: kept_refl)
next
  case (Cons i "is")
  have i: "i < length (nd_children (sh_heap s ! n))" using Cons.prems(5) by simp
  obtain s1 where s1: "drop_slots k n (i # is) s = drop_slots k n is s1" "dying R s1" "kept n s s1"
    "sh_heap s1 ! n = cleared (sh_heap s) n i ! n"
    using release_slot [OF IH Cons.prems(1-4) i] by blast
  have n1: "length (sh_heap s1) = length (sh_heap s)" "n \<notin> set (sh_freed s1)"
    using s1(3) kept_live [OF s1(3) order_refl Cons.prems(3)] by (auto simp: kept_def)
  have at: "child_at (sh_heap s1) n j x \<longleftrightarrow> child_at (sh_heap s) n j x \<and> j \<noteq> i" for j x
    using Cons.prems(2) n1 s1(4) by (cases "j = i") (auto simp: child_at_def update_node_def nth_list_update)
  have "\<exists>s'. drop_slots k n is s1 = Inr s' \<and> dying R s' \<and> kept n s1 s' \<and>
      (\<forall>j x. child_at (sh_heap s') n j x \<longleftrightarrow> child_at (sh_heap s1) n j x \<and> j \<notin> set is)"
    by (rule Cons.IH [OF s1(2)]) (use Cons.prems n1 s1(4) in \<open>auto simp: update_node_def\<close>)
  then show ?case using s1(1) kept_trans [OF s1(3)] unfolding at by auto
qed

lemma release_below:
  "dying R (s :: ('i, 'x) shared) \<Longrightarrow> n < length (sh_heap s) \<Longrightarrow> n \<notin> set (sh_freed s) \<Longrightarrow> length (sh_heap s) \<le> k + n \<Longrightarrow>
    \<exists>s'. drop_recursive k n s = Inr s' \<and> dying R s' \<and> kept n s s' \<and> (\<forall>j x. \<not> child_at (sh_heap s') n j x)"
proof (induction k arbitrary: s n)
  case 0
  then show ?case by simp
next
  case (Suc k)
  have "\<exists>s'. drop_slots k n [0..<length (nd_children (sh_heap s ! n))] s = Inr s' \<and> dying R s' \<and> kept n s s' \<and>
      (\<forall>j x. child_at (sh_heap s') n j x \<longleftrightarrow> child_at (sh_heap s) n j x \<and> j \<notin> set [0..<length (nd_children (sh_heap s ! n))])"
    by (rule release_slots [OF Suc.IH Suc.prems]) auto
  then obtain s' where s': "drop_slots k n [0..<length (nd_children (sh_heap s ! n))] s = Inr s'" "dying R s'" "kept n s s'"
    "\<And>j x. child_at (sh_heap s') n j x \<Longrightarrow> child_at (sh_heap s) n j x \<and> j \<notin> set [0..<length (nd_children (sh_heap s ! n))]" by blast
  have "\<not> child_at (sh_heap s') n j x" for j x using s'(4) [of j x] by (auto simp: child_at_def)
  moreover have "data_of s n = Inr (sh_heap s ! n)" using Suc.prems by (simp add: data_of_def)
  ultimately show ?case using s'(1-3) by simp
qed

section \<open>The release of the whole tree\<close>

lemma root_of_live:
  assumes wf: "tree_wf (sh_heap s) X" and X: "set (sh_freed s) \<subseteq> X"
  shows "n < length (sh_heap s) \<Longrightarrow> n \<notin> X \<Longrightarrow> n < k \<Longrightarrow> shared_root k s n = Inr 0"
proof (induction k arbitrary: n)
  case (Suc k)
  show ?case
  proof (cases "n = 0")
    case True
    with Suc.prems wf X show ?thesis by (auto simp: data_of_def tree_wf_def)
  next
    case False
    with tree_wf_parent [OF wf Suc.prems(1,2)] obtain p i offset where p: "nd_kind (sh_heap s ! n) = KChild p i offset" "p < n" "p \<notin> X"
      by blast
    have "shared_root k s p = Inr 0" by (rule Suc.IH) (use Suc.prems p in simp_all)
    with p Suc.prems X show ?thesis by (auto simp: data_of_def)
  qed
qed simp

text \<open>When no node but the root is linked from a slot, every other node was freed.\<close>

lemma only_root_left:
  assumes wf: "tree_wf h X" and root: "\<And>j x. \<not> child_at h 0 j x"
  shows "n < length h \<Longrightarrow> n \<notin> X \<Longrightarrow> n = 0"
proof (induction n rule: less_induct)
  case (less n)
  show ?case
  proof (rule ccontr)
    assume n: "n \<noteq> 0"
    obtain p i offset where "nd_kind (h ! n) = KChild p i offset" and p: "p < n" "p \<notin> X" "child_at h p (unat i) (Node n)"
      by (rule tree_wf_parent [OF wf less.prems n])
    have "p < length h" using p(3) by (simp add: child_at_def)
    from less.IH [OF p(1) this p(2)] p(3) root show False by simp
  qed
qed

lemma release_tree:
  assumes s: "dying R (s :: ('i, 'x) shared)" and n: "n < length (sh_heap s)" "n \<notin> set (sh_freed s)"
    and k: "length (sh_heap s) \<le> k"
  shows "\<exists>s'. bindO (shared_root (Suc (length (sh_heap s))) s n) (\<lambda>root.
            bindO (drop_recursive k root s) (\<lambda>s.
            bindO (drop_node k root s) (\<lambda>s.
            bindO (free_data k root s) (\<lambda>s. free_count s)))) = Inr s' \<and>
      \<not> sh_count_live s' \<and> distinct (sh_freed s') \<and> set (sh_freed s') = {..<length (sh_heap s')} \<and>
      length (sh_heap s') = length (sh_heap s) \<and>
      sh_handles s' = sh_handles s \<and> sh_forgotten s' = sh_forgotten s \<and> sh_threads s' = sh_threads s"
proof -
  have wf: "tree_wf (sh_heap s) (set (sh_freed s))" using s unfolding dying_def by blast
  have 0: "0 < length (sh_heap s)" "0 \<notin> set (sh_freed s)" using wf by (simp_all add: tree_wf_def)
  have root: "shared_root (Suc (length (sh_heap s))) s n = Inr 0" by (rule root_of_live [OF wf order_refl n]) (use n in simp)
  have "length (sh_heap s) \<le> k + 0" using k by simp
  from release_below [OF s 0 this] obtain s1 where s1: "drop_recursive k 0 s = Inr s1" "dying R s1" "kept 0 s s1"
    "\<And>j x. \<not> child_at (sh_heap s1) 0 j x" by blast
  have d1: "tree_wf (sh_heap s1) (set (sh_freed s1))" "sh_count_live s1" "distinct (sh_freed s1)"
    "\<forall>x \<in> set (sh_freed s1). x < length (sh_heap s1)" "R < u32_max" "sh_count s1 + of_nat (R - inner_refs (sh_heap s1)) = 0"
    using s1(2) unfolding dying_def by blast+
  have 1: "0 < length (sh_heap s1)" "0 \<notin> set (sh_freed s1)" "as_child (nd_kind (sh_heap s1 ! 0)) = None"
    using d1(1) by (simp_all add: tree_wf_def)
  let ?s2 = "s1\<lparr>sh_count := sh_count s1 - 1, sh_freed := 0 # sh_freed s1, sh_count_live := False\<rparr>"
  have "sh_count s1 \<noteq> 1" by (rule count_below [OF d1(6)]) (use d1(5) in simp)
  then have "drop_node k 0 s1 = Inr (s1\<lparr>sh_count := sh_count s1 - 1\<rparr>)" using 1 d1(2) by (simp add: drop_node_counted)
  moreover have "\<forall>x \<in> set (nd_children (sh_heap s1 ! 0)). x = None"
    using s1(4) no_children [OF 1(1)] by blast
  ultimately have tail: "bindO (drop_node k 0 s1) (\<lambda>s. bindO (free_data k 0 s) (\<lambda>s. free_count s)) = Inr ?s2"
    using 1 d1(2) by (simp add: data_of_def drop_elements_None free_count_def)
  have "set (sh_freed ?s2) = {..<length (sh_heap ?s2)}"
    using only_root_left [OF d1(1) s1(4)] d1(4) 1(1) by auto
  moreover have "distinct (sh_freed ?s2)" using d1(3) 1(2) by simp
  moreover have "length (sh_heap ?s2) = length (sh_heap s)" "sh_handles ?s2 = sh_handles s" "sh_forgotten ?s2 = sh_forgotten s"
    "sh_threads ?s2 = sh_threads s" using s1(3) by (simp_all add: kept_def)
  ultimately show ?thesis unfolding root s1(1) bindO_simps tail by (intro exI [of _ ?s2]) simp
qed

end
