(* ===== verification/Red_Shared_Steps.thy ===== *)
theory Red_Shared_Steps
  imports Red_Shared_Drop
begin

text \<open>Every step on a shared tree keeps the invariant, or releases the whole tree.\<close>

section \<open>Steps of an access\<close>

text \<open>
  The bound of the theorems: the count does not wrap, and neither does it while the tree is released.
\<close>

definition small :: "('i, 'x) shared \<Rightarrow> bool" where
  "small s \<longleftrightarrow> n_refs s \<le> u32_max \<and> inner_refs (sh_heap s) < u32_max"

text \<open>
  The steps that the theorems allow: from a small state, and not a call for a child before a position past the
  last child.
\<close>

definition allowed :: "('i, 'x) shared \<Rightarrow> shared_label \<Rightarrow> bool" where
  "allowed s l \<longleftrightarrow> small s \<and> (\<forall>n m. l \<noteq> Began_past_end n m)"

text \<open>A step that is done, keeps the invariant and, if it ends the call, returns the child; the debug assertion may fail instead.\<close>

definition step_ok :: "('s, 'd, 'k, 'e) env \<Rightarrow> ('i, 'x) shared \<Rightarrow> (nat \<times> access) list \<Rightarrow> nat \<Rightarrow> access \<Rightarrow> (nat \<times> access) list \<Rightarrow>
    ((access + syntax_element) \<times> ('i, 'x) shared) outcome \<Rightarrow> bool" where
  "step_ok E s us b a vs res \<longleftrightarrow> en_debug E \<and> res = Inl Assertion_failed \<or> (\<exists>r s1. res = Inr (r, s1) \<and> heap_le (sh_heap s) (sh_heap s1) \<and>
     shared_wf (s1\<lparr>sh_threads := us @ map (Pair b) (case r of Inl a' \<Rightarrow> [a'] | Inr _ \<Rightarrow> []) @ vs\<rparr>) \<and>
     (\<forall>e n i. r = Inr e \<longrightarrow> access_slot a = (n, i) \<longrightarrow> child_at (sh_heap s1) n i e))"

lemma shared_wf_access:
  assumes "shared_wf s" "sh_threads s = us @ (b, a) # vs" "access_slot a = (n, i)"
  shows "n < length (sh_heap s)" "n \<notin> dead s" "i < length (nd_children (sh_heap s ! n))" "task_ok (sh_heap s) a"
    "data_of s n = Inr (sh_heap s ! n)" "shared_slot s n i = Inr (nd_children (sh_heap s ! n) ! i)" "b \<in> set (sh_handles s)"
    "has_shape (sh_heap s ! n)"
proof -
  have a: "access_ok (sh_heap s) (dead s) a" using assms(1,2) by (auto simp: shared_wf_def)
  then show 1: "n < length (sh_heap s)" "n \<notin> dead s" "i < length (nd_children (sh_heap s ! n))" "task_ok (sh_heap s) a"
    using assms(3) by (simp_all add: access_ok_def)
  then show "data_of s n = Inr (sh_heap s ! n)" by (simp add: data_of_def dead_def)
  with 1 show "shared_slot s n i = Inr (nd_children (sh_heap s ! n) ! i)" by (simp add: shared_slot_def)
  show "b \<in> set (sh_handles s)" using assms(1,2) by (auto simp: shared_wf_def borrows_ok_def)
  show "has_shape (sh_heap s ! n)" using assms(1) 1(1) by (simp add: shared_wf_def tree_wf_def)
qed

text \<open>The range of an element in a slot can be read, so the debug assertion can only fail on its start.\<close>

lemma child_slot_range:
  assumes wf: "tree_wf h X" and e: "child_at h n i e"
  shows "\<exists>r. element_text_range E h e = Inr r"
proof (cases e)
  case (Node c)
  with tree_wf_child(3) [OF wf e] show ?thesis by (simp add: node_text_range_def node_data_of_def Let_def)
next
  case (Token t)
  from tree_wf_child [OF wf e] Token have t: "n < length h" "st_parent t = n" "st_index t = as_u32 i"
    "as_token (node_children (h ! n) ! i) \<noteq> None" by simp_all
  have "has_shape (h ! n)" using wf t(1) by (simp add: tree_wf_def)
  moreover have "i < length (nd_children (h ! n))" using e by (simp add: child_at_def)
  ultimately have "i < length (node_children (h ! n))" "unat (as_u32 i) = i"
    using has_shape_index [of "h ! n" i] by (simp_all add: has_shape_def)
  with t Token show ?thesis
    by (auto simp: token_text_range_def token_green_def node_green_def node_data_of_def iter_nth_eq vec_get_def gn_children_iter_def
        node_children_def unwrap_def)
qed

lemma shared_check_child:
  assumes wf: "shared_wf s" and e: "child_at (sh_heap s) n i e"
  shows "shared_check E s e offset = Inr () \<or> en_debug E \<and> shared_check E s e offset = Inl Assertion_failed"
proof -
  have tree: "tree_wf (sh_heap s) (dead s)" using wf by (simp add: shared_wf_def)
  note child = tree_wf_child [OF tree e]
  obtain x where x: "x = (case e of Node c \<Rightarrow> c | Token t \<Rightarrow> st_parent t)" by simp
  have "x < length (sh_heap s) \<and> x \<notin> dead s" using child x by (cases e) auto
  then have "data_of s x = Inr (sh_heap s ! x)" by (simp add: data_of_def dead_def)
  with child_slot_range [OF tree e, of E] show ?thesis by (auto simp: shared_check_def check_offset_def split: if_splits simp flip: x)
qed

text \<open>Steps that leave the heap and the freed nodes alone.\<close>

lemma shared_wf_same:
  assumes wf: "shared_wf s" and ts: "sh_threads s = us @ (b, a) # vs"
    and as: "concat (map privates as) = privates a" "\<And>a'. a' \<in> set as \<Longrightarrow> access_slot a' = access_slot a \<and> task_ok (sh_heap s) a'"
    and s': "s' = s\<lparr>sh_count := c, sh_threads := us @ map (Pair b) as @ vs\<rparr>"
    and c: "c + of_nat (pending a) = sh_count s + of_nat (sum_list (map pending as))"
  shows "shared_wf s'"
proof (rule shared_wf_work [OF wf ts _ heap_le_refl])
  show "s' = s\<lparr>sh_heap := sh_heap s, sh_freed := sh_freed s, sh_count := c, sh_threads := us @ map (Pair b) as @ vs\<rparr>" using s' by simp
  have dis: "distinct (sh_freed s @ private_nodes (sh_threads s))" and bound: "\<forall>x \<in> dead s. x < length (sh_heap s)"
    and tree: "tree_wf (sh_heap s) (dead s)" and ok: "access_ok (sh_heap s) (dead s) a"
    using wf ts by (auto simp: shared_wf_def)
  show "distinct (sh_freed s @ concat (map privates as))" using dis ts as(1) by auto
  show "x < length (sh_heap s) \<and> (x \<in> set (sh_freed s) \<union> set (privates a) \<or> length (sh_heap s) \<le> x)"
    if "x \<in> set (sh_freed s @ concat (map privates as))" for x
    using that as(1) bound ts by (auto simp: dead_def)
  have "private_nodes (map (Pair b) as) = concat (map privates as)" by (induction as) simp_all
  then have "dead s' = dead s" using s' ts as(1) by (simp add: dead_def)
  then show "tree_wf (sh_heap s) (dead s')" "\<And>a'. a' \<in> set as \<Longrightarrow> access_ok (sh_heap s) (dead s') a'"
    using tree ok as(2) by (auto simp: access_ok_def)
  show "c + of_nat (pending a) = sh_count s + of_nat (sum_list (map pending as))" by (rule c)
qed

lemma step_ok_last_read:
  assumes wf: "shared_wf s" and ts: "sh_threads s = us @ (b, Last_read n i) # vs"
  shows "step_ok E s us b (Last_read n i) vs (access_step E k (Last_read n i) s)"
proof -
  note a = shared_wf_access [OF wf ts, of n i, simplified]
  obtain e where e: "nd_children (sh_heap s ! n) ! i = Some e" using a(4) by (auto simp: filled_def)
  have "shared_wf (s\<lparr>sh_threads := us @ vs\<rparr>)"
    by (rule shared_wf_same [OF wf ts, where as = "[]" and c = "sh_count s"]) simp_all
  then show ?thesis using a e by (simp add: step_ok_def child_at_def)
qed

lemma arity_ok_child: "arity_ok m \<Longrightarrow> Node g \<in> set (gn_children m) \<Longrightarrow> arity_ok g"
  by (cases m) (auto simp: arity_ok_def)

lemma step_ok_first_read:
  assumes wf: "shared_wf s" and ts: "sh_threads s = us @ (b, First_read n i el off) # vs"
  shows "step_ok E s us b (First_read n i el off) vs (access_step E k (First_read n i el off) s)"
proof -
  note a = shared_wf_access [OF wf ts, of n i, simplified]
  show ?thesis
  proof (cases "nd_children (sh_heap s ! n) ! i")
    case (Some e)
    have "shared_wf (s\<lparr>sh_threads := us @ vs\<rparr>)"
      by (rule shared_wf_same [OF wf ts, where as = "[]" and c = "sh_count s"]) simp_all
    moreover have "child_at (sh_heap s) n i e" using a(1,3) Some by (simp add: child_at_def)
    ultimately show ?thesis using a(6) Some shared_check_child [OF wf, of n i e E off] by (auto simp: step_ok_def)
  next
    case None
    show ?thesis
    proof (cases el)
      case (Token t)
      let ?a = "Try_write n i (Token (syntax_token_new n (as_u32 i) off))"
      have "shared_wf (s\<lparr>sh_threads := us @ (b, ?a) # vs\<rparr>)"
        by (rule shared_wf_same [OF wf ts, where as = "[?a]" and c = "sh_count s"])
          (use a(1,4) Token in \<open>simp_all add: syntax_token_new_def flip: a(4)\<close>)
      then show ?thesis using a(6) None Token by (simp add: step_ok_def)
    next
      case (Node g)
      let ?d = "node_data_new (KChild n (as_u32 i) off) g (iter_count (gn_children_iter g)) :: ('a, 'b) node_data"
      let ?h = "sh_heap s @ [?d]" and ?c = "length (sh_heap s)"
      let ?a = "Try_write n i (Node ?c)"
      let ?s = "s\<lparr>sh_heap := ?h, sh_threads := us @ (b, ?a) # vs\<rparr>"
      have "Node g \<in> set (gn_children (nd_green (sh_heap s ! n)))"
        using a(3,4,8) Node by (simp add: has_shape_def node_children_def)
      then have shape: "has_shape ?d"
        using a(8) arity_ok_child by (auto simp: has_shape_def node_data_new_def iter_count_def gn_children_iter_def node_children_def)
      have dead: "dead ?s = insert ?c (dead s)" using ts by (auto simp: dead_def)
      have tree: "tree_wf (sh_heap s) (dead s)" and bound: "\<forall>x \<in> dead s. x < length (sh_heap s)" and dis: "distinct (sh_freed s)"
        using wf by (auto simp: shared_wf_def)
      have freed: "\<forall>x \<in> set (sh_freed s). x < length (sh_heap s)" using bound by (simp add: dead_def)
      have "shared_wf ?s"
      proof (rule shared_wf_work [OF wf ts, where h = ?h and f = "sh_freed s" and c = "sh_count s" and as = "[?a]"])
        show "tree_wf ?h (dead ?s)"
          unfolding dead by (rule tree_wf_append [OF tree shape _ bound]) (simp add: node_data_new_def)
        show "access_ok ?h (dead ?s) a'" if "a' \<in> set [?a]" for a'
          using that a(1-3) dead by (auto simp: access_ok_def nth_append node_data_new_def)
      qed (use dis freed in \<open>auto simp: heap_le_append intro: less_SucI\<close>)
      then show ?thesis using a(6) None Node by (simp add: step_ok_def new_child_def heap_le_append Let_def)
    qed
  qed
qed

lemma step_ok_try_write:
  assumes wf: "shared_wf s" and ts: "sh_threads s = us @ (b, Try_write n i e) # vs"
  shows "step_ok E s us b (Try_write n i e) vs (access_step E k (Try_write n i e) s)"
proof -
  note a = shared_wf_access [OF wf ts, of n i, simplified]
  show ?thesis
  proof (cases "nd_children (sh_heap s ! n) ! i")
    case (Some x)
    have "shared_wf (s\<lparr>sh_threads := us @ (b, Lost n i e) # vs\<rparr>)"
      by (rule shared_wf_same [OF wf ts, where as = "[Lost n i e]" and c = "sh_count s"])
        (use a(4) Some in \<open>cases e; simp add: filled_def\<close>)+
    then show ?thesis using a(6) Some by (simp add: step_ok_def)
  next
    case None
    let ?h = "update_node (sh_heap s) n ((sh_heap s ! n)\<lparr>nd_children := (nd_children (sh_heap s ! n))[i := Some e]\<rparr>)"
    let ?s = "s\<lparr>sh_heap := ?h, sh_threads := us @ (b, Last_read n i) # vs\<rparr>"
    have le: "heap_le (sh_heap s) ?h" by (rule heap_le_fill [OF a(1) None])
    have tree: "tree_wf (sh_heap s) (dead s)" and bound: "\<forall>x \<in> dead s. x < length (sh_heap s)"
      and dis: "distinct (sh_freed s @ private_nodes (sh_threads s))"
      using wf by (auto simp: shared_wf_def)
    have dead: "dead ?s = dead s - {c. e = Node c}" using ts dis by (cases e) (auto simp: dead_def)
    have "shared_wf ?s"
    proof (rule shared_wf_work [OF wf ts, where h = ?h and f = "sh_freed s" and c = "sh_count s" and as = "[Last_read n i]"])
      show "tree_wf ?h (dead ?s)" by (rule tree_wf_fill [OF tree a(1-3) None a(4) dead])
      show "access_ok ?h (dead ?s) a'" if "a' \<in> set [Last_read n i]" for a'
        using that a(1-3) dead by (simp add: access_ok_def filled_def update_node_def)
    qed (use dis bound le in \<open>fastforce simp: dead_def update_node_def\<close>)+
    then show ?thesis using a(5,6) None le by (simp add: step_ok_def)
  qed
qed

text \<open>After a lost race: the count is above one, so no drop releases the tree.\<close>

lemma count_above:
  assumes wf: "shared_wf s" and small: "small s" and ts: "sh_threads s = us @ (b, a) # vs" and p: "0 < pending a"
  shows "sh_count s \<noteq> 1"
proof -
  have "b \<in> set (sh_handles s)" using wf ts by (auto simp: shared_wf_def borrows_ok_def)
  then have "1 \<le> length (sh_handles s)" by (cases "sh_handles s") auto
  moreover have "1 \<le> sum_list (map (\<lambda>(b, a). pending a) (sh_threads s))" using ts p by simp
  ultimately have "2 \<le> n_refs s" by (simp add: n_refs_def)
  moreover have "n_refs s \<le> u32_max" "sh_count s = of_nat (n_refs s)" using small wf by (simp_all add: small_def shared_wf_def)
  ultimately show ?thesis using as_u32_inj [of "n_refs s" 1] by (simp add: u32_max_def)
qed

lemma private_live:
  assumes wf: "shared_wf s" and ts: "sh_threads s = us @ (b, a) # vs" and c: "c \<in> set (privates a)"
  shows "c < length (sh_heap s)" "c \<notin> set (sh_freed s)" "\<forall>e \<in> set (nd_children (sh_heap s ! c)). e = None" "sh_count_live s"
proof -
  have "c \<in> dead s" using ts c by (auto simp: dead_def)
  moreover have tree: "tree_wf (sh_heap s) (dead s)" using wf by (simp add: shared_wf_def)
  ultimately show "c < length (sh_heap s)" using wf by (simp add: shared_wf_def)
  then show "\<forall>e \<in> set (nd_children (sh_heap s ! c)). e = None"
    using tree_wf_child(1) [OF tree] \<open>c \<in> dead s\<close> no_children by blast
  show "c \<notin> set (sh_freed s)" using wf ts c by (auto simp: shared_wf_def)
  show "sh_count_live s" using wf by (simp add: shared_wf_def)
qed

lemma step_ok_lost:
  assumes wf: "shared_wf s" and ts: "sh_threads s = us @ (b, Lost n i e) # vs"
  shows "step_ok E s us b (Lost n i e) vs (access_step E k (Lost n i e) s)"
proof -
  note a = shared_wf_access [OF wf ts, of n i, simplified]
  have live: "sh_count_live s" using wf by (simp add: shared_wf_def)
  let ?v = "case e of Node _ \<Rightarrow> 2 | Token _ \<Rightarrow> 1"
  let ?s = "s\<lparr>sh_count := sh_count s + ?v\<rparr>"
  have "shared_wf (?s\<lparr>sh_threads := us @ (b, Lost_drop n i e) # vs\<rparr>)"
    by (rule shared_wf_same [OF wf ts, where as = "[Lost_drop n i e]" and c = "sh_count s + ?v"])
      (use a(4) in \<open>cases e; simp\<close>)+
  moreover have "access_step E k (Lost n i e) s = Inr (Inl (Lost_drop n i e), ?s)"
    using a(4,5) live private_live [OF wf ts] by (cases e) (simp_all add: fetch_add_def ref_count_def data_of_def)
  ultimately show ?thesis by (simp add: step_ok_def)
qed

lemma step_ok_lost_drop:
  assumes wf: "shared_wf s" and ts: "sh_threads s = us @ (b, Lost_drop n i e) # vs" and small: "small s"
  shows "step_ok E s us b (Lost_drop n i e) vs (access_step E k (Lost_drop n i e) s)"
proof -
  note a = shared_wf_access [OF wf ts, of n i, simplified]
  have live: "sh_count_live s" and n: "n \<notin> set (sh_freed s)" using wf a(2) by (simp_all add: shared_wf_def dead_def)
  have c: "sh_count s \<noteq> 1" by (rule count_above [OF wf small ts]) (cases e; simp)
  let ?a = "case e of Node c \<Rightarrow> Lost_free n i c | Token _ \<Rightarrow> Last_read n i"
  let ?s = "s\<lparr>sh_count := sh_count s - 1\<rparr>"
  have "shared_wf (?s\<lparr>sh_threads := us @ (b, ?a) # vs\<rparr>)"
    by (rule shared_wf_same [OF wf ts, where as = "[?a]" and c = "sh_count s - 1"])
      (use a(4) in \<open>cases e; simp\<close>)+
  moreover have "access_step E k (Lost_drop n i e) s = Inr (Inl ?a, ?s)"
    using a(1,4) n live c private_live(1,2) [OF wf ts] by (cases e) (simp_all add: drop_node_counted)
  ultimately show ?thesis by (simp add: step_ok_def)
qed

lemma step_ok_lost_free:
  assumes wf: "shared_wf s" and ts: "sh_threads s = us @ (b, Lost_free n i c) # vs" and small: "small s"
  shows "step_ok E s us b (Lost_free n i c) vs (access_step E k (Lost_free n i c) s)"
proof -
  note a = shared_wf_access [OF wf ts, of n i, simplified]
  note c = private_live [OF wf ts, of c, simplified]
  have n: "n \<notin> set (sh_freed s)" using a(2) by (simp add: dead_def)
  have count: "sh_count s \<noteq> 1" by (rule count_above [OF wf small ts]) simp
  obtain offset where kind: "nd_kind (sh_heap s ! c) = KChild n (as_u32 i) offset" using a(4) by auto
  let ?s = "s\<lparr>sh_count := sh_count s - 1, sh_freed := c # sh_freed s\<rparr>"
  let ?s' = "?s\<lparr>sh_threads := us @ (b, Last_read n i) # vs\<rparr>"
  have tree: "tree_wf (sh_heap s) (dead s)" and bound: "\<forall>x \<in> dead s. x < length (sh_heap s)"
    and dis: "distinct (sh_freed s @ private_nodes (sh_threads s))"
    using wf by (auto simp: shared_wf_def)
  have freed: "\<forall>x \<in> set (sh_freed s). x < length (sh_heap s)" using bound by (simp add: dead_def)
  have dead: "dead ?s' = dead s" using ts by (auto simp: dead_def)
  have "shared_wf ?s'"
  proof (rule shared_wf_work [OF wf ts, where h = "sh_heap s" and f = "c # sh_freed s" and c = "sh_count s - 1" and as = "[Last_read n i]"])
    show "tree_wf (sh_heap s) (dead ?s')" unfolding dead by (rule tree)
    show "access_ok (sh_heap s) (dead ?s') a'" if "a' \<in> set [Last_read n i]" for a'
      using that a(1-4) dead by (simp add: access_ok_def)
  qed (use dis freed c(1,2) in auto)
  moreover have "access_step E k (Lost_free n i c) s = Inr (Inl (Last_read n i), ?s)"
    using free_data_empty [OF c(1-3) kind a(1) n c(4) count] by (simp del: free_data.simps)
  ultimately show ?thesis by (simp add: step_ok_def)
qed

lemma step_ok_access:
  assumes "shared_wf s" "sh_threads s = us @ (b, a) # vs" "small s"
  shows "step_ok E s us b a vs (access_step E k a s)"
proof (cases a)
  case (First_read n i el off)
  with assms show ?thesis using step_ok_first_read [of s us b n i el off vs E k] by (simp only:)
next
  case (Try_write n i e)
  with assms show ?thesis using step_ok_try_write [of s us b n i e vs E k] by (simp only:)
next
  case (Lost n i e)
  with assms show ?thesis using step_ok_lost [of s us b n i e vs E k] by (simp only:)
next
  case (Lost_drop n i e)
  with assms show ?thesis using step_ok_lost_drop [of s us b n i e vs E k] by (simp only:)
next
  case (Lost_free n i c)
  with assms show ?thesis using step_ok_lost_free [of s us b n i c vs E k] by (simp only:)
next
  case (Last_read n i)
  with assms show ?thesis using step_ok_last_read [of s us b n i vs E k] by (simp only:)
qed

end
