(* ===== verification/Red_Shared_Theorems.thy ===== *)
theory Red_Shared_Theorems
  imports Red_Shared_Steps Red_Theorems
begin

text \<open>
  The properties of a shared red tree: no step of any interleaving follows a dangling pointer, the last
  handle frees every node once, all threads see the same children, and what \<open>mem::forget\<close> can do to the
  count.
\<close>

section \<open>Steps keep the invariant\<close>

definition all_gone :: "('i, 'x) shared \<Rightarrow> bool" where
  "all_gone s \<longleftrightarrow> sh_handles s = [] \<and> sh_forgotten s = 0 \<and> sh_threads s = [] \<and>
     distinct (sh_freed s) \<and> set (sh_freed s) = {..<length (sh_heap s)}"

definition shared_inv :: "('i, 'x) shared \<Rightarrow> bool" where
  "shared_inv s \<longleftrightarrow> (if sh_count_live s then shared_wf s else all_gone s)"

lemma shared_inv_new:
  assumes "arity_ok g"
  shows "shared_inv (shared_new g r)"
proof -
  let ?h = "snd (make_new_root g r) :: ('a, 'b) heap"
  have h: "?h = [node_data_new (KRoot g r) g (length (gn_children g))]" "fst (make_new_root g r :: nat \<times> ('a, 'b) heap) = 0"
    by (simp_all add: make_new_root_def iter_count_def gn_children_iter_def Let_def)
  have "\<not> child_at ?h n i e" for n i e by (auto simp: h child_at_def node_data_new_def)
  then have "tree_wf ?h {}"
    using assms by (auto simp: tree_wf_def h node_data_new_def has_shape_def node_children_def)
  then show ?thesis
    using h by (simp add: shared_inv_def shared_wf_def shared_new_def dead_def borrows_ok_def n_refs_def case_prod_beta)
qed

lemma in_tree_live:
  assumes wf: "shared_wf s" and n: "in_tree s n"
  shows "n < length (sh_heap s)" "n \<notin> dead s" "n \<notin> set (sh_freed s)"
proof -
  have tree: "tree_wf (sh_heap s) (dead s)" using wf by (simp add: shared_wf_def)
  have "n < length (sh_heap s) \<and> n \<notin> dead s"
  proof (cases "n = 0")
    case True
    with tree show ?thesis by (simp add: tree_wf_def)
  next
    case False
    with n obtain m j where "child_at (sh_heap s) m j (Node n)"
      by (auto simp: in_tree_def child_at_def in_set_conv_nth)
    from tree_wf_child(3,4) [OF tree this] show ?thesis by simp
  qed
  then show "n < length (sh_heap s)" "n \<notin> dead s" "n \<notin> set (sh_freed s)" by (simp_all add: dead_def)
qed

lemma shared_wf_handles:
  assumes wf: "shared_wf s"
    and s': "sh_heap s' = sh_heap s" "sh_freed s' = sh_freed s" "sh_threads s' = sh_threads s" "sh_count_live s'"
    and hs: "borrows_ok s'" "\<forall>b \<in> set (sh_handles s'). b < length (sh_heap s) \<and> b \<notin> dead s" and c: "sh_count s' = of_nat (n_refs s')"
  shows "shared_wf s'"
proof -
  have dead: "dead s' = dead s" by (simp add: s' dead_def)
  show ?thesis using wf s'(4) hs c unfolding shared_wf_def dead s'(1-3) by blast
qed

definition step_kept :: "('s, 'd, 'k, 'e) env \<Rightarrow> ('i, 'x) shared \<Rightarrow> shared_label \<Rightarrow> ('i, 'x) shared outcome \<Rightarrow> bool" where
  "step_kept E s l res \<longleftrightarrow> en_debug E \<and> res = Inl Assertion_failed \<or> (\<exists>s'. res = Inr s' \<and> shared_inv s' \<and> (sh_count_live s' \<longrightarrow> heap_le (sh_heap s) (sh_heap s')) \<and>
     (\<forall>n i e. l = Got n i e \<longrightarrow> sh_count_live s' \<and> child_at (sh_heap s') n i e))"

lemma clone_kept:
  assumes wf: "shared_wf s" and n: "in_tree s n"
  shows "step_kept E s (Cloned n) (bindO (clone_node n s) (\<lambda>(n, s). Inr (s\<lparr>sh_handles := n # sh_handles s\<rparr>)))"
proof -
  note live = in_tree_live [OF wf n]
  have count: "sh_count_live s" "sh_count s = of_nat (n_refs s)" using wf by (simp_all add: shared_wf_def)
  let ?s = "s\<lparr>sh_count := sh_count s + 1, sh_handles := n # sh_handles s\<rparr>"
  have "shared_wf ?s"
    by (rule shared_wf_handles [OF wf])
      (use wf live count in \<open>auto simp: shared_wf_def borrows_ok_def n_refs_def\<close>)
  moreover have "clone_node n s = Inr (n, s\<lparr>sh_count := sh_count s + 1\<rparr>)"
    using live(1,3) count(1) by (simp add: clone_node_def fetch_add_def ref_count_def data_of_def)
  ultimately show ?thesis using count(1) by (simp add: step_kept_def shared_inv_def)
qed

lemma forget_kept:
  assumes wf: "shared_wf s" and s: "sh_handles s = us @ n # vs" "s' = s\<lparr>sh_handles := us @ vs\<rparr>" "borrows_ok s'"
  shows "step_kept E s (Forgot n) (Inr (s'\<lparr>sh_forgotten := Suc (sh_forgotten s)\<rparr>))"
proof -
  have count: "sh_count_live s" "sh_count s = of_nat (n_refs s)" using wf by (simp_all add: shared_wf_def)
  have "shared_wf (s'\<lparr>sh_forgotten := Suc (sh_forgotten s)\<rparr>)"
    by (rule shared_wf_handles [OF wf])
      (use wf s count in \<open>auto simp: shared_wf_def borrows_ok_def n_refs_def\<close>)
  then show ?thesis using count(1) s(2) by (simp add: step_kept_def shared_inv_def)
qed

lemma begin_kept:
  assumes wf: "shared_wf s" and b: "b \<in> set (sh_handles s)" and n: "in_tree s n"
    and i: "i < length (gn_children (nd_green (sh_heap s ! n)))"
  shows "step_kept E s (Began n i)
    (Inr (s\<lparr>sh_threads := (b, First_read n i (gn_children (nd_green (sh_heap s ! n)) ! i) offset) # sh_threads s\<rparr>))"
    (is "step_kept E s _ (Inr ?s)")
proof -
  note live = in_tree_live [OF wf n]
  have shape: "has_shape (sh_heap s ! n)" using wf live(1) by (simp add: shared_wf_def tree_wf_def)
  have dead: "dead ?s = dead s" by (simp add: dead_def)
  have "access_ok (sh_heap s) (dead s) (First_read n i (gn_children (nd_green (sh_heap s ! n)) ! i) offset)"
    using live i shape by (simp add: access_ok_def has_shape_def node_children_def)
  then have "shared_wf ?s"
    using wf b unfolding shared_wf_def dead by (simp add: borrows_ok_def n_refs_def)
  then show ?thesis using wf by (simp add: step_kept_def shared_inv_def shared_wf_def)
qed

text \<open>The last drop, and any other.\<close>

lemma last_handle:
  assumes wf: "shared_wf s" and s: "sh_handles s = us @ n # vs" "s' = s\<lparr>sh_handles := us @ vs\<rparr>" "borrows_ok s'"
    and small: "small s" and c: "sh_count s = 1"
  shows "us @ vs = []" "sh_forgotten s = 0" "sh_threads s = []"
proof -
  have "sh_count s = of_nat (n_refs s)" "n_refs s \<le> u32_max" using wf small by (simp_all add: shared_wf_def small_def)
  then have "n_refs s = 1" using as_u32_inj [of "n_refs s" 1] c by (simp add: u32_max_def)
  then show 1: "us @ vs = []" "sh_forgotten s = 0" using s(1) by (auto simp: n_refs_def)
  then show "sh_threads s = []" using s(2,3) by (cases "sh_threads s") (auto simp: borrows_ok_def)
qed

lemma last_drop:
  assumes wf: "shared_wf s" and s: "sh_handles s = us @ n # vs" "s' = s\<lparr>sh_handles := us @ vs\<rparr>" "borrows_ok s'"
    and small: "small s" and c: "sh_count s = 1"
  shows "\<exists>s2. drop_node (drop_fuel s) n s' = Inr s2 \<and> \<not> sh_count_live s2 \<and> all_gone s2"
proof -
  note last = last_handle [OF assms]
  let ?s0 = "s'\<lparr>sh_count := 0\<rparr>"
  have n: "n < length (sh_heap s)" "n \<notin> set (sh_freed s)" and live: "sh_count_live s"
    and tree: "tree_wf (sh_heap s) (dead s)" "distinct (sh_freed s)" "\<forall>x \<in> dead s. x < length (sh_heap s)"
    using wf s(1) by (auto simp: shared_wf_def dead_def)
  have "dead s = set (sh_freed s)" using last(3) by (simp add: dead_def)
  then have "dying (inner_refs (sh_heap s)) ?s0"
    using tree live small s(2) by (simp add: dying_def small_def)
  from release_tree [OF this, of n "Suc (length (sh_heap s))"] n s(2) obtain s2 where
    s2: "bindO (shared_root (Suc (length (sh_heap ?s0))) ?s0 n) (\<lambda>root.
            bindO (drop_recursive (Suc (length (sh_heap s))) root ?s0) (\<lambda>s'.
            bindO (drop_node (Suc (length (sh_heap s))) root s') (\<lambda>s'.
            bindO (free_data (Suc (length (sh_heap s))) root s') (\<lambda>s'. free_count s')))) = Inr s2"
      "\<not> sh_count_live s2" "distinct (sh_freed s2)" "set (sh_freed s2) = {..<length (sh_heap s2)}"
      "sh_handles s2 = sh_handles ?s0" "sh_forgotten s2 = sh_forgotten ?s0" "sh_threads s2 = sh_threads ?s0"
    by auto
  have "ref_count s' n = Inr 1" using n live c s(2) by (simp add: ref_count_def data_of_def)
  then have "drop_node (drop_fuel s) n s' = Inr s2"
    unfolding drop_node.simps [of "drop_fuel s"] using s2(1) by (simp add: drop_fuel_def Let_def del: shared_root.simps drop_recursive.simps free_data.simps)
  then show ?thesis using s2 last s(2) by (simp add: all_gone_def)
qed

lemma drop_kept:
  assumes wf: "shared_wf s" and s: "sh_handles s = us @ n # vs" "s' = s\<lparr>sh_handles := us @ vs\<rparr>" "borrows_ok s'"
    and small: "small s"
  shows "step_kept E s (Dropped n) (drop_node (drop_fuel s) n s')"
proof (cases "sh_count s = 1")
  case True
  from last_drop [OF assms True] show ?thesis by (auto simp: step_kept_def shared_inv_def)
next
  case False
  have count: "sh_count_live s" "sh_count s = of_nat (n_refs s)" and n: "n < length (sh_heap s)" "n \<notin> set (sh_freed s)"
    using wf s(1) by (auto simp: shared_wf_def dead_def)
  let ?s = "s'\<lparr>sh_count := sh_count s - 1\<rparr>"
  have "shared_wf ?s"
    by (rule shared_wf_handles [OF wf])
      (use wf s count in \<open>auto simp: shared_wf_def borrows_ok_def n_refs_def\<close>)
  moreover have "drop_node (drop_fuel s) n s' = Inr ?s" using False n count(1) s(2) by (simp add: drop_node_counted)
  ultimately show ?thesis using count(1) s(2) by (simp add: step_kept_def shared_inv_def)
qed

lemma step_kept_any:
  assumes "shared_inv s" "allowed s l" "shared_step E s l res"
  shows "sh_count_live s \<and> step_kept E s l res"
proof (cases "sh_count_live s")
  case False
  then have "sh_handles s = []" "sh_threads s = []" using assms(1) by (simp_all add: shared_inv_def all_gone_def)
  with assms(3) show ?thesis by (cases rule: shared_step.cases) auto
next
  case True
  then have wf: "shared_wf s" using assms(1) by (simp add: shared_inv_def)
  have small: "small s" using assms(2) by (simp add: allowed_def)
  note access = step_ok_access [OF wf _ small, where k = "drop_fuel s" and E = E, unfolded step_ok_def]
  from assms(3) have "step_kept E s l res"
  proof cases
    case (clone n)
    then show ?thesis using clone_kept [OF wf] by simp
  next
    case (drop us n vs s')
    then show ?thesis using drop_kept [OF wf _ _ _ small, of us n vs s' E] by simp
  next
    case (forget us n vs s')
    then show ?thesis using forget_kept [OF wf, of us n vs s' E] by simp
  next
    case (begin_access b n i offset)
    then show ?thesis using begin_kept [OF wf] by simp
  next
    case (begin_past_end b n cs m j offset)
    then show ?thesis using assms(2) by (simp add: allowed_def)
  next
    case (work us b a vs a' s')
    from access [OF work(3)] work(4) have "heap_le (sh_heap s) (sh_heap s')" "shared_wf (s'\<lparr>sh_threads := us @ (b, a') # vs\<rparr>)" by auto
    then show ?thesis using work(1,2) by (auto simp: step_kept_def shared_inv_def shared_wf_def)
  next
    case (finish us b a vs elem s' n i)
    from access [OF finish(3)] finish(4,5) have "heap_le (sh_heap s) (sh_heap s')" "shared_wf (s'\<lparr>sh_threads := us @ vs\<rparr>)"
      "child_at (sh_heap s') n i elem" by auto
    then show ?thesis using finish(1,2) by (auto simp: step_kept_def shared_inv_def shared_wf_def)
  next
    case (fail us b a vs p)
    from access [OF fail(3)] fail(2,4) show ?thesis by (auto simp: step_kept_def)
  qed
  with True show ?thesis by blast
qed

lemma execution_kept:
  assumes "execution E allowed s0 ls s" "shared_inv s0"
  shows "shared_inv s \<and> (sh_count_live s \<longrightarrow> (\<forall>n i e. Got n i e \<in> set ls \<longrightarrow> child_at (sh_heap s) n i e))"
  using assms
proof (induction rule: execution.induct)
  case (none s)
  then show ?case by simp
next
  case (more s ls s1 l s2)
  then have "shared_inv s1" by blast
  from step_kept_any [OF this more.hyps(2,3)] have s2: "sh_count_live s1" "shared_inv s2"
    "sh_count_live s2 \<longrightarrow> heap_le (sh_heap s1) (sh_heap s2)" "\<forall>n i e. l = Got n i e \<longrightarrow> child_at (sh_heap s2) n i e"
    by (auto simp: step_kept_def)
  with more show ?case using heap_le_child_at by fastforce
qed

section \<open>Schedules\<close>

text \<open>An execution in which the threads at the given positions do one step each, for examples.\<close>

fun run_schedule :: "('s, 'd, 'k, 'e) env \<Rightarrow> nat list \<Rightarrow> ('i, 'x) shared \<Rightarrow> (shared_label list \<times> ('i, 'x) shared) option" where
  "run_schedule E [] s = Some ([], s)"
| "run_schedule E (j # js) s =
     (if \<not> small s \<or> length (sh_threads s) \<le> j then None
      else case sh_threads s ! j of (b, a) \<Rightarrow>
        (case access_step E (drop_fuel s) a s of
           Inl _ \<Rightarrow> None
         | Inr (Inl a', s') \<Rightarrow>
             map_option (apfst (Cons Worked)) (run_schedule E js (s'\<lparr>sh_threads := (sh_threads s)[j := (b, a')]\<rparr>))
         | Inr (Inr elem, s') \<Rightarrow>
             (case access_slot a of (n, i) \<Rightarrow>
                map_option (apfst (Cons (Got n i elem)))
                  (run_schedule E js (s'\<lparr>sh_threads := take j (sh_threads s) @ drop (Suc j) (sh_threads s)\<rparr>)))))"

lemma execution_trans: "execution E B s2 ls' s3 \<Longrightarrow> execution E B s1 ls s2 \<Longrightarrow> execution E B s1 (ls @ ls') s3"
  by (induction rule: execution.induct) (auto simp flip: append_assoc intro: execution.more)

lemma execution_step: "B s1 l \<Longrightarrow> shared_step E s1 l (Inr s2) \<Longrightarrow> execution E B s1 [l] s2"
  using execution.more [OF execution.none] by fastforce

lemma execution_Cons:
  "B s1 l \<Longrightarrow> shared_step E s1 l (Inr s2) \<Longrightarrow> execution E B s2 ls s3 \<Longrightarrow> execution E B s1 (l # ls) s3"
  using execution_trans [OF _ execution_step, of E B s2 ls s3 s1 l] by simp

lemma run_schedule_execution: "run_schedule E js s = Some (ls, s') \<Longrightarrow> execution E allowed s ls s'"
proof (induction E js s arbitrary: ls rule: run_schedule.induct)
  case (1 E s)
  then show ?case by (simp add: execution.none)
next
  case (2 E j js s)
  obtain b a where a: "sh_threads s ! j = (b, a)" by fastforce
  have j: "small s" "j < length (sh_threads s)" using "2.prems" by (auto split: if_splits)
  then have ts: "sh_threads s = take j (sh_threads s) @ (b, a) # drop (Suc j) (sh_threads s)" using a id_take_nth_drop by metis
  obtain r s1 where r: "access_step E (drop_fuel s) a s = Inr (r, s1)" using "2.prems" j a by (auto split: sum.splits)
  show ?case
  proof (cases r)
    case (Inl a')
    let ?s = "s1\<lparr>sh_threads := (sh_threads s)[j := (b, a')]\<rparr>"
    from "2.prems" j a r Inl obtain ls' where ls: "ls = Worked # ls'" "run_schedule E js ?s = Some (ls', s')" by auto
    have "shared_step E s Worked (Inr ?s)" using shared_step.work [OF ts] r Inl j(2) by (simp add: upd_conv_take_nth_drop)
    moreover have "execution E allowed ?s ls' s'" using "2.IH"(1) j a r Inl ls(2) by auto
    moreover have "allowed s Worked" using j(1) by (simp add: allowed_def)
    ultimately show ?thesis using execution_Cons [of allowed s] ls(1) by simp
  next
    case (Inr e)
    let ?s = "s1\<lparr>sh_threads := take j (sh_threads s) @ drop (Suc j) (sh_threads s)\<rparr>"
    obtain n i where ni: "access_slot a = (n, i)" by fastforce
    from "2.prems" j a r Inr ni obtain ls' where ls: "ls = Got n i e # ls'" "run_schedule E js ?s = Some (ls', s')" by auto
    have "shared_step E s (Got n i e) (Inr ?s)" using shared_step.finish [OF ts _ ni] r Inr by simp
    moreover have "execution E allowed ?s ls' s'" using "2.IH"(2) j a r Inr ni ls(2) by auto
    moreover have "allowed s (Got n i e)" using j(1) by (simp add: allowed_def)
    ultimately show ?thesis using execution_Cons [of allowed s] ls(1) by simp
  qed
qed

text \<open>Two threads race for the second child of the root; the second one loses.\<close>

abbreviation ex_release :: "(test_kind, rust_str, rust_str token_interner, interner_error) env" where
  "ex_release \<equiv> test_env (\<lambda>_. 0) False"

abbreviation ex_shared :: "(rust_str token_interner, unit) shared" where
  "ex_shared \<equiv> shared_new ex_green None"

abbreviation ex_begun :: "(rust_str token_interner, unit) shared" where
  "ex_begun \<equiv> ex_shared\<lparr>sh_threads := replicate 2 (0, First_read 0 1 (gn_children ex_green ! 1) 2)\<rparr>"

lemmas shared_eval = shared_slot_def data_of_def ref_count_def fetch_add_def drop_fuel_def new_child_def node_data_new_def
  iter_count_def gn_children_iter_def update_node_def small_def n_refs_def inner_refs_def drop_node_counted

lemma ex_race:
  "\<exists>s. run_schedule ex_release [0, 1, 0, 1, 1, 1, 1, 0, 0] ex_begun =
     Some ([Worked, Worked, Worked, Worked, Worked, Worked, Worked, Got 0 1 (Node 1), Got 0 1 (Node 1)], s) \<and>
     sh_handles s = [0] \<and> sh_threads s = [] \<and> sh_forgotten s = 0 \<and> sh_freed s = [2] \<and> length (sh_heap s) = 3 \<and> sh_count_live s \<and> inner_refs (sh_heap s) < u32_max"
  by (simp add: shared_eval shared_new_def make_new_root_def ex_green_children Let_def u32_max_def nth_append nth_Cons' list_update_code numeral_2_eq_2 ex_node_def)

lemma ex_shared_race:
  obtains s ls where "execution ex_release allowed ex_shared ls s" "{Got 0 1 (Node 1), Began 0 1} \<subseteq> set ls" "small s"
    "sh_handles s = [0]" "sh_threads s = []" "sh_forgotten s = 0" "sh_freed s = [2]" "length (sh_heap s) = 3" "sh_count_live s"
proof -
  let ?t = "(0, First_read 0 1 (gn_children ex_green ! 1) 2)"
  have s0: "sh_handles ex_shared = [0]" "sh_threads ex_shared = []" "nd_green (sh_heap ex_shared ! 0) = ex_green"
    by (simp_all add: shared_new_def make_new_root_def node_data_new_def Let_def)
  have i: "1 < length (gn_children ex_green)" by (simp add: ex_green_children)
  have small: "small ex_shared" "small (ex_shared\<lparr>sh_threads := [?t]\<rparr>)"
    by (simp_all add: small_def n_refs_def inner_refs_def shared_new_def make_new_root_def node_data_new_def Let_def u32_max_def sum_list_replicate)
  have begin_at: "shared_step ex_release s (Began 0 1) (Inr (s\<lparr>sh_threads := ?t # sh_threads s\<rparr>))"
    if "sh_handles s = [0]" "nd_green (sh_heap s ! 0) = ex_green" for s :: "(rust_str token_interner, unit) shared"
    using shared_step.begin_access [of 0 s 0 1 ex_release 2] that i by (simp add: in_tree_def)
  obtain s where s: "run_schedule ex_release [0, 1, 0, 1, 1, 1, 1, 0, 0] ex_begun =
     Some ([Worked, Worked, Worked, Worked, Worked, Worked, Worked, Got 0 1 (Node 1), Got 0 1 (Node 1)], s)"
    "sh_handles s = [0]" "sh_threads s = []" "sh_forgotten s = 0" "sh_freed s = [2]" "length (sh_heap s) = 3" "sh_count_live s"
    "inner_refs (sh_heap s) < u32_max"
    using ex_race by blast
  let ?ls = "[Worked, Worked, Worked, Worked, Worked, Worked, Worked, Got 0 1 (Node 1), Got 0 1 (Node 1)]"
  let ?s1 = "ex_shared\<lparr>sh_threads := [?t]\<rparr>"
  have "ex_begun = ?s1\<lparr>sh_threads := ?t # sh_threads ?s1\<rparr>" by (simp add: numeral_2_eq_2)
  then have "shared_step ex_release ?s1 (Began 0 1) (Inr ex_begun)" using begin_at [of ?s1] s0 by simp
  moreover have "shared_step ex_release ex_shared (Began 0 1) (Inr ?s1)" using begin_at [of ex_shared] s0 by simp
  moreover have "allowed ex_shared (Began 0 1)" "allowed ?s1 (Began 0 1)" using small by (simp_all add: allowed_def)
  ultimately have "execution ex_release allowed ex_shared (Began 0 1 # Began 0 1 # ?ls) s"
    using run_schedule_execution [OF s(1)] by (blast intro: execution_Cons [where B = allowed])
  then show thesis by (rule that) (use s in \<open>simp_all add: small_def n_refs_def u32_max_def\<close>)
qed

text \<open>The calls past the end are those that \<open>children_to\<close> yields for such a position.\<close>

lemma indexed_to_item:
  "x \<in> set (indexed_to T m k off es) \<Longrightarrow> \<exists>j < length es. fst x = es ! j \<and> fst (snd x) = m - (k + j) - 1"
proof (induction es arbitrary: k off)
  case (Cons e es)
  then consider "x = (e, m - k - 1, ts_sub T off (ge_text_len e))" | "x \<in> set (indexed_to T m (Suc k) (ts_sub T off (ge_text_len e)) es)"
    by (auto simp: Let_def)
  then show ?case
  proof cases
    case 1
    then show ?thesis by (intro exI [of _ 0]) simp
  next
    case 2
    from Cons.IH [OF this] obtain j where "j < length es" "fst x = es ! j" "fst (snd x) = m - (Suc k + j) - 1" by blast
    then show ?thesis by (intro exI [of _ "Suc j"]) simp
  qed
qed simp

lemma past_end_item:
  assumes "(e, i, off') \<in> set (children_to T (nd_green (sh_heap s ! n)) m off)" "b \<in> set (sh_handles s)" "in_tree s n"
    and "length (gn_children (nd_green (sh_heap s ! n))) < m"
  shows "shared_step E s (Began_past_end n m) (Inr (s\<lparr>sh_threads := (b, First_read n i e off') # sh_threads s\<rparr>))"
proof -
  let ?cs = "gn_children (nd_green (sh_heap s ! n))"
  from assms(1,4) indexed_to_item [of "(e, i, off')" T m 0 off "rev ?cs"]
  obtain j where "j < length ?cs" "e = rev ?cs ! j" "i = m - j - 1" by (auto simp: children_to_def)
  with shared_step.begin_past_end [OF assms(2,3) refl assms(4), of j E off'] show ?thesis by simp
qed

section \<open>Properties\<close>

text \<open>C6: As long as the number of references fits the 32-bit count and no client asks \<open>prev_child_before\<close> or
  \<open>prev_child_or_token_before\<close> for children before a position past the last one, which they number wrongly, the following
  holds for all clients and threads of a shared tree in any interleaving: no step follows a pointer to freed memory, accesses a slot that
  is not there, finds a slot it just filled empty, or fails otherwise, except that in a build with debug assertions the
  one on the offset of a child that is read may fail, as clients can pass any offset.\<close>
theorem shared_tree_safe:
  assumes "arity_ok g" "execution E allowed (shared_new g r) ls s" "allowed s l" "shared_step E s l res"
  shows "(\<exists>s'. res = Inr s') \<or> en_debug E \<and> res = Inl Assertion_failed"
proof -
  have "shared_inv s" using execution_kept [OF assms(2) shared_inv_new [OF assms(1)]] by blast
  from step_kept_any [OF this assms(3,4)] show ?thesis by (auto simp: step_kept_def)
qed

theorem shared_tree_safe_witness:
  "\<exists>ls s s'. execution ex_release allowed ex_shared ls s \<and> sh_freed s = [2] \<and> shared_step ex_release s (Dropped 0) (Inr s')"
proof -
  obtain s ls where s: "execution ex_release allowed ex_shared ls s" "small s" "sh_handles s = [0]" "sh_threads s = []" "sh_freed s = [2]"
    using ex_shared_race by metis
  have "allowed s (Dropped 0)" using s(2) by (simp add: allowed_def)
  have "shared_step ex_release s (Dropped 0) (drop_node (drop_fuel s) 0 (s\<lparr>sh_handles := []\<rparr>))"
    using shared_step.drop [of s "[]" 0 "[]" _ ex_release] s(3,4) by (simp add: borrows_ok_def)
  moreover from shared_tree_safe [OF _ s(1) \<open>allowed s (Dropped 0)\<close> this] ex_fits obtain s' where "drop_node (drop_fuel s) 0 (s\<lparr>sh_handles := []\<rparr>) = Inr s'"
    by (auto simp: green_fits_def)
  ultimately show ?thesis using s(1,5) by auto
qed

text \<open>C8: As long as in all states before the current one the number of references fitted the 32-bit count, and no position past the
  last child was asked for: while the shared tree lives, its count is the number of handles that clients own, that were forgotten,
  or that a thread is about to drop after a lost race, as a 32-bit number; every handle is of a node that is not freed; and nothing is
  freed twice. Once the count is gone, so are all handles, and every node that was ever created was freed.\<close>
theorem count_is_references:
  assumes "arity_ok g" "execution E allowed (shared_new g r) ls s"
  shows "distinct (sh_freed s) \<and>
    (if sh_count_live s
     then sh_count s = of_nat (n_refs s) \<and> (\<forall>n \<in> set (sh_handles s). n < length (sh_heap s) \<and> n \<notin> set (sh_freed s))
     else sh_handles s = [] \<and> sh_threads s = [] \<and> set (sh_freed s) = {..<length (sh_heap s)})"
proof -
  have "shared_inv s" using execution_kept [OF assms(2) shared_inv_new [OF assms(1)]] by blast
  then show ?thesis by (auto simp: shared_inv_def shared_wf_def all_gone_def dead_def)
qed

theorem count_is_references_witness:
  "\<exists>ls s. execution ex_release allowed ex_shared ls s \<and> sh_count_live s \<and> sh_count s = 1"
proof -
  obtain s ls where s: "execution ex_release allowed ex_shared ls s" "sh_count_live s" "sh_handles s = [0]" "sh_threads s = []" "sh_forgotten s = 0"
    using ex_shared_race by metis
  have "arity_ok ex_green" using ex_fits by (simp add: green_fits_def)
  from count_is_references [OF this s(1)] s have "sh_count s = 1" by (simp add: n_refs_def)
  with s show ?thesis by blast
qed

text \<open>C7: Dropping the last handle of a tree returns, and frees every node that is still there exactly once: after
  it all nodes that were ever created are freed, the count too, and none of the decrements on the way starts a
  second release.\<close>
theorem last_drop_frees_all:
  assumes "arity_ok g" "execution E allowed (shared_new g r) ls s" "small s"
    and "sh_handles s = [n]" "sh_threads s = []" "sh_forgotten s = 0" "sh_count_live s"
  shows "\<exists>s'. drop_node (drop_fuel s) n (s\<lparr>sh_handles := []\<rparr>) = Inr s' \<and> shared_step E s (Dropped n) (Inr s') \<and>
    \<not> sh_count_live s' \<and> distinct (sh_freed s') \<and> set (sh_freed s') = {..<length (sh_heap s')}"
proof -
  have "shared_inv s" using execution_kept [OF assms(2) shared_inv_new [OF assms(1)]] by blast
  then have wf: "shared_wf s" using assms(7) by (simp add: shared_inv_def)
  let ?s = "s\<lparr>sh_handles := []\<rparr>"
  have h: "sh_handles s = [] @ n # []" "?s = s\<lparr>sh_handles := [] @ []\<rparr>" "borrows_ok ?s" using assms(4,5) by (simp_all add: borrows_ok_def)
  have "sh_count s = 1" using wf assms(4-6) by (simp add: shared_wf_def n_refs_def)
  from last_drop [OF wf h assms(3) this] obtain s' where "drop_node (drop_fuel s) n ?s = Inr s'" "\<not> sh_count_live s'" "all_gone s'" by blast
  moreover from this(1) have "shared_step E s (Dropped n) (Inr s')" using shared_step.drop [OF h] by simp
  ultimately show ?thesis by (auto simp: all_gone_def)
qed

theorem last_drop_frees_all_witness:
  "\<exists>s s'. drop_node (drop_fuel s) 0 (s :: (rust_str token_interner, unit) shared) = Inr s' \<and> sh_freed s = [2] \<and>
     distinct (sh_freed s') \<and> set (sh_freed s') = {..<length (sh_heap s')}"
proof -
  obtain s ls where s: "execution ex_release allowed ex_shared ls s" "small s" "sh_handles s = [0]" "sh_threads s = []" "sh_forgotten s = 0"
    "sh_freed s = [2]" "sh_count_live s" using ex_shared_race by metis
  have "arity_ok ex_green" using ex_fits by (simp add: green_fits_def)
  from last_drop_frees_all [OF this s(1-5,7)] obtain s' where
    s': "drop_node (drop_fuel s) 0 (s\<lparr>sh_handles := []\<rparr>) = Inr s'" "distinct (sh_freed s')" "set (sh_freed s') = {..<length (sh_heap s')}"
    by blast
  let ?s = "s\<lparr>sh_handles := []\<rparr>"
  have "drop_fuel s = drop_fuel ?s" by (simp add: drop_fuel_def)
  with s'(1) have "drop_node (drop_fuel ?s) 0 ?s = Inr s'" by (simp only:)
  moreover have "sh_freed ?s = [2]" using s(6) by simp
  ultimately show ?thesis using s'(2,3) by blast
qed

text \<open>C9: All threads that ask for the same child of the same node get the same element, also when they race to
  create it (under the bounds of the safety of steps: the count does not wrap and no position past the last child is asked for).\<close>
theorem same_child_for_all:
  assumes "arity_ok g" "execution E allowed (shared_new g r) ls s" "sh_count_live s"
    and "Got n i e \<in> set ls" "Got n i e' \<in> set ls"
  shows "e = e' \<and> child_at (sh_heap s) n i e"
proof -
  have "child_at (sh_heap s) n i e" "child_at (sh_heap s) n i e'"
    using execution_kept [OF assms(2) shared_inv_new [OF assms(1)]] assms(3-5) by blast+
  with child_at_fun show ?thesis by blast
qed

theorem same_child_for_all_witness:
  "\<exists>ls s. execution ex_release allowed ex_shared ls s \<and> sh_freed s = [2] \<and> child_at (sh_heap s) 0 1 (Node 1)"
proof -
  obtain s ls where s: "execution ex_release allowed ex_shared ls s" "Got 0 1 (Node 1) \<in> set ls" "sh_freed s = [2]" "sh_count_live s"
    using ex_shared_race by (metis insert_subset)
  have "arity_ok ex_green" using ex_fits by (simp add: green_fits_def)
  from same_child_for_all [OF this s(1,4,2,2)] s show ?thesis by blast
qed

section \<open>Forgotten clones\<close>

text \<open>\<open>mem::forget(node.clone())\<close> on the root, any number of times.\<close>

definition leaked :: "nat \<Rightarrow> ('i, 'x) shared \<Rightarrow> ('i, 'x) shared" where
  "leaked m s = s\<lparr>sh_count := sh_count s + of_nat m, sh_forgotten := sh_forgotten s + m\<rparr>"

lemma leak_execution:
  assumes s: "sh_count_live s" "0 < length (sh_heap s)" "0 \<notin> set (sh_freed s)" "sh_handles s = [0]" "sh_threads s = []"
  shows "\<exists>ls. execution E (\<lambda>_ _. True) s ls (leaked m s)"
proof (induction m)
  case 0
  show ?case using execution.none [of E "\<lambda>_ _. True" s] by (auto simp: leaked_def)
next
  case (Suc m)
  then obtain ls where ls: "execution E (\<lambda>_ _. True) s ls (leaked m s)" by blast
  let ?s = "leaked m s"
  let ?c = "?s\<lparr>sh_count := sh_count ?s + 1, sh_handles := [0, 0]\<rparr>"
  have "clone_node 0 ?s = Inr (0, ?s\<lparr>sh_count := sh_count ?s + 1\<rparr>)"
    using s by (simp add: clone_node_def fetch_add_def ref_count_def data_of_def leaked_def)
  then have "shared_step E ?s (Cloned 0) (Inr ?c)"
    using shared_step.clone [of ?s 0] s(4) by (simp add: in_tree_def leaked_def)
  moreover have "shared_step E ?c (Forgot 0) (Inr (leaked (Suc m) s))"
  proof -
    let ?c' = "?c\<lparr>sh_handles := [] @ [0]\<rparr>"
    have "borrows_ok ?c'" using s(5) by (simp add: borrows_ok_def leaked_def)
    from shared_step.forget [of ?c "[]" 0 "[0]", OF _ refl this]
    have "shared_step E ?c (Forgot 0) (Inr (?c'\<lparr>sh_forgotten := Suc (sh_forgotten ?c)\<rparr>))" by simp
    moreover have "?c'\<lparr>sh_forgotten := Suc (sh_forgotten ?c)\<rparr> = leaked (Suc m) s"
      by (rule shared.equality) (simp_all add: leaked_def s(4) add_ac)
    ultimately show ?thesis by (simp only:)
  qed
  ultimately have "execution E (\<lambda>_ _. True) s ((ls @ [Cloned 0]) @ [Forgot 0]) (leaked (Suc m) s)"
    using ls by (blast intro: execution.more)
  then show ?case by blast
qed

text \<open>C10: The count is 32 bits wide and nothing keeps it from wrapping: after enough clones of a root that are
  passed to \<open>mem::forget\<close>, which is safe, dropping one of two handles releases the tree, and the next
  use of the other follows a pointer to freed memory.\<close>
theorem forgotten_clones_dangle:
  assumes "arity_ok g"
  shows "\<exists>ls s. execution E (\<lambda>_ _. True) (shared_new g r :: ('i, 'x) shared) ls s \<and> sh_handles s = [0] \<and> 0 \<in> set (sh_freed s) \<and>
    shared_step E s (Cloned 0) (Inl Undefined_behaviour)"
proof -
  let ?s0 = "shared_new g r :: ('i, 'x) shared"
  let ?s1 = "leaked (2 ^ 32 - 1) ?s0"
  let ?s2 = "?s1\<lparr>sh_count := sh_count ?s1 + 1, sh_handles := [0, 0]\<rparr>" and ?s3 = "?s1\<lparr>sh_count := sh_count ?s1 + 1, sh_handles := [0]\<rparr>"
  let ?s4 = "?s3\<lparr>sh_count := 0\<rparr>" and ?k = "Suc (length (sh_heap ?s3))"
  have new: "sh_count_live ?s0" "0 < length (sh_heap ?s0)" "0 \<notin> set (sh_freed ?s0)" "sh_handles ?s0 = [0]" "sh_threads ?s0 = []"
    "sh_freed ?s0 = []" "sh_count ?s0 = 1" "inner_refs (sh_heap ?s0) = 0" "shared_wf ?s0"
    using shared_inv_new [OF assms, of r]
    by (simp_all add: shared_new_def make_new_root_def node_data_new_def inner_refs_def shared_inv_def Let_def sum_list_replicate)
  obtain ls where ls: "execution E (\<lambda>_ _. True) ?s0 ls ?s1" using leak_execution [OF new(1-5)] by blast
  have count: "sh_count ?s1 = 0" using new(7) by (simp add: leaked_def)
  have "clone_node 0 ?s1 = Inr (0, ?s1\<lparr>sh_count := sh_count ?s1 + 1\<rparr>)"
    using new by (simp add: clone_node_def fetch_add_def ref_count_def data_of_def leaked_def)
  then have cloned: "shared_step E ?s1 (Cloned 0) (Inr ?s2)"
    using shared_step.clone [of ?s1 0] new(4) by (simp add: in_tree_def leaked_def)
  have "dying 0 ?s4"
    using new by (simp add: dying_def leaked_def shared_wf_def dead_def u32_max_def)
  from release_tree [OF this, of 0 ?k] new obtain s5 where s5: "bindO (shared_root (Suc (length (sh_heap ?s4))) ?s4 0) (\<lambda>root.
            bindO (drop_recursive ?k root ?s4) (\<lambda>s. bindO (drop_node ?k root s) (\<lambda>s.
            bindO (free_data ?k root s) (\<lambda>s. free_count s)))) = Inr s5"
      "\<not> sh_count_live s5" "set (sh_freed s5) = {..<length (sh_heap s5)}" "length (sh_heap s5) = length (sh_heap ?s4)" "sh_handles s5 = [0]"
    by (auto simp: leaked_def)
  have "ref_count ?s3 0 = Inr 1" using new count by (simp add: ref_count_def data_of_def leaked_def)
  then have "drop_node (drop_fuel ?s2) 0 ?s3 = Inr s5"
    unfolding drop_node.simps [of "drop_fuel ?s2"] using s5(1) count
    by (simp add: drop_fuel_def Let_def del: shared_root.simps drop_recursive.simps free_data.simps)
  then have dropped: "shared_step E ?s2 (Dropped 0) (Inr s5)"
    using shared_step.drop [of ?s2 "[]" 0 "[0]" ?s3] new(5) by (simp add: borrows_ok_def leaked_def)
  have "execution E (\<lambda>_ _. True) ?s0 ((ls @ [Cloned 0]) @ [Dropped 0]) s5"
    using ls cloned dropped by (blast intro: execution.more)
  moreover have freed: "0 \<in> set (sh_freed s5)" using s5(3,4) new(2) by (simp add: leaked_def)
  moreover have "shared_step E s5 (Cloned 0) (Inl Undefined_behaviour)"
    using shared_step.clone [of s5 0] s5(5) freed
    by (simp add: in_tree_def clone_node_def fetch_add_def ref_count_def data_of_def)
  ultimately show ?thesis using s5(5) by blast
qed

theorem forgotten_clones_dangle_witness:
  "\<exists>ls s. execution ex_release (\<lambda>_ _. True) ex_shared ls s \<and> sh_handles s = [0] \<and> 0 \<in> set (sh_freed s) \<and>
     shared_step ex_release s (Cloned 0) (Inl Undefined_behaviour)"
  by (rule forgotten_clones_dangle) (use ex_fits in \<open>simp add: green_fits_def\<close>)

section \<open>One thread alone\<close>

fun run_access :: "('s, 'd, 'k, 'e) env \<Rightarrow> nat \<Rightarrow> access \<Rightarrow> ('i, 'x) shared \<Rightarrow> (syntax_element \<times> ('i, 'x) shared) outcome" where
  "run_access E 0 a s = Inl Out_of_fuel"
| "run_access E (Suc k) a s = bindO (access_step E (drop_fuel s) a s) (\<lambda>(r, s).
     case r of Inl a \<Rightarrow> run_access E k a s | Inr elem \<Rightarrow> Inr (elem, s))"

lemma shared_check_none_freed: "sh_freed s = [] \<Longrightarrow> shared_check E s e offset = check_offset E (sh_heap s) e offset"
  by (cases e) (auto simp: shared_check_def check_offset_def data_of_def node_text_range_def token_text_range_def token_green_def
    node_green_def node_data_of_def)

text \<open>A call that no other thread interrupts does what the sequential \<open>get_or_add_element\<close> does, panics and
  undefined behaviour included, and does it in at most three steps.\<close>
theorem uninterrupted_access:
  assumes "sh_freed s = []" "n < length (sh_heap s)"
  shows "run_access E 3 (First_read n i element offset) s =
    bindO (get_or_add_element E n element i offset (sh_heap s)) (\<lambda>(elem, h). Inr (elem, s\<lparr>sh_heap := h\<rparr>))"
proof (cases "i < length (nd_children (sh_heap s ! n))")
  case False
  then show ?thesis
    using assms by (simp add: eval_nat_numeral shared_slot_def data_of_def get_or_add_element_def read_slot_def node_data_of_def)
next
  case True
  show ?thesis
  proof (cases "nd_children (sh_heap s ! n) ! i")
    case (Some e)
    then show ?thesis
      using assms True by (simp add: eval_nat_numeral shared_slot_def data_of_def get_or_add_element_def read_slot_def node_data_of_def shared_check_none_freed bindO_assoc)
  next
    case None
    obtain e h where new: "syntax_element_new element n (as_u32 i) offset (sh_heap s) = (e, h)" by fastforce
    then have h: "n < length h" "h ! n = sh_heap s ! n"
      using assms(2) by (cases element; auto simp: new_child_def Let_def nth_append)+
    show ?thesis
      using assms True None h new
      by (simp add: eval_nat_numeral shared_slot_def data_of_def get_or_add_element_def read_slot_def node_data_of_def try_write_def update_node_def)
  qed
qed

theorem uninterrupted_access_witness:
  "\<exists>h. run_access ex_release 3 (First_read 0 1 (gn_children ex_green ! 1) 2) ex_shared = Inr (Node 1, ex_shared\<lparr>sh_heap := h\<rparr>)"
proof -
  have s: "sh_freed ex_shared = []" "0 < length (sh_heap ex_shared)" "sh_heap ex_shared = ex_heap"
    by (simp_all add: shared_new_def make_new_root_def Let_def)
  note run = uninterrupted_access [OF s(1,2), of ex_release 1 "gn_children ex_green ! 1" 2]
  show ?thesis unfolding run s(3)
    by (simp add: get_or_add_element_def read_slot_def node_data_of_def try_write_def update_node_def new_child_def node_data_new_def
        make_new_root_def iter_count_def gn_children_iter_def ex_green_children Let_def) blast
qed

end
