(* ===== verification/Syntax_Text_Theorems.thy ===== *)
theory Syntax_Text_Theorems
  imports Syntax_Text_Bytes Red_Search_Theorems
begin

text \<open>
  The properties of \<open>SyntaxData\<close> and \<open>SyntaxText\<close>: slices, folds, comparison with a string and the
  character functions are those of the text they stand for.
\<close>

section \<open>Folds over valid pieces of text\<close>

lemma fold_append: "fold_while (\<lambda>out c. Inr (Inr (out @ c))) acc cs = Inr (Inr (acc @ concat cs))"
  by (induction cs arbitrary: acc) simp_all

lemma fold_eq_str:
  "list_all utf8_valid cs \<Longrightarrow> utf8_valid rhs \<Longrightarrow>
   fold_while (\<lambda>rhs c. if take (length c) rhs \<noteq> c then Inr (Inl ())
       else bindO (str_index (Str rhs) (length c) (length rhs)) (\<lambda>r. Inr (Inr (str_bytes r)))) rhs cs =
     (if prefix (concat cs) rhs then Inr (Inr (drop (length (concat cs)) rhs)) else Inr (Inl ()))"
proof (induction cs arbitrary: rhs)
  case (Cons c cs)
  show ?case
  proof (cases "take (length c) rhs = c")
    case False
    then have "\<not> prefix (c @ concat cs) rhs" by (auto simp: prefix_def)
    with False show ?thesis by simp
  next
    case True
    then obtain r where r: "rhs = c @ r" by (metis append_take_drop_id)
    with Cons.prems have "utf8_valid r" by (simp add: utf8_valid_append)
    moreover have "is_char_boundary (c @ r) (length c)" using utf8_prefix_boundary Cons.prems r by simp
    ultimately show ?thesis using Cons r is_char_boundary_ends(2) [of "c @ r"] by (simp add: str_index_Inr)
  qed
qed simp

text \<open>A character is found in one of the pieces, or nowhere.\<close>

lemma utf8_char_within:
  assumes "utf8_char c" "utf8_valid xs" "i < length xs" "take (length c) (drop i (xs @ ys)) = c"
  shows "i + length c \<le> length xs"
proof -
  obtain b bs where c: "c = b # bs" using utf8_charD(1) [OF assms(1)] by (cases c) auto
  have "c ! 0 = take (length c) (drop i (xs @ ys)) ! 0" by (simp only: assms(4))
  also have "\<dots> = (xs @ ys) ! i" using assms(3) c by (subst nth_take) (simp_all only: nth_drop length_append, simp_all)
  also have "\<dots> = xs ! i" using assms(3) by (simp add: nth_append)
  finally have nth: "xs ! i = b" using c by simp
  have "is_char_boundary xs i"
    using utf8_charD(2) [OF assms(1)] c nth assms(3) by (auto simp: is_char_boundary_def)
  then have "utf8_valid (drop i xs)" using utf8_cut [OF assms(2)] by blast
  moreover have "drop i xs \<noteq> []" using assms(3) by simp
  ultimately obtain d r where d: "drop i xs = d @ r" "utf8_char d" using first_char_valid by metis
  then have "hd d = b" using nth assms(3) utf8_charD(1) [OF d(2)] by (metis hd_append2 hd_drop_conv_nth)
  then have "length d = length c" using utf8_charD(3) [OF d(2)] utf8_charD(3) [OF assms(1)] c by simp
  moreover have "length d \<le> length (drop i xs)" using d(1) by simp
  ultimately show ?thesis using assms(3) by simp
qed

lemma str_find_append:
  assumes c: "utf8_char c" and xs: "utf8_valid xs"
  shows "str_find c (xs @ ys) =
    (case str_find c xs of Some i \<Rightarrow> Some i | None \<Rightarrow> map_option ((+) (length xs)) (str_find c ys))"
proof -
  note ne = utf8_charD(1) [OF c]
  have inside: "take (length c) (drop j (xs @ ys)) = c \<longleftrightarrow> take (length c) (drop j xs) = c" if "j < length xs" for j
  proof
    assume *: "take (length c) (drop j (xs @ ys)) = c"
    from utf8_char_within [OF c xs that this] * that show "take (length c) (drop j xs) = c" by simp
  next
    assume *: "take (length c) (drop j xs) = c"
    then have "length c \<le> length (drop j xs)" by (metis length_take min.cobounded2 min.commute)
    with * that show "take (length c) (drop j (xs @ ys)) = c" by simp
  qed
  show ?thesis
  proof (cases "str_find c xs")
    case (Some i)
    then have i: "i + length c \<le> length xs" "take (length c) (drop i xs) = c" "\<forall>j < i. take (length c) (drop j xs) \<noteq> c"
      by (simp_all add: str_find_Some [OF ne])
    then have "i < length xs" using ne by (cases c) auto
    with i inside have "str_find c (xs @ ys) = Some i" by (simp add: str_find_Some [OF ne])
    with Some show ?thesis by simp
  next
    case None
    then have no: "take (length c) (drop j (xs @ ys)) \<noteq> c" if "j < length xs" for j
      using inside [OF that] by (simp add: str_find_None [OF ne])
    show ?thesis
    proof (cases "str_find c ys")
      case None': None
      have "take (length c) (drop j (xs @ ys)) \<noteq> c" for j
        using no [of j] None' by (cases "j < length xs") (simp_all add: str_find_None [OF ne])
      then have "str_find c (xs @ ys) = None" by (simp add: str_find_None [OF ne])
      with None None' show ?thesis by simp
    next
      case (Some i)
      then have i: "i + length c \<le> length ys" "take (length c) (drop i ys) = c" "\<forall>j < i. take (length c) (drop j ys) \<noteq> c"
        by (simp_all add: str_find_Some [OF ne])
      have "take (length c) (drop j (xs @ ys)) \<noteq> c" if "j < length xs + i" for j
        using no [of j] i(3) that by (cases "j < length xs") simp_all
      with i have "str_find c (xs @ ys) = Some (length xs + i)" by (simp add: str_find_Some [OF ne])
      with None Some show ?thesis by simp
    qed
  qed
qed

lemma fold_contains:
  assumes "utf8_char c" "list_all utf8_valid cs"
  shows "fold_while (\<lambda>_ chunk. Inr (if str_find c chunk \<noteq> None then Inl () else Inr ())) () cs =
    Inr (if str_find c (concat cs) \<noteq> None then Inl () else Inr ())"
  using assms(2)
proof (induction cs)
  case Nil
  then show ?case using utf8_charD(1) [OF assms(1)] by simp
next
  case (Cons x xs)
  then show ?case using str_find_append [OF assms(1), of x "concat xs"] by (cases "str_find c x") auto
qed

context text_size
begin

lemma fold_find:
  assumes "utf8_char c"
  shows "list_all utf8_valid cs \<Longrightarrow> unat acc + length (concat cs) \<le> u32_max \<Longrightarrow>
    bindO (fold_while (\<lambda>acc chunk. case str_find c chunk of
         Some pos \<Rightarrow> Inr (Inl (ts_add T acc (as_u32 pos)))
       | None \<Rightarrow> Inr (Inr (ts_add T acc (as_u32 (length chunk))))) acc cs) (\<lambda>r. Inr (found r)) =
     Inr (map_option (\<lambda>i. as_u32 (unat acc + i)) (str_find c (concat cs)))"
proof (induction cs arbitrary: acc)
  case Nil
  then show ?case using utf8_charD(1) [OF assms] by (simp add: found_def)
next
  case (Cons x xs)
  have add: "ts_add T acc (as_u32 i) = as_u32 (unat acc + i)" "unat (ts_add T acc (as_u32 i)) = unat acc + i"
    if "i \<le> length x" for i
  proof -
    have i: "unat (as_u32 i) = i" "unat acc + i \<le> u32_max" using Cons.prems(2) that by (auto intro: unat_as_u32)
    then show "unat (ts_add T acc (as_u32 i)) = unat acc + i" using unat_add_fits [of acc "as_u32 i"] by simp
    show "ts_add T acc (as_u32 i) = as_u32 (unat acc + i)" using add [of acc "as_u32 i"] i by simp
  qed
  show ?case
  proof (cases "str_find c x")
    case (Some i)
    then have "i \<le> length x" using utf8_charD(1) [OF assms] by (auto simp: str_find_Some)
    with Some add Cons.prems str_find_append [OF assms, of x "concat xs"] show ?thesis by (simp add: found_def)
  next
    case None
    have "unat (ts_add T acc (as_u32 (length x))) + length (concat xs) \<le> u32_max"
      using add(2) [of "length x"] Cons.prems(2) by simp
    from Cons.IH [OF _ this] Cons.prems(1) None add [of "length x"] str_find_append [OF assms, of x "concat xs"]
    show ?thesis by (simp add: option.map_comp comp_def add.assoc)
  qed
qed

lemma fold_char_at:
  "list_all utf8_valid cs \<Longrightarrow> unat start + length (concat cs) \<le> u32_max \<Longrightarrow> start \<le> offset \<Longrightarrow>
   bindO (fold_while (\<lambda>start chunk.
       let end = ts_add T start (as_u32 (length chunk))
       in if start \<le> offset \<and> offset < end then
            (let off = unat (ts_sub T offset start)
             in bindO (str_index (Str chunk) off (length chunk)) (\<lambda>s.
                bindO (unwrap (first_char (str_bytes s))) (\<lambda>c. Inr (Inl c))))
          else Inr (Inr end)) start cs) (\<lambda>r. Inr (found r)) =
     (let i = unat offset - unat start in
      if length (concat cs) \<le> i then Inr None
      else if is_char_boundary (concat cs) i then Inr (first_char (drop i (concat cs)))
      else Inl Slice_out_of_range)"
proof (induction cs arbitrary: start)
  case Nil
  then show ?case by (simp add: found_def Let_def)
next
  case (Cons x xs)
  let ?stop = "ts_add T start (as_u32 (length x))" and ?i = "unat offset - unat start"
  have fits: "unat (as_u32 (length x)) = length x" using Cons.prems(2) by (intro unat_as_u32) simp
  then have e: "unat ?stop = unat start + length x" using unat_add_fits [of start "as_u32 (length x)"] Cons.prems(2) by simp
  have le: "unat start \<le> unat offset" using Cons.prems(3) by (simp add: word_le_nat_alt)
  show ?case
  proof (cases "offset < ?stop")
    case True
    then have i: "?i < length x" using e le by (simp add: word_less_nat_alt)
    have off: "unat (ts_sub T offset start) = ?i" by (rule unat_sub_fits [OF Cons.prems(3)])
    have b: "is_char_boundary (x @ concat xs) ?i \<longleftrightarrow> is_char_boundary x ?i"
      using i by (auto simp: is_char_boundary_def nth_append)
    show ?thesis
    proof (cases "is_char_boundary x ?i")
      case False
      with True i Cons.prems(3) b off show ?thesis by (simp add: Let_def str_index_def)
    next
      case yes: True
      have "utf8_valid (drop ?i x)" using utf8_cut [OF _ yes] Cons.prems(1) by simp
      moreover have "drop ?i x \<noteq> []" using i by simp
      ultimately obtain c r where c: "first_char (drop ?i x) = Some c" "drop ?i x = c @ r" "utf8_char c"
        using first_char_valid by metis
      then have "first_char (drop ?i (x @ concat xs)) = Some c" using i first_char_append [OF c(3), of "r @ concat xs"] by simp
      moreover have "str_index (Str x) ?i (length x) = Inr (Str (drop ?i x))"
        using str_index_Inr [of ?i "length x" x] i yes by simp
      ultimately show ?thesis using True i Cons.prems(3) b off yes c(1) by (simp add: Let_def found_def)
    qed
  next
    case False
    then have stop_le: "?stop \<le> offset" by simp
    then have i: "length x \<le> ?i" "unat offset - unat ?stop = ?i - length x" using e le by (simp_all add: word_le_nat_alt)
    have b: "is_char_boundary (x @ concat xs) ?i \<longleftrightarrow> is_char_boundary (concat xs) (?i - length x)"
      if "?i < length x + length (concat xs)"
    proof (cases "?i = length x")
      case True
      have "is_char_boundary (x @ concat xs) (length x)"
        by (rule utf8_prefix_boundary) (use Cons.prems(1) in \<open>auto simp: utf8_valid_append intro!: utf8_valid_concat [of "\<lambda>x. x", simplified]\<close>)
      with True show ?thesis by simp
    next
      case ne: False
      with i(1) that show ?thesis by (auto simp: is_char_boundary_def nth_append)
    qed
    have "unat ?stop + length (concat xs) \<le> u32_max" using e Cons.prems(2) by simp
    from Cons.IH [OF _ this stop_le] Cons.prems(1) False i b show ?thesis
      by (auto simp: Let_def)
  qed
qed

end

section \<open>Readable views\<close>

lemma computes_bind:
  assumes "computes E g h m r" "\<And>a h'. r = Inr a \<Longrightarrow> red_wf E g h' \<Longrightarrow> heap_le h h' \<Longrightarrow> computes E g h' (f a) (s a)"
  shows "computes E g h (bindR m f) (bindO r s)"
proof (cases r)
  case (Inl p)
  with assms(1) show ?thesis by (auto simp: computes_def bindR_def)
next
  case (Inr a)
  with assms(1) obtain h1 where 1: "m h = Inr (a, h1)" "red_wf E g h1" "heap_le h h1" by (auto simp: computes_def)
  from assms(2) [OF Inr 1(2,3)] 1 Inr show ?thesis by (auto simp: computes_def bindR_def intro: heap_le_trans)
qed

lemma computes_return: "red_wf E g h \<Longrightarrow> computes E g h (returnR a) (Inr a)"
  by (auto simp: computes_def returnR_def)

text \<open>
  A view into a well-formed tree whose tokens resolve to UTF-8 text of their stored lengths, cut between
  characters.
\<close>

definition readable :: "('s, rust_str, 'i, 'e) env \<Rightarrow> green_node \<Rightarrow> ('j, 'x) heap \<Rightarrow> 'i syntax_text \<Rightarrow> bool" where
  "readable E g h v \<longleftrightarrow> text_size (en_text E) \<and> td_as_bytes (en_data E) = str_bytes \<and> red_wf E g h \<and> view_ok h v \<and>
     text_valid E (sd_resolver v) g \<and> view_cut_ok E h v"

lemma readable_wf: "readable E g h v \<Longrightarrow> red_wf E g h"
  by (simp add: readable_def)

lemma readable_fold:
  assumes "readable E g (h :: ('j, 'x) heap) v" "length (view_events h v) < k"
  shows "computes E g h (text_try_for_each_chunk k E v init f) (fold_while f init (view_chunks E g h v))"
  using text_try_fold_chunks_eq [of E g h v k init f] assms by (simp add: readable_def text_try_for_each_chunk_def)

lemma readable_chunks:
  assumes "readable E g h v"
  shows "concat (view_chunks E g h v) = view_bytes E h v" "list_all utf8_valid (view_chunks E g h v)"
proof -
  note r = assms [unfolded readable_def]
  show "concat (view_chunks E g h v) = view_bytes E h v"
    using concat_view_chunks [of E g h v] r by (simp add: text_valid_def)
  have "utf8_valid (piece_bytes E (sd_resolver v) g x)" if x: "x \<in> set (view_pieces g h v)" for x
  proof -
    obtain p lo hi t where p: "x = (p, lo, hi)" "sub (Node g) p = Some (Token t)" "lo \<le> hi"
      using x unfolding view_pieces_def by (rule pieces_token)
    have "is_char_boundary (token_bytes E (sd_resolver v) t) lo \<and> is_char_boundary (token_bytes E (sd_resolver v) t) hi"
      using view_piece_cut [of E g h v p lo hi t] r x p by simp
    moreover have "utf8_valid (token_bytes E (sd_resolver v) t)"
      using sub_tokens [OF p(2)] r by (auto simp: text_valid_def list_all_iff)
    ultimately show ?thesis using utf8_slice p by (simp add: piece_bytes_def)
  qed
  then show "list_all utf8_valid (view_chunks E g h v)" by (simp add: view_chunks_def list_all_iff)
qed

lemma readable_valid: "readable E g h v \<Longrightarrow> utf8_valid (view_bytes E h v)"
  using readable_chunks utf8_valid_concat [of "\<lambda>x. x"] by (metis list.map_ident)

lemma view_bytes_length:
  assumes "red_wf E g h" "view_ok h v" "text_ok E (sd_resolver v) g"
  shows "length (view_bytes E h v) = unat (tr_end (sd_range v)) - unat (tr_start (sd_range v))"
proof -
  have n: "sd_node v < length h" using assms(2) by (simp add: view_ok_def)
  have "length (element_bytes E (sd_resolver v) (Node (nd_green (h ! sd_node v)))) = green_len (nd_green (h ! sd_node v))"
    using length_element_bytes [OF text_ok_sub [OF assms(3) node_sub [OF assms(1) n, THEN conjunct1]]] by simp
  with assms(2) show ?thesis 
    by (auto simp: view_bytes_def view_ok_def tr_valid_def word_le_nat_alt min_def simp del: element_bytes_Node)
qed

lemma readable_length:
  "readable E g h v \<Longrightarrow> length (view_bytes E h v) = unat (tr_end (sd_range v)) - unat (tr_start (sd_range v))"
  using view_bytes_length [of E g h v] by (simp add: readable_def text_valid_def)

lemma readable_fits: "readable E g h v \<Longrightarrow> length (view_bytes E h v) \<le> u32_max"
  using readable_length [of E g h v] unat_le_u32_max [of "tr_end (sd_range v)"] by simp

section \<open>An example\<close>

text \<open>The text \<open>+a\<close> of two tokens.\<close>

definition ex_view :: "rust_str token_interner syntax_text" where
  "ex_view = \<lparr>sd_node = 0, sd_range = \<lparr>tr_start = 0, tr_end = 2\<rparr>, sd_resolver = ex_interner\<rparr>"

lemma ex_plus_children: "gn_children ex_plus = [Token \<lparr>gt_kind = 0, gt_data = None, gt_data_len = 1\<rparr>,
    Token \<lparr>gt_kind = 1, gt_data = Some (TokenKey 1), gt_data_len = 1\<rparr>]"
  by (simp add: ex_plus_def ex_node_def)

lemma ex_plus_wf: "red_wf red_ex_env ex_plus ex_plus_heap"
  by (rule make_new_root_wf(1))
    (simp add: green_fits_def ex_plus_def ex_node_def green_node_new_def arity_ok_def green_len_GreenNode u32_max_def)

lemma ex_plus_0: "length ex_plus_heap = 1" "nd_green (ex_plus_heap ! 0) = ex_plus" "node_start (ex_plus_heap ! 0) = 0"
    "path_of ex_plus_heap 0 = []"
  using path_of_root [OF ex_plus_wf]
  by (simp_all add: make_new_root_def node_data_new_def node_start_def Let_def)

lemma ex_plus_tokens:
  "token_bytes red_ex_env ex_interner \<lparr>gt_kind = 0, gt_data = None, gt_data_len = 1\<rparr> = [0x2B]"
  "token_bytes red_ex_env ex_interner \<lparr>gt_kind = 1, gt_data = Some (TokenKey 1), gt_data_len = 1\<rparr> = [0x61]"
  "green_tokens ex_plus = [\<lparr>gt_kind = 0, gt_data = None, gt_data_len = 1\<rparr>, \<lparr>gt_kind = 1, gt_data = Some (TokenKey 1), gt_data_len = 1\<rparr>]"
  "text_ok red_ex_env ex_interner ex_plus"
  by (simp_all add: token_bytes_def green_resolve_def test_from_raw_def green_token_data_def resolve_def ex_interner_resolves
      str_data_def ex_plus_def ex_node_def green_node_new_def text_ok_def token_ok_def)

lemma ex_view_bytes: "view_bytes red_ex_env ex_plus_heap ex_view = [0x2B, 0x61]"
  by (simp add: view_bytes_def ex_view_def ex_plus_0 ex_plus_children ex_plus_tokens)

lemma ex_view_events: "length (view_events ex_plus_heap ex_view) = 6"
  by (simp add: view_events_def ex_view_def ex_plus_0) (simp add: ex_plus_def ex_node_def green_node_new_def)

lemma ex_view_ok: "view_ok ex_plus_heap ex_view"
  by (simp add: view_ok_def ex_view_def ex_plus_0 tr_valid_def)
    (simp add: ex_plus_def ex_node_def green_node_new_def green_len_GreenNode)

lemma ex_readable: "readable red_ex_env ex_plus ex_plus_heap ex_view"
proof -
  have "text_valid red_ex_env ex_interner ex_plus" by (simp add: text_valid_def ex_plus_tokens)
  moreover have "view_cut_ok red_ex_env ex_plus_heap ex_view"
    by (simp add: view_cut_ok_def ex_view_def ex_plus_0 ex_plus_children ex_plus_tokens is_char_boundary_def)
  ultimately show ?thesis
    using ex_plus_wf ex_view_ok by (simp add: readable_def ex_view_def str_data_def documented.text_size_axioms)
qed

section \<open>Properties\<close>

text \<open>Folding over the chunks of a \<open>SyntaxData\<close> visits them lazily from left to right, stopping at the first error or
  panic of the closure, and the chunks put together are exactly the part of the node's text that is in the view's range.\<close>
theorem data_chunks_exact:
  assumes "text_size (en_text E)" "red_wf E g h" "view_ok h v" "text_ok E (sd_resolver v) g"
  shows "\<exists>cs. concat cs = view_bytes E h v \<and>
    (\<forall>k init f. length (view_events h v) < k \<longrightarrow> computes E g h (data_try_fold_chunks k E v init f) (fold_while f init cs))"
  using concat_view_chunks [OF assms(2-4)] red_env.data_try_fold_chunks_eq [OF red_env.intro [OF assms(1)] assms(2-4)] by blast

theorem data_chunks_exact_witness:
  "\<exists>cs. concat cs = [0x2B, 0x61] \<and>
     computes red_ex_env ex_plus ex_plus_heap (data_try_fold_chunks 10 red_ex_env ex_view [] (\<lambda>out c. Inr (Inr (out @ [c]) :: unit + _)))
       (fold_while (\<lambda>out c. Inr (Inr (out @ [c]))) [] cs)"
proof -
  have "text_ok red_ex_env (sd_resolver ex_view) ex_plus" by (simp add: ex_view_def ex_plus_tokens)
  from data_chunks_exact [OF ex_text ex_plus_wf ex_view_ok this] obtain cs where cs: "concat cs = [0x2B, 0x61]"
    "\<forall>k init (f :: bytes list \<Rightarrow> bytes \<Rightarrow> (unit + bytes list) outcome). 6 < k \<longrightarrow>
      computes red_ex_env ex_plus ex_plus_heap (data_try_fold_chunks k red_ex_env ex_view init f) (fold_while f init cs)"
    unfolding ex_view_bytes ex_view_events by (elim exE conjE)
  show ?thesis by (intro exI [of _ cs] conjI cs(1) cs(2) [rule_format]) simp
qed

lemma readable_to_string:
  assumes "readable E g h v" "length (view_events h v) < k"
  shows "computes E g h (text_to_string k E v) (Inr (Str (view_bytes E h v)))"
proof -
  note fold = readable_fold [OF assms] and chunks = readable_chunks [OF assms(1)]
  have "computes E g h (text_to_string k E v)
      (bindO (fold_while (\<lambda>out chunk. Inr (Inr (out @ chunk) :: unit + bytes)) [] (view_chunks E g h v))
        (\<lambda>res. case res of Inr out \<Rightarrow> Inr (Str out) | Inl _ \<Rightarrow> Inl Unreachable))"
    unfolding text_to_string_def by (rule computes_bind [OF fold]) (auto simp: fold_append intro: computes_return)
  then show ?thesis by (simp add: fold_append chunks)
qed

text \<open>C30: Displaying a \<open>SyntaxText\<close> writes the text it stands for, and comparing it with a string says whether that text
  is equal to the string, although neither puts the text together.\<close>
theorem text_content_exact:
  assumes "readable E g h v" "length (view_events h v) < k" "str_valid rhs"
  shows "computes E g h (text_to_string k E v) (Inr (Str (view_bytes E h v))) \<and>
    computes E g h (text_eq_str k E v rhs) (Inr (view_bytes E h v = str_bytes rhs))"
proof
  note fold = readable_fold [OF assms(1,2)] and chunks = readable_chunks [OF assms(1)]
  show "computes E g h (text_to_string k E v) (Inr (Str (view_bytes E h v)))" by (rule readable_to_string [OF assms(1,2)])
  show "computes E g h (text_eq_str k E v rhs) (Inr (view_bytes E h v = str_bytes rhs))"
    unfolding text_eq_str_def
    using computes_bind_return [OF fold, of "str_bytes rhs" "\<lambda>rhs chunk.
         if take (length chunk) rhs \<noteq> chunk then Inr (Inl ())
         else bindO (str_index (Str rhs) (length chunk) (length rhs)) (\<lambda>r. Inr (Inr (str_bytes r)))"
         "\<lambda>r. case r of Inl _ \<Rightarrow> False | Inr rhs \<Rightarrow> rhs = []"] assms(3)
    unfolding fold_eq_str [OF chunks(2) assms(3) [unfolded str_valid_def]] chunks(1)
    by (cases "view_bytes E h v = str_bytes rhs") (auto simp: prefix_def split: if_splits)
qed

theorem text_content_exact_witness:
  "\<exists>h. text_to_string 10 red_ex_env ex_view ex_plus_heap = Inr (Str [0x2B, 0x61], h)"
proof -
  have "str_valid (Str [])" by (simp add: str_valid_def)
  from text_content_exact [OF ex_readable _ this, of 10, THEN conjunct1] show ?thesis
    by (simp add: ex_view_events ex_view_bytes computes_def) blast
qed

text \<open>C31: For a character \<open>c\<close>, \<open>contains_char\<close> says whether the text has it, \<open>find_char\<close> is the position of its first
  occurrence in the text (no occurrence is split between tokens, and no position wraps around), and \<open>char_at\<close> is
  the character at an offset, none from the end on, and a panic inside a character.\<close>
theorem char_functions_exact:
  assumes "readable E g h v" "length (view_events h v) < k" "utf8_char c"
  shows "computes E g h (contains_char k E v c) (Inr (str_find c (view_bytes E h v) \<noteq> None)) \<and>
    computes E g h (find_char k E v c) (Inr (map_option as_u32 (str_find c (view_bytes E h v)))) \<and>
    computes E g h (char_at k E v offset)
      (if length (view_bytes E h v) \<le> unat offset then Inr None
       else if is_char_boundary (view_bytes E h v) (unat offset) then Inr (first_char (drop (unat offset) (view_bytes E h v)))
       else Inl Slice_out_of_range)"
proof (intro conjI)
  note chunks = readable_chunks [OF assms(1)] and fits = readable_fits [OF assms(1)]
  have T: "text_size (en_text E)" using assms(1) by (simp add: readable_def)
  note folded = computes_bind_return [OF readable_fold [OF assms(1,2)]]
  show "computes E g h (contains_char k E v c) (Inr (str_find c (view_bytes E h v) \<noteq> None))"
    using folded [of "()" "\<lambda>_ chunk. Inr (if str_find c chunk \<noteq> None then Inl () else Inr ())" "\<lambda>r. case r of Inl _ \<Rightarrow> True | Inr _ \<Rightarrow> False"]
    unfolding contains_char_def fold_contains [OF assms(3) chunks(2)] chunks(1) by (simp split: if_splits)
  show "computes E g h (find_char k E v c) (Inr (map_option as_u32 (str_find c (view_bytes E h v))))"
    using folded [of 0 "\<lambda>acc chunk. case str_find c chunk of
         Some pos \<Rightarrow> Inr (Inl (ts_add (en_text E) acc (as_u32 pos)))
       | None \<Rightarrow> Inr (Inr (ts_add (en_text E) acc (as_u32 (length chunk))))" found]
      text_size.fold_find [OF T assms(3) chunks(2), of 0] fits
    unfolding find_char_def chunks(1) by simp
  show "computes E g h (char_at k E v offset)
      (if length (view_bytes E h v) \<le> unat offset then Inr None
       else if is_char_boundary (view_bytes E h v) (unat offset) then Inr (first_char (drop (unat offset) (view_bytes E h v)))
       else Inl Slice_out_of_range)"
    using folded [of 0 "\<lambda>start chunk.
       let end = ts_add (en_text E) start (as_u32 (length chunk))
       in if start \<le> offset \<and> offset < end then
            (let off = unat (ts_sub (en_text E) offset start)
             in bindO (str_index (Str chunk) off (length chunk)) (\<lambda>s.
                bindO (unwrap (first_char (str_bytes s))) (\<lambda>c. Inr (Inl c))))
          else Inr (Inr end)" found]
      text_size.fold_char_at [OF T chunks(2), of 0 offset] fits
    unfolding char_at_def chunks(1) by (simp add: Let_def)
qed

theorem char_functions_exact_witness:
  "\<exists>h. find_char 10 red_ex_env ex_view [0x61] ex_plus_heap = Inr (Some 1, h)"
proof -
  have "utf8_char [0x61]" by (simp add: utf8_char_def char_width_def)
  from char_functions_exact [OF ex_readable _ this, of 10, THEN conjunct2, THEN conjunct1] show ?thesis
    by (simp add: ex_view_events ex_view_bytes computes_def) blast
qed

text \<open>The slice of a view, in bytes of its text.\<close>

definition slice_bounds :: "text_ops \<Rightarrow> 'i syntax_data \<Rightarrow> slice_arg \<Rightarrow> nat \<times> nat" where
  "slice_bounds T v arg =
     (case arg_start arg of Some a \<Rightarrow> unat a | None \<Rightarrow> 0,
      case arg_end arg of Some b \<Rightarrow> unat b | None \<Rightarrow> unat (tr_end (sd_range v)) - unat (tr_start (sd_range v)))"

text \<open>What a view with a smaller range stands for.\<close>

lemma view_of_range:
  fixes E :: "('s, 'd, 'i, 'e) env"
  assumes "red_wf E g h" "view_ok h v" "text_ok E (sd_resolver v) g" "a \<le> b" "b \<le> length (view_bytes E h v)"
    and s: "unat (tr_start r) = unat (tr_start (sd_range v)) + a" and e: "unat (tr_end r) = unat (tr_start (sd_range v)) + b"
  shows "view_ok h (v\<lparr>sd_range := r\<rparr>)" "view_bytes E h (v\<lparr>sd_range := r\<rparr>) = take (b - a) (drop a (view_bytes E h v))"
proof -
  let ?s = "tr_start (sd_range v)" and ?e = "tr_end (sd_range v)"
  note len = view_bytes_length [OF assms(1-3)]
  show "view_ok h (v\<lparr>sd_range := r\<rparr>)"
    using assms(2,4,5) s e len by (auto simp: view_ok_def tr_valid_def word_le_nat_alt)
  let ?B = "element_bytes E (sd_resolver v) (Node (nd_green (h ! sd_node v)))" and ?n = "node_start (h ! sd_node v)"
  have n: "unat ?s + a - ?n = a + (unat ?s - ?n)" using assms(2) by (simp add: view_ok_def)
  have "view_bytes E h (v\<lparr>sd_range := r\<rparr>) = take (b - a) (drop (unat ?s + a - ?n) ?B)"
    using s e by (simp add: view_bytes_def del: element_bytes_Node)
  also have "\<dots> = take (b - a) (drop a (take (unat ?e - unat ?s) (drop (unat ?s - ?n) ?B)))"
    using assms(4,5) len unfolding n drop_take take_take drop_drop [symmetric]
    by (simp add: min_def del: drop_drop element_bytes_Node)
  also have "\<dots> = take (b - a) (drop a (view_bytes E h v))" by (simp add: view_bytes_def del: element_bytes_Node)
  finally show "view_bytes E h (v\<lparr>sd_range := r\<rparr>) = take (b - a) (drop a (view_bytes E h v))" .
qed

text \<open>C32: Slicing a \<open>SyntaxText\<close> or \<open>SyntaxData\<close> by any kind of range whose end is a position below \<open>2^32\<close> succeeds exactly when
  the range is not reversed and ends within the text, and the slice stands for that part of the text; else it panics.\<close>
theorem slices_exact:
  assumes "text_size (en_text E)" "red_wf E g h" "view_ok h v" "text_ok E (sd_resolver v) g"
    and "slice_bounds (en_text E) v arg = (a, b)" "unat (tr_start (sd_range v)) + b \<le> u32_max"
  shows "if a \<le> b \<and> b \<le> length (view_bytes E h v) then
      \<exists>w. text_slice (en_text E) v arg = Inr w \<and> data_slice (en_text E) v arg = Inr w \<and> view_ok h w \<and>
        sd_node w = sd_node v \<and> sd_resolver w = sd_resolver v \<and> view_bytes E h w = take (b - a) (drop a (view_bytes E h v))
    else text_slice (en_text E) v arg = Inl (if a \<le> b then Bad_slice else Assertion_failed) \<and>
      data_slice (en_text E) v arg = Inl Assertion_failed"
proof -
  let ?T = "en_text E" and ?s = "tr_start (sd_range v)" and ?e = "tr_end (sd_range v)"
  have valid: "?s \<le> ?e" using assms(3) by (simp add: view_ok_def tr_valid_def)
  have len: "unat (tr_len ?T (sd_range v)) = unat ?e - unat ?s"
    using text_size.len [OF assms(1)] assms(3) valid by (simp add: view_ok_def unat_sub)
  obtain start stop where start_def: "start = (case arg_start arg of Some a \<Rightarrow> a | None \<Rightarrow> 0)"
    and stop_def: "stop = (case arg_end arg of Some b \<Rightarrow> b | None \<Rightarrow> tr_len ?T (sd_range v))" by blast
  have ab: "unat start = a" "unat stop = b"
    using assms(5) len by (auto simp: slice_bounds_def start_def stop_def split: option.splits)
  have le: "start \<le> stop \<longleftrightarrow> a \<le> b" by (simp add: word_le_nat_alt ab)
  have eq_text: "text_slice ?T v arg =
      (if \<not> start \<le> stop then Inl Assertion_failed
       else let len = ts_sub ?T stop start; start = ts_add ?T ?s start; end = ts_add ?T start len
            in if \<not> start \<le> end then Inl Bad_slice
               else let rng = tr_new ?T start end
                    in if \<not> tr_contains_range ?T (sd_range v) rng then Inl Bad_slice else Inr (v\<lparr>sd_range := rng\<rparr>))"
    unfolding text_slice_def text_len_def Let_def start_def stop_def by (rule refl)
  have eq_data: "data_slice ?T v arg =
      (if \<not> start \<le> stop then Inl Assertion_failed
       else let len = ts_sub ?T stop start; start = ts_add ?T ?s start; end = ts_add ?T start len; rng = tr_new ?T start end
            in if \<not> tr_contains_range ?T (sd_range v) rng then Inl Assertion_failed else Inr (v\<lparr>sd_range := rng\<rparr>))"
    unfolding data_slice_def data_len_def Let_def start_def stop_def by (rule refl)
  show ?thesis
  proof (cases "a \<le> b")
    case False
    then show ?thesis by (simp add: eq_text eq_data le)
  next
    case True
    have l: "unat (ts_sub ?T stop start) = b - a"
      using text_size.unat_sub_fits [OF assms(1), of start stop] le True ab by simp
    have s: "unat (ts_add ?T ?s start) = unat ?s + a"
      using text_size.unat_add_fits [OF assms(1), of ?s start] assms(6) ab True by simp
    have e: "unat (ts_add ?T (ts_add ?T ?s start) (ts_sub ?T stop start)) = unat ?s + b"
      using text_size.unat_add_fits [OF assms(1), of "ts_add ?T ?s start" "ts_sub ?T stop start"] s l assms(6) True by simp
    let ?rng = "\<lparr>tr_start = ts_add ?T ?s start, tr_end = ts_add ?T (ts_add ?T ?s start) (ts_sub ?T stop start)\<rparr>"
    have ordered: "tr_start ?rng \<le> tr_end ?rng" using s e True by (simp add: word_le_nat_alt)
    have new: "tr_new ?T (tr_start ?rng) (tr_end ?rng) = ?rng"
      using text_size.new [OF assms(1) ordered] by simp
    have contains: "tr_contains_range ?T (sd_range v) ?rng \<longleftrightarrow> b \<le> length (view_bytes E h v)"
      using text_size.contains_range [OF assms(1), of "sd_range v" ?rng] ordered assms(3) s e valid
        view_bytes_length [OF assms(2-4)]
      by (auto simp: view_ok_def tr_valid_def word_le_nat_alt)
    let ?w = "v\<lparr>sd_range := ?rng\<rparr>"
    have "text_slice ?T v arg = (if b \<le> length (view_bytes E h v) then Inr ?w else Inl Bad_slice)"
      "data_slice ?T v arg = (if b \<le> length (view_bytes E h v) then Inr ?w else Inl Assertion_failed)"
      using True le new ordered contains by (simp_all add: eq_text eq_data Let_def)
    then show ?thesis
      using True view_of_range [OF assms(2-4) True, of ?rng] s e by auto
  qed
qed

theorem slices_exact_witness:
  "\<exists>w. text_slice documented_text_ops ex_view (Arg_RangeFrom 1) = Inr w \<and> view_bytes red_ex_env ex_plus_heap w = [0x61]"
proof -
  have ok: "text_ok red_ex_env (sd_resolver ex_view) ex_plus" by (simp add: ex_view_def ex_plus_tokens)
  have "slice_bounds (en_text red_ex_env) ex_view (Arg_RangeFrom 1) = (1, 2)" by (simp add: slice_bounds_def ex_view_def)
  from slices_exact [OF ex_text ex_plus_wf ex_view_ok ok this] show ?thesis
    unfolding ex_view_bytes by (auto simp: ex_view_def u32_max_def)
qed

end
