(* ===== verification/Syntax_Text_Eq.thy ===== *)
theory Syntax_Text_Eq
  imports Syntax_Text_Theorems
begin

text \<open>
  The comparison of two \<open>SyntaxText\<close>s, which are walked side by side. \<open>zip_texts\<close> is generic in
  the two iterators; the locale \<open>text_world\<close> is what it needs of them, and of the state they share:
  the heap of one tree, or of two.
\<close>

section \<open>Iterators of pieces\<close>

text \<open>In \<open>w\<close> and whenever the state has grown, the text at \<open>x\<close> reads as \<open>c\<close>, and its end as the end of \<open>c\<close>.\<close>

definition reads_as :: "('w \<Rightarrow> bool) \<Rightarrow> ('w \<Rightarrow> 'w \<Rightarrow> bool) \<Rightarrow> ('a \<times> text_range \<Rightarrow> 'w \<Rightarrow> rust_str outcome) \<Rightarrow>
  'w \<Rightarrow> 'a \<times> text_range \<Rightarrow> bytes \<Rightarrow> bool" where
  "reads_as ok le rd w x c \<longleftrightarrow> tr_valid (snd x) \<and> unat (tr_end (snd x)) = unat (tr_start (snd x)) + length c \<and> utf8_valid c \<and>
     (\<forall>w' i. ok w' \<longrightarrow> le w w' \<longrightarrow> i \<le> length c \<longrightarrow> utf8_valid (drop i c) \<longrightarrow>
        rd (fst x, \<lparr>tr_start = tr_start (snd x) + as_u32 i, tr_end = tr_end (snd x)\<rparr>) w' = Inr (Str (drop i c)))"

text \<open>The iterator yields items that read as the strings of a list, and nothing after them.\<close>

fun streams :: "('w \<Rightarrow> bool) \<Rightarrow> ('w \<Rightarrow> 'w \<Rightarrow> bool) \<Rightarrow> ('a \<times> text_range \<Rightarrow> 'w \<Rightarrow> rust_str outcome) \<Rightarrow>
  ('t \<Rightarrow> 'w \<Rightarrow> ((('a \<times> text_range) option \<times> 't) \<times> 'w) outcome) \<Rightarrow> 'w \<Rightarrow> 't \<Rightarrow> bytes list \<Rightarrow> bool" where
  "streams ok le rd nx w it [] \<longleftrightarrow>
     (\<forall>w'. ok w' \<longrightarrow> le w w' \<longrightarrow> (\<exists>it' w''. nx it w' = Inr ((None, it'), w'') \<and> ok w'' \<and> le w' w'' \<and>
        (\<forall>u. nx it' u = Inr ((None, it'), u))))"
| "streams ok le rd nx w it (c # cs) \<longleftrightarrow>
     (\<forall>w'. ok w' \<longrightarrow> le w w' \<longrightarrow> (\<exists>x it' w''. nx it w' = Inr ((Some x, it'), w'') \<and> ok w'' \<and> le w' w'' \<and>
        reads_as ok le rd w'' x c \<and> streams ok le rd nx w'' it' cs))"

locale text_world = text_size T for T :: text_ops +
  fixes ok :: "'w \<Rightarrow> bool" and le :: "'w \<Rightarrow> 'w \<Rightarrow> bool"
  assumes le_refl: "le w w" and le_trans: "le u v \<Longrightarrow> le v w \<Longrightarrow> le u w"
begin

lemma later: "\<forall>w'. ok w' \<longrightarrow> le w w' \<longrightarrow> R w' \<Longrightarrow> le w v \<Longrightarrow> \<forall>w'. ok w' \<longrightarrow> le v w' \<longrightarrow> R w'"
  using le_trans by blast

lemma reads_as_le:
  assumes "le w v" "reads_as ok le rd w x c"
  shows "reads_as ok le rd v x c"
  using assms(2) later [OF _ assms(1), of "\<lambda>w'. \<forall>i. i \<le> length c \<longrightarrow> utf8_valid (drop i c) \<longrightarrow>
      rd (fst x, \<lparr>tr_start = tr_start (snd x) + as_u32 i, tr_end = tr_end (snd x)\<rparr>) w' = Inr (Str (drop i c))"]
  unfolding reads_as_def by blast

lemma streams_le: "le w v \<Longrightarrow> streams ok le rd nx w it cs \<Longrightarrow> streams ok le rd nx v it cs"
  by (cases cs) (simp_all only: streams.simps, (erule (1) later)+)

lemma streams_done: "ok w \<Longrightarrow> (\<And>u. nx it u = Inr ((None, it), u)) \<Longrightarrow> streams ok le rd nx w it []"
  using le_refl by auto

lemma reads_as_read:
  assumes "reads_as ok le rd w x c" "ok w"
  shows "rd x w = Inr (Str c)"
proof -
  have x: "x = (fst x, \<lparr>tr_start = tr_start (snd x) + as_u32 0, tr_end = tr_end (snd x)\<rparr>)" by (cases x) simp
  from assms have "utf8_valid (drop 0 c) \<longrightarrow>
      rd (fst x, \<lparr>tr_start = tr_start (snd x) + as_u32 0, tr_end = tr_end (snd x)\<rparr>) w = Inr (Str (drop 0 c))"
    using le_refl [of w] unfolding reads_as_def by blast
  moreover have "utf8_valid c" using assms(1) by (simp add: reads_as_def)
  ultimately show ?thesis by (subst x) simp
qed

lemma reads_as_empty: "reads_as ok le rd w x c \<Longrightarrow> tr_is_empty T (snd x) \<longleftrightarrow> c = []"
  using is_empty [of "snd x"] by (auto simp: reads_as_def word_unat_eq_iff)

lemma reads_as_len: "reads_as ok le rd w x c \<Longrightarrow> unat (tr_len T (snd x)) = length c"
  using len [of "snd x"] by (simp add: reads_as_def unat_sub tr_valid_def)

lemma reads_as_advance:
  assumes x: "reads_as ok le rd w x c" and i: "unat n \<le> length c" and valid: "utf8_valid (drop (unat n) c)"
  shows "reads_as ok le rd w (fst x, tr_new T (ts_add T (tr_start (snd x)) n) (tr_end (snd x))) (drop (unat n) c)"
proof -
  let ?s = "tr_start (snd x)" and ?e = "tr_end (snd x)"
  have e: "unat ?e = unat ?s + length c" and fits: "unat ?s + unat n \<le> u32_max"
    using x i unat_le_u32_max [of ?e] by (simp_all add: reads_as_def)
  have s: "ts_add T ?s n = ?s + n" "unat (?s + n) = unat ?s + unat n"
    using add [OF fits] unat_add_fits [OF fits] by simp_all
  have le: "?s + n \<le> ?e" using s(2) e i by (simp add: word_le_nat_alt)
  have new: "tr_new T (?s + n) ?e = \<lparr>tr_start = ?s + n, tr_end = ?e\<rparr>" by (rule new [OF le])
  have "rd (fst x, \<lparr>tr_start = ?s + n + as_u32 j, tr_end = ?e\<rparr>) w' = Inr (Str (drop j (drop (unat n) c)))"
    if "ok w'" "le w w'" "j \<le> length (drop (unat n) c)" "utf8_valid (drop j (drop (unat n) c))" for w' j
  proof -
    have "unat n + j \<le> length c" "utf8_valid (drop (unat n + j) c)" using that i by (simp_all add: add.commute)
    with x that(1,2) have "rd (fst x, \<lparr>tr_start = ?s + as_u32 (unat n + j), tr_end = ?e\<rparr>) w' = Inr (Str (drop (unat n + j) c))"
      unfolding reads_as_def by blast
    then show ?thesis by (simp add: ac_simps)
  qed
  with s(1,2) le e i valid new show ?thesis by (simp add: reads_as_def tr_valid_def)
qed

lemma skip_empty_spec:
  "reads_as ok le rd w x c \<Longrightarrow> streams ok le rd nx w xs cs \<Longrightarrow> ok w \<Longrightarrow> length cs < k \<Longrightarrow>
   \<exists>r xs' w'. skip_empty k T nx x xs w = Inr ((r, xs'), w') \<and> ok w' \<and> le w w' \<and>
     (case r of
        None \<Rightarrow> c @ concat cs = [] \<and> streams ok le rd nx w' xs' []
      | Some y \<Rightarrow> \<exists>d ds. d \<noteq> [] \<and> reads_as ok le rd w' y d \<and> streams ok le rd nx w' xs' ds \<and>
          d @ concat ds = c @ concat cs \<and> length ds \<le> length cs)"
proof (induction k arbitrary: w x c xs cs)
  case (Suc k)
  show ?case
  proof (cases "c = []")
    case False
    with Suc.prems reads_as_empty [OF Suc.prems(1)] le_refl show ?thesis by (auto intro!: exI [of _ c] exI [of _ cs])
  next
    case True
    then have empty: "tr_is_empty T (snd x)" using reads_as_empty [OF Suc.prems(1)] by simp
    show ?thesis
    proof (cases cs)
      case Nil
      with Suc.prems(2,3) le_refl obtain xs' w' where s: "nx xs w = Inr ((None, xs'), w')" "ok w'" "le w w'"
        "\<forall>u. nx xs' u = Inr ((None, xs'), u)" by auto
      with streams_done [of w' nx xs'] empty True Nil show ?thesis by simp
    next
      case (Cons d ds)
      with Suc.prems(2,3) le_refl obtain y xs' w' where s: "nx xs w = Inr ((Some y, xs'), w')" "ok w'" "le w w'"
        "reads_as ok le rd w' y d" "streams ok le rd nx w' xs' ds" by auto
      from Suc.IH [OF s(4,5,2)] Cons Suc.prems(4) obtain r xs'' w'' where
        t: "skip_empty k T nx y xs' w' = Inr ((r, xs''), w'')" "ok w''" "le w' w''"
        "case r of
           None \<Rightarrow> d @ concat ds = [] \<and> streams ok le rd nx w'' xs'' []
         | Some y \<Rightarrow> \<exists>e es. e \<noteq> [] \<and> reads_as ok le rd w'' y e \<and> streams ok le rd nx w'' xs'' es \<and>
             e @ concat es = d @ concat ds \<and> length es \<le> length ds" by auto
      have "skip_empty (Suc k) T nx x xs w = Inr ((r, xs''), w'')" using empty s(1) t(1) by simp
      moreover have "le w w''" using s(3) t(3) by (rule le_trans)
      ultimately show ?thesis using t(2,4) True Cons by (auto split: option.splits intro: le_SucI)
    qed
  qed
qed simp

lemma all_empty_spec:
  "streams ok le rd nx w xs cs \<Longrightarrow> ok w \<Longrightarrow> concat cs = [] \<Longrightarrow> length cs < k \<Longrightarrow>
   \<exists>w'. all_empty k T nx xs w = Inr (True, w') \<and> ok w' \<and> le w w'"
proof (induction k arbitrary: w xs cs)
  case (Suc k)
  show ?case
  proof (cases cs)
    case Nil
    with Suc.prems(1,2) le_refl obtain xs' w' where "nx xs w = Inr ((None, xs'), w')" "ok w'" "le w w'" by auto
    then show ?thesis by simp
  next
    case (Cons c ds)
    with Suc.prems(1,2) le_refl obtain x xs' w' where s: "nx xs w = Inr ((Some x, xs'), w')" "ok w'" "le w w'"
      "reads_as ok le rd w' x c" "streams ok le rd nx w' xs' ds" by auto
    from Suc.IH [OF s(5,2)] Cons Suc.prems(3,4) obtain w'' where "all_empty k T nx xs' w' = Inr (True, w'')" "ok w''" "le w' w''"
      by auto
    with s reads_as_empty [OF s(4)] Cons Suc.prems(3) le_trans [OF s(3)] show ?thesis by auto
  qed
qed simp

text \<open>What \<open>zip_texts\<close> leaves behind.\<close>

definition zipped :: "('a \<times> text_range \<Rightarrow> 'w \<Rightarrow> rust_str outcome) \<Rightarrow> ('b \<times> text_range \<Rightarrow> 'w \<Rightarrow> rust_str outcome) \<Rightarrow>
  ('t \<Rightarrow> 'w \<Rightarrow> ((('a \<times> text_range) option \<times> 't) \<times> 'w) outcome) \<Rightarrow>
  ('u \<Rightarrow> 'w \<Rightarrow> ((('b \<times> text_range) option \<times> 'u) \<times> 'w) outcome) \<Rightarrow>
  bool \<Rightarrow> 'w \<Rightarrow> nat \<Rightarrow> ((unit option \<times> 't \<times> 'u) \<times> 'w) outcome \<Rightarrow> bool" where
  "zipped tx ty nx ny equal w n r \<longleftrightarrow>
     (\<exists>s xs ys w'. r = Inr ((s, xs, ys), w') \<and> ok w' \<and> le w w' \<and> (s = None \<longleftrightarrow> equal) \<and>
        (s = None \<longrightarrow> (\<exists>cs ds. streams ok le tx nx w' xs cs \<and> streams ok le ty ny w' ys ds \<and>
           concat cs = [] \<and> concat ds = [] \<and> length cs \<le> n \<and> length ds \<le> n)))"

lemma zipped_le: "le w w' \<Longrightarrow> m \<le> n \<Longrightarrow> zipped tx ty nx ny equal w' m r \<Longrightarrow> zipped tx ty nx ny equal w n r"
proof -
  assume le: "le w w'" and mn: "m \<le> n" and z: "zipped tx ty nx ny equal w' m r"
  from z obtain s xs ys w1 where r: "r = Inr ((s, xs, ys), w1)" "ok w1" "le w' w1" "s = None \<longleftrightarrow> equal"
    "s = None \<longrightarrow> (\<exists>cs ds. streams ok le tx nx w1 xs cs \<and> streams ok le ty ny w1 ys ds \<and>
       concat cs = [] \<and> concat ds = [] \<and> length cs \<le> m \<and> length ds \<le> m)" unfolding zipped_def by blast
  from r(5) mn have "s = None \<longrightarrow> (\<exists>cs ds. streams ok le tx nx w1 xs cs \<and> streams ok le ty ny w1 ys ds \<and>
       concat cs = [] \<and> concat ds = [] \<and> length cs \<le> n \<and> length ds \<le> n)" using order_trans by blast
  with r(1,2,4) le_trans [OF le r(3)] show ?thesis unfolding zipped_def by blast
qed

lemma zippedI:
  assumes "r = Inr ((None, xs, ys), w')" "ok w'" "le w w'" equal "streams ok le tx nx w' xs cs" "streams ok le ty ny w' ys ds"
    "concat cs = []" "concat ds = []" "length cs \<le> n" "length ds \<le> n"
  shows "zipped tx ty nx ny equal w n r"
  unfolding zipped_def using assms by blast

lemma zip_loop_spec:
  "reads_as ok le tx w x c \<Longrightarrow> streams ok le tx nx w xs cs \<Longrightarrow> reads_as ok le ty w y d \<Longrightarrow> streams ok le ty ny w ys ds \<Longrightarrow>
   ok w \<Longrightarrow> length (c @ concat cs) = length (d @ concat ds) \<Longrightarrow>
   length (c @ concat cs) + length cs + length ds + 1 < k \<Longrightarrow>
   zipped tx ty nx ny (c @ concat cs = d @ concat ds) w (length cs + length ds) (zip_loop k T nx ny tx ty x y xs ys w)"
proof (induction k arbitrary: w x c xs cs y d ys ds)
  case (Suc k)
  let ?Z = "zipped tx ty nx ny (c @ concat cs = d @ concat ds) w (length cs + length ds)"
  from skip_empty_spec [OF Suc.prems(1,2,5), of k] Suc.prems(7) obtain r xs1 w1 where
    1: "skip_empty k T nx x xs w = Inr ((r, xs1), w1)" "ok w1" "le w w1"
    "case r of
       None \<Rightarrow> c @ concat cs = [] \<and> streams ok le tx nx w1 xs1 []
     | Some y \<Rightarrow> \<exists>d ds. d \<noteq> [] \<and> reads_as ok le tx w1 y d \<and> streams ok le tx nx w1 xs1 ds \<and>
         d @ concat ds = c @ concat cs \<and> length ds \<le> length cs" by auto
  note ys1 = streams_le [OF 1(3) Suc.prems(4)] and y1 = reads_as_le [OF 1(3) Suc.prems(3)]
  show ?case
  proof (cases r)
    case None
    with 1(4) have e: "c @ concat cs = []" "streams ok le tx nx w1 xs1 []" by simp_all
    then have e2: "d @ concat ds = []" using Suc.prems(6) by (metis length_0_conv)
    have "zip_loop (Suc k) T nx ny tx ty x y xs ys w = Inr ((None, xs1, ys), w1)" using 1(1) None by simp
    then show ?thesis by (rule zippedI [OF _ 1(2,3) _ e(2) ys1]) (use e(1) e2 in \<open>simp_all del: concat_eq_Nil_conv\<close>)
  next
    case (Some x1)
    with 1(4) obtain c1 cs1 where x1: "c1 \<noteq> []" "reads_as ok le tx w1 x1 c1" "streams ok le tx nx w1 xs1 cs1"
      "c1 @ concat cs1 = c @ concat cs" "length cs1 \<le> length cs" by auto
    from skip_empty_spec [OF y1 ys1 1(2), of k] Suc.prems(7) obtain q ys2 w2 where
      2: "skip_empty k T ny y ys w1 = Inr ((q, ys2), w2)" "ok w2" "le w1 w2"
      "case q of
         None \<Rightarrow> d @ concat ds = [] \<and> streams ok le ty ny w2 ys2 []
       | Some y \<Rightarrow> \<exists>e es. e \<noteq> [] \<and> reads_as ok le ty w2 y e \<and> streams ok le ty ny w2 ys2 es \<and>
           e @ concat es = d @ concat ds \<and> length es \<le> length ds" by auto
    have "c @ concat cs \<noteq> []" using x1(1) unfolding x1(4) [symmetric] by simp
    then have "d @ concat ds \<noteq> []" using Suc.prems(6) by (metis length_0_conv)
    with 2(4) obtain y2 where q: "q = Some y2" by (cases q) auto
    with 2(4) obtain d2 ds2 where y2: "d2 \<noteq> []" "reads_as ok le ty w2 y2 d2" "streams ok le ty ny w2 ys2 ds2"
      "d2 @ concat ds2 = d @ concat ds" "length ds2 \<le> length ds" by auto
    note x2 = reads_as_le [OF 2(3) x1(2)] and xs2 = streams_le [OF 2(3) x1(3)]
    note le2 = le_trans [OF 1(3) 2(3)]
    have texts: "tx x1 w2 = Inr (Str c1)" "ty y2 w2 = Inr (Str d2)"
      using reads_as_read [OF x2 2(2)] reads_as_read [OF y2(2) 2(2)] by simp_all
    let ?adv = "min (tr_len T (snd x1)) (tr_len T (snd y2))" and ?n = "min (length c1) (length d2)"
    have adv: "unat ?adv = ?n"
      using reads_as_len [OF x2] reads_as_len [OF y2(2)] by (simp add: min_def word_le_nat_alt)
    show ?thesis
    proof (cases "starts_with (Str c1) (Str d2) \<or> starts_with (Str d2) (Str c1)")
      case False
      then have "\<not> (take (length d2) c1 = d2 \<or> take (length c1) d2 = c1)" by (simp add: starts_with_def)
      then have "c1 @ concat cs1 \<noteq> d2 @ concat ds2" by (auto simp: append_eq_append_conv2)
      moreover have "zip_loop (Suc k) T nx ny tx ty x y xs ys w = Inr ((Some (), xs1, ys2), w2)"
        using 1(1) 2(1) Some q texts False by simp
      ultimately show ?thesis using 2(2) le2 x1(4) y2(4) by (auto simp: zipped_def)
    next
      case True
      then have same: "take ?n c1 = take ?n d2" by (auto simp: starts_with_def min_def)
      have valid: "utf8_valid c1" "utf8_valid d2" using x2 y2(2) by (simp_all add: reads_as_def)
      have drops: "utf8_valid (drop ?n c1)" "utf8_valid (drop ?n d2)"
      proof -
        have "utf8_valid (take ?n c1)" using valid same by (cases "length c1 \<le> length d2") (simp_all add: min_def)
        with valid utf8_valid_append same show "utf8_valid (drop ?n c1)" "utf8_valid (drop ?n d2)"
          by (metis append_take_drop_id)+
      qed
      let ?x = "(fst x1, tr_new T (ts_add T (tr_start (snd x1)) ?adv) (tr_end (snd x1)))"
      let ?y = "(fst y2, tr_new T (ts_add T (tr_start (snd y2)) ?adv) (tr_end (snd y2)))"
      have x3: "reads_as ok le tx w2 ?x (drop ?n c1)" and y3: "reads_as ok le ty w2 ?y (drop ?n d2)"
        using reads_as_advance [OF x2, of ?adv] reads_as_advance [OF y2(2), of ?adv] drops unfolding adv by simp_all
      have run: "zip_loop (Suc k) T nx ny tx ty x y xs ys w = zip_loop k T nx ny tx ty ?x ?y xs1 ys2 w2"
        using 1(1) 2(1) Some q texts True by (auto simp: Let_def)
      have eq: "(drop ?n c1 @ concat cs1 = drop ?n d2 @ concat ds2) \<longleftrightarrow> (c @ concat cs = d @ concat ds)"
        using same x1(4) y2(4) by (metis append.assoc append_take_drop_id same_append_eq)
      have n: "0 < ?n" using x1(1) y2(1) by simp
      have lens: "length (drop ?n c1 @ concat cs1) = length (drop ?n d2 @ concat ds2)"
        "length (drop ?n c1 @ concat cs1) < length (c @ concat cs)"
      proof -
        have "length c1 + length (concat cs1) = length d2 + length (concat ds2)"
          "length c1 + length (concat cs1) = length (c @ concat cs)"
          using Suc.prems(6) x1(4) [symmetric] y2(4) [symmetric] by simp_all
        then show "length (drop ?n c1 @ concat cs1) = length (drop ?n d2 @ concat ds2)"
          "length (drop ?n c1 @ concat cs1) < length (c @ concat cs)" using n by simp_all
      qed
      have "zipped tx ty nx ny (drop ?n c1 @ concat cs1 = drop ?n d2 @ concat ds2) w2 (length cs1 + length ds2)
          (zip_loop k T nx ny tx ty ?x ?y xs1 ys2 w2)"
        by (rule Suc.IH [OF x3 xs2 y3 y2(3) 2(2) lens(1)]) (use lens(2) Suc.prems(7) x1(5) y2(5) in linarith)
      then show ?thesis unfolding run eq by (rule zipped_le [OF le2, rotated]) (use x1(5) y2(5) in simp)
    qed
  qed
qed simp

theorem text_eq_spec:
  assumes "streams ok le tx nx w xs cs" "streams ok le ty ny w ys ds" "ok w"
    and "unat (tr_len T r1) = length (concat cs)" "unat (tr_len T r2) = length (concat ds)"
    and "length (concat cs) + length cs + length ds + 2 < k"
  shows "\<exists>w'. text_eq k T nx ny tx ty r1 r2 xs ys w = Inr (concat cs = concat ds, w') \<and> ok w' \<and> le w w'"
proof (cases "tr_len T r1 = tr_len T r2")
  case False
  then have "concat cs \<noteq> concat ds" using assms(4,5) by (metis word_unat_eq_iff)
  with False assms(3) le_refl show ?thesis by (auto simp: text_eq_def)
next
  case True
  then have lens: "length (concat cs) = length (concat ds)" using assms(4,5) by simp
  have "zipped tx ty nx ny (concat cs = concat ds) w (length cs + length ds) (zip_texts k T nx ny tx ty xs ys w)"
  proof (cases cs)
    case Nil
    with assms(1,3) le_refl obtain xs1 w1 where s: "nx xs w = Inr ((None, xs1), w1)" "ok w1" "le w w1"
      "\<forall>u. nx xs1 u = Inr ((None, xs1), u)" by auto
    have none: "streams ok le tx nx w1 xs1 []" using s(2,4) by (intro streams_done) simp_all
    show ?thesis
      by (rule zippedI [OF _ s(2,3) _ none streams_le [OF s(3) assms(2)]])
        (use s(1) lens Nil in \<open>simp_all add: zip_texts_def\<close>)
  next
    case (Cons c cs1)
    with assms(1,3) le_refl obtain x xs1 w1 where s: "nx xs w = Inr ((Some x, xs1), w1)" "ok w1" "le w w1"
      "reads_as ok le tx w1 x c" "streams ok le tx nx w1 xs1 cs1" by auto
    note ys1 = streams_le [OF s(3) assms(2)]
    show ?thesis
    proof (cases ds)
      case Nil
      with ys1 s(2) le_refl obtain ys2 w2 where t: "ny ys w1 = Inr ((None, ys2), w2)" "ok w2" "le w1 w2"
        "\<forall>u. ny ys2 u = Inr ((None, ys2), u)" by auto
      have none: "streams ok le ty ny w2 ys2 []" using t(2,4) by (intro streams_done) simp_all
      show ?thesis
        by (rule zippedI [OF _ t(2) le_trans [OF s(3) t(3)] _ streams_le [OF t(3) s(5)] none])
          (use s(1) t(1) lens Nil Cons in \<open>simp_all add: zip_texts_def\<close>)
    next
      case Cons': (Cons d ds2)
      with ys1 s(2) le_refl obtain y ys2 w2 where t: "ny ys w1 = Inr ((Some y, ys2), w2)" "ok w2" "le w1 w2"
        "reads_as ok le ty w2 y d" "streams ok le ty ny w2 ys2 ds2" by auto
      have "zipped tx ty nx ny (c @ concat cs1 = d @ concat ds2) w2 (length cs1 + length ds2)
          (zip_loop k T nx ny tx ty x y xs1 ys2 w2)"
        by (rule zip_loop_spec [OF reads_as_le [OF t(3) s(4)] streams_le [OF t(3) s(5)] t(4,5,2)])
          (use lens Cons Cons' assms(6) in simp_all)
      then have "zipped tx ty nx ny (c @ concat cs1 = d @ concat ds2) w (length cs + length ds)
          (zip_loop k T nx ny tx ty x y xs1 ys2 w2)"
        by (rule zipped_le [OF le_trans [OF s(3) t(3)], rotated]) (simp add: Cons Cons')
      with s(1) t(1) Cons Cons' show ?thesis by (simp add: zip_texts_def)
    qed
  qed
  then obtain r xs1 ys1 w1 where z: "zip_texts k T nx ny tx ty xs ys w = Inr ((r, xs1, ys1), w1)" "ok w1" "le w w1"
    "r = None \<longleftrightarrow> concat cs = concat ds"
    "r = None \<Longrightarrow> \<exists>cs' ds'. streams ok le tx nx w1 xs1 cs' \<and> streams ok le ty ny w1 ys1 ds' \<and>
       concat cs' = [] \<and> concat ds' = [] \<and> length cs' \<le> length cs + length ds \<and> length ds' \<le> length cs + length ds"
    unfolding zipped_def by blast
  show ?thesis
  proof (cases r)
    case (Some u)
    with z True show ?thesis by (auto simp: text_eq_def)
  next
    case None
    with z(5) obtain cs' ds' where e: "streams ok le tx nx w1 xs1 cs'" "streams ok le ty ny w1 ys1 ds'" "concat cs' = []"
      "concat ds' = []" "length cs' \<le> length cs + length ds" "length ds' \<le> length cs + length ds" by blast
    from all_empty_spec [OF e(1) z(2) e(3), of k] e(5) assms(6) obtain w2 where
      2: "all_empty k T nx xs1 w1 = Inr (True, w2)" "ok w2" "le w1 w2" by auto
    from all_empty_spec [OF streams_le [OF 2(3) e(2)] 2(2) e(4), of k] e(6) assms(6) obtain w3 where
      3: "all_empty k T ny ys1 w2 = Inr (True, w3)" "ok w3" "le w2 w3" by auto
    from z None True 2 3 le_trans [OF z(3) le_trans [OF 2(3) 3(3)]] show ?thesis by (simp add: text_eq_def)
  qed
qed

end

section \<open>The worlds of the program\<close>

text \<open>The heap of one tree, and the heaps of two.\<close>

lemma world_one: "text_size (en_text E) \<Longrightarrow> text_world (en_text E) (heap_le :: ('j, 'x) heap \<Rightarrow> _)"
  by (simp add: text_world_def text_world_axioms_def) (blast intro: heap_le_trans)

definition both :: "('a \<Rightarrow> bool) \<Rightarrow> ('b \<Rightarrow> bool) \<Rightarrow> 'a \<times> 'b \<Rightarrow> bool" where
  "both P Q = (\<lambda>(a, b). P a \<and> Q b)"

definition le_both :: "('j, 'x) heap \<times> ('j2, 'x2) heap \<Rightarrow> ('j, 'x) heap \<times> ('j2, 'x2) heap \<Rightarrow> bool" where
  "le_both = (\<lambda>(h, h2) (k, k2). heap_le h k \<and> heap_le h2 k2)"

lemma both_simps [simp]:
  "both P Q (a, b) \<longleftrightarrow> P a \<and> Q b"
  "le_both (h, h2) (k, k2) \<longleftrightarrow> heap_le h k \<and> heap_le h2 k2"
  "on_fst nx it (a, b) = bindO (nx it a) (\<lambda>(x, a). Inr (x, a, b))"
  "on_snd ny it2 (a, b) = bindO (ny it2 b) (\<lambda>(x, b). Inr (x, a, b))"
  by (simp_all add: both_def le_both_def on_fst_def on_snd_def)

lemma world_two: "text_size (en_text E) \<Longrightarrow> text_world (en_text E) (le_both :: ('j, 'x) heap \<times> ('j2, 'x2) heap \<Rightarrow> _)"
  by (simp add: text_world_def text_world_axioms_def le_both_def) (blast intro: heap_le_trans)

interpretation one_tree: text_world "en_text (test_env H debug)" "red_wf (test_env H debug) g" heap_le for H debug g
  by (rule world_one, rule ex_text)

interpretation two_trees: text_world "en_text (test_env H debug)" "both (red_wf (test_env H debug) g) (red_wf (test_env H debug) g2)" le_both
  for H debug g g2
  by (rule world_two, rule ex_text)

text \<open>An iterator on one of two heaps.\<close>

lemma streams_fst:
  assumes "streams (red_wf E g) heap_le rd nx h it cs"
  shows "streams (both (red_wf E g) ok) le_both (\<lambda>x (h, _). rd x h) (on_fst nx) (h, h2) it cs"
  using assms
proof (induction cs arbitrary: h h2 it)
  case Nil
  then show ?case by force
next
  case (Cons c cs)
  show ?case unfolding streams.simps
  proof (intro allI impI)
    fix w' assume w': "both (red_wf E g) ok w'" "le_both (h, h2) w'"
    obtain k k2 where kk: "w' = (k, k2)" by (cases w')
    with Cons.prems w' obtain x it' k' where s: "nx it k = Inr ((Some x, it'), k')" "red_wf E g k'" "heap_le k k'"
      "reads_as (red_wf E g) heap_le rd k' x c" "streams (red_wf E g) heap_le rd nx k' it' cs"
      by auto
    have "reads_as (both (red_wf E g) ok) le_both (\<lambda>x (h, _). rd x h) (k', k2) x c"
      using s(4) by (auto simp: reads_as_def)
    with s Cons.IH [OF s(5)] kk w' show "\<exists>x it' w''. on_fst nx it w' = Inr ((Some x, it'), w'') \<and>
        both (red_wf E g) ok w'' \<and> le_both w' w'' \<and> reads_as (both (red_wf E g) ok) le_both (\<lambda>x (h, _). rd x h) w'' x c \<and>
        streams (both (red_wf E g) ok) le_both (\<lambda>x (h, _). rd x h) (on_fst nx) w'' it' cs"
      by (intro exI [of _ x] exI [of _ it'] exI [of _ "(k', k2)"]) simp
  qed
qed

lemma streams_snd:
  assumes "streams (red_wf E g) heap_le rd nx h it cs"
  shows "streams (both ok (red_wf E g)) le_both (\<lambda>x (_, h). rd x h) (on_snd nx) (h2, h) it cs"
  using assms
proof (induction cs arbitrary: h h2 it)
  case Nil
  then show ?case by force
next
  case (Cons c cs)
  show ?case unfolding streams.simps
  proof (intro allI impI)
    fix w' assume w': "both ok (red_wf E g) w'" "le_both (h2, h) w'"
    obtain k k2 where kk: "w' = (k2, k)" by (cases w')
    with Cons.prems w' obtain x it' k' where s: "nx it k = Inr ((Some x, it'), k')" "red_wf E g k'" "heap_le k k'"
      "reads_as (red_wf E g) heap_le rd k' x c" "streams (red_wf E g) heap_le rd nx k' it' cs"
      by auto
    have "reads_as (both ok (red_wf E g)) le_both (\<lambda>x (_, h). rd x h) (k2, k') x c"
      using s(4) by (auto simp: reads_as_def)
    with s Cons.IH [OF s(5)] kk w' show "\<exists>x it' w''. on_snd nx it w' = Inr ((Some x, it'), w'') \<and>
        both ok (red_wf E g) w'' \<and> le_both w' w'' \<and> reads_as (both ok (red_wf E g)) le_both (\<lambda>x (_, h). rd x h) w'' x c \<and>
        streams (both ok (red_wf E g)) le_both (\<lambda>x (_, h). rd x h) (on_snd nx) w'' it' cs"
      by (intro exI [of _ x] exI [of _ it'] exI [of _ "(k2, k')"]) simp
  qed
qed

section \<open>The iterator of a text\<close>

lemma text_item_reads:
  fixes E :: "('s, rust_str, 'i, 'e) env" and h' :: "('j, 'x) heap"
  assumes r: "readable E g h v" and i: "red_wf E g h'" "piece_item h' i x" "x \<in> set (view_pieces g h v)"
  shows "reads_as (red_wf E g) heap_le (\<lambda>i h. text_chunk E h (sd_resolver v) i) h' i (piece_bytes E (sd_resolver v) g x)"
proof -
  obtain t rg where it: "i = (t, rg)" by (cases i)
  note env = red_env.intro [of E] and rd = r [unfolded readable_def]
  have T: "text_size (en_text E)" using rd by simp
  have ok: "text_ok E (sd_resolver v) g" using rd by (simp add: text_valid_def)
  obtain tok p where p: "x = (p, unat (tr_start rg), unat (tr_end rg))" "sub (Node g) p = Some (Token tok)"
    "unat (tr_start rg) \<le> unat (tr_end rg)" "unat (tr_end rg) \<le> length (token_bytes E (sd_resolver v) tok)"
    by (rule red_env.piece_item_data [OF red_env.intro [OF T] i(1) i(2) [unfolded it] i(3) [unfolded view_pieces_def] ok])
  let ?t = "token_bytes E (sd_resolver v) tok" and ?lo = "unat (tr_start rg)" and ?hi = "unat (tr_end rg)"
  let ?c = "take (?hi - ?lo) (drop ?lo ?t)"
  have c: "piece_bytes E (sd_resolver v) g x = ?c" "length ?c = ?hi - ?lo" using p by (simp_all add: piece_bytes_def)
  have b: "is_char_boundary ?t ?lo" "is_char_boundary ?t ?hi"
    using view_piece_cut [of E g h v p ?lo ?hi tok] rd i(3) p(1,2) by auto
  have valid: "utf8_valid ?t" using sub_tokens [OF p(2)] rd by (auto simp: text_valid_def list_all_iff)
  have "text_chunk E k (sd_resolver v) (t, \<lparr>tr_start = tr_start rg + as_u32 j, tr_end = tr_end rg\<rparr>) = Inr (Str (drop j ?c))"
    if k: "red_wf E g k" "heap_le h' k" and j: "j \<le> length ?c" "utf8_valid (drop j ?c)" for k j
  proof -
    have "piece_item k (t, rg) x" using piece_item_le [OF k(2) i(1)] i(2) it by simp
    then obtain tok' p' d where d: "x = (p', unat (tr_start rg), unat (tr_end rg))" "sub (Node g) p' = Some (Token tok')"
      "resolve_data E k (sd_resolver v) t = Inr d" "td_as_bytes (en_data E) d = token_bytes E (sd_resolver v) tok'"
      by (rule red_env.piece_item_data [OF red_env.intro [OF T] k(1) _ i(3) [unfolded view_pieces_def] ok])
    have d: "d = Str ?t" using d p(1,2) rd by (cases d) simp
    have j_le: "j \<le> ?hi - ?lo" using j(1) c(2) by (simp only:)
    then have "j \<le> u32_max" using unat_le_u32_max [of "tr_end rg"] by linarith
    then have "unat (as_u32 j) = j" by (rule unat_as_u32)
    moreover have "unat (tr_start rg) + j \<le> u32_max" using j_le p(3) unat_le_u32_max [of "tr_end rg"] by linarith
    ultimately have start: "unat (tr_start rg + as_u32 j) = ?lo + j"
      by (simp add: unat_word_ariths u32_max_def)
    have "drop (?lo + j) ?t = drop j ?c @ drop ?hi ?t"
    proof -
      have "drop ?lo ?t = ?c @ drop ?hi ?t"
        using p(3) by (metis append_take_drop_id drop_drop le_add_diff_inverse2)
      then have "drop j (drop ?lo ?t) = drop j (?c @ drop ?hi ?t)" by simp
      with j(1) show ?thesis by (simp add: add.commute)
    qed
    moreover have "utf8_valid (drop ?hi ?t)" using utf8_cut [OF valid b(2)] by simp
    ultimately have "utf8_valid (drop (?lo + j) ?t)" using utf8_valid_append [OF j(2)] by simp
    moreover have le: "?lo + j \<le> ?hi" using j_le p(3) by linarith
    ultimately have "is_char_boundary ?t (?lo + j)" using utf8_boundary_iff [OF valid, of "?lo + j"] p(4) by simp
    with b(2) le have "str_index (Str ?t) (?lo + j) ?hi = Inr (Str (take (?hi - (?lo + j)) (drop (?lo + j) ?t)))"
      by (intro str_index_Inr)
    moreover have "take (?hi - (?lo + j)) (drop (?lo + j) ?t) = drop j ?c" by (simp add: drop_take add.commute)
    ultimately show ?thesis using d start \<open>resolve_data E k (sd_resolver v) t = Inr _\<close>
      by (simp add: text_chunk_def resolve_text_def)
  qed
  moreover have "tr_valid rg" using p(3) by (simp add: tr_valid_def word_le_nat_alt)
  moreover have "utf8_valid ?c" using utf8_slice [OF valid b p(3)] .
  ultimately show ?thesis using p(3) c by (simp add: reads_as_def it)
qed

lemma tokens_stream:
  fixes E :: "('s, rust_str, 'i, 'e) env" and h :: "('j, 'x) heap"
  assumes r: "readable E g h v"
  shows "red_wf E g h1 \<Longrightarrow> heap_le h h1 \<Longrightarrow> at_rest g h1 (path_of h (sd_node v)) c evs \<Longrightarrow> length evs \<le> k \<Longrightarrow>
    ps = pieces g (unat (tr_start (sd_range v))) (unat (tr_end (sd_range v))) evs \<Longrightarrow> set ps \<subseteq> set (view_pieces g h v) \<Longrightarrow>
    streams (red_wf E g) heap_le (\<lambda>i h. text_chunk E h (sd_resolver v) i) (tokens_next k E v) h1 c
      (map (piece_bytes E (sd_resolver v) g) ps)"
proof (induction ps arbitrary: h1 c evs)
  have rd: "text_size (en_text E)" "red_wf E g h" "tr_valid (sd_range v)" "sd_node v < length h"
    using r by (simp_all add: readable_def view_ok_def)
  let ?ps = "pieces g (unat (tr_start (sd_range v))) (unat (tr_end (sd_range v)))"
  have step: "\<exists>x c' h3 evs'. tokens_next k E v c h2 = Inr ((x, c'), h3) \<and> red_wf E g h3 \<and> heap_le h2 h3 \<and>
      at_rest g h3 (path_of h (sd_node v)) c' evs' \<and> length evs' \<le> length evs \<and>
      (case x of None \<Rightarrow> c' = None \<and> ?ps evs = [] | Some i \<Rightarrow> \<exists>y. piece_item h3 i y \<and> ?ps evs = y # ?ps evs')"
    if "red_wf E g h1" "heap_le h h1" "at_rest g h1 (path_of h (sd_node v)) c evs" "length evs \<le> k" "red_wf E g h2" "heap_le h1 h2"
    for h1 h2 :: "('j, 'x) heap" and c evs
  proof -
    have "nav E g h2 (tokens_next k E v c) (\<lambda>h' (x, c'). \<exists>evs'. at_rest g h' (path_of h (sd_node v)) c' evs' \<and>
        length evs' \<le> length evs \<and>
        (let ps = ?ps in case x of None \<Rightarrow> c' = None \<and> ps evs = [] | Some i \<Rightarrow> \<exists>y. piece_item h' i y \<and> ps evs = y # ps evs'))"
      using red_env.nav_tokens_next [OF red_env.intro [OF rd(1)] rd(3) that(5) _ _ _ that(4)]
        heap_le_node(1) [OF heap_le_trans [OF that(2,6)] rd(4)] path_of_le [OF heap_le_trans [OF that(2,6)] rd(2,4)]
        at_rest_le [OF that(6,1,3)] by simp
    then show ?thesis by (auto simp: nav_def Let_def)
  qed
  {
    case Nil
    show ?case unfolding list.map streams.simps
    proof (intro allI impI)
      fix h2 assume h2: "red_wf E g h2" "heap_le h1 h2"
      from step [OF Nil(1-4) h2] obtain x c' h3 where s: "tokens_next k E v c h2 = Inr ((x, c'), h3)" "red_wf E g h3"
        "heap_le h2 h3" "case x of None \<Rightarrow> c' = None | Some i \<Rightarrow> ?ps evs \<noteq> []" by (auto split: option.splits)
      have "x = None" using s(4) Nil(5) by (cases x) simp_all
      with s have "tokens_next k E v c h2 = Inr ((None, c'), h3)" "red_wf E g h3" "heap_le h2 h3" "c' = None" by simp_all
      then show "\<exists>it' h''. tokens_next k E v c h2 = Inr ((None, it'), h'') \<and> red_wf E g h'' \<and> heap_le h2 h'' \<and>
          (\<forall>u :: ('j, 'x) heap. tokens_next k E v it' u = Inr ((None, it'), u))" by (auto simp: returnR_def)
    qed
  next
    case (Cons y ps)
    show ?case unfolding list.map streams.simps
    proof (intro allI impI)
      fix h2 assume h2: "red_wf E g h2" "heap_le h1 h2"
      from step [OF Cons.prems(1-4) h2] obtain x c' h3 evs' where t: "tokens_next k E v c h2 = Inr ((x, c'), h3)"
        "red_wf E g h3" "heap_le h2 h3" "at_rest g h3 (path_of h (sd_node v)) c' evs'" "length evs' \<le> length evs"
        "case x of None \<Rightarrow> c' = None \<and> ?ps evs = [] | Some i \<Rightarrow> \<exists>y. piece_item h3 i y \<and> ?ps evs = y # ?ps evs'" by blast
      then obtain i where x: "x = Some i" using Cons.prems(5) by (cases x) auto
      from t x Cons.prems(5) have s: "tokens_next k E v c h2 = Inr ((Some i, c'), h3)"
        "red_wf E g h3" "heap_le h2 h3" "at_rest g h3 (path_of h (sd_node v)) c' evs'" "length evs' \<le> length evs"
        "piece_item h3 i y" "ps = ?ps evs'" by auto
      have le: "heap_le h h3" using heap_le_trans [OF Cons.prems(2) heap_le_trans [OF h2(2) s(3)]] .
      have "reads_as (red_wf E g) heap_le (\<lambda>i h. text_chunk E h (sd_resolver v) i) h3 i (piece_bytes E (sd_resolver v) g y)"
        using Cons.prems(6) by (intro text_item_reads [OF r s(2,6)]) simp
      moreover have "streams (red_wf E g) heap_le (\<lambda>i h. text_chunk E h (sd_resolver v) i) (tokens_next k E v) h3 c'
          (map (piece_bytes E (sd_resolver v) g) ps)"
        by (rule Cons.IH [OF s(2) le s(4) _ s(7)]) (use s(5) Cons.prems(4,6) in auto)
      ultimately show "\<exists>x it' w''. tokens_next k E v c h2 = Inr ((Some x, it'), w'') \<and> red_wf E g w'' \<and> heap_le h2 w'' \<and>
          reads_as (red_wf E g) heap_le (\<lambda>i h. text_chunk E h (sd_resolver v) i) w'' x (piece_bytes E (sd_resolver v) g y) \<and>
          streams (red_wf E g) heap_le (\<lambda>i h. text_chunk E h (sd_resolver v) i) (tokens_next k E v) w'' it'
            (map (piece_bytes E (sd_resolver v) g) ps)"
        using s(1-3) by blast
    qed
  }
qed

lemma text_stream:
  fixes h :: "('j, 'x) heap"
  assumes "readable E g h v" "length (view_events h v) \<le> k"
  shows "streams (red_wf E g) heap_le (\<lambda>i h. text_chunk E h (sd_resolver v) i) (tokens_next k E v) h (tokens_with_ranges v)
    (view_chunks E g h v)"
  unfolding view_chunks_def
proof (rule tokens_stream [OF assms(1) _ heap_le_refl _ assms(2)])
  have wf: "red_wf E g h" and n: "sd_node v < length h" using assms(1) by (simp_all add: readable_def view_ok_def)
  then show "red_wf E g h" by simp
  show "at_rest g h (path_of h (sd_node v)) (tokens_with_ranges v) (view_events h v)"
    using red_env.walk_chain [OF red_env.intro wf n] assms(1) n
    by (simp add: at_rest_def tokens_with_ranges_def cursor_ok_def event_ok_def view_events_def readable_def)
qed (simp_all add: view_pieces_def)

section \<open>The comparison\<close>

lemma length_view_chunks: "length (view_chunks E g h v) \<le> length (view_events h v)"
  by (simp add: view_chunks_def view_pieces_def length_pieces)

lemma readable_tr_len:
  assumes "readable E g h v"
  shows "unat (tr_len (en_text E) (sd_range v)) = length (concat (view_chunks E g h v))"
proof -
  have "text_size (en_text E)" "tr_valid (sd_range v)" using assms by (simp_all add: readable_def view_ok_def)
  from text_size.len [OF this] \<open>tr_valid (sd_range v)\<close> readable_length [OF assms] readable_chunks(1) [OF assms] show ?thesis
    by (simp add: tr_valid_def unat_sub)
qed

text \<open>C29: Comparing two \<open>SyntaxText\<close>s that both start and end between characters terminates, does not panic, and says
  whether they stand for the same text, however their tokens divide it, with empty tokens anywhere: for two views into one tree and
  for views into two trees. (A slice can also end inside a character; such a view stands for no text, reading it slices a \<open>str\<close>
  inside a character, and nothing is claimed of it here.)\<close>
theorem text_eq_exact:
  fixes h :: "('j, 'x) heap" and h2 :: "('j2, 'x2) heap"
  assumes "readable E g h v" "readable E g h w" "readable E2 g2 h2 v2" "en_text E2 = en_text E"
    and "length (view_bytes E h v) + length (view_events h v) + length (view_events h w) + 2 < k"
    and "length (view_bytes E h v) + length (view_events h v) + length (view_events h2 v2) + 2 < k"
  shows "computes E g h (text_eq_same k E v w) (Inr (view_bytes E h v = view_bytes E h w)) \<and>
    (\<exists>h' h2'. text_eq_two k E v E2 v2 (h, h2) = Inr (view_bytes E h v = view_bytes E2 h2 v2, h', h2') \<and>
      red_wf E g h' \<and> heap_le h h' \<and> red_wf E2 g2 h2' \<and> heap_le h2 h2')"
proof
  have T: "text_size (en_text E)" using assms(1) by (simp add: readable_def)
  note chunks = readable_chunks(1) and tr_len = readable_tr_len
  have fuel: "length (concat (view_chunks E g h v)) + length (view_chunks E g h v) + length (view_chunks E g h w) + 2 < k"
    "length (concat (view_chunks E g h v)) + length (view_chunks E g h v) + length (view_chunks E2 g2 h2 v2) + 2 < k"
    using assms(5,6) chunks [OF assms(1)] length_view_chunks [of E g h v] length_view_chunks [of E g h w]
      length_view_chunks [of E2 g2 h2 v2] by simp_all
  have v: "streams (red_wf E g) heap_le (\<lambda>i h. text_chunk E h (sd_resolver v) i) (tokens_next k E v) h (tokens_with_ranges v)
      (view_chunks E g h v)"
    by (rule text_stream [OF assms(1)]) (use assms(5) in simp)
  have w: "streams (red_wf E g) heap_le (\<lambda>i h. text_chunk E h (sd_resolver w) i) (tokens_next k E w) h (tokens_with_ranges w)
      (view_chunks E g h w)"
    by (rule text_stream [OF assms(2)]) (use assms(5) in simp)
  have v2: "streams (red_wf E2 g2) heap_le (\<lambda>i h. text_chunk E2 h (sd_resolver v2) i) (tokens_next k E2 v2) h2
      (tokens_with_ranges v2) (view_chunks E2 g2 h2 v2)"
    by (rule text_stream [OF assms(3)]) (use assms(6) in simp)
  from text_world.text_eq_spec [OF world_one [OF T] v w readable_wf [OF assms(1)] tr_len [OF assms(1)] tr_len [OF assms(2)] fuel(1)]
  show "computes E g h (text_eq_same k E v w) (Inr (view_bytes E h v = view_bytes E h w))"
    using chunks [OF assms(1)] chunks [OF assms(2)] by (auto simp: computes_def text_eq_same_def)
  have len2: "unat (tr_len (en_text E) (sd_range v2)) = length (concat (view_chunks E2 g2 h2 v2))"
    using tr_len [OF assms(3)] assms(4) by simp
  have "both (red_wf E g) (red_wf E2 g2) (h, h2)" using readable_wf [OF assms(1)] readable_wf [OF assms(3)] by simp
  from text_world.text_eq_spec [OF world_two [OF T] streams_fst [OF v] streams_snd [OF v2] this tr_len [OF assms(1)] len2 fuel(2)]
  obtain h' h2' where "text_eq k (en_text E) (on_fst (tokens_next k E v)) (on_snd (tokens_next k E2 v2))
      (\<lambda>x (h, _). text_chunk E h (sd_resolver v) x) (\<lambda>x (_, h). text_chunk E2 h (sd_resolver v2) x) (sd_range v) (sd_range v2)
      (tokens_with_ranges v) (tokens_with_ranges v2) (h, h2) =
      Inr (concat (view_chunks E g h v) = concat (view_chunks E2 g2 h2 v2), h', h2')"
    "both (red_wf E g) (red_wf E2 g2) (h', h2')" "le_both (h, h2) (h', h2')" by auto
  then show "\<exists>h' h2'. text_eq_two k E v E2 v2 (h, h2) = Inr (view_bytes E h v = view_bytes E2 h2 v2, h', h2') \<and>
      red_wf E g h' \<and> heap_le h h' \<and> red_wf E2 g2 h2' \<and> heap_le h2 h2'"
    using chunks [OF assms(1)] chunks [OF assms(3)] by (simp add: text_eq_two_def)
qed

theorem text_eq_exact_witness:
  "\<exists>h. text_eq_same 20 red_ex_env ex_view ex_view ex_plus_heap = Inr (True, h)"
  using text_eq_exact [OF ex_readable ex_readable ex_readable refl, of 20, THEN conjunct1]
  by (simp add: ex_view_events ex_view_bytes computes_def) blast

end
