(* ===== verification/Red_Past_End.thy ===== *)
theory Red_Past_End
  imports Red_Theorems
begin

text \<open>
  \<open>prev_child_before\<close> and \<open>prev_child_or_token_before\<close> of \<open>cstree/src/syntax/node.rs\<close>, which number the
  children backwards from the position they are given: what they return for a position of the node, and what they do
  for one past its last child.
\<close>

section \<open>The numbers of the children\<close>

lemma indexed_to_append: "\<exists>off'. indexed_to T m k off (es @ e # es') =
    indexed_to T m k off es @ (e, m - (k + length es) - 1, off') # indexed_to T m (Suc (k + length es)) off' es'"
proof (induction es arbitrary: k off)
  case (Cons a es)
  from Cons [of "Suc k" "ts_sub T off (ge_text_len a)"] show ?case by (simp add: Let_def)
qed (simp add: Let_def)

lemma filter_tokens: "list_all (\<lambda>e. as_node e = None) es \<Longrightarrow> filter_nodes (indexed_to T m k off es @ xs) = filter_nodes xs"
proof (induction es arbitrary: k off)
  case (Cons a es)
  then show ?case by (cases a) (simp_all add: Let_def)
qed simp

lemma children_to_last:
  assumes "gn_children g = cs @ [e]" "length (gn_children g) < m"
  obtains off' xs where "children_to T g m off = (e, m - 1, off') # xs"
  using assms that by (simp add: children_to_def Let_def)

lemma children_to_last_node:
  assumes "gn_children g = pre @ Node x # toks" "list_all (\<lambda>e. as_node e = None) toks" "length (gn_children g) < m"
  obtains off' xs where "filter_nodes (children_to T g m off) = (x, m - length toks - 1, off') # xs"
proof -
  have "list_all (\<lambda>e. as_node e = None) (rev toks)" using assms(2) by (simp add: list_all_iff)
  moreover obtain off' where "indexed_to T m 0 off (rev toks @ Node x # rev pre) =
      indexed_to T m 0 off (rev toks) @ (Node x, m - length toks - 1, off') # indexed_to T m (Suc (length toks)) off' (rev pre)"
    using indexed_to_append [of T m 0 off "rev toks" "Node x" "rev pre"] by auto
  ultimately show thesis using that assms by (simp add: children_to_def filter_tokens)
qed

section \<open>A node in the slot of a token\<close>

lemma get_or_add_past_slots: "n < length h \<Longrightarrow> length (nd_children (h ! n)) \<le> i \<Longrightarrow>
    get_or_add_element E n e i off h = Inl Undefined_behaviour \<and> get_or_add_node E n x i off h = Inl Undefined_behaviour"
  by (simp add: get_or_add_element_def get_or_add_node_def read_slot_def node_data_of_def)

lemma get_or_add_free_slot:
  assumes "n < length h" "i < length (nd_children (h ! n))" "nd_children (h ! n) ! i = None"
  shows "\<exists>c h'. get_or_add_node E n x i off h = Inr (Node c, h') \<and> child_at h' n i (Node c) \<and> nd_green (h' ! c) = x \<and>
    nd_green (h' ! n) = nd_green (h ! n)"
  using assms
  by (auto simp: get_or_add_node_def read_slot_def node_data_of_def new_child_def node_data_new_def try_write_def update_node_def
      unwrap_def child_at_def nth_append Let_def)

lemma prev_child_calls:
  assumes "n < length h"
  shows "prev_child_or_token_before E n m off h = add_next_element E n (children_to (en_text E) (nd_green (h ! n)) m off) h"
    "prev_child_before E n m off h = add_next_node E n (filter_nodes (children_to (en_text E) (nd_green (h ! n)) m off)) h"
  using assms by (simp_all add: prev_child_or_token_before_def prev_child_before_def bindR_def readR_def node_green_def node_data_of_def)

lemma prev_element_past_end:
  assumes "n < length h" "length (nd_children (h ! n)) = length (node_children (h ! n))"
    and "length (node_children (h ! n)) < m" "node_children (h ! n) \<noteq> []"
  shows "prev_child_or_token_before E n m off h = Inl Undefined_behaviour"
proof -
  from assms(4) obtain ds e where "node_children (h ! n) = ds @ [e]" by (metis rev_exhaust)
  with assms(3) obtain off' xs where "children_to (en_text E) (nd_green (h ! n)) m off = (e, m - 1, off') # xs"
    using children_to_last [of "nd_green (h ! n)" ds e m "en_text E" off] by (auto simp: node_children_def)
  then show ?thesis using get_or_add_past_slots [OF assms(1), of "m - 1" E e off'] assms(2,3)
    by (simp add: prev_child_calls [OF assms(1)] add_next_element_def bindR_def)
qed

lemma prev_node_past_end:
  fixes h :: "('j, 'x) heap"
  assumes wf: "red_wf E g h" and n: "n < length h" and cs: "cs = node_children (h ! n)"
    and m: "length cs < m" "cs = pre @ Node x # toks" "list_all (\<lambda>e. as_node e = None) toks" and i: "i = m - length toks - 1"
  shows "if i \<ge> length cs then prev_child_before E n m off h = Inl Undefined_behaviour
    else nd_children (h ! n) ! i = None \<longrightarrow>
      (\<exists>c h'. prev_child_before E n m off h = Inr (Some c, h') \<and> child_at h' n i (Node c) \<and> nd_green (h' ! c) = x \<and>
         cs ! i \<in> set toks \<and> \<not> red_wf E g h')"
proof -
  have len: "length (nd_children (h ! n)) = length cs" using node_ok_length [OF red_wf_node [OF wf n]] cs by simp
  obtain off' xs where it: "filter_nodes (children_to (en_text E) (nd_green (h ! n)) m off) = (x, i, off') # xs"
    using children_to_last_node [of "nd_green (h ! n)" pre x toks m "en_text E" off] m cs i by (auto simp: node_children_def)
  show ?thesis
  proof (cases "i \<ge> length cs")
    case True
    then show ?thesis using get_or_add_past_slots [OF n, of i E _ off' x] len
      by (simp add: prev_child_calls [OF n] it add_next_node_def bindR_def)
  next
    case False
    have tok: "cs ! i \<in> set toks" using False m(1,2) i by (auto simp: nth_append nth_Cons')
    {
      assume "nd_children (h ! n) ! i = None"
      then obtain c h' where c: "get_or_add_node E n x i off' h = Inr (Node c, h')" "child_at h' n i (Node c)"
        "nd_green (h' ! c) = x" "nd_green (h' ! n) = nd_green (h ! n)"
        using get_or_add_free_slot [OF n, of i E x off'] False len by auto
      have "\<not> red_wf E g h'"
      proof
        assume "red_wf E g h'"
        from child_at_elem(3) [OF this c(2) refl] have "cs ! i = Node (nd_green (h' ! c))"
          using c(4) cs by (auto simp: node_children_def)
        with tok m(3) show False by (auto simp: list_all_iff)
      qed
      with c tok have ?thesis using False by (auto simp: prev_child_calls [OF n] it add_next_node_def bindR_def returnR_def)
    }
    then show ?thesis using False by auto
  qed
qed

section \<open>Properties\<close>

text \<open>C27: Asked for a position \<open>m\<close> of a node, from 0 to its number of children, and with the offset of that position,
  \<open>prev_child_or_token_before\<close> returns the child before it and \<open>prev_child_before\<close> the last node before it, if any. But they do not check
  the position: for an \<open>m\<close> above the number of children they number the children from \<open>m\<close> backwards. Then
  \<open>prev_child_or_token_before\<close> accesses a slot past the last one, which is undefined behaviour, as does \<open>prev_child_before\<close>
  if its index is past the slots; and if it is the index of a free slot, \<open>prev_child_before\<close> puts the last node among the children
  into that slot, which is the slot of a token after it, and the tree is not well formed any more.\<close>
theorem prev_child_before_position:
  fixes h :: "('j, 'x) heap"
  assumes "text_size (en_text E)" "red_wf E g h" "n < length h" "cs = node_children (h ! n)"
  shows "(m \<le> length cs \<and> unat off = child_start (h ! n) m \<longrightarrow>
      nav E g h (prev_child_or_token_before E n m off) (\<lambda>h' r. last_element_before h' n m r) \<and>
      nav E g h (prev_child_before E n m off) (\<lambda>h' r. last_node_before h' n m r)) \<and>
    (length cs < m \<and> cs \<noteq> [] \<longrightarrow> prev_child_or_token_before E n m off h = Inl Undefined_behaviour) \<and>
    (\<forall>pre x toks. length cs < m \<and> cs = pre @ Node x # toks \<and> list_all (\<lambda>e. as_node e = None) toks \<longrightarrow>
      (if m - length toks - 1 \<ge> length cs then prev_child_before E n m off h = Inl Undefined_behaviour
       else nd_children (h ! n) ! (m - length toks - 1) = None \<longrightarrow>
         (\<exists>c h'. prev_child_before E n m off h = Inr (Some c, h') \<and> child_at h' n (m - length toks - 1) (Node c) \<and>
            nd_green (h' ! c) = x \<and> cs ! (m - length toks - 1) \<in> set toks \<and> \<not> red_wf E g h')))"
proof (intro conjI impI allI)
  note nav = red_env.nav_last_element_before [OF red_env.intro [OF assms(1)] assms(2,3)]
    red_env.nav_last_node_before [OF red_env.intro [OF assms(1)] assms(2,3)]
  assume "m \<le> length cs \<and> unat off = child_start (h ! n) m"
  then show "nav E g h (prev_child_or_token_before E n m off) (\<lambda>h' r. last_element_before h' n m r)"
    "nav E g h (prev_child_before E n m off) (\<lambda>h' r. last_node_before h' n m r)"
    using nav assms(4) unfolding nav_def prev_child_calls [OF assms(3)] by blast+
next
  assume "length cs < m \<and> cs \<noteq> []"
  then show "prev_child_or_token_before E n m off h = Inl Undefined_behaviour"
    using prev_element_past_end [OF assms(3), of m E off] node_ok_length [OF red_wf_node [OF assms(2,3)]] assms(4) by simp
qed (use prev_node_past_end [OF assms(2-4) _ _ _ refl] in blast)

text \<open>A node before a token: \<open>prev_child_before\<close> at position 3 of its parent takes it for the token.\<close>

definition ex_past :: green_node where
  "ex_past = ex_node 5 [Node (ex_node 4 []), Token (ex_leaf 1 2)]"

abbreviation ex_past_heap :: "(rust_str token_interner, unit) heap" where
  "ex_past_heap \<equiv> snd (make_new_root ex_past None)"

theorem prev_child_before_position_witness:
  "\<exists>c h'. prev_child_before red_ex_env 0 3 2 ex_past_heap = Inr (Some c, h') \<and> child_at h' 0 1 (Node c) \<and> \<not> red_wf red_ex_env ex_past h' \<and>
     prev_child_before red_ex_env 0 4 2 ex_past_heap = Inl Undefined_behaviour \<and>
     prev_child_or_token_before red_ex_env 0 3 2 ex_past_heap = Inl Undefined_behaviour"
proof -
  let ?cs = "[Node (ex_node 4 []), Token (ex_leaf 1 2)]"
  have "green_fits red_ex_env ex_past"
    by (simp add: green_fits_def ex_past_def ex_green_defs arity_ok_def green_len_GreenNode u32_max_def)
  then have wf: "red_wf red_ex_env ex_past ex_past_heap" by (rule make_new_root_wf(1))
  have root: "0 < length ex_past_heap" "?cs = node_children (ex_past_heap ! 0)" "nd_children (ex_past_heap ! 0) ! 1 = None"
    by (simp_all add: make_new_root_def node_data_new_def node_children_def ex_past_def ex_node_def iter_count_def gn_children_iter_def Let_def)
  note pos = prev_child_before_position [OF ex_text wf root(1,2), THEN conjunct2, of _ 2]
  have "?cs = [] @ Node (ex_node 4 []) # [Token (ex_leaf 1 2)]" "list_all (\<lambda>e. as_node e = None) [Token (ex_leaf 1 2)]" by simp_all
  with pos [of 3] pos [of 4] root(3) show ?thesis by fastforce
qed

end
