(* ===== verification/Red_Display.thy ===== *)
theory Red_Display
  imports Utf8
begin

text \<open>
  \<open>Debug\<close> and \<open>Display\<close> of syntax nodes and tokens (\<open>cstree/src/syntax/{node,token,element}.rs\<close>) and
  of their payloads (\<open>cstree/src/interning/traits.rs\<close>): functions that write to any \<open>fmt::Write\<close>, which
  may fail, and the ones that collect what is written in a string.
\<close>

section \<open>Writers\<close>

text \<open>
  \<open>fmt::Write::write_str\<close> on a target: the target afterwards, and whether the result is \<open>Ok\<close>. What one
  \<open>write!\<close> writes is a list of pieces, and it stops at the first that fails.
\<close>

type_synonym 'w writer = "bytes \<Rightarrow> 'w \<Rightarrow> bool \<times> 'w"

fun write_pieces :: "'w writer \<Rightarrow> bytes list \<Rightarrow> 'w \<Rightarrow> bool \<times> 'w" where
  "write_pieces W [] w = (True, w)"
| "write_pieces W (p # ps) w = (case W p w of (ok, w) \<Rightarrow> if ok then write_pieces W ps w else (False, w))"

definition string_writer :: "bytes writer" where
  "string_writer s out = (True, out @ s)"

text \<open>The operator \<open>?\<close> on a \<open>fmt::Result\<close>.\<close>

definition and_ok :: "(bool \<times> 'w) outcome \<Rightarrow> ('w \<Rightarrow> (bool \<times> 'w) outcome) \<Rightarrow> (bool \<times> 'w) outcome" where
  "and_ok r f = bindO r (\<lambda>(ok, w). if ok then f w else Inr (False, w))"

text \<open>ASCII text.\<close>

definition lit :: "string \<Rightarrow> bytes" where
  "lit s = map of_char s"

section \<open>Debug output of the standard library\<close>

text \<open>\<open>{:?}\<close> and \<open>{}\<close> of an integer, and \<open>{:?}\<close> of a byte slice.\<close>

fun decimal :: "nat \<Rightarrow> bytes" where
  "decimal n = (if n < 10 then [of_nat (48 + n)] else decimal (n div 10) @ [of_nat (48 + n mod 10)])"

fun separated :: "bytes list \<Rightarrow> bytes list" where
  "separated [] = []"
| "separated [x] = [x]"
| "separated (x # y # ys) = x # lit '', '' # separated (y # ys)"

definition debug_bytes :: "bytes \<Rightarrow> bytes list" where
  "debug_bytes bs = [lit ''[''] @ separated (map (\<lambda>b. decimal (unat b)) bs) @ [lit '']'']"

text \<open>
  \<open>{:?}\<close> of a \<open>str\<close>: quoted, with the characters escaped that have an escape, and those that \<open>plain\<close> (the
  tables of Unicode that the standard library has, a function of the code point) does not allow.
\<close>

fun code_point :: "bytes \<Rightarrow> nat" where
  "code_point [b] = unat b"
| "code_point [b, c] = (unat b - 192) * 64 + (unat c - 128)"
| "code_point [b, c, d] = (unat b - 224) * 4096 + (unat c - 128) * 64 + (unat d - 128)"
| "code_point [b, c, d, e] = (unat b - 240) * 262144 + (unat c - 128) * 4096 + (unat d - 128) * 64 + (unat e - 128)"
| "code_point _ = 0"

definition hex_digit :: "nat \<Rightarrow> u8" where
  "hex_digit n = of_nat (if n < 10 then 48 + n else 87 + n)"

fun hexadecimal :: "nat \<Rightarrow> bytes" where
  "hexadecimal n = (if n < 16 then [hex_digit n] else hexadecimal (n div 16) @ [hex_digit (n mod 16)])"

declare decimal.simps [simp del] hexadecimal.simps [simp del]

definition escape_debug :: "(nat \<Rightarrow> bool) \<Rightarrow> bytes \<Rightarrow> bytes" where
  "escape_debug plain c =
     (if c = [0] then [0x5C] @ lit ''0''
      else if c = [9] then [0x5C] @ lit ''t''
      else if c = [10] then [0x5C] @ lit ''n''
      else if c = [13] then [0x5C] @ lit ''r''
      else if c = [0x22] \<or> c = [0x5C] then 0x5C # c
      else if plain (code_point c) then c
      else [0x5C] @ lit ''u{'' @ hexadecimal (code_point c) @ lit ''}'')"

fun str_chars :: "nat \<Rightarrow> bytes \<Rightarrow> bytes list" where
  "str_chars 0 s = []"
| "str_chars (Suc k) [] = []"
| "str_chars (Suc k) (b # bs) = take (char_width b) (b # bs) # str_chars k (drop (char_width b) (b # bs))"

definition debug_str :: "(nat \<Rightarrow> bool) \<Rightarrow> bytes \<Rightarrow> bytes list" where
  "debug_str plain s = [[0x22]] @ map (escape_debug plain) (str_chars (length s) s) @ [[0x22]]"

section \<open>Payloads\<close>

text \<open>\<open>fmt_data_fallback\<close>: long data that is no text is cut after 24 bytes.\<close>

definition fmt_data_fallback :: "(nat \<Rightarrow> bool) \<Rightarrow> bytes \<Rightarrow> bool \<Rightarrow> bytes list" where
  "fmt_data_fallback plain bs debug =
     (if utf8_valid bs then (if debug then debug_str plain bs else [bs])
      else if length bs < 25 then debug_bytes bs
      else debug_bytes (take 24 bs) @ [lit '' ...''])"

definition token_data_error_display :: "token_data_error \<Rightarrow> bytes list" where
  "token_data_error_display e =
     (case e of
        InvalidUtf8 \<Rightarrow> [lit ''invalid UTF-8 token data'']
      | InvalidSize expected actual \<Rightarrow>
          [lit ''invalid token data size: expected '', decimal expected, lit '' bytes, got '', decimal actual])"

text \<open>
  The functions that the code calls to format: \<open>Debug\<close> of the language's kinds and of \<open>TextRange\<close>, and
  \<open>fmt_debug\<close> and \<open>fmt_display\<close> of the payload type.
\<close>

record ('s, 'd) fmt_ops =
  fo_kind :: "'s \<Rightarrow> bytes list"
  fo_range :: "text_range \<Rightarrow> bytes list"
  fo_debug :: "'d \<Rightarrow> bytes list"
  fo_display :: "'d \<Rightarrow> bytes list"

text \<open>The payload types \<open>str\<close> and \<open>[u8]\<close>, and the default methods of \<open>TokenData\<close> for any other.\<close>

definition str_fmt :: "(nat \<Rightarrow> bool) \<Rightarrow> ('s \<Rightarrow> bytes list) \<Rightarrow> (text_range \<Rightarrow> bytes list) \<Rightarrow> ('s, rust_str) fmt_ops" where
  "str_fmt plain kind rng = \<lparr>fo_kind = kind, fo_range = rng,
     fo_debug = (\<lambda>s. debug_str plain (str_bytes s)), fo_display = (\<lambda>s. [str_bytes s])\<rparr>"

definition default_fmt :: "(nat \<Rightarrow> bool) \<Rightarrow> 'd token_data \<Rightarrow> ('s \<Rightarrow> bytes list) \<Rightarrow> (text_range \<Rightarrow> bytes list) \<Rightarrow> ('s, 'd) fmt_ops" where
  "default_fmt plain D kind rng = \<lparr>fo_kind = kind, fo_range = rng,
     fo_debug = (\<lambda>d. fmt_data_fallback plain (td_as_bytes D d) True),
     fo_display = (\<lambda>d. fmt_data_fallback plain (td_as_bytes D d) False)\<rparr>"

text \<open>What the users of \<open>Display\<close> rely on: the payload is written as its bytes.\<close>

locale lossless_display =
  fixes F :: "('s, 'd) fmt_ops" and D :: "'d token_data" and valid :: "'d \<Rightarrow> bool"
  assumes display_bytes: "valid d \<Longrightarrow> concat (fo_display F d) = td_as_bytes D d"
begin

lemma concat_displays: "\<forall>d \<in> set ds. valid d \<Longrightarrow> concat (concat (map (fo_display F) ds)) = concat (map (td_as_bytes D) ds)"
  by (induction ds) (simp_all add: display_bytes)

end

interpretation str_display: lossless_display "str_fmt plain kind rng" str_data "\<lambda>_. True" for plain kind rng
  by unfold_locales (simp add: str_fmt_def str_data_def)

text \<open>With the default methods that holds of the data that happens to be text.\<close>

interpretation text_display: lossless_display "default_fmt plain D kind rng" D "\<lambda>d. utf8_valid (td_as_bytes D d)"
  for plain D kind rng
  by unfold_locales (simp add: default_fmt_def fmt_data_fallback_def)

section \<open>Tokens\<close>

definition token_write_debug :: "('s, 'd) fmt_ops \<Rightarrow> ('s, 'd, 'i, 'e) env \<Rightarrow> ('j, 'x) heap \<Rightarrow> 'i \<Rightarrow> syntax_token \<Rightarrow> 'w writer \<Rightarrow> 'w \<Rightarrow>
  (bool \<times> 'w) outcome" where
  "token_write_debug F E h resolver t W w =
     bindO (token_kind E h t) (\<lambda>kind. bindO (token_text_range E h t) (\<lambda>rng.
     and_ok (Inr (write_pieces W (fo_kind F kind @ [lit ''@''] @ fo_range F rng) w)) (\<lambda>w.
     and_ok (Inr (write_pieces W [lit '' ''] w)) (\<lambda>w.
     bindO (resolve_data E h resolver t) (\<lambda>d. Inr (write_pieces W (fo_debug F d) w))))))"

definition token_write_display :: "('s, 'd) fmt_ops \<Rightarrow> ('s, 'd, 'i, 'e) env \<Rightarrow> ('j, 'x) heap \<Rightarrow> 'i \<Rightarrow> syntax_token \<Rightarrow> 'w writer \<Rightarrow> 'w \<Rightarrow>
  (bool \<times> 'w) outcome" where
  "token_write_display F E h resolver t W w =
     bindO (resolve_data E h resolver t) (\<lambda>d. Inr (write_pieces W (fo_display F d) w))"

text \<open>\<open>res\<close> after \<open>write_*(.., &mut res).unwrap()\<close>\<close>

fun collected :: "bool \<times> bytes \<Rightarrow> rust_str outcome" where
  "collected (ok, res) = (if ok then Inr (Str res) else Inl Unwrap_Err)"

definition token_debug :: "('s, 'd) fmt_ops \<Rightarrow> ('s, 'd, 'i, 'e) env \<Rightarrow> ('j, 'x) heap \<Rightarrow> 'i \<Rightarrow> syntax_token \<Rightarrow> rust_str outcome" where
  "token_debug F E h resolver t = bindO (token_write_debug F E h resolver t string_writer []) collected"

definition token_display :: "('s, 'd) fmt_ops \<Rightarrow> ('s, 'd, 'i, 'e) env \<Rightarrow> ('j, 'x) heap \<Rightarrow> 'i \<Rightarrow> syntax_token \<Rightarrow> rust_str outcome" where
  "token_display F E h resolver t = bindO (token_write_display F E h resolver t string_writer []) collected"

section \<open>Nodes\<close>

text \<open>\<open>SyntaxNode::write_debug\<close> with \<open>recursive\<close> false, and \<open>write_debug(.., false)\<close> of an element.\<close>

definition node_write_header :: "('s, 'd) fmt_ops \<Rightarrow> ('s, 'd, 'i, 'e) env \<Rightarrow> ('j, 'x) heap \<Rightarrow> nat \<Rightarrow> 'w writer \<Rightarrow> 'w \<Rightarrow> (bool \<times> 'w) outcome" where
  "node_write_header F E h n W w =
     bindO (node_kind E h n) (\<lambda>kind. bindO (node_text_range E h n) (\<lambda>rng.
       Inr (write_pieces W (fo_kind F kind @ [lit ''@''] @ fo_range F rng) w)))"

fun element_write_header :: "('s, 'd) fmt_ops \<Rightarrow> ('s, 'd, 'i, 'e) env \<Rightarrow> ('j, 'x) heap \<Rightarrow> 'i \<Rightarrow> syntax_element \<Rightarrow> 'w writer \<Rightarrow> 'w \<Rightarrow>
  (bool \<times> 'w) outcome" where
  "element_write_header F E h resolver (Node it) W w = node_write_header F E h it W w"
| "element_write_header F E h resolver (Token it) W w = token_write_debug F E h resolver it W w"

text \<open>\<open>level\<close> is an \<open>i32\<close>, in two's complement; overflow panics where it is checked and else wraps around.\<close>

definition level_inc :: "bool \<Rightarrow> u32 \<Rightarrow> u32 outcome" where
  "level_inc checked level = (if checked \<and> sint level = 2 ^ 31 - 1 then Inl Arithmetic_overflow else Inr (level + 1))"

definition level_dec :: "bool \<Rightarrow> u32 \<Rightarrow> u32 outcome" where
  "level_dec checked level = (if checked \<and> sint level = - (2 ^ 31) then Inl Arithmetic_overflow else Inr (level - 1))"

text \<open>The loop over the events; the traversal computes its next position before it yields the current one.\<close>

fun debug_loop :: "nat \<Rightarrow> ('s, 'd) fmt_ops \<Rightarrow> ('s, 'd, 'i, 'e) env \<Rightarrow> 'i \<Rightarrow> nat \<Rightarrow> cursor \<Rightarrow> u32 \<Rightarrow> 'w writer \<Rightarrow> 'w \<Rightarrow>
  ('j, 'x, bool \<times> 'w) red" where
  "debug_loop k F E resolver me None level W w = (if level = 0 then returnR (True, w) else panicR Assertion_failed)"
| "debug_loop 0 F E resolver me (Some ev) level W w = panicR Out_of_fuel"
| "debug_loop (Suc k) F E resolver me (Some ev) level W w =
     bindR (preorder_with_tokens_step E (Node me) ev) (\<lambda>cursor.
       case ev of
         Enter element \<Rightarrow>
           bindR (readR (\<lambda>h.
             and_ok (Inr (write_pieces W (replicate (nat (sint level)) (lit ''  '')) w)) (\<lambda>w.
             and_ok (element_write_header F E h resolver element W w) (\<lambda>w.
             Inr (write_pieces W [[10]] w))))) (\<lambda>(ok, w).
           if ok then bindR (readR (\<lambda>_. level_inc (en_debug E) level)) (\<lambda>level. debug_loop k F E resolver me cursor level W w)
           else returnR (False, w))
       | Leave _ \<Rightarrow>
           bindR (readR (\<lambda>_. level_dec (en_debug E) level)) (\<lambda>level. debug_loop k F E resolver me cursor level W w))"

definition node_write_debug :: "nat \<Rightarrow> ('s, 'd) fmt_ops \<Rightarrow> ('s, 'd, 'i, 'e) env \<Rightarrow> 'i \<Rightarrow> nat \<Rightarrow> bool \<Rightarrow> 'w writer \<Rightarrow> 'w \<Rightarrow>
  ('j, 'x, bool \<times> 'w) red" where
  "node_write_debug k F E resolver n recursive W w =
     (if recursive then debug_loop k F E resolver n (Some (Enter (Node n))) 0 W w
      else readR (\<lambda>h. node_write_header F E h n W w))"

text \<open>\<open>try_for_each\<close> over the tokens that the traversal enters.\<close>

fun display_loop :: "nat \<Rightarrow> ('s, 'd) fmt_ops \<Rightarrow> ('s, 'd, 'i, 'e) env \<Rightarrow> 'i \<Rightarrow> nat \<Rightarrow> cursor \<Rightarrow> 'w writer \<Rightarrow> 'w \<Rightarrow>
  ('j, 'x, bool \<times> 'w) red" where
  "display_loop k F E resolver me None W w = returnR (True, w)"
| "display_loop 0 F E resolver me (Some ev) W w = panicR Out_of_fuel"
| "display_loop (Suc k) F E resolver me (Some ev) W w =
     bindR (preorder_with_tokens_step E (Node me) ev) (\<lambda>cursor.
       case ev of
         Enter (Token it) \<Rightarrow>
           bindR (readR (\<lambda>h. token_write_display F E h resolver it W w)) (\<lambda>(ok, w).
             if ok then display_loop k F E resolver me cursor W w else returnR (False, w))
       | _ \<Rightarrow> display_loop k F E resolver me cursor W w)"

definition node_write_display :: "nat \<Rightarrow> ('s, 'd) fmt_ops \<Rightarrow> ('s, 'd, 'i, 'e) env \<Rightarrow> 'i \<Rightarrow> nat \<Rightarrow> 'w writer \<Rightarrow> 'w \<Rightarrow> ('j, 'x, bool \<times> 'w) red" where
  "node_write_display k F E resolver n W w = display_loop k F E resolver n (Some (Enter (Node n))) W w"

definition node_debug :: "nat \<Rightarrow> ('s, 'd) fmt_ops \<Rightarrow> ('s, 'd, 'i, 'e) env \<Rightarrow> 'i \<Rightarrow> nat \<Rightarrow> bool \<Rightarrow> ('j, 'x, rust_str) red" where
  "node_debug k F E resolver n recursive =
     bindR (node_write_debug k F E resolver n recursive string_writer []) (\<lambda>r. readR (\<lambda>_. collected r))"

definition node_display :: "nat \<Rightarrow> ('s, 'd) fmt_ops \<Rightarrow> ('s, 'd, 'i, 'e) env \<Rightarrow> 'i \<Rightarrow> nat \<Rightarrow> ('j, 'x, rust_str) red" where
  "node_display k F E resolver n =
     bindR (node_write_display k F E resolver n string_writer []) (\<lambda>r. readR (\<lambda>_. collected r))"

section \<open>Elements\<close>

fun element_write_debug :: "nat \<Rightarrow> ('s, 'd) fmt_ops \<Rightarrow> ('s, 'd, 'i, 'e) env \<Rightarrow> 'i \<Rightarrow> syntax_element \<Rightarrow> bool \<Rightarrow> 'w writer \<Rightarrow> 'w \<Rightarrow>
  ('j, 'x, bool \<times> 'w) red" where
  "element_write_debug k F E resolver (Node it) recursive W w = node_write_debug k F E resolver it recursive W w"
| "element_write_debug k F E resolver (Token it) recursive W w = readR (\<lambda>h. token_write_debug F E h resolver it W w)"

fun element_debug :: "nat \<Rightarrow> ('s, 'd) fmt_ops \<Rightarrow> ('s, 'd, 'i, 'e) env \<Rightarrow> 'i \<Rightarrow> syntax_element \<Rightarrow> bool \<Rightarrow> ('j, 'x, rust_str) red" where
  "element_debug k F E resolver (Node it) recursive = node_debug k F E resolver it recursive"
| "element_debug k F E resolver (Token it) recursive = readR (\<lambda>h. token_debug F E h resolver it)"

fun element_write_display :: "nat \<Rightarrow> ('s, 'd) fmt_ops \<Rightarrow> ('s, 'd, 'i, 'e) env \<Rightarrow> 'i \<Rightarrow> syntax_element \<Rightarrow> 'w writer \<Rightarrow> 'w \<Rightarrow>
  ('j, 'x, bool \<times> 'w) red" where
  "element_write_display k F E resolver (Node it) W w = node_write_display k F E resolver it W w"
| "element_write_display k F E resolver (Token it) W w = readR (\<lambda>h. token_write_display F E h resolver it W w)"

fun element_display :: "nat \<Rightarrow> ('s, 'd) fmt_ops \<Rightarrow> ('s, 'd, 'i, 'e) env \<Rightarrow> 'i \<Rightarrow> syntax_element \<Rightarrow> ('j, 'x, rust_str) red" where
  "element_display k F E resolver (Node it) = node_display k F E resolver it"
| "element_display k F E resolver (Token it) = readR (\<lambda>h. token_display F E h resolver it)"

end
