(* ===== verification/Red_Display_Theorems.thy ===== *)
theory Red_Display_Theorems
  imports Red_Display Serde_Build Syntax_Text_Theorems
begin

text \<open>
  What \<open>Debug\<close> and \<open>Display\<close> write: for \<open>Display\<close> the data of the tokens in order, which is the source
  text, and for \<open>Debug\<close> a line for every element in preorder, indented by its depth.
\<close>

section \<open>Writing pieces\<close>

lemma write_pieces_append:
  "write_pieces W (xs @ ys) w = (case write_pieces W xs w of (ok, w) \<Rightarrow> if ok then write_pieces W ys w else (False, w))"
  by (induction xs arbitrary: w) (auto split: prod.split)

lemma and_ok_write: "and_ok (Inr (write_pieces W xs w)) (\<lambda>w. Inr (write_pieces W ys w)) = Inr (write_pieces W (xs @ ys) w)"
  by (auto simp: and_ok_def write_pieces_append split: prod.split)

lemma and_ok_simps [simp]:
  "and_ok (Inl p) f = Inl p"
  "and_ok (Inr (ok, w)) f = (if ok then f w else Inr (False, w))"
  by (simp_all add: and_ok_def)

lemma write_pieces_string [simp]: "write_pieces string_writer ps out = (True, out @ concat ps)"
  by (induction ps arbitrary: out) (simp_all add: string_writer_def)

section \<open>Lines of the debug output\<close>

text \<open>What is written for the element at \<open>p\<close>: its kind, its range, and for a token its data.\<close>

definition debug_header :: "('s, 'd) fmt_ops \<Rightarrow> ('s, 'd, 'i, 'e) env \<Rightarrow> 'i \<Rightarrow> green_node \<Rightarrow> nat list \<Rightarrow> bytes list" where
  "debug_header F E r g p =
     (case sub (Node g) p of
        None \<Rightarrow> []
      | Some e \<Rightarrow>
          (case sx_from_raw (en_syntax E) (ge_kind e) of Inr kind \<Rightarrow> fo_kind F kind | Inl _ \<Rightarrow> []) @ [lit ''@''] @
          fo_range F \<lparr>tr_start = as_u32 (start_at (Node g) p), tr_end = as_u32 (start_at (Node g) p + element_len e)\<rparr> @
          (case e of
             Node _ \<Rightarrow> []
           | Token t \<Rightarrow> [lit '' ''] @ (case green_resolve E r t of Inr d \<Rightarrow> fo_debug F d | Inl _ \<Rightarrow> [])))"

definition debug_line :: "('s, 'd) fmt_ops \<Rightarrow> ('s, 'd, 'i, 'e) env \<Rightarrow> 'i \<Rightarrow> green_node \<Rightarrow> nat list \<Rightarrow> nat list \<Rightarrow> bytes list" where
  "debug_line F E r g me p = replicate (length p - length me) (lit ''  '') @ debug_header F E r g p @ [[10]]"

lemma range_eqI: "unat (tr_start r) = a \<Longrightarrow> unat (tr_end r) = b \<Longrightarrow> r = \<lparr>tr_start = as_u32 a, tr_end = as_u32 b\<rparr>"
  by (cases r) auto

context red_env
begin

lemma element_write_header_eq:
  assumes wf: "red_wf E g h" and x: "elem_in h x" and syn: "syntax_impl (en_syntax E)"
    and ok: "prefix me (elem_path h x)" "sub (Node g) me = Some e" "serde_ok E r e"
  shows "element_write_header F E h r x W w = Inr (write_pieces W (debug_header F E r g (elem_path h x)) w)"
proof -
  obtain k where k: "ge_kind (green_of h x) = sx_into_raw (en_syntax E) k"
    and d: "\<And>t. green_of h x = Token t \<Longrightarrow> \<exists>d. green_resolve E r t = Inr d"
    by (rule serde_ok_element [OF wf x ok]) (rule that; blast)
  note kind = k syntax_impl.from_into_raw [OF syn, of k]
  obtain q where q: "element_text_range E h x = Inr q" "unat (tr_start q) = start_at (Node g) (elem_path h x)"
    "unat (tr_end q) = start_at (Node g) (elem_path h x) + element_len (green_of h x)"
    using element_range [OF wf x] by blast
  note range_q = range_eqI [OF q(2,3)] and sub = elem_sub [OF wf x]
  show ?thesis
  proof (cases x)
    case (Node n)
    with x have n: "n < length h" by simp
    show ?thesis
      using kind q(1) sub n range_q
      by (simp add: Node node_write_header_def node_kind_def node_syntax_kind_def node_green_def node_data_of_def debug_header_def)
  next
    case (Token t)
    obtain tok where tok: "token_green h t = Inr tok" "green_of h (Token t) = Token tok"
      using x Token by (metis token_green_eq [OF wf])
    with d Token obtain d' where "green_resolve E r tok = Inr d'" by auto
    then show ?thesis
      using kind q(1) sub tok range_q
      by (simp add: Token token_write_debug_def token_kind_def token_syntax_kind_def resolve_data_green debug_header_def
          and_ok_write del: elem_path.simps write_pieces.simps)
  qed
qed

end

section \<open>What is displayed\<close>

definition token_pieces :: "('s, 'd) fmt_ops \<Rightarrow> ('s, 'd, 'i, 'e) env \<Rightarrow> 'i \<Rightarrow> green_token \<Rightarrow> bytes list" where
  "token_pieces F E r t = (case green_resolve E r t of Inr d \<Rightarrow> fo_display F d | Inl _ \<Rightarrow> [])"

definition token_at :: "green_node \<Rightarrow> nat list \<Rightarrow> green_token option" where
  "token_at g p = (case sub (Node g) p of Some (Token t) \<Rightarrow> Some t | _ \<Rightarrow> None)"

text \<open>The tokens that a walk enters are those of the subtree, in order.\<close>

lemma walk_tokens:
  "sub (Node g) p = Some (Node n) \<Longrightarrow> List.map_filter (token_at g) (entered (walk_node p n)) = green_tokens n"
  "sub (Node g) p = Some (Node m) \<Longrightarrow> gn_children m = pre @ cs \<Longrightarrow> j = length pre \<Longrightarrow>
     List.map_filter (token_at g) (entered (walk_children p j cs)) = concat (map element_tokens cs)"
proof (induction p n and p j cs arbitrary: and m pre rule: walk_node_walk_children.induct)
  case (1 p h cs)
  then show ?case
    using 1(1) [of "GreenNode h cs" "[]"] by (simp add: token_at_def map_filter_simps map_filter_append green_tokens_GreenNode)
next
  case (3 p j n cs)
  have "sub (Node g) (p @ [j]) = Some (Node n)" using 3 by (simp add: sub_snoc)
  then show ?case
    using 3(1) 3(2) [OF 3(3), of "pre @ [Node n]"] 3(4,5) by (simp add: map_filter_append)
next
  case (4 p j t cs)
  have "sub (Node g) (p @ [j]) = Some (Token t)" using 4 by (simp add: sub_snoc)
  then show ?case
    using 4(1) [OF 4(2), of "pre @ [Token t]"] 4(3,4) by (simp add: token_at_def map_filter_simps)
qed (simp add: map_filter_simps)

section \<open>The level\<close>

text \<open>What \<open>level\<close> is before an event.\<close>

fun level_at :: "nat list \<Rightarrow> nat list walk_event option \<Rightarrow> u32 \<Rightarrow> bool" where
  "level_at me None level \<longleftrightarrow> level = 0"
| "level_at me (Some (Enter p)) level \<longleftrightarrow> level = of_nat (length p - length me)"
| "level_at me (Some (Leave p)) level \<longleftrightarrow> level = of_nat (Suc (length p - length me))"

lemma level_next:
  assumes "sub (Node g) p \<noteq> None" "prefix me p"
  shows "level_at me (green_next g me (Enter p)) (of_nat (length p - length me) + 1)"
    and "level_at me (green_next g me (Leave p)) (of_nat (length p - length me))"
proof -
  have len: "length me \<le> length p" using assms(2) by (rule prefix_length_le)
  then show "level_at me (green_next g me (Enter p)) (of_nat (length p - length me) + 1)"
    by (auto simp: Suc_diff_le add.commute split: option.split node_or_token.split)
  show "level_at me (green_next g me (Leave p)) (of_nat (length p - length me))"
  proof (cases "p = me")
    case False
    with assms(2) obtain q i where p: "p = q @ [i]" "prefix me q" by (cases p rule: rev_cases) (auto simp: prefix_snoc)
    with assms(1) obtain n where "sub (Node g) q = Some (Node n)"
      by (auto simp: sub_snoc split: option.splits node_or_token.splits)
    with False p prefix_length_le [OF p(2)] show ?thesis by (auto simp: Suc_diff_le)
  qed simp
qed

lemma small_level: "d < 2 ^ 31 - 1 \<Longrightarrow> sint (of_nat d :: u32) = int d"
  by (simp add: signed_of_nat signed_take_bit_int_eq_self)


text \<open>No level of the traversal reaches the largest \<open>i32\<close>.\<close>

definition shallow :: "nat list \<Rightarrow> nat list walk_event list \<Rightarrow> bool" where
  "shallow me evs \<longleftrightarrow> (\<forall>ev \<in> set evs. length (walk_path ev) - length me < 2 ^ 31 - 1)"

section \<open>The loops\<close>

context red_env
begin

text \<open>One round of a loop over the events: the next position, in a heap that may have grown, and the event's element.\<close>

lemma walk_round:
  assumes wf: "red_wf E g (h :: ('j, 'x) heap)" and n: "n < length h" and path: "path_of h n = me"
    and at: "cursor_ok h me cur" "green_chain g me (map_option (event_path h) cur) (x # es)"
  obtains ev y c h1 where "cur = Some ev" "map_option (event_path h) cur = Some x"
    "preorder_with_tokens_step E (Node n) ev h = Inr (c, h1)" "red_wf E g h1" "heap_le h h1" "n < length h1" "path_of h1 n = me"
    "cursor_ok h1 me c" "green_chain g me (map_option (event_path h1) c) es" "map_option (event_path h1) c = green_next g me x"
    "elem_in h1 y" "prefix me (elem_path h1 y)" "x = Enter (elem_path h1 y) \<and> ev = Enter y \<or> x = Leave (elem_path h1 y) \<and> ev = Leave y"
proof -
  obtain ev where cur: "cur = Some ev" "x = event_path h ev" "green_chain g me (green_next g me x) es"
    using at(2) by (cases cur) auto
  have ev: "event_ok h me ev" using at(1) cur(1) by (simp add: cursor_ok_def)
  have "event_ok h (path_of h n) ev" using ev path by simp
  from nav_preorder_step [OF wf n this] obtain c h1 where
    s: "preorder_with_tokens_step E (Node n) ev h = Inr (c, h1)" "red_wf E g h1" "heap_le h h1" "cursor_ok h1 me c"
      "map_option (event_path h1) c = green_next g me x"
    using path cur(2) by (auto simp: nav_def)
  note ev1 = event_ok_le [OF s(3) wf ev]
  obtain y where y: "ev = Enter y \<or> ev = Leave y" by (cases ev) auto
  then have "elem_in h1 y" "prefix me (elem_path h1 y)" using ev1(1) by (auto simp: event_ok_def)
  moreover have "x = Enter (elem_path h1 y) \<and> ev = Enter y \<or> x = Leave (elem_path h1 y) \<and> ev = Leave y"
    using y ev1(2) cur(2) by auto
  moreover have "n < length h1" "path_of h1 n = me"
    using heap_le_node(1) [OF s(3) n] path_of_le [OF s(3) wf n] path by simp_all
  ultimately show thesis using that [OF cur(1) _ s(1-3)] cur(1,2,3) s(4,5) by simp
qed

lemma nav_debug_loop:
  assumes syn: "syntax_impl (en_syntax E)" and ok: "sub (Node g) me = Some e" "serde_ok E r e"
  shows "red_wf E g (h :: ('j, 'x) heap) \<Longrightarrow> n < length h \<Longrightarrow> path_of h n = me \<Longrightarrow> cursor_ok h me cur \<Longrightarrow>
    green_chain g me (map_option (event_path h) cur) es \<Longrightarrow> length es \<le> k \<Longrightarrow> shallow me es \<Longrightarrow>
    level_at me (map_option (event_path h) cur) level \<Longrightarrow>
    nav E g h (debug_loop k F E r n cur level W w)
      (\<lambda>_ res. res = write_pieces W (concat (map (debug_line F E r g me) (entered es))) w)"
proof (induction es arbitrary: h cur k level w)
  case Nil
  then show ?case by (cases cur) (auto intro: nav_return)
next
  case (Cons x es)
  obtain m where k: "k = Suc m" "length es \<le> m" using Cons.prems(6) by (cases k) auto
  obtain ev y c h1 where cur: "cur = Some ev" "map_option (event_path h) cur = Some x"
    and s: "preorder_with_tokens_step E (Node n) ev h = Inr (c, h1)" "red_wf E g h1" "heap_le h h1"
    and n1: "n < length h1" "path_of h1 n = me" "cursor_ok h1 me c" "green_chain g me (map_option (event_path h1) c) es"
      "map_option (event_path h1) c = green_next g me x"
    and y_in: "elem_in h1 y" "prefix me (elem_path h1 y)"
    and xy: "x = Enter (elem_path h1 y) \<and> ev = Enter y \<or> x = Leave (elem_path h1 y) \<and> ev = Leave y"
    by (rule walk_round [OF Cons.prems(1-5)]) (rule that)
  have shallow: "shallow me es" "length (walk_path x) - length me < 2 ^ 31 - 1" using Cons.prems(7) by (simp_all add: shallow_def)
  have sub: "sub (Node g) (elem_path h1 y) \<noteq> None" using elem_sub [OF s(2) y_in(1)] by simp
  let ?d = "length (elem_path h1 y) - length me"
  have d: "?d < 2 ^ 31 - 1" using xy shallow(2) by auto
  have at_x: "level_at me (Some x) level" using Cons.prems(8) unfolding cur(2) .
  note next_level = level_next [OF sub y_in(2)]
  have rest: "nav E g h1 (debug_loop m F E r n c level' W w')
      (\<lambda>_ res. res = write_pieces W (concat (map (debug_line F E r g me) (entered es))) w')"
    if "level_at me (green_next g me x) level'" for level' w'
    by (rule Cons.IH [OF s(2) n1(1-4) k(2) shallow(1)]) (simp add: n1(5) that)
  show ?case
  proof (cases "ev = Leave y")
    case True
    then have x: "x = Leave (elem_path h1 y)" using xy by auto
    have level: "level = of_nat (Suc ?d)" using at_x unfolding x by (simp del: of_nat_Suc)
    have "sint level \<noteq> - (2 ^ 31)"
    proof -
      have "sint (of_nat (Suc ?d) :: u32) = int (Suc ?d)"
        using d by (subst signed_of_nat) (simp add: signed_take_bit_int_eq_self)
      with level show ?thesis by simp
    qed
    then have dec: "level_dec (en_debug E) level = Inr (of_nat ?d)" by (simp add: level_dec_def level)
    have "level_at me (green_next g me x) (of_nat ?d)" using next_level(2) by (simp add: x)
    note rest' = rest [OF this, of w]
    have "debug_loop k F E r n cur level W w h = debug_loop m F E r n c (of_nat ?d) W w h1"
      using s(1) by (simp add: k(1) cur(1) True dec bindR_def readR_def)
    with rest' show ?thesis by (auto simp: x nav_def intro: heap_le_trans [OF s(3)])
  next
    case False
    with xy have x: "x = Enter (elem_path h1 y)" "ev = Enter y" by auto
    have level: "level = of_nat ?d" using at_x unfolding x(1) by simp
    have sint: "sint level = int ?d" unfolding level using d by (rule small_level)
    with d have inc: "level_inc (en_debug E) level = Inr (of_nat ?d + 1)" by (simp add: level_inc_def level)
    note header = element_write_header_eq [OF s(2) y_in(1) syn y_in(2) ok]
    have "level_at me (green_next g me x) (of_nat ?d + 1)" using next_level(1) by (simp add: x(1))
    note rest' = rest [OF this]
    have line: "and_ok (Inr (write_pieces W (replicate (nat (sint level)) (lit ''  '')) w)) (\<lambda>w.
        and_ok (element_write_header F E h1 r y W w) (\<lambda>w. Inr (write_pieces W [[10]] w))) =
      Inr (write_pieces W (debug_line F E r g me (elem_path h1 y)) w)"
      unfolding header and_ok_write sint by (simp add: debug_line_def)
    obtain okw w' where w': "write_pieces W (debug_line F E r g me (elem_path h1 y)) w = (okw, w')" by fastforce
    have step: "debug_loop k F E r n cur level W w h =
        (if okw then debug_loop m F E r n c (of_nat ?d + 1) W w' h1 else Inr ((False, w'), h1))"
      using s(1) by (simp add: k(1) cur(1) x(2) line w' inc bindR_def readR_def returnR_def del: write_pieces.simps)
    show ?thesis
    proof (cases okw)
      case True
      with rest' [of w'] w' step show ?thesis
        by (auto simp: x(1) write_pieces_append nav_def simp del: elem_path.simps write_pieces.simps intro: heap_le_trans [OF s(3)])
    next
      case False
      with w' s step show ?thesis
        by (auto simp: x(1) write_pieces_append nav_def simp del: elem_path.simps write_pieces.simps)
    qed
  qed
qed

lemma nav_display_loop:
  assumes ok: "sub (Node g) me = Some e" "serde_ok E r e"
  shows "red_wf E g (h :: ('j, 'x) heap) \<Longrightarrow> n < length h \<Longrightarrow> path_of h n = me \<Longrightarrow> cursor_ok h me cur \<Longrightarrow>
    green_chain g me (map_option (event_path h) cur) es \<Longrightarrow> length es \<le> k \<Longrightarrow>
    nav E g h (display_loop k F E r n cur W w)
      (\<lambda>_ res. res = write_pieces W (concat (map (token_pieces F E r) (List.map_filter (token_at g) (entered es)))) w)"
proof (induction es arbitrary: h cur k w)
  case Nil
  then show ?case by (cases cur) (auto simp: map_filter_simps intro: nav_return)
next
  case (Cons x es)
  obtain m where k: "k = Suc m" "length es \<le> m" using Cons.prems(6) by (cases k) auto
  obtain ev y c h1 where cur: "cur = Some ev"
    and s: "preorder_with_tokens_step E (Node n) ev h = Inr (c, h1)" "red_wf E g h1" "heap_le h h1"
    and n1: "n < length h1" "path_of h1 n = me" "cursor_ok h1 me c" "green_chain g me (map_option (event_path h1) c) es"
    and y_in: "elem_in h1 y" "prefix me (elem_path h1 y)"
    and xy: "x = Enter (elem_path h1 y) \<and> ev = Enter y \<or> x = Leave (elem_path h1 y) \<and> ev = Leave y"
    by (rule walk_round [OF Cons.prems(1-5)]) (rule that)
  note sub = elem_sub [OF s(2) y_in(1)]
  let ?out = "\<lambda>es. concat (map (token_pieces F E r) (List.map_filter (token_at g) (entered es)))"
  have rest: "nav E g h1 (display_loop m F E r n c W w') (\<lambda>_ res. res = write_pieces W (?out es) w')" for w'
    by (rule Cons.IH [OF s(2) n1 k(2)])
  show ?case
  proof (cases "\<exists>t. ev = Enter (Token t)")
    case False
    have same: "?out (x # es) = ?out es"
      using xy False sub by (cases y) (auto simp: token_at_def map_filter_simps)
    have "display_loop k F E r n cur W w h = display_loop m F E r n c W w h1"
      using s(1) False by (auto simp: k(1) cur(1) bindR_def split: walk_event.split node_or_token.split)
    with rest [of w] same show ?thesis by (auto simp: nav_def intro: heap_le_trans [OF s(3)])
  next
    case True
    then obtain t where t: "ev = Enter (Token t)" "y = Token t" "x = Enter (elem_path h1 (Token t))" using xy by auto
    obtain tok where tok: "token_green h1 t = Inr tok" "green_of h1 (Token t) = Token tok"
      using y_in(1) t(2) by (metis token_green_eq [OF s(2)])
    obtain d where d: "green_resolve E r tok = Inr d"
      by (rule serde_ok_element [OF s(2) y_in ok]) (use tok(2) t(2) in blast)
    have out: "?out (x # es) = fo_display F d @ ?out es"
      using sub tok(2) d t by (simp add: token_at_def map_filter_simps token_pieces_def del: elem_path.simps)
    obtain okw w' where w': "write_pieces W (fo_display F d) w = (okw, w')" by fastforce
    have step: "display_loop k F E r n cur W w h = (if okw then display_loop m F E r n c W w' h1 else Inr ((False, w'), h1))"
      using s(1) w' d tok(1)
      by (simp add: k(1) cur(1) t(1) token_write_display_def resolve_data_green bindR_def readR_def returnR_def)
    show ?thesis
    proof (cases okw)
      case True
      with rest [of w'] w' step show ?thesis
        by (auto simp: out write_pieces_append nav_def simp del: write_pieces.simps intro: heap_le_trans [OF s(3)])
    next
      case False
      with w' s step show ?thesis by (auto simp: out write_pieces_append nav_def simp del: write_pieces.simps)
    qed
  qed
qed

end

section \<open>Properties\<close>

lemma cursor_start: "n < length h \<Longrightarrow> cursor_ok h (path_of h n) (Some (Enter (Node n)))"
  by (simp add: cursor_ok_def event_ok_def)

lemma display_tokens:
  assumes T: "text_size (en_text E)" and wf: "red_wf E g h" and c: "c < length h" and ok: "serde_ok E r (Node (nd_green (h ! c)))"
    and k: "length (walk_node (path_of h c) (nd_green (h ! c))) \<le> k"
  shows "computes E g h (node_write_display k F E r c W w)
    (Inr (write_pieces W (concat (map (token_pieces F E r) (green_tokens (nd_green (h ! c))))) w))"
proof -
  have env: "red_env E" by (rule red_env.intro [OF T])
  note sub = node_sub [OF wf c, THEN conjunct1]
  from red_env.walk_chain [OF env wf c]
  have chain: "green_chain g (path_of h c) (map_option (event_path h) (Some (Enter (Node c))))
      (walk_node (path_of h c) (nd_green (h ! c)))" by simp
  from red_env.nav_display_loop [OF env sub ok wf c refl cursor_start [OF c] chain k, of F W w]
  show ?thesis by (simp add: computes_Inr node_write_display_def walk_tokens(1) [OF sub])
qed

lemma represented_pieces:
  assumes "represents E r t (Node n)"
  shows "concat (map (token_pieces F E r) (green_tokens n)) = concat (map (\<lambda>l. fo_display F (the (leaf_data E l))) (leaves t))"
proof -
  have "map (green_resolve E r) (green_tokens n) = map (Inr \<circ> the \<circ> leaf_data E) (leaves t)"
    using represents_tokens(1) [OF assms] by simp
  from arg_cong [OF this, of "map (\<lambda>x. case x of Inr d \<Rightarrow> fo_display F d | Inl _ \<Rightarrow> [])"]
  have "map (token_pieces F E r) (green_tokens n) = map (\<lambda>l. fo_display F (the (leaf_data E l))) (leaves t)"
    by (simp add: token_pieces_def [abs_def] comp_def)
  then show ?thesis by simp
qed

text \<open>C24: Displaying a node writes the payloads of its tokens from left to right, and nothing else, and stops at the first write
  that fails; when the payload type displays as its bytes, as \<open>str\<close> does, \<open>display\<close> returns exactly the source
  bytes of the tree the node was built from.\<close>
theorem display_writes_source:
  assumes "text_size (en_text E)" "red_wf E g h" "c < length h" "represents E r t (Node (nd_green (h ! c)))"
    and "length (walk_node (path_of h c) (nd_green (h ! c))) \<le> k"
  shows "computes E g h (node_write_display k F E r c W w)
      (Inr (write_pieces W (concat (map (\<lambda>l. fo_display F (the (leaf_data E l))) (leaves t))) w)) \<and>
    (lossless_display F (en_data E) valid \<and> (\<forall>l \<in> set (leaves t). valid (the (leaf_data E l))) \<longrightarrow>
      computes E g h (node_display k F E r c) (Inr (Str (concat (map (\<lambda>l. td_as_bytes (en_data E) (the (leaf_data E l))) (leaves t))))))"
proof (intro conjI impI)
  note shown = display_tokens [OF assms(1-3) represents_serde_ok [OF assms(4)] assms(5), of F, unfolded represented_pieces [OF assms(4)]]
  then show "computes E g h (node_write_display k F E r c W w)
      (Inr (write_pieces W (concat (map (\<lambda>l. fo_display F (the (leaf_data E l))) (leaves t))) w))" .
  assume F: "lossless_display F (en_data E) valid \<and> (\<forall>l \<in> set (leaves t). valid (the (leaf_data E l)))"
  from shown [of string_writer "[]"]
  have "computes E g h (node_display k F E r c)
      (Inr (Str (concat (concat (map (\<lambda>l. fo_display F (the (leaf_data E l))) (leaves t))))))"
    by (auto simp: node_display_def computes_def bindR_def readR_def)
  then show "computes E g h (node_display k F E r c) (Inr (Str (concat (map (\<lambda>l. td_as_bytes (en_data E) (the (leaf_data E l))) (leaves t)))))"
    using lossless_display.concat_displays [of F "en_data E" valid "map (\<lambda>l. the (leaf_data E l)) (leaves t)"] F
    by (simp add: comp_def)
qed

text \<open>The tree that the example of text was built from, and the output of its kinds and ranges.\<close>

abbreviation ex_source :: "(test_kind, rust_str) tree" where
  "ex_source \<equiv> TNode Root [TStatic Plus, TToken Identifier (Str [0x61])]"

definition ex_fmt :: "(test_kind, rust_str) fmt_ops" where
  "ex_fmt = str_fmt (\<lambda>_. True) (\<lambda>k. [lit (case k of Root \<Rightarrow> ''Root'' | Plus \<Rightarrow> ''Plus'' | _ \<Rightarrow> ''Ident'')])
     (\<lambda>r. [decimal (unat (tr_start r)), lit ''..'', decimal (unat (tr_end r))])"

lemma ex_source_represents: "represents red_ex_env ex_interner ex_source (Node (nd_green (ex_plus_heap ! 0)))"
  unfolding ex_plus_0(2)
  by (simp add: ex_plus_children represents_leaf_def green_resolve_def test_from_raw_def green_token_data_def resolve_def
      ex_interner_resolves str_data_def) (simp add: ex_plus_def ex_node_def gn_kind_def green_node_new_def)

lemma ex_source_walk: "walk_node (path_of ex_plus_heap 0) (nd_green (ex_plus_heap ! 0)) =
    [Enter [], Enter [0], Leave [0], Enter [1], Leave [1], Leave []]"
  unfolding ex_plus_0(2,4) by (simp add: ex_plus_def ex_node_def green_node_new_def)

theorem display_writes_source_witness:
  "\<exists>h. node_display 10 ex_fmt red_ex_env ex_interner 0 ex_plus_heap = Inr (Str [0x2B, 0x61], h)"
proof -
  have len: "length (walk_node (path_of ex_plus_heap 0) (nd_green (ex_plus_heap ! 0))) \<le> 10" unfolding ex_source_walk by simp
  have c: "0 < length ex_plus_heap" using ex_plus_0(1) by simp
  have "lossless_display ex_fmt (en_data red_ex_env) (\<lambda>_. True)"
    using str_display.lossless_display_axioms by (simp add: ex_fmt_def)
  with display_writes_source [OF ex_text ex_plus_wf c ex_source_represents len, where F = ex_fmt and valid = "\<lambda>_. True", THEN conjunct2]
  show ?thesis by (auto simp: computes_def str_data_def)
qed

text \<open>C25: The text that a node displays as and its \<open>SyntaxText\<close> as a string, which are computed in different ways, are the same.\<close>
theorem display_equals_text:
  assumes "readable E g h v" "syntax_data_new E h c r = Inr v" "serde_ok E r (Node (nd_green (h ! c)))" "length (view_events h v) < k"
  shows "\<exists>s. computes E g h (node_display k (str_fmt plain kind rng) E r c) (Inr s) \<and> computes E g h (text_to_string k E v) (Inr s) \<and>
    s = Str (element_bytes E r (Node (nd_green (h ! c))))"
proof -
  note rd = assms(1) [unfolded readable_def]
  have wf: "red_wf E g h" and T: "text_size (en_text E)" and data: "td_as_bytes (en_data E) = str_bytes" using rd by simp_all
  obtain q where q: "node_text_range E h c = Inr q" "v = \<lparr>sd_node = c, sd_range = q, sd_resolver = r\<rparr>"
    using assms(2) by (auto simp: syntax_data_new_def bindO_eq_Inr)
  have c: "c < length h" using rd q(2) by (simp add: view_ok_def)
  from red_env.element_range [OF red_env.intro [OF T] wf, of "Node c"] c q(1)
  have range_q: "unat (tr_start q) = start_at (Node g) (path_of h c)"
    "unat (tr_end q) = start_at (Node g) (path_of h c) + green_len (nd_green (h ! c))" by auto
  have "start_at (Node g) (path_of h c) = node_start (h ! c)" using node_sub [OF wf c] by simp
  with range_q have "view_bytes E h v = take (green_len (nd_green (h ! c))) (element_bytes E r (Node (nd_green (h ! c))))"
    by (simp add: view_bytes_def q(2) del: element_bytes_Node)
  also have "\<dots> = element_bytes E r (Node (nd_green (h ! c)))"
  proof -
    have "text_ok E r g" using rd by (simp add: text_valid_def q(2))
    from length_element_bytes [OF text_ok_sub [OF this node_sub [OF wf c, THEN conjunct1]]] show ?thesis by (simp del: element_bytes_Node)
  qed
  finally have str: "computes E g h (text_to_string k E v) (Inr (Str (element_bytes E r (Node (nd_green (h ! c))))))"
    using readable_to_string [OF assms(1,4)] by simp
  have "length (walk_node (path_of h c) (nd_green (h ! c))) \<le> k" using assms(4) by (simp add: view_events_def q(2))
  from display_tokens [OF T wf c assms(3) this, of "str_fmt plain kind rng" string_writer "[]"]
  have "computes E g h (node_display k (str_fmt plain kind rng) E r c)
      (Inr (Str (concat (concat (map (token_pieces (str_fmt plain kind rng) E r) (green_tokens (nd_green (h ! c))))))))"
    by (auto simp: node_display_def computes_def bindR_def readR_def)
  moreover have "concat (token_pieces (str_fmt plain kind rng) E r x) = token_bytes E r x" for x
    by (simp add: token_pieces_def token_bytes_def str_fmt_def data split: sum.split)
  then have "concat (concat (map (token_pieces (str_fmt plain kind rng) E r) ts)) = concat (map (token_bytes E r) ts)" for ts
    by (induction ts) simp_all
  ultimately show ?thesis using str by (auto simp: element_bytes_def)
qed

theorem display_equals_text_witness:
  "\<exists>h h'. node_display 10 (str_fmt (\<lambda>_. True) (\<lambda>_. []) (\<lambda>_. [])) red_ex_env ex_interner 0 ex_plus_heap = Inr (Str [0x2B, 0x61], h) \<and>
     text_to_string 10 red_ex_env ex_view ex_plus_heap = Inr (Str [0x2B, 0x61], h')"
proof -
  have new: "syntax_data_new red_ex_env ex_plus_heap 0 ex_interner = Inr ex_view"
    by (simp add: syntax_data_new_def node_text_range_def node_data_of_def make_new_root_def node_data_new_def ex_view_def
        ex_plus_def ex_node_def green_node_new_def gn_text_len_def text_len_sum_def documented_text_ops_def Let_def)
  have "length (view_events ex_plus_heap ex_view) < 10" by (simp add: ex_view_events)
  from display_equals_text [OF ex_readable new represents_serde_ok [OF ex_source_represents] this, of "\<lambda>_. True" "\<lambda>_. []" "\<lambda>_. []"]
  show ?thesis by (auto simp: computes_def ex_plus_0 ex_plus_children ex_plus_tokens)
qed

text \<open>C26: The recursive debug output of a node is a line for every element of its subtree in preorder, indented by its depth, with
  its kind, its exact range, and for a token its data; writing stops at the first write that fails. The final assertion
  that the level is back at 0 holds, and the 32-bit level does not overflow in a tree less than 2^31 - 1 levels deep.\<close>
theorem debug_writes_lines:
  assumes "text_size (en_text E)" "syntax_impl (en_syntax E)" "red_wf E g h" "c < length h" "represents E r t (Node (nd_green (h ! c)))"
    and "length (walk_node (path_of h c) (nd_green (h ! c))) \<le> k" "shallow (path_of h c) (walk_node (path_of h c) (nd_green (h ! c)))"
  shows "computes E g h (node_write_debug k F E r c True W w)
    (Inr (write_pieces W (concat (map (debug_line F E r g (path_of h c)) (entered (walk_node (path_of h c) (nd_green (h ! c)))))) w))"
proof -
  have env: "red_env E" by (rule red_env.intro [OF assms(1)])
  note c = assms(4)
  note sub = node_sub [OF assms(3) c, THEN conjunct1]
  from red_env.walk_chain [OF env assms(3) c]
  have chain: "green_chain g (path_of h c) (map_option (event_path h) (Some (Enter (Node c))))
      (walk_node (path_of h c) (nd_green (h ! c)))" by simp
  have "level_at (path_of h c) (map_option (event_path h) (Some (Enter (Node c)))) 0" by simp
  from red_env.nav_debug_loop [OF env assms(2) sub represents_serde_ok [OF assms(5)] assms(3) c refl cursor_start [OF c] chain assms(6,7) this]
  show ?thesis by (simp add: computes_Inr node_write_debug_def)
qed

lemma ex_plus_head: "gn_kind ex_plus = 5" "green_len ex_plus = 2"
  by (simp_all add: ex_plus_def ex_node_def gn_kind_def green_node_new_def green_len_GreenNode)

lemma ex_plus_output: "concat (concat (map (debug_line ex_fmt red_ex_env ex_interner ex_plus []) [[], [0], [1]])) =
    lit ''Root@0..2'' @ [10] @ lit ''  Plus@0..1 '' @ [0x22] @ lit ''+'' @ [0x22, 10] @
    lit ''  Ident@1..2 '' @ [0x22] @ lit ''a'' @ [0x22, 10]"
  by (simp add: debug_line_def debug_header_def ex_plus_children ex_plus_head ex_fmt_def str_fmt_def test_from_raw_def
      green_resolve_def green_token_data_def resolve_def ex_interner_resolves decimal.simps debug_str_def char_width_def
      escape_debug_def lit_def)

theorem debug_writes_lines_witness:
  "\<exists>h. node_debug 10 ex_fmt red_ex_env ex_interner 0 True ex_plus_heap =
     Inr (Str (lit ''Root@0..2'' @ [10] @ lit ''  Plus@0..1 '' @ [0x22] @ lit ''+'' @ [0x22, 10] @
               lit ''  Ident@1..2 '' @ [0x22] @ lit ''a'' @ [0x22, 10]), h)"
proof -
  have len: "length (walk_node (path_of ex_plus_heap 0) (nd_green (ex_plus_heap ! 0))) \<le> 10" unfolding ex_source_walk by simp
  have c: "0 < length ex_plus_heap" using ex_plus_0(1) by simp
  have shallow: "shallow (path_of ex_plus_heap 0) (walk_node (path_of ex_plus_heap 0) (nd_green (ex_plus_heap ! 0)))"
    unfolding ex_source_walk by (simp add: shallow_def ex_plus_0)
  have syn: "syntax_impl (en_syntax red_ex_env)" by (simp add: test.syntax_impl_axioms)
  have sub: "sub (Node ex_plus) [] = Some (Node ex_plus)" by simp
  from debug_writes_lines [OF ex_text syn ex_plus_wf c ex_source_represents len shallow, of ex_fmt string_writer "[]"]
  obtain h where "node_write_debug 10 ex_fmt red_ex_env ex_interner 0 True string_writer [] ex_plus_heap =
    Inr ((True, concat (concat (map (debug_line ex_fmt red_ex_env ex_interner ex_plus []) [[], [0], [1]]))), h)"
    unfolding ex_source_walk by (auto simp: computes_def ex_plus_0)
  then show ?thesis
    unfolding ex_plus_output by (simp add: node_debug_def bindR_def readR_def)
qed

end
