(* ===== verification/Resolved.thy ===== *)
theory Resolved
  imports Red_Display Red_Search Serde
begin

text \<open>
  \<open>cstree/src/syntax/resolved.rs\<close>: nodes, tokens and elements of a tree that is known to have a
  resolver. They are the syntax nodes and tokens in a wrapper; their functions take the resolver from the
  root of the tree, with an \<open>unwrap\<close>, and the ones that navigate are those of the syntax tree with the
  wrapper put around what they return.
\<close>

section \<open>Wrappers\<close>

datatype resolved_node = ResolvedNode (rn_syntax: nat)

datatype resolved_token = ResolvedToken (rt_syntax: syntax_token)

type_synonym resolved_element = "(resolved_node, resolved_token) node_or_token"

text \<open>The unsafe functions \<open>coerce_ref\<close>, whose callers promise that the tree has a resolver.\<close>

definition node_coerce_ref :: "nat \<Rightarrow> resolved_node" where
  "node_coerce_ref syntax = ResolvedNode syntax"

definition token_coerce_ref :: "syntax_token \<Rightarrow> resolved_token" where
  "token_coerce_ref syntax = ResolvedToken syntax"

fun element_coerce_ref :: "syntax_element \<Rightarrow> resolved_element" where
  "element_coerce_ref (Node node) = Node (node_coerce_ref node)"
| "element_coerce_ref (Token token) = Token (token_coerce_ref token)"

text \<open>\<open>Deref\<close> and an assignment through \<open>DerefMut\<close>.\<close>

definition rn_deref :: "resolved_node \<Rightarrow> nat" where
  "rn_deref r = rn_syntax r"

definition rt_deref :: "resolved_token \<Rightarrow> syntax_token" where
  "rt_deref r = rt_syntax r"

definition rn_deref_mut_set :: "nat \<Rightarrow> resolved_node \<Rightarrow> resolved_node" where
  "rn_deref_mut_set syntax r = ResolvedNode syntax"

definition rt_deref_mut_set :: "syntax_token \<Rightarrow> resolved_token \<Rightarrow> resolved_token" where
  "rt_deref_mut_set syntax r = ResolvedToken syntax"

text \<open>The \<open>forward\<close> macros, on an \<open>Option\<close> and on an iterator.\<close>

definition forward :: "('a \<Rightarrow> 'b) \<Rightarrow> ('j, 'x, 'a option) red \<Rightarrow> ('j, 'x, 'b option) red" where
  "forward coerce m = bindR m (\<lambda>e. returnR (map_option coerce e))"

definition forward_iter :: "('a \<Rightarrow> 'b) \<Rightarrow> ('j, 'x, 'a list) red \<Rightarrow> ('j, 'x, 'b list) red" where
  "forward_iter coerce m = bindR m (\<lambda>es. returnR (map coerce es))"

definition forward_next :: "('a \<Rightarrow> 'b) \<Rightarrow> ('j, 'x, 'a option \<times> 't) red \<Rightarrow> ('j, 'x, 'b option \<times> 't) red" where
  "forward_next coerce m = bindR m (\<lambda>(e, it). returnR (map_option coerce e, it))"

section \<open>The resolver\<close>

text \<open>The walk to the root is bounded by the number of nodes there are.\<close>

definition rn_resolver :: "('i, 'x) heap \<Rightarrow> resolved_node \<Rightarrow> 'i outcome" where
  "rn_resolver h r = bindO (node_resolver (Suc (length h)) h (rn_syntax r)) unwrap"

definition rt_resolver :: "('i, 'x) heap \<Rightarrow> resolved_token \<Rightarrow> 'i outcome" where
  "rt_resolver h r = bindO (node_resolver (Suc (length h)) h (st_parent (rt_syntax r))) unwrap"

fun re_resolver :: "('i, 'x) heap \<Rightarrow> resolved_element \<Rightarrow> 'i outcome" where
  "re_resolver h (Node it) = rn_resolver h it"
| "re_resolver h (Token it) = rt_resolver h it"

definition rn_new_root_with_resolver :: "green_node \<Rightarrow> 'i \<Rightarrow> resolved_node \<times> ('i, 'x) heap" where
  "rn_new_root_with_resolver green resolver =
     (case new_root_with_resolver green resolver of (root, h) \<Rightarrow> (node_coerce_ref root, h))"

text \<open>From a syntax token, and from nodes and tokens that are resolved already.\<close>

definition token_try_resolved :: "('i, 'x) heap \<Rightarrow> syntax_token \<Rightarrow> resolved_token option outcome" where
  "token_try_resolved h t = bindO (node_resolver (Suc (length h)) h (st_parent t)) (\<lambda>r.
     Inr (map_option (\<lambda>_. token_coerce_ref t) r))"

definition token_resolved :: "('i, 'x) heap \<Rightarrow> syntax_token \<Rightarrow> resolved_token outcome" where
  "token_resolved h t = bindO (token_try_resolved h t) (\<lambda>r. case r of None \<Rightarrow> Inl No_resolver | Some t' \<Rightarrow> Inr t')"

definition rn_try_resolved :: "resolved_node \<Rightarrow> resolved_node option" where
  "rn_try_resolved r = Some r"

definition rn_resolved :: "resolved_node \<Rightarrow> resolved_node" where
  "rn_resolved r = r"

definition rt_try_resolved :: "resolved_token \<Rightarrow> resolved_token option" where
  "rt_try_resolved r = Some r"

definition rt_resolved :: "resolved_token \<Rightarrow> resolved_token" where
  "rt_resolved r = r"

section \<open>Text, data and output\<close>

definition rn_data :: "('s, 'd, 'i, 'e) env \<Rightarrow> ('i, 'x) heap \<Rightarrow> resolved_node \<Rightarrow> 'i syntax_data outcome" where
  "rn_data E h r = bindO (rn_resolver h r) (\<lambda>resolver. syntax_data_new E h (rn_syntax r) resolver)"

definition rn_text :: "('s, rust_str, 'i, 'e) env \<Rightarrow> ('i, 'x) heap \<Rightarrow> resolved_node \<Rightarrow> 'i syntax_text outcome" where
  "rn_text E h r = bindO (rn_resolver h r) (\<lambda>resolver. syntax_text_new E h (rn_syntax r) resolver)"

text \<open>\<open>alternate\<close> is the flag \<open>#\<close> of the formatter, which is also the target.\<close>

definition rn_fmt_debug :: "nat \<Rightarrow> ('s, 'd) fmt_ops \<Rightarrow> ('s, 'd, 'i, 'e) env \<Rightarrow> resolved_node \<Rightarrow> bool \<Rightarrow> 'w writer \<Rightarrow> 'w \<Rightarrow> ('i, 'x, bool \<times> 'w) red" where
  "rn_fmt_debug k F E r alternate W w = bindR (readR (\<lambda>h. rn_resolver h r)) (\<lambda>resolver.
     node_write_debug k F E resolver (rn_syntax r) alternate W w)"

definition rn_fmt_display :: "nat \<Rightarrow> ('s, 'd) fmt_ops \<Rightarrow> ('s, 'd, 'i, 'e) env \<Rightarrow> resolved_node \<Rightarrow> 'w writer \<Rightarrow> 'w \<Rightarrow> ('i, 'x, bool \<times> 'w) red" where
  "rn_fmt_display k F E r W w = bindR (readR (\<lambda>h. rn_resolver h r)) (\<lambda>resolver.
     node_write_display k F E resolver (rn_syntax r) W w)"

definition rt_data :: "('s, 'd, 'i, 'e) env \<Rightarrow> ('i, 'x) heap \<Rightarrow> resolved_token \<Rightarrow> 'd outcome" where
  "rt_data E h r = bindO (token_static_data E h (rt_syntax r)) (\<lambda>s.
     case s of
       Some d \<Rightarrow> Inr d
     | None \<Rightarrow> bindO (token_green h (rt_syntax r)) (\<lambda>g. bindO (rt_resolver h r) (\<lambda>resolver.
         bindO (green_token_data (resolve (en_interner E) resolver) g) unwrap)))"

definition rt_text :: "('s, rust_str, 'i, 'e) env \<Rightarrow> ('i, 'x) heap \<Rightarrow> resolved_token \<Rightarrow> rust_str outcome" where
  "rt_text E h r = rt_data E h r"

definition rt_fmt_debug :: "('s, 'd) fmt_ops \<Rightarrow> ('s, 'd, 'i, 'e) env \<Rightarrow> ('i, 'x) heap \<Rightarrow> resolved_token \<Rightarrow> 'w writer \<Rightarrow> 'w \<Rightarrow> (bool \<times> 'w) outcome" where
  "rt_fmt_debug F E h r W w = bindO (rt_resolver h r) (\<lambda>resolver. token_write_debug F E h resolver (rt_syntax r) W w)"

definition rt_fmt_display :: "('s, 'd) fmt_ops \<Rightarrow> ('s, 'd, 'i, 'e) env \<Rightarrow> ('i, 'x) heap \<Rightarrow> resolved_token \<Rightarrow> 'w writer \<Rightarrow> 'w \<Rightarrow> (bool \<times> 'w) outcome" where
  "rt_fmt_display F E h r W w = bindO (rt_resolver h r) (\<lambda>resolver. token_write_display F E h resolver (rt_syntax r) W w)"

text \<open>\<open>ResolvedElement::display\<close>, and what is serialised with and without data.\<close>

fun re_display :: "nat \<Rightarrow> ('s, 'd) fmt_ops \<Rightarrow> ('s, 'd, 'i, 'e) env \<Rightarrow> 'i \<Rightarrow> resolved_element \<Rightarrow> ('j, 'x, rust_str) red" where
  "re_display k F E resolver (Node it) = node_display k F E resolver (rn_deref it)"
| "re_display k F E resolver (Token it) = readR (\<lambda>h. token_display F E h resolver (rt_deref it))"

definition rn_as_serialize_with_data :: "nat \<Rightarrow> ('s, 'd, 'i, 'e) env \<Rightarrow> resolved_node \<Rightarrow> ('i, 'x, event list \<times> 'x list) red" where
  "rn_as_serialize_with_data k E r = bindR (readR (\<lambda>h. rn_resolver h r)) (\<lambda>resolver.
     serialize_with_data k E resolver (rn_deref r))"

definition rn_serialize :: "nat \<Rightarrow> ('s, 'd, 'i, 'e) env \<Rightarrow> resolved_node \<Rightarrow> ('i, 'x, event list \<times> 'x list) red" where
  "rn_serialize k E r = bindR (readR (\<lambda>h. rn_resolver h r)) (\<lambda>resolver.
     serialize_with_resolver k E resolver (rn_deref r))"

section \<open>Navigation from nodes\<close>

text \<open>\<open>root\<close> wraps the root and, as its return type is \<open>&SyntaxNode\<close>, unwraps it again.\<close>

definition rn_root :: "('j, 'x) heap \<Rightarrow> resolved_node \<Rightarrow> nat outcome" where
  "rn_root h r = bindO (node_root (Suc (length h)) h (rn_syntax r)) (\<lambda>root. Inr (rn_deref (node_coerce_ref root)))"

definition rn_parent :: "('j, 'x) heap \<Rightarrow> resolved_node \<Rightarrow> resolved_node option outcome" where
  "rn_parent h r = bindO (node_parent h (rn_syntax r)) (\<lambda>p. Inr (map_option node_coerce_ref p))"

definition rn_ancestors :: "nat \<Rightarrow> resolved_node \<Rightarrow> ('j, 'x, resolved_node list) red" where
  "rn_ancestors k r = forward_iter node_coerce_ref (node_ancestors k (rn_syntax r))"

text \<open>The child iterators: creation, and \<open>next\<close> of the iterator with the wrapper mapped over it.\<close>

definition rn_children :: "('s, 'd, 'i, 'e) env \<Rightarrow> ('j, 'x) heap \<Rightarrow> resolved_node \<Rightarrow> node_children_iter outcome" where
  "rn_children E h r = children_of E h (rn_syntax r)"

definition rn_children_next :: "('s, 'd, 'i, 'e) env \<Rightarrow> node_children_iter \<Rightarrow> ('j, 'x, resolved_node option \<times> node_children_iter) red" where
  "rn_children_next E it = forward_next node_coerce_ref (node_children_next E it)"

definition rn_children_with_tokens :: "('s, 'd, 'i, 'e) env \<Rightarrow> ('j, 'x) heap \<Rightarrow> resolved_node \<Rightarrow> element_children_iter outcome" where
  "rn_children_with_tokens E h r = children_with_tokens E h (rn_syntax r)"

definition rn_children_with_tokens_next :: "('s, 'd, 'i, 'e) env \<Rightarrow> element_children_iter \<Rightarrow> ('j, 'x, resolved_element option \<times> element_children_iter) red" where
  "rn_children_with_tokens_next E it = forward_next element_coerce_ref (element_children_next E it)"

definition rn_first_child :: "('s, 'd, 'i, 'e) env \<Rightarrow> resolved_node \<Rightarrow> ('j, 'x, resolved_node option) red" where
  "rn_first_child E r = forward node_coerce_ref (first_child E (rn_syntax r))"

definition rn_first_child_or_token :: "('s, 'd, 'i, 'e) env \<Rightarrow> resolved_node \<Rightarrow> ('j, 'x, resolved_element option) red" where
  "rn_first_child_or_token E r = forward element_coerce_ref (first_child_or_token E (rn_syntax r))"

definition rn_last_child :: "('s, 'd, 'i, 'e) env \<Rightarrow> resolved_node \<Rightarrow> ('j, 'x, resolved_node option) red" where
  "rn_last_child E r = forward node_coerce_ref (last_child E (rn_syntax r))"

definition rn_last_child_or_token :: "('s, 'd, 'i, 'e) env \<Rightarrow> resolved_node \<Rightarrow> ('j, 'x, resolved_element option) red" where
  "rn_last_child_or_token E r = forward element_coerce_ref (last_child_or_token E (rn_syntax r))"

definition rn_next_sibling :: "('s, 'd, 'i, 'e) env \<Rightarrow> resolved_node \<Rightarrow> ('j, 'x, resolved_node option) red" where
  "rn_next_sibling E r = forward node_coerce_ref (next_sibling E (rn_syntax r))"

definition rn_next_sibling_or_token :: "('s, 'd, 'i, 'e) env \<Rightarrow> resolved_node \<Rightarrow> ('j, 'x, resolved_element option) red" where
  "rn_next_sibling_or_token E r = forward element_coerce_ref (next_sibling_or_token E (rn_syntax r))"

definition rn_prev_sibling :: "('s, 'd, 'i, 'e) env \<Rightarrow> resolved_node \<Rightarrow> ('j, 'x, resolved_node option) red" where
  "rn_prev_sibling E r = forward node_coerce_ref (prev_sibling E (rn_syntax r))"

definition rn_prev_sibling_or_token :: "('s, 'd, 'i, 'e) env \<Rightarrow> resolved_node \<Rightarrow> ('j, 'x, resolved_element option) red" where
  "rn_prev_sibling_or_token E r = forward element_coerce_ref (prev_sibling_or_token E (rn_syntax r))"

definition rn_next_child_after :: "('s, 'd, 'i, 'e) env \<Rightarrow> resolved_node \<Rightarrow> nat \<Rightarrow> text_size \<Rightarrow> ('j, 'x, resolved_node option) red" where
  "rn_next_child_after E r n offset = forward node_coerce_ref (next_child_after E (rn_syntax r) n offset)"

definition rn_next_child_or_token_after :: "('s, 'd, 'i, 'e) env \<Rightarrow> resolved_node \<Rightarrow> nat \<Rightarrow> text_size \<Rightarrow> ('j, 'x, resolved_element option) red" where
  "rn_next_child_or_token_after E r n offset = forward element_coerce_ref (next_child_or_token_after E (rn_syntax r) n offset)"

definition rn_prev_child_before :: "('s, 'd, 'i, 'e) env \<Rightarrow> resolved_node \<Rightarrow> nat \<Rightarrow> text_size \<Rightarrow> ('j, 'x, resolved_node option) red" where
  "rn_prev_child_before E r n offset = forward node_coerce_ref (prev_child_before E (rn_syntax r) n offset)"

definition rn_prev_child_or_token_before :: "('s, 'd, 'i, 'e) env \<Rightarrow> resolved_node \<Rightarrow> nat \<Rightarrow> text_size \<Rightarrow> ('j, 'x, resolved_element option) red" where
  "rn_prev_child_or_token_before E r n offset = forward element_coerce_ref (prev_child_or_token_before E (rn_syntax r) n offset)"

definition rn_first_token :: "nat \<Rightarrow> ('s, 'd, 'i, 'e) env \<Rightarrow> resolved_node \<Rightarrow> ('j, 'x, resolved_token option) red" where
  "rn_first_token k E r = forward token_coerce_ref (node_first_token k E (rn_syntax r))"

definition rn_last_token :: "nat \<Rightarrow> ('s, 'd, 'i, 'e) env \<Rightarrow> resolved_node \<Rightarrow> ('j, 'x, resolved_token option) red" where
  "rn_last_token k E r = forward token_coerce_ref (node_last_token k E (rn_syntax r))"

definition rn_siblings :: "nat \<Rightarrow> ('s, 'd, 'i, 'e) env \<Rightarrow> resolved_node \<Rightarrow> direction \<Rightarrow> ('j, 'x, resolved_node list) red" where
  "rn_siblings k E r dir = forward_iter node_coerce_ref (siblings k E (rn_syntax r) dir)"

definition rn_siblings_with_tokens :: "nat \<Rightarrow> ('s, 'd, 'i, 'e) env \<Rightarrow> resolved_node \<Rightarrow> direction \<Rightarrow> ('j, 'x, resolved_element list) red" where
  "rn_siblings_with_tokens k E r dir = forward_iter element_coerce_ref (siblings_with_tokens k E (Node (rn_syntax r)) dir)"

definition rn_descendants :: "nat \<Rightarrow> ('s, 'd, 'i, 'e) env \<Rightarrow> resolved_node \<Rightarrow> ('j, 'x, resolved_node list) red" where
  "rn_descendants k E r = forward_iter node_coerce_ref (descendants k E (rn_syntax r))"

definition rn_descendants_with_tokens :: "nat \<Rightarrow> ('s, 'd, 'i, 'e) env \<Rightarrow> resolved_node \<Rightarrow> ('j, 'x, resolved_element list) red" where
  "rn_descendants_with_tokens k E r = forward_iter element_coerce_ref (descendants_with_tokens k E (rn_syntax r))"

definition rn_preorder :: "nat \<Rightarrow> ('s, 'd, 'i, 'e) env \<Rightarrow> resolved_node \<Rightarrow> ('j, 'x, resolved_node walk_event list) red" where
  "rn_preorder k E r = forward_iter (walk_event_map node_coerce_ref) (preorder k E (rn_syntax r))"

definition rn_preorder_with_tokens :: "nat \<Rightarrow> ('s, 'd, 'i, 'e) env \<Rightarrow> resolved_node \<Rightarrow> ('j, 'x, resolved_element walk_event list) red" where
  "rn_preorder_with_tokens k E r = forward_iter (walk_event_map element_coerce_ref) (preorder_with_tokens k E (rn_syntax r))"

definition rn_token_at_offset :: "nat \<Rightarrow> ('s, 'd, 'i, 'e) env \<Rightarrow> resolved_node \<Rightarrow> text_size \<Rightarrow> ('j, 'x, resolved_token token_at_offset) red" where
  "rn_token_at_offset k E r offset = bindR (node_token_at_offset k E (rn_syntax r) offset) (\<lambda>t. returnR (token_at_offset_map ResolvedToken t))"

definition rn_covering_element :: "nat \<Rightarrow> ('s, 'd, 'i, 'e) env \<Rightarrow> resolved_node \<Rightarrow> text_range \<Rightarrow> ('j, 'x, resolved_element) red" where
  "rn_covering_element k E r rng = bindR (covering_element k E (rn_syntax r) rng) (\<lambda>e. returnR (element_coerce_ref e))"

section \<open>Navigation from tokens\<close>

definition rt_parent :: "resolved_token \<Rightarrow> resolved_node" where
  "rt_parent r = node_coerce_ref (st_parent (rt_syntax r))"

definition rt_ancestors :: "nat \<Rightarrow> resolved_token \<Rightarrow> ('j, 'x, resolved_node list) red" where
  "rt_ancestors k r = forward_iter node_coerce_ref (node_ancestors k (st_parent (rt_syntax r)))"

definition rt_next_sibling_or_token :: "('s, 'd, 'i, 'e) env \<Rightarrow> resolved_token \<Rightarrow> ('j, 'x, resolved_element option) red" where
  "rt_next_sibling_or_token E r = forward element_coerce_ref (token_next_sibling_or_token E (rt_syntax r))"

definition rt_prev_sibling_or_token :: "('s, 'd, 'i, 'e) env \<Rightarrow> resolved_token \<Rightarrow> ('j, 'x, resolved_element option) red" where
  "rt_prev_sibling_or_token E r = forward element_coerce_ref (token_prev_sibling_or_token E (rt_syntax r))"

definition rt_siblings_with_tokens :: "nat \<Rightarrow> ('s, 'd, 'i, 'e) env \<Rightarrow> resolved_token \<Rightarrow> direction \<Rightarrow> ('j, 'x, resolved_element list) red" where
  "rt_siblings_with_tokens k E r dir = forward_iter element_coerce_ref (siblings_with_tokens k E (Token (rt_syntax r)) dir)"

definition rt_next_token :: "nat \<Rightarrow> ('s, 'd, 'i, 'e) env \<Rightarrow> resolved_token \<Rightarrow> ('j, 'x, resolved_token option) red" where
  "rt_next_token k E r = forward token_coerce_ref (next_token k E (rt_syntax r))"

definition rt_prev_token :: "nat \<Rightarrow> ('s, 'd, 'i, 'e) env \<Rightarrow> resolved_token \<Rightarrow> ('j, 'x, resolved_token option) red" where
  "rt_prev_token k E r = forward token_coerce_ref (prev_token k E (rt_syntax r))"

section \<open>Navigation from elements\<close>

text \<open>\<open>ResolvedElement\<close> and \<open>ResolvedElementRef\<close> have the same functions.\<close>

fun re_text_range :: "('s, 'd, 'i, 'e) env \<Rightarrow> ('j, 'x) heap \<Rightarrow> resolved_element \<Rightarrow> text_range outcome" where
  "re_text_range E h (Node it) = node_text_range E h (rn_deref it)"
| "re_text_range E h (Token it) = token_text_range E h (rt_deref it)"

fun re_syntax_kind :: "('j, 'x) heap \<Rightarrow> resolved_element \<Rightarrow> u32 outcome" where
  "re_syntax_kind h (Node it) = node_syntax_kind h (rn_deref it)"
| "re_syntax_kind h (Token it) = token_syntax_kind h (rt_deref it)"

fun re_kind :: "('s, 'd, 'i, 'e) env \<Rightarrow> ('j, 'x) heap \<Rightarrow> resolved_element \<Rightarrow> 's outcome" where
  "re_kind E h (Node it) = node_kind E h (rn_deref it)"
| "re_kind E h (Token it) = token_kind E h (rt_deref it)"

fun re_parent :: "('j, 'x) heap \<Rightarrow> resolved_element \<Rightarrow> resolved_node option outcome" where
  "re_parent h (Node it) = rn_parent h it"
| "re_parent h (Token it) = Inr (Some (rt_parent it))"

fun re_ancestors :: "nat \<Rightarrow> resolved_element \<Rightarrow> ('j, 'x, resolved_node list) red" where
  "re_ancestors k (Node it) = rn_ancestors k it"
| "re_ancestors k (Token it) = rn_ancestors k (rt_parent it)"

fun re_first_token :: "nat \<Rightarrow> ('s, 'd, 'i, 'e) env \<Rightarrow> resolved_element \<Rightarrow> ('j, 'x, resolved_token option) red" where
  "re_first_token k E (Node it) = rn_first_token k E it"
| "re_first_token k E (Token it) = returnR (Some it)"

fun re_last_token :: "nat \<Rightarrow> ('s, 'd, 'i, 'e) env \<Rightarrow> resolved_element \<Rightarrow> ('j, 'x, resolved_token option) red" where
  "re_last_token k E (Node it) = rn_last_token k E it"
| "re_last_token k E (Token it) = returnR (Some it)"

fun re_next_sibling_or_token :: "('s, 'd, 'i, 'e) env \<Rightarrow> resolved_element \<Rightarrow> ('j, 'x, resolved_element option) red" where
  "re_next_sibling_or_token E (Node it) = rn_next_sibling_or_token E it"
| "re_next_sibling_or_token E (Token it) = rt_next_sibling_or_token E it"

fun re_prev_sibling_or_token :: "('s, 'd, 'i, 'e) env \<Rightarrow> resolved_element \<Rightarrow> ('j, 'x, resolved_element option) red" where
  "re_prev_sibling_or_token E (Node it) = rn_prev_sibling_or_token E it"
| "re_prev_sibling_or_token E (Token it) = rt_prev_sibling_or_token E it"

end
