(* ===== verification/Resolved_Safe.thy ===== *)
theory Resolved_Safe
  imports Resolved
begin

text \<open>
  Navigation never leaves its tree, whatever arguments it is given: every element it returns is in the
  heap, whose nodes all lead to the one root. This needs neither a well-formed green tree nor right
  offsets, and is what the unsafe wrappers of \<open>resolved.rs\<close> rest on.
\<close>

section \<open>Trees with a resolver\<close>

text \<open>An element that is in a heap of \<open>l\<close> nodes.\<close>

fun inside :: "nat \<Rightarrow> syntax_element \<Rightarrow> bool" where
  "inside l (Node n) \<longleftrightarrow> n < l"
| "inside l (Token t) \<longleftrightarrow> st_parent t < l"

lemma inside_mono: "inside l e \<Longrightarrow> l \<le> l' \<Longrightarrow> inside l' e"
  by (cases e) auto

definition rooted :: "'j \<Rightarrow> ('j, 'x) heap \<Rightarrow> bool" where
  "rooted i h \<longleftrightarrow> (0 < length h \<longrightarrow> (\<exists>g. nd_kind (h ! 0) = KRoot g (Some i))) \<and>
     (\<forall>n < length h. 0 < n \<longrightarrow> (\<exists>p j offset. nd_kind (h ! n) = KChild p j offset \<and> p < n)) \<and>
     (\<forall>n < length h. \<forall>e. Some e \<in> set (nd_children (h ! n)) \<longrightarrow> inside (length h) e)"

lemma rooted_parent: "rooted i h \<Longrightarrow> n < length h \<Longrightarrow> nd_kind (h ! n) = KChild p j offset \<Longrightarrow> p < n"
  by (cases "n = 0") (fastforce simp: rooted_def)+

lemma rooted_zero:
  assumes "rooted i h" "0 < length h"
  obtains g where "nd_kind (h ! 0) = KRoot g (Some i)"
  using assms by (auto simp: rooted_def)

lemma rooted_slot: "rooted i h \<Longrightarrow> n < length h \<Longrightarrow> Some e \<in> set (nd_children (h ! n)) \<Longrightarrow> inside (length h) e"
  by (simp add: rooted_def)

lemma node_resolver_rooted:
  assumes "rooted i h"
  shows "n < length h \<Longrightarrow> n < k \<Longrightarrow> node_resolver k h n = Inr (Some i)"
proof -
  have root: "n < length h \<Longrightarrow> n < k \<Longrightarrow> node_root k h n = Inr 0" for n k
  proof (induction k arbitrary: n)
    case (Suc k)
    show ?case
    proof (cases "n = 0")
      case True
      with Suc.prems obtain g where "nd_kind (h ! n) = KRoot g (Some i)" using rooted_zero [OF assms] by auto
      with True Suc.prems show ?thesis by (simp add: node_parent_def node_data_of_def)
    next
      case False
      with Suc.prems assms obtain p j offset where "nd_kind (h ! n) = KChild p j offset" "p < n" by (auto simp: rooted_def)
      with Suc show ?thesis by (simp add: node_parent_def node_data_of_def)
    qed
  qed simp
  assume n: "n < length h" "n < k"
  then have "0 < length h" by auto
  then obtain g where "nd_kind (h ! 0) = KRoot g (Some i)" using rooted_zero [OF assms] by auto
  with root [OF n] \<open>0 < length h\<close> show ?thesis by (simp add: node_resolver_def node_data_of_def)
qed

lemma rooted_new_root: "rooted i (snd (new_root_with_resolver g i))"
  by (auto simp: rooted_def new_root_with_resolver_def make_new_root_def node_data_new_def Let_def)

section \<open>Computations that stay in the tree\<close>

text \<open>
  Started with at least \<open>l\<close> nodes, \<open>m\<close> keeps the tree rooted, removes no node, and when it returns, its result has
  the property \<open>Q\<close> for the number of nodes there are then.
\<close>

definition stays :: "'j \<Rightarrow> nat \<Rightarrow> ('j, 'x, 'a) red \<Rightarrow> (nat \<Rightarrow> 'a \<Rightarrow> bool) \<Rightarrow> bool" where
  "stays i l m Q \<longleftrightarrow> (\<forall>h r h'. rooted i h \<longrightarrow> l \<le> length h \<longrightarrow> m h = Inr (r, h') \<longrightarrow>
     rooted i h' \<and> length h \<le> length h' \<and> Q (length h') r)"

abbreviation anything :: "nat \<Rightarrow> 'a \<Rightarrow> bool" where
  "anything \<equiv> \<lambda>_ _. True"

abbreviation node_inside :: "nat \<Rightarrow> nat \<Rightarrow> bool" where
  "node_inside l n \<equiv> n < l"

abbreviation token_inside :: "nat \<Rightarrow> syntax_token \<Rightarrow> bool" where
  "token_inside l t \<equiv> st_parent t < l"

named_theorems stays

lemma stays_bind:
  assumes "stays i l m Q" "\<And>x l'. l \<le> l' \<Longrightarrow> Q l' x \<Longrightarrow> stays i l' (f x) R"
  shows "stays i l (bindR m f) R"
  unfolding stays_def
proof (intro allI impI)
  fix h r h' assume h: "rooted i h" "l \<le> length h" "bindR m f h = Inr (r, h')"
  then obtain x h1 where 1: "m h = Inr (x, h1)" "f x h1 = Inr (r, h')" by (auto simp: bindR_def bindO_eq_Inr)
  from assms(1) h(1,2) 1(1) have m: "rooted i h1" "length h \<le> length h1" "Q (length h1) x" by (auto simp: stays_def)
  from assms(2) [OF order_trans [OF h(2) m(2)] m(3)] m(1) 1(2) have "rooted i h' \<and> length h1 \<le> length h' \<and> R (length h') r"
    unfolding stays_def by blast
  with m(2) show "rooted i h' \<and> length h \<le> length h' \<and> R (length h') r" by simp
qed

lemma stays_return: "(\<And>l'. l \<le> l' \<Longrightarrow> Q l' x) \<Longrightarrow> stays i l (returnR x) Q"
  by (simp add: stays_def returnR_def)

lemma stays_panic [stays]: "stays i l (panicR p) Q"
  by (simp add: stays_def panicR_def)

lemma stays_read: "(\<And>h x. rooted i h \<Longrightarrow> l \<le> length h \<Longrightarrow> F h = Inr x \<Longrightarrow> Q (length h) x) \<Longrightarrow> stays i l (readR F) Q"
  by (auto simp: stays_def readR_def bindO_eq_Inr)

lemma stays_read_any [stays]: "stays i l (readR F) anything"
  by (rule stays_read) simp

lemma stays_read_bind: "(\<And>x l'. l \<le> l' \<Longrightarrow> stays i l' (f x) R) \<Longrightarrow> stays i l (bindR (readR F) f) R"
  by (rule stays_bind [OF stays_read_any])

lemma stays_weaken: "stays i l m Q \<Longrightarrow> (\<And>l x. Q l x \<Longrightarrow> R l x) \<Longrightarrow> stays i l m R"
  by (auto simp: stays_def)

lemma stays_later: "stays i l m Q \<Longrightarrow> l \<le> l' \<Longrightarrow> stays i l' m Q"
  by (auto simp: stays_def)

text \<open>The two functions that create nodes.\<close>

lemma rooted_fill:
  assumes "rooted i h" "n < length h" "inside (length h) e"
  shows "rooted i (update_node h n ((h ! n)\<lparr>nd_children := (nd_children (h ! n))[j := Some e]\<rparr>))"
  using assms by (auto simp: rooted_def update_node_def nth_list_update dest!: set_update_subset_insert [THEN subsetD])

lemma rooted_append:
  assumes "rooted i h" "n < length h"
  shows "rooted i (h @ [node_data_new (KChild n j offset) g c])"
proof -
  have "inside (Suc (length h)) e" if "m < length h" "Some e \<in> set (nd_children (h ! m))" for m e
    using rooted_slot [OF assms(1) that] inside_mono [of "length h" e "Suc (length h)"] by simp
  with assms show ?thesis
    unfolding rooted_def by (auto simp: nth_append node_data_new_def less_Suc_eq)
qed

lemma stays_get_or_add_element [stays]: "stays i l (get_or_add_element E n g j offset) inside"
  unfolding stays_def
proof (intro allI impI)
  fix h r h' assume h: "rooted i h" "get_or_add_element E n g j offset h = Inr (r, h')"
  then obtain slot where slot: "read_slot h n j = Inr slot" by (auto simp: get_or_add_element_def bindO_eq_Inr)
  then have n: "n < length h" "j < length (nd_children (h ! n))" "slot = nd_children (h ! n) ! j"
    by (auto simp: read_slot_def node_data_of_def bindO_eq_Inr split: if_splits)
  show "rooted i h' \<and> length h \<le> length h' \<and> inside (length h') r"
  proof (cases slot)
    case (Some e)
    with n have "Some e \<in> set (nd_children (h ! n))" by (metis nth_mem)
    with Some h slot rooted_slot [OF h(1) n(1)] show ?thesis by (auto simp: get_or_add_element_def bindO_eq_Inr)
  next
    case None
    show ?thesis
    proof (cases g)
      case (Token t)
      with None h slot n rooted_fill [OF h(1) n(1), of "Token (syntax_token_new n (as_u32 j) offset)" j] show ?thesis
        by (auto simp: get_or_add_element_def try_write_def read_slot_def node_data_of_def syntax_token_new_def update_node_def)
    next
      case (Node m)
      let ?d = "node_data_new (KChild n (as_u32 j) offset) m (iter_count (gn_children_iter m))"
      have "rooted i (h @ [?d])" by (rule rooted_append [OF h(1) n(1)])
      from rooted_fill [OF this, of n "Node (length h)" j] None h slot n Node show ?thesis
        by (auto simp: get_or_add_element_def new_child_def Let_def try_write_def read_slot_def node_data_of_def nth_append
            update_node_def)
    qed
  qed
qed

lemma stays_get_or_add_node [stays]: "stays i l (get_or_add_node E n g j offset) inside"
  unfolding get_or_add_node_eq by (rule stays)

section \<open>Children and siblings\<close>

abbreviation some_inside :: "(nat \<Rightarrow> 'a \<Rightarrow> bool) \<Rightarrow> nat \<Rightarrow> 'a option \<Rightarrow> bool" where
  "some_inside P l \<equiv> pred_option (P l)"

lemma as_node_inside: "inside l e \<Longrightarrow> l \<le> l' \<Longrightarrow> some_inside node_inside l' (as_node e)"
  by (cases e) auto

lemma stays_add_next_node [stays]: "stays i l (add_next_node E n it) (some_inside node_inside)"
  unfolding add_next_node_def
  by (auto intro!: stays_bind stays stays_return elim: as_node_inside split: list.split prod.split)

lemma stays_add_next_element [stays]: "stays i l (add_next_element E n it) (some_inside inside)"
  unfolding add_next_element_def
  by (auto intro!: stays_bind stays stays_return elim: inside_mono split: list.split prod.split)

lemma stays_with_child:
  assumes "\<And>p j l'. l \<le> l' \<Longrightarrow> p < l' \<Longrightarrow> stays i l' (f p j) (some_inside P)"
  shows "stays i l (with_child n f) (some_inside P)"
  unfolding with_child_def
proof (rule stays_bind [where Q = "\<lambda>l d. \<forall>p j offset. nd_kind d = KChild p j offset \<longrightarrow> p < l"])
  show "stays i l (readR (\<lambda>h. node_data_of h n)) (\<lambda>l d. \<forall>p j offset. nd_kind d = KChild p j offset \<longrightarrow> p < l)"
    by (rule stays_read) (fastforce simp: node_data_of_def dest: rooted_parent split: if_splits)
  fix d l' assume "l \<le> l'" "\<forall>p j offset. nd_kind d = KChild p j offset \<longrightarrow> p < l'"
  then show "stays i l' (case as_child (nd_kind d) of None \<Rightarrow> returnR None | Some (parent, index, _) \<Rightarrow> f parent index) (some_inside P)"
    by (cases "nd_kind d") (auto intro: stays_return assms)
qed

lemma stays_children [stays]:
  "stays i l (first_child E n) (some_inside node_inside)"
  "stays i l (first_child_or_token E n) (some_inside inside)"
  "stays i l (last_child E n) (some_inside node_inside)"
  "stays i l (last_child_or_token E n) (some_inside inside)"
  "stays i l (next_child_after E n j offset) (some_inside node_inside)"
  "stays i l (next_child_or_token_after E n j offset) (some_inside inside)"
  "stays i l (prev_child_before E n j offset) (some_inside node_inside)"
  "stays i l (prev_child_or_token_before E n j offset) (some_inside inside)"
  unfolding first_child_def first_child_or_token_def last_child_def last_child_or_token_def next_child_after_def
    next_child_or_token_after_def prev_child_before_def prev_child_or_token_before_def
  by (intro stays_read_bind stays)+

lemma stays_siblings [stays]:
  "stays i l (next_sibling E n) (some_inside node_inside)"
  "stays i l (next_sibling_or_token E n) (some_inside inside)"
  "stays i l (prev_sibling E n) (some_inside node_inside)"
  "stays i l (prev_sibling_or_token E n) (some_inside inside)"
  unfolding next_sibling_def next_sibling_or_token_def prev_sibling_def prev_sibling_or_token_def
  by (intro stays_with_child stays_read_bind stays)+

lemma stays_token_siblings [stays]:
  "stays i l (token_next_sibling_or_token E t) (some_inside inside)"
  "stays i l (token_prev_sibling_or_token E t) (some_inside inside)"
  unfolding token_next_sibling_or_token_def token_prev_sibling_or_token_def by (intro stays_read_bind stays)+

lemma stays_element_siblings [stays]:
  "stays i l (element_next_sibling_or_token E e) (some_inside inside)"
  "stays i l (element_prev_sibling_or_token E e) (some_inside inside)"
  by (cases e; simp add: stays)+

section \<open>Iterators and traversals\<close>

lemma stays_parent [stays]: "stays i l (readR (\<lambda>h. node_parent h n)) (some_inside node_inside)"
  by (rule stays_read) (auto simp: node_parent_def node_data_of_def dest: rooted_parent split: if_splits red_kind.splits)

lemma stays_parent_unwrap:
  assumes "inside l e"
  shows "stays i l (readR (\<lambda>h. bindO (element_parent h e) unwrap)) node_inside"
proof (rule stays_read)
  fix h p assume h: "rooted i h" "l \<le> length h" "bindO (element_parent h e) unwrap = Inr p"
  show "p < length h"
  proof (cases e)
    case (Node n)
    with h show ?thesis
      by (auto simp: node_parent_def node_data_of_def bindO_eq_Inr dest: rooted_parent split: if_splits red_kind.splits)
  next
    case (Token t)
    with h assms show ?thesis by simp
  qed
qed

lemma stays_successors:
  assumes step: "\<And>x l'. l \<le> l' \<Longrightarrow> P l' x \<Longrightarrow> stays i l' (f x) (some_inside P)"
    and mono: "\<And>l l' x. P l x \<Longrightarrow> l \<le> l' \<Longrightarrow> P l' x"
  shows "l \<le> l' \<Longrightarrow> some_inside P l' cur \<Longrightarrow> stays i l' (successors k f cur) (\<lambda>l. list_all (P l))"
proof (induction k arbitrary: cur l')
  case 0
  then show ?case by (auto intro: stays_return)
next
  case (Suc k)
  show ?case
  proof (cases cur)
    case None
    then show ?thesis by (auto intro: stays_return)
  next
    case (Some x)
    with Suc.prems have x: "P l' x" by simp
    have rest: "stays i l1 (bindR (successors k f nxt) (\<lambda>xs. returnR (x # xs))) (\<lambda>l. list_all (P l))"
      if "l' \<le> l1" "some_inside P l1 nxt" for l1 nxt
      by (rule stays_bind [OF Suc.IH [OF order_trans [OF Suc.prems(1) that(1)] that(2)]])
        (use mono [OF x] that(1) in \<open>fastforce intro!: stays_return simp: list_all_iff intro: mono order_trans\<close>)
    show ?thesis unfolding Some successors.simps
      by (rule stays_bind [OF step [OF Suc.prems(1) x] rest])
  qed
qed

lemma stays_ancestors: "n < l \<Longrightarrow> stays i l (node_ancestors k n) (\<lambda>l. list_all (node_inside l))"
  unfolding node_ancestors_def by (rule stays_successors [where l = l]) (auto intro: stays)

lemma stays_sibling_lists:
  "n < l \<Longrightarrow> stays i l (siblings k E n dir) (\<lambda>l. list_all (node_inside l))"
  "inside l e \<Longrightarrow> stays i l (siblings_with_tokens k E e dir) (\<lambda>l. list_all (inside l))"
  unfolding siblings_def siblings_with_tokens_def
  by (rule stays_successors [where l = l]; cases dir; auto intro: stays inside_mono)+

lemma stays_preorder_step:
  "stays i l (preorder_step E me ev) (some_inside (\<lambda>l. pred_walk_event (node_inside l)))"
  if "pred_walk_event (node_inside l) ev"
proof (cases ev)
  case (Enter n)
  with that show ?thesis
    unfolding preorder_step_def
    by (auto intro!: stays_bind stays stays_return split: option.split)
next
  case (Leave n)
  have up: "stays i l' (bindR (readR (\<lambda>h. bindO (node_parent h n) unwrap)) (\<lambda>p. returnR (Some (Leave p))))
      (some_inside (\<lambda>l. pred_walk_event (node_inside l)))" if "l \<le> l'" for l'
    using stays_parent_unwrap [of l' "Node n" i] \<open>pred_walk_event (node_inside l) ev\<close> Leave that
    by (auto intro!: stays_bind stays_return)
  show ?thesis
    unfolding preorder_step_def Leave
    by (auto intro!: stays_bind stays stays_return up split: option.split)
qed

lemma stays_preorder_with_tokens_step:
  "stays i l (preorder_with_tokens_step E me ev) (some_inside (\<lambda>l. pred_walk_event (inside l)))"
  if "pred_walk_event (inside l) ev"
proof (cases ev)
  case (Enter e)
  with that show ?thesis
    unfolding preorder_with_tokens_step_def
    by (cases e) (auto intro!: stays_bind stays stays_return split: option.split, blast intro: inside_mono)
next
  case (Leave e)
  have up: "stays i l' (bindR (readR (\<lambda>h. bindO (element_parent h e) unwrap)) (\<lambda>p. returnR (Some (Leave (Node p)))))
      (some_inside (\<lambda>l. pred_walk_event (inside l)))" if "l \<le> l'" for l'
    using stays_parent_unwrap [of l' e i] inside_mono [of l e l'] \<open>pred_walk_event (inside l) ev\<close> Leave that
    by (auto intro!: stays_bind stays_return)
  show ?thesis
    unfolding preorder_with_tokens_step_def Leave
    by (auto intro!: stays_bind stays stays_return up split: option.split, blast intro: inside_mono)
qed

lemma walk_event_mono:
  "pred_walk_event (P l) ev \<Longrightarrow> (\<And>x. P l x \<Longrightarrow> P l' x) \<Longrightarrow> pred_walk_event (P l') ev"
  by (cases ev) auto

lemma stays_preorders:
  "n < l \<Longrightarrow> stays i l (preorder k E n) (\<lambda>l. list_all (pred_walk_event (node_inside l)))"
  "n < l \<Longrightarrow> stays i l (preorder_with_tokens k E n) (\<lambda>l. list_all (pred_walk_event (inside l)))"
proof -
  assume n: "n < l"
  show "stays i l (preorder k E n) (\<lambda>l. list_all (pred_walk_event (node_inside l)))"
    unfolding preorder_def
    by (rule stays_successors [where l = l, OF stays_preorder_step]) (use n in \<open>auto elim: walk_event_mono\<close>)
  show "stays i l (preorder_with_tokens k E n) (\<lambda>l. list_all (pred_walk_event (inside l)))"
    unfolding preorder_with_tokens_def
    by (rule stays_successors [where l = l, OF stays_preorder_with_tokens_step])
      (use n in \<open>auto elim!: walk_event_mono intro: inside_mono\<close>)
qed

lemma entered_all: "list_all (pred_walk_event P) es \<Longrightarrow> (\<And>x. P x \<Longrightarrow> Q x) \<Longrightarrow> list_all Q (entered es)"
  by (induction es rule: entered.induct) auto

lemma stays_descendants:
  assumes "n < l"
  shows "stays i l (descendants k E n) (\<lambda>l. list_all (node_inside l))"
    and "stays i l (descendants_with_tokens k E n) (\<lambda>l. list_all (inside l))"
  unfolding descendants_def descendants_with_tokens_def
proof -
  show "stays i l (bindR (preorder k E n) (\<lambda>es. returnR (entered es))) (\<lambda>l. list_all (node_inside l))"
    by (rule stays_bind [OF stays_preorders(1) [OF assms]], rule stays_return)
      (auto elim!: entered_all)
  show "stays i l (bindR (preorder_with_tokens k E n) (\<lambda>es. returnR (entered es))) (\<lambda>l. list_all (inside l))"
    by (rule stays_bind [OF stays_preorders(2) [OF assms]], rule stays_return)
      (auto elim!: entered_all intro: inside_mono)
qed

section \<open>Tokens\<close>

lemma stays_end_tokens:
  "stays i l (node_first_token k E n) (some_inside token_inside)"
  "stays i l (node_last_token k E n) (some_inside token_inside)"
proof (induction k arbitrary: n l)
  case (Suc k)
  {
    case 1
    show ?case unfolding node_first_token.simps
      by (rule stays_bind [OF stays_children(2)])
        (auto intro!: stays_return Suc.IH split: option.split node_or_token.split)
  next
    case 2
    show ?case unfolding node_last_token.simps
      by (rule stays_bind [OF stays_children(4)])
        (auto intro!: stays_return Suc.IH split: option.split node_or_token.split)
  }
qed (simp_all add: stays)

lemma stays_element_end_tokens:
  assumes "inside l e"
  shows "stays i l (element_first_token k E e) (some_inside token_inside)"
    and "stays i l (element_last_token k E e) (some_inside token_inside)"
  using assms by (cases e; auto intro: stays_end_tokens stays_return)+

lemma stays_find_map:
  assumes "\<And>n l. stays i l (f n) (some_inside P)" "\<And>l l' x. P l x \<Longrightarrow> l \<le> l' \<Longrightarrow> P l' x"
  shows "stays i l (ancestors_find_map k f cur) (some_inside P)"
proof (induction k arbitrary: cur l)
  case 0
  then show ?case by (cases cur) (auto intro: stays_return stays)
next
  case (Suc k)
  show ?case
  proof (cases cur)
    case (Some n)
    show ?thesis unfolding Some ancestors_find_map.simps
      by (rule stays_read_bind, rule stays_bind [OF assms(1)])
        (auto intro!: stays_return Suc.IH intro: assms(2) split: option.split)
  qed (auto intro: stays_return)
qed

lemma stays_adjacent_tokens:
  "stays i l (next_token k E t) (some_inside token_inside)"
  "stays i l (prev_token k E t) (some_inside token_inside)"
  unfolding next_token_def prev_token_def
proof -
  have nxt: "stays i l (ancestors_find_map k (next_sibling_or_token E) cur) (some_inside inside)" for l cur
    by (rule stays_find_map) (auto intro: stays inside_mono)
  show "stays i l (bindR (token_next_sibling_or_token E t) (\<lambda>s. case s of
       Some element \<Rightarrow> element_first_token k E element
     | None \<Rightarrow> bindR (ancestors_find_map k (next_sibling_or_token E) (Some (st_parent t))) (\<lambda>r.
         case r of None \<Rightarrow> returnR None | Some element \<Rightarrow> element_first_token k E element))) (some_inside token_inside)"
    by (rule stays_bind [OF stays_token_siblings(1)])
      (auto intro!: stays_bind [OF nxt] stays_return stays_element_end_tokens split: option.split)
  have prv: "stays i l (ancestors_find_map k (prev_sibling_or_token E) cur) (some_inside inside)" for l cur
    by (rule stays_find_map) (auto intro: stays inside_mono)
  show "stays i l (bindR (token_prev_sibling_or_token E t) (\<lambda>s. case s of
       Some element \<Rightarrow> element_last_token k E element
     | None \<Rightarrow> bindR (ancestors_find_map k (prev_sibling_or_token E) (Some (st_parent t))) (\<lambda>r.
         case r of None \<Rightarrow> returnR None | Some element \<Rightarrow> element_last_token k E element))) (some_inside token_inside)"
    by (rule stays_bind [OF stays_token_siblings(2)])
      (auto intro!: stays_bind [OF prv] stays_return stays_element_end_tokens split: option.split)
qed

section \<open>Child iterators and search\<close>

abbreviation fst_inside :: "(nat \<Rightarrow> 'a \<Rightarrow> bool) \<Rightarrow> nat \<Rightarrow> 'a option \<times> 'b \<Rightarrow> bool" where
  "fst_inside P l x \<equiv> some_inside P l (fst x)"

lemma stays_element_children_next: "stays i l (element_children_next E it) (fst_inside inside)"
  unfolding element_children_next_def
  by (auto intro!: stays_return stays_bind stays elim: inside_mono split: prod.split option.split)

lemma stays_node_children_next: "stays i l (node_children_next E it :: ('j, 'x, _) red) (fst_inside node_inside)"
proof (induction "length (it_green (nc_inner it))" arbitrary: it l rule: less_induct)
  case less
  obtain x inner where x: "child_iter_next (en_text E) (nc_inner it) = (x, inner)" by fastforce
  show ?case
  proof (cases x)
    case None
    with x show ?thesis by (simp add: node_children_next.simps [of E it]) (auto intro: stays_return)
  next
    case (Some y)
    obtain element index offset where y: "y = (element, index, offset)" by (cases y)
    with x Some have shorter: "length (it_green inner) < length (it_green (nc_inner it))" by (auto dest: child_iter_next_shorter)
    have "stays i l' (node_children_next E (it\<lparr>nc_inner := inner\<rparr>) :: ('j, 'x, _) red) (fst_inside node_inside)" for l'
      by (rule less) (use shorter in simp)
    moreover have "stays i l (bindR (get_or_add_node E (nc_parent it) node index offset :: ('j, 'x, _) red) (\<lambda>e.
        bindR (readR (\<lambda>_. unwrap (as_node e))) (\<lambda>c. returnR (Some c, it\<lparr>nc_inner := inner\<rparr>)))) (fst_inside node_inside)" for node
    proof (rule stays_bind [OF stays_get_or_add_node])
      fix e l' assume e: "inside l' e"
      have "stays i l' (readR (\<lambda>_. unwrap (as_node e)) :: ('j, 'x, _) red) node_inside"
        using e by (cases e) (auto intro!: stays_read simp: unwrap_def)
      then show "stays i l' (bindR (readR (\<lambda>_. unwrap (as_node e)) :: ('j, 'x, _) red) (\<lambda>c. returnR (Some c, it\<lparr>nc_inner := inner\<rparr>))) (fst_inside node_inside)"
        by (rule stays_bind) (auto intro: stays_return)
    qed
    ultimately show ?thesis using x Some y by (simp add: node_children_next.simps [of E it] split: option.split)
  qed
qed

lemma stays_filter_next: "stays i l (filter_next E p it) (fst_inside inside)"
proof (induction "length (it_green (ec_inner it))" arbitrary: it l rule: less_induct)
  case less
  show ?case unfolding stays_def
  proof (intro allI impI)
    fix h r h' assume h: "rooted i h" "l \<le> length h" "filter_next E p it h = Inr (r, h')"
    then obtain x it' h1 where 1: "element_children_next E it h = Inr ((x, it'), h1)"
      by (auto simp: filter_next.simps [of E p it] bindO_eq_Inr)
    with stays_element_children_next [of i l E it] h have s: "rooted i h1" "length h \<le> length h1" "some_inside inside (length h1) x"
      unfolding stays_def by fastforce+
    show "rooted i h' \<and> length h \<le> length h' \<and> fst_inside inside (length h') r"
    proof (cases x)
      case None
      with h 1 s show ?thesis by (auto simp: filter_next.simps [of E p it])
    next
      case (Some e)
      from element_children_next_shorter [OF 1 [unfolded Some]]
      have "stays i l (filter_next E p it') (fst_inside inside)" by (rule less)
      with h(2) s have rest: "filter_next E p it' h1 = Inr (r, h') \<Longrightarrow>
          rooted i h' \<and> length h1 \<le> length h' \<and> fst_inside inside (length h') r"
        unfolding stays_def by (meson order_trans)
      from h(3) 1 Some s rest show ?thesis
        by (auto simp: filter_next.simps [of E p it] bindO_eq_Inr split: if_splits)
    qed
  qed
qed

abbreviation at_offset_inside :: "nat \<Rightarrow> syntax_token token_at_offset \<Rightarrow> bool" where
  "at_offset_inside l \<equiv> pred_token_at_offset (token_inside l)"

lemma stays_element_token_at_offset:
  assumes "\<And>l n offset. stays i l (f n offset) at_offset_inside" "inside l e"
  shows "stays i l (element_token_at_offset f E e offset) at_offset_inside"
  unfolding element_token_at_offset_def
  using assms(2) by (auto intro!: stays_read_bind stays_panic stays_return assms(1) split: node_or_token.split)

lemma stays_unwrap_bind:
  assumes "some_inside inside l x" "\<And>y l'. l \<le> l' \<Longrightarrow> inside l' y \<Longrightarrow> stays i l' (f y) R"
  shows "stays i l (bindR (readR (\<lambda>_. unwrap x)) f) R"
  by (rule stays_bind [where Q = inside], rule stays_read)
    (use assms in \<open>auto simp: unwrap_def intro: inside_mono split: option.splits\<close>)

lemma stays_filter_bind:
  assumes "\<And>x it' l'. l \<le> l' \<Longrightarrow> some_inside inside l' x \<Longrightarrow> stays i l' (f (x, it')) R"
  shows "stays i l (bindR (filter_next E p it) f) R"
  by (rule stays_bind [OF stays_filter_next]) (use assms in auto)

lemma stays_token_at_offset: "stays i l (node_token_at_offset k E n offset :: ('j, 'x, _) red) at_offset_inside"
proof (induction k arbitrary: n offset l)
  case (Suc k)
  note sub = stays_element_token_at_offset [OF Suc.IH]
  have two: "stays i l (bindR (element_token_at_offset (node_token_at_offset k E) E left offset) (\<lambda>a.
      bindR (element_token_at_offset (node_token_at_offset k E) E right offset) (\<lambda>b.
        case (a, b) of (TSingle left, TSingle right) \<Rightarrow> returnR (TBetween left right) | _ \<Rightarrow> panicR Unreachable)) :: ('j, 'x, _) red) at_offset_inside"
    if "inside l left" "inside l right" for l left right
    by (rule stays_bind [OF sub [OF that(1)]], rule stays_bind [OF sub])
      (use that(2) in \<open>auto intro!: stays_panic stays_return intro: inside_mono split: token_at_offset.split\<close>)
  show ?case unfolding node_token_at_offset.simps
    apply (rule stays_read_bind)
    apply (split if_split, intro conjI impI stays_panic)
    apply (split if_split, intro conjI impI stays_return)
     apply simp
    apply (rule stays_read_bind, rule stays_filter_bind, simp only: prod.case)
    apply (rule stays_unwrap_bind, assumption)
    apply (rule stays_filter_bind, simp only: prod.case, rule stays_filter_bind, simp only: prod.case)
    apply (auto intro!: stays_panic sub two [simplified prod.case] intro: inside_mono split: option.split)
    done
qed (simp add: stays)

lemma stays_covering_loop: "inside l e \<Longrightarrow> stays i l (covering_loop k E e target) inside"
proof (induction k arbitrary: e l)
  case (Suc k)
  show ?case unfolding covering_loop.simps
    using Suc.prems
    by (auto intro!: stays_read_bind stays_panic stays_return stays_filter_bind Suc.IH intro: inside_mono
        split: node_or_token.split option.split)
qed (simp add: stays)

end
