(* ===== verification/Resolved_Theorems.thy ===== *)
theory Resolved_Theorems
  imports Resolved_Safe Red_Display_Theorems
begin

text \<open>
  What the resolved wrappers promise: whatever a client calls on them, the tree they lead to has its
  resolver, so none of the \<open>unwrap\<close>s fails; and a tree that is built and wrapped displays as its source.
\<close>

section \<open>Calls of a client\<close>

text \<open>
  Every function of \<open>ResolvedNode\<close> and \<open>ResolvedToken\<close> that returns wrapped elements; iterators are run to their
  end, or for the first \<open>k\<close> items.
\<close>

datatype resolved_call =
    Call_parent | Call_ancestors | Call_children | Call_children_with_tokens
  | Call_first_child | Call_first_child_or_token | Call_last_child | Call_last_child_or_token
  | Call_next_child_after nat text_size | Call_next_child_or_token_after nat text_size
  | Call_prev_child_before nat text_size | Call_prev_child_or_token_before nat text_size
  | Call_next_sibling | Call_next_sibling_or_token | Call_prev_sibling | Call_prev_sibling_or_token
  | Call_first_token | Call_last_token | Call_siblings direction | Call_siblings_with_tokens direction
  | Call_descendants | Call_descendants_with_tokens | Call_preorder | Call_preorder_with_tokens
  | Call_token_at_offset text_size | Call_covering_element text_range | Call_next_token | Call_prev_token

definition opt_items :: "('a \<Rightarrow> 'b) \<Rightarrow> ('j, 'x, 'a option) red \<Rightarrow> ('j, 'x, 'b list) red" where
  "opt_items f m = bindR m (\<lambda>x. returnR (case x of None \<Rightarrow> [] | Some y \<Rightarrow> [f y]))"

definition all_items :: "('a \<Rightarrow> 'b) \<Rightarrow> ('j, 'x, 'a list) red \<Rightarrow> ('j, 'x, 'b list) red" where
  "all_items f m = bindR m (\<lambda>xs. returnR (map f xs))"

fun event_item :: "'a walk_event \<Rightarrow> 'a" where
  "event_item (Enter x) = x"
| "event_item (Leave x) = x"

fun node_call :: "nat \<Rightarrow> ('s, 'd, 'i, 'e) env \<Rightarrow> resolved_call \<Rightarrow> resolved_node \<Rightarrow> ('j, 'x, resolved_element list) red" where
  "node_call k E Call_parent r = opt_items Node (readR (\<lambda>h. rn_parent h r))"
| "node_call k E Call_ancestors r = all_items Node (rn_ancestors k r)"
| "node_call k E Call_children r =
     bindR (readR (\<lambda>h. rn_children E h r)) (\<lambda>it. all_items Node (collect k (rn_children_next E) it))"
| "node_call k E Call_children_with_tokens r =
     bindR (readR (\<lambda>h. rn_children_with_tokens E h r)) (\<lambda>it. collect k (rn_children_with_tokens_next E) it)"
| "node_call k E Call_first_child r = opt_items Node (rn_first_child E r)"
| "node_call k E Call_first_child_or_token r = opt_items id (rn_first_child_or_token E r)"
| "node_call k E Call_last_child r = opt_items Node (rn_last_child E r)"
| "node_call k E Call_last_child_or_token r = opt_items id (rn_last_child_or_token E r)"
| "node_call k E (Call_next_child_after n offset) r = opt_items Node (rn_next_child_after E r n offset)"
| "node_call k E (Call_next_child_or_token_after n offset) r = opt_items id (rn_next_child_or_token_after E r n offset)"
| "node_call k E (Call_prev_child_before n offset) r = opt_items Node (rn_prev_child_before E r n offset)"
| "node_call k E (Call_prev_child_or_token_before n offset) r = opt_items id (rn_prev_child_or_token_before E r n offset)"
| "node_call k E Call_next_sibling r = opt_items Node (rn_next_sibling E r)"
| "node_call k E Call_next_sibling_or_token r = opt_items id (rn_next_sibling_or_token E r)"
| "node_call k E Call_prev_sibling r = opt_items Node (rn_prev_sibling E r)"
| "node_call k E Call_prev_sibling_or_token r = opt_items id (rn_prev_sibling_or_token E r)"
| "node_call k E Call_first_token r = opt_items Token (rn_first_token k E r)"
| "node_call k E Call_last_token r = opt_items Token (rn_last_token k E r)"
| "node_call k E (Call_siblings dir) r = all_items Node (rn_siblings k E r dir)"
| "node_call k E (Call_siblings_with_tokens dir) r = rn_siblings_with_tokens k E r dir"
| "node_call k E Call_descendants r = all_items Node (rn_descendants k E r)"
| "node_call k E Call_descendants_with_tokens r = rn_descendants_with_tokens k E r"
| "node_call k E Call_preorder r = all_items (\<lambda>ev. Node (event_item ev)) (rn_preorder k E r)"
| "node_call k E Call_preorder_with_tokens r = all_items event_item (rn_preorder_with_tokens k E r)"
| "node_call k E (Call_token_at_offset offset) r =
     bindR (rn_token_at_offset k E r offset) (\<lambda>t. returnR (map Token (token_at_offset_items t)))"
| "node_call k E (Call_covering_element rng) r = bindR (rn_covering_element k E r rng) (\<lambda>e. returnR [e])"
| "node_call k E Call_next_token r = returnR []"
| "node_call k E Call_prev_token r = returnR []"

text \<open>A token has no function of the name in the last case.\<close>

fun token_call :: "nat \<Rightarrow> ('s, 'd, 'i, 'e) env \<Rightarrow> resolved_call \<Rightarrow> resolved_token \<Rightarrow> ('j, 'x, resolved_element list) red" where
  "token_call k E Call_parent r = returnR [Node (rt_parent r)]"
| "token_call k E Call_ancestors r = all_items Node (rt_ancestors k r)"
| "token_call k E Call_next_sibling_or_token r = opt_items id (rt_next_sibling_or_token E r)"
| "token_call k E Call_prev_sibling_or_token r = opt_items id (rt_prev_sibling_or_token E r)"
| "token_call k E (Call_siblings_with_tokens dir) r = rt_siblings_with_tokens k E r dir"
| "token_call k E Call_next_token r = opt_items Token (rt_next_token k E r)"
| "token_call k E Call_prev_token r = opt_items Token (rt_prev_token k E r)"
| "token_call k E _ r = returnR []"

fun element_call :: "nat \<Rightarrow> ('s, 'd, 'i, 'e) env \<Rightarrow> resolved_call \<Rightarrow> resolved_element \<Rightarrow> ('j, 'x, resolved_element list) red" where
  "element_call k E c (Node it) = node_call k E c it"
| "element_call k E c (Token it) = token_call k E c it"

text \<open>What a client can hold: the root, and whatever calls return on what it holds, for as long as it wants.\<close>

inductive holds :: "('s, 'd, 'i, 'e) env \<Rightarrow> green_node \<Rightarrow> 'i \<Rightarrow> ('i, 'x) heap \<Rightarrow> resolved_element set \<Rightarrow> bool" for E g i where
  root: "rn_new_root_with_resolver g i = (r, h) \<Longrightarrow> holds E g i h {Node r}"
| call: "holds E g i h R \<Longrightarrow> r \<in> R \<Longrightarrow> element_call k E c r h = Inr (rs, h') \<Longrightarrow> holds E g i h' (R \<union> set rs)"

section \<open>Calls stay in the tree\<close>

fun re_syntax :: "resolved_element \<Rightarrow> syntax_element" where
  "re_syntax (Node it) = Node (rn_syntax it)"
| "re_syntax (Token it) = Token (rt_syntax it)"

abbreviation re_inside :: "nat \<Rightarrow> resolved_element \<Rightarrow> bool" where
  "re_inside l r \<equiv> inside l (re_syntax r)"

lemma re_syntax_coerce [simp]: "re_syntax (element_coerce_ref e) = e"
  by (cases e) (simp_all add: node_coerce_ref_def token_coerce_ref_def)

lemma stays_opt:
  assumes "stays i l m (some_inside P)" "\<And>l x. P l x \<Longrightarrow> re_inside l (f (coerce x))"
  shows "stays i l (opt_items f (forward coerce m)) (\<lambda>l. list_all (re_inside l))"
  unfolding opt_items_def forward_def
proof (rule stays_bind [where Q = "\<lambda>l. pred_option (\<lambda>y. re_inside l (f y))"])
  show "stays i l (bindR m (\<lambda>e. returnR (map_option coerce e))) (\<lambda>l. pred_option (\<lambda>y. re_inside l (f y)))"
  proof (rule stays_bind [OF assms(1)], rule stays_return)
    fix x l1 l2 assume "some_inside P l1 x" "l1 \<le> l2"
    then show "pred_option (\<lambda>y. re_inside l2 (f y)) (map_option coerce x)"
      by (cases x) (auto intro: inside_mono [OF assms(2)])
  qed
qed (auto intro!: stays_return intro: inside_mono split: option.split)

lemma stays_iter:
  assumes "stays i l m (\<lambda>l. list_all (P l))" "\<And>l x. P l x \<Longrightarrow> re_inside l (coerce x)"
  shows "stays i l (forward_iter coerce m) (\<lambda>l. list_all (re_inside l))"
  unfolding forward_iter_def
proof (rule stays_bind [OF assms(1)], rule stays_return)
  fix xs l1 l2 assume "list_all (P l1) xs" "l1 \<le> l2"
  then show "list_all (re_inside l2) (map coerce xs)"
    by (auto simp: list_all_iff intro: inside_mono [OF assms(2)])
qed

lemma all_items_iter: "all_items f (forward_iter coerce m) = forward_iter (\<lambda>x. f (coerce x)) m"
  by (auto simp: all_items_def forward_iter_def bindR_def returnR_def fun_eq_iff bindO_def comp_def split: sum.split)

lemma stays_next:
  assumes "stays i l m (fst_inside P)" "\<And>l x. P l x \<Longrightarrow> re_inside l (f (coerce x))"
  shows "stays i l (forward_next coerce m) (\<lambda>l y. pred_option (\<lambda>y. re_inside l (f y)) (fst y))"
  unfolding forward_next_def
proof (rule stays_bind [OF assms(1)], clarify, rule stays_return)
  fix x it l1 l2 assume "fst_inside P l1 (x, it)" "l1 \<le> l2"
  then show "pred_option (\<lambda>y. re_inside l2 (f y)) (fst (map_option coerce x, it))"
    by (cases x) (auto intro: inside_mono [OF assms(2)])
qed

lemma stays_collect:
  fixes nxt :: "'t \<Rightarrow> ('j, 'x, 'a option \<times> 't) red"
  assumes "\<And>it l. stays i l (nxt it) (\<lambda>l y. pred_option (\<lambda>y. re_inside l (f y)) (fst y))"
  shows "stays i l (collect k nxt it) (\<lambda>l. list_all (\<lambda>y. re_inside l (f y)))"
proof (induction k arbitrary: l it)
  case (Suc k)
  show ?case unfolding collect.simps
  proof (rule stays_bind [OF assms], clarify)
    fix x and it' :: 't and l1 assume x: "pred_option (\<lambda>y. re_inside l1 (f y)) (fst (x, it'))"
    show "stays i l1 ((case x of None \<Rightarrow> returnR []
      | Some a \<Rightarrow> bindR (collect k nxt it') (\<lambda>as. returnR (a # as))) :: ('j, 'x, _) red) (\<lambda>l. list_all (\<lambda>y. re_inside l (f y)))"
    proof (cases x)
      case (Some a)
      have "stays i l1 (bindR (collect k nxt it') (\<lambda>as. returnR (a # as)) :: ('j, 'x, _) red) (\<lambda>l. list_all (\<lambda>y. re_inside l (f y)))"
      proof (rule stays_bind [OF Suc.IH], rule stays_return)
        fix as l2 l3 assume "l1 \<le> l2" "list_all (\<lambda>y. re_inside l2 (f y)) as" "l2 \<le> l3"
        with x Some show "list_all (\<lambda>y. re_inside l3 (f y)) (a # as)"
          by (auto simp: list_all_iff intro: inside_mono)
      qed
      with Some show ?thesis by simp
    qed (auto intro: stays_return)
  qed
qed (simp add: stays)

lemma stays_all_items:
  assumes "stays i l m (\<lambda>l. list_all (\<lambda>y. re_inside l (f y)))"
  shows "stays i l (all_items f m) (\<lambda>l. list_all (re_inside l))"
  unfolding all_items_def
  by (rule stays_bind [OF assms], rule stays_return) (auto simp: list_all_iff intro: inside_mono)

lemma event_item_map [simp]: "event_item (walk_event_map f ev) = f (event_item ev)"
  by (cases ev) simp_all

lemma pred_event_item: "pred_walk_event P ev \<Longrightarrow> P (event_item ev)"
  by (cases ev) simp_all

lemma at_offset_items: "token_at_offset_items (token_at_offset_map f t) = map f (token_at_offset_items t)"
  by (cases t) simp_all

lemma at_offset_items_inside: "at_offset_inside l t \<Longrightarrow> \<forall>x \<in> set (token_at_offset_items t). token_inside l x"
  by (cases t) simp_all

lemma syntax_coerce [simp]: "rn_syntax (node_coerce_ref n) = n" "rt_syntax (token_coerce_ref t) = t"
  by (simp_all add: node_coerce_ref_def token_coerce_ref_def)

lemma bindR_assoc: "bindR (bindR m f) g = bindR m (\<lambda>x. bindR (f x) g)"
  by (auto simp: bindR_def bindO_def fun_eq_iff split: sum.split)

lemma return_bindR: "bindR (returnR x) f = f x"
  by (simp add: bindR_def returnR_def fun_eq_iff)

lemmas rn_functions = rn_parent_def rn_ancestors_def rn_children_def rn_children_next_def rn_children_with_tokens_def
  rn_children_with_tokens_next_def rn_first_child_def rn_first_child_or_token_def rn_last_child_def
  rn_last_child_or_token_def rn_next_sibling_def rn_next_sibling_or_token_def rn_prev_sibling_def
  rn_prev_sibling_or_token_def rn_next_child_after_def rn_next_child_or_token_after_def rn_prev_child_before_def
  rn_prev_child_or_token_before_def rn_first_token_def rn_last_token_def rn_siblings_def rn_siblings_with_tokens_def
  rn_descendants_def rn_descendants_with_tokens_def rn_preorder_def rn_preorder_with_tokens_def

lemma parent_call: "opt_items f (readR (\<lambda>h. rn_parent h r)) =
    opt_items f (forward node_coerce_ref (readR (\<lambda>h. node_parent h (rn_syntax r))))"
  by (auto simp: opt_items_def forward_def rn_parent_def readR_def bindR_def bindO_def returnR_def fun_eq_iff split: sum.split)

lemma stays_node_call:
  assumes "rn_syntax r < l"
  shows "stays i l (node_call k E c r) (\<lambda>l. list_all (re_inside l))"
proof (cases c)
  case Call_parent
  then show ?thesis using stays_opt [OF stays_parent, of Node node_coerce_ref] by (simp add: parent_call)
next
  case Call_ancestors
  then show ?thesis
    using stays_iter [OF stays_ancestors [OF assms], of "\<lambda>n. Node (node_coerce_ref n)"] by (simp add: rn_functions all_items_iter)
next
  case Call_children
  then show ?thesis
    unfolding rn_functions Call_children node_call.simps
    by (intro stays_read_bind stays_all_items stays_collect stays_next [OF stays_node_children_next]) simp
next
  case Call_children_with_tokens
  then show ?thesis
    unfolding rn_functions Call_children_with_tokens node_call.simps
    by (intro stays_read_bind stays_collect [where f = "\<lambda>x. x"] stays_next [OF stays_element_children_next, where f = "\<lambda>x. x"]) simp
next
  case (Call_siblings dir)
  then show ?thesis
    using stays_iter [OF stays_sibling_lists(1) [OF assms], of "\<lambda>n. Node (node_coerce_ref n)"] by (simp add: rn_functions all_items_iter)
next
  case (Call_siblings_with_tokens dir)
  then show ?thesis
    using stays_iter [OF stays_sibling_lists(2) [where e = "Node (rn_syntax r)"], where coerce = element_coerce_ref] assms
    by (simp add: rn_functions)
next
  case Call_descendants
  then show ?thesis
    using stays_iter [OF stays_descendants(1) [OF assms], of "\<lambda>n. Node (node_coerce_ref n)"] by (simp add: rn_functions all_items_iter)
next
  case Call_descendants_with_tokens
  then show ?thesis
    using stays_iter [OF stays_descendants(2) [OF assms], of element_coerce_ref] by (simp add: rn_functions)
next
  case Call_preorder
  have "re_inside l (Node (node_coerce_ref (event_item ev)))" if "pred_walk_event (node_inside l) ev" for l ev
    using pred_event_item [OF that] by simp
  from stays_iter [OF stays_preorders(1) [OF assms] this] Call_preorder show ?thesis
    by (simp add: rn_functions all_items_iter)
next
  case Call_preorder_with_tokens
  have "re_inside l (element_coerce_ref (event_item ev))" if "pred_walk_event (inside l) ev" for l ev
    using pred_event_item [OF that] by simp
  from stays_iter [OF stays_preorders(2) [OF assms] this] Call_preorder_with_tokens show ?thesis
    by (simp add: rn_functions all_items_iter)
next
  case (Call_token_at_offset offset)
  have "stays i l (bindR (node_token_at_offset k E (rn_syntax r) offset)
      (\<lambda>t. returnR (map (\<lambda>t. Token (token_coerce_ref t)) (token_at_offset_items t)))) (\<lambda>l. list_all (re_inside l))"
    by (rule stays_bind [OF stays_token_at_offset], rule stays_return)
      (fastforce simp: list_all_iff dest: at_offset_items_inside)
  then show ?thesis
    using Call_token_at_offset
    by (simp add: rn_token_at_offset_def bindR_assoc return_bindR at_offset_items comp_def token_coerce_ref_def)
next
  case (Call_covering_element rng)
  have "stays i l (bindR (covering_loop k E (Node (rn_syntax r)) rng) (\<lambda>e. returnR [element_coerce_ref e])) (\<lambda>l. list_all (re_inside l))"
    by (rule stays_bind [OF stays_covering_loop], use assms in simp, rule stays_return) (auto intro: inside_mono)
  with Call_covering_element show ?thesis
    by (simp add: rn_covering_element_def covering_element_def bindR_assoc return_bindR)
qed (auto simp: rn_functions intro: stays_opt stays stays_end_tokens stays_return)

lemma stays_token_call:
  assumes "st_parent (rt_syntax r) < l"
  shows "stays i l (token_call k E c r) (\<lambda>l. list_all (re_inside l))"
proof (cases c)
  case Call_ancestors
  then show ?thesis
    using stays_iter [OF stays_ancestors [OF assms], of "\<lambda>n. Node (node_coerce_ref n)"] by (simp add: rt_ancestors_def all_items_iter)
next
  case (Call_siblings_with_tokens dir)
  then show ?thesis
    using stays_iter [OF stays_sibling_lists(2) [where e = "Token (rt_syntax r)"], where coerce = element_coerce_ref] assms
    by (simp add: rt_siblings_with_tokens_def)
qed (use assms in \<open>auto simp: rt_parent_def rt_next_sibling_or_token_def rt_prev_sibling_or_token_def rt_next_token_def rt_prev_token_def
    intro: stays_opt stays stays_adjacent_tokens stays_return\<close>)

lemma stays_element_call:
  assumes "re_inside l r"
  shows "stays i l (element_call k E c r) (\<lambda>l. list_all (re_inside l))"
  using assms by (cases r) (auto intro: stays_node_call stays_token_call)

section \<open>Properties\<close>

lemma holds_inside:
  assumes "holds E g i h R"
  shows "rooted i h \<and> (\<forall>r \<in> R. re_inside (length h) r)"
  using assms
proof induction
  case (root r h)
  then obtain n where n: "new_root_with_resolver g i = (n, h)" "r = node_coerce_ref n"
    by (auto simp: rn_new_root_with_resolver_def split: prod.splits)
  have "rooted i (snd (n, h))" unfolding n(1) [symmetric] by (rule rooted_new_root)
  with n show ?case by (auto simp: new_root_with_resolver_def make_new_root_def Let_def)
next
  case (call h R r k c rs h')
  then have "stays i (length h) (element_call k E c r) (\<lambda>l. list_all (re_inside l))" by (blast intro: stays_element_call)
  with call have h': "rooted i h'" "length h \<le> length h'" "list_all (re_inside (length h')) rs"
    unfolding stays_def by blast+
  moreover have "re_inside (length h') x" if "x \<in> R" for x
    using call that inside_mono [OF _ h'(2)] by blast
  ultimately show ?case by (auto simp: list_all_iff)
qed

text \<open>C5: \<open>coerce_ref\<close> is sound for a client that does not assign through \<open>DerefMut\<close>. Such a client holds the root of a tree with a
  resolver, and whatever the functions of resolved nodes and tokens return on what it holds, called in any order and with any
  arguments. (A call that panics returns nothing, and so does one that is undefined behaviour, as \<open>prev_child_before\<close> past the slots is,
  after which no program has any guarantee.) On everything it holds \<open>resolver\<close> does not panic and returns the resolver that the root was
  made with; \<open>data\<close>, and \<open>text\<close> of a language \<open>U\<close> with the payload \<open>str\<close>, are those of the syntax tree with that resolver.\<close>
theorem coerce_sound:
  fixes U :: "('s, rust_str, 'i, 'u) env"
  assumes "holds E g i h R" "r \<in> R"
  shows "re_resolver h r = Inr i \<and>
    (case r of
       Node it \<Rightarrow> rn_data E h it = syntax_data_new E h (rn_syntax it) i \<and> rn_text U h it = syntax_text_new U h (rn_syntax it) i
     | Token it \<Rightarrow> rt_data E h it = resolve_data E h i (rt_syntax it) \<and> rt_text U h it = resolve_text U h i (rt_syntax it))"
proof -
  from holds_inside [OF assms(1)] assms(2) have h: "rooted i h" "re_inside (length h) r" by auto
  show ?thesis
  proof (cases r)
    case (Node it)
    with h have "node_resolver (Suc (length h)) h (rn_syntax it) = Inr (Some i)" by (simp add: node_resolver_rooted)
    with Node show ?thesis by (simp add: rn_resolver_def rn_data_def rn_text_def unwrap_def)
  next
    case (Token it)
    with h have "node_resolver (Suc (length h)) h (st_parent (rt_syntax it)) = Inr (Some i)" by (simp add: node_resolver_rooted)
    with Token show ?thesis
      by (simp add: rt_resolver_def rt_data_def rt_text_def resolve_data_def resolve_text_def unwrap_def cong: option.case_cong)
  qed
qed

text \<open>The tree \<open>+a\<close>: its first token, reached through the root.\<close>

theorem coerce_sound_witness:
  "\<exists>h t. rn_first_child_or_token red_ex_env (ResolvedNode 0) (snd (rn_new_root_with_resolver ex_plus ex_interner)) = Inr (Some (Token t), h) \<and>
     rt_resolver h t = Inr ex_interner \<and> rt_data red_ex_env h t = Inr (Str [0x2B]) \<and> rt_text red_ex_env h t = Inr (Str [0x2B])"
proof -
  let ?h = "snd (rn_new_root_with_resolver ex_plus ex_interner) :: (rust_str token_interner, 'a) heap"
  obtain h t where t: "rn_first_child_or_token red_ex_env (ResolvedNode 0) ?h = Inr (Some (Token t), h)"
    "token_green h (rt_syntax t) = Inr \<lparr>gt_kind = 0, gt_data = None, gt_data_len = 1\<rparr>"
    by (simp add: rn_new_root_with_resolver_def new_root_with_resolver_def make_new_root_def rn_first_child_or_token_def
        forward_def first_child_or_token_def node_green_def node_text_range_def node_data_of_def node_data_new_def children_from_def
        add_next_element_def get_or_add_element_def read_slot_def try_write_def update_node_def unwrap_def syntax_token_new_def
        ex_plus_children iter_count_def iter_nth_def gn_children_iter_def token_green_def bindR_def readR_def returnR_def Let_def)
  have "rn_new_root_with_resolver ex_plus ex_interner = (ResolvedNode 0, ?h)"
    by (simp add: rn_new_root_with_resolver_def new_root_with_resolver_def make_new_root_def node_coerce_ref_def Let_def)
  then have "holds red_ex_env ex_plus ex_interner ?h {Node (ResolvedNode 0)}" by (rule holds.root)
  from holds.call [OF this _, of "Node (ResolvedNode 0)" 0 Call_first_child_or_token "[Token t]" h]
  have "holds red_ex_env ex_plus ex_interner h ({Node (ResolvedNode 0)} \<union> {Token t})"
    using t(1) by (simp add: opt_items_def bindR_def returnR_def)
  from coerce_sound [OF this, of "Token t" red_ex_env] t(1) show ?thesis
    by (auto simp: resolve_text_def resolve_data_green [OF t(2)] ex_plus_tokens green_resolve_def test_from_raw_def)
qed

text \<open>An assignment through \<open>DerefMut\<close> breaks the promise of \<open>coerce_ref\<close> without unsafe code: once the inner node is replaced by the root of a tree
  that was made without a resolver, \<open>resolver\<close>, and with it \<open>data\<close>, \<open>Display\<close> and serialisation, panic.\<close>
theorem deref_mut_loses_resolver:
  "case new_root g of (n, h) \<Rightarrow>
     rn_resolver h (rn_deref_mut_set n r) = Inl Unwrap_None \<and> rn_data E h (rn_deref_mut_set n r) = Inl Unwrap_None \<and>
     rn_fmt_display k F E (rn_deref_mut_set n r) W w h = Inl Unwrap_None \<and> rn_serialize k E (rn_deref_mut_set n r) h = Inl Unwrap_None"
  by (simp add: new_root_def make_new_root_def Let_def rn_resolver_def rn_deref_mut_set_def rn_data_def rn_fmt_display_def
      rn_serialize_def rn_deref_def node_resolver_def node_parent_def node_data_of_def node_data_new_def unwrap_def
      bindR_def readR_def)

section \<open>From the source and back\<close>

primrec n_elements :: "('s, 'd) tree \<Rightarrow> nat" where
  "n_elements (TNode k ts) = Suc (sum_list (map n_elements ts))"
| "n_elements (TToken k d) = 1"
| "n_elements (TBytes k bs) = 1"
| "n_elements (TStatic k) = 1"

primrec tree_narrow :: "('s, 'd) tree \<Rightarrow> bool" where
  "tree_narrow (TNode k ts) \<longleftrightarrow> length ts \<le> u32_max \<and> list_all (\<lambda>b. b) (map tree_narrow ts)"
| "tree_narrow (TToken k d) \<longleftrightarrow> True"
| "tree_narrow (TBytes k bs) \<longleftrightarrow> True"
| "tree_narrow (TStatic k) \<longleftrightarrow> True"

lemma length_walk_children:
  "list_all2 (\<lambda>t c. \<forall>p. length (walk_element p c) = 2 * n_elements t) ts cs \<Longrightarrow>
   length (walk_children p i cs) = 2 * sum_list (map n_elements ts)"
  by (induction ts cs arbitrary: i rule: list_all2_induct) (simp_all add: walk_children_Cons)

lemma represents_length_walk: "represents E i t e \<Longrightarrow> length (walk_element p e) = 2 * n_elements t"
proof (induction t arbitrary: e p)
  case (TNode k ts)
  then obtain n where e: "e = Node n" and l: "list_all2 (represents E i) ts (gn_children n)" by (auto elim: represents_TNodeE)
  from l have "list_all2 (\<lambda>t c. \<forall>p. length (walk_element p c) = 2 * n_elements t) ts (gn_children n)"
    using TNode.IH by (auto elim: list.rel_mono_strong)
  from length_walk_children [OF this] show ?case using e by (cases n) simp
qed (auto simp: represents_leaf_def split: node_or_token.splits)

lemma represents_arity: "represents E i t e \<Longrightarrow> tree_narrow t \<Longrightarrow> e = Node n \<Longrightarrow> arity_ok n"
proof (induction t arbitrary: e n)
  case (TNode k ts)
  obtain h cs where n: "n = GreenNode h cs" by (cases n)
  with TNode.prems have l: "list_all2 (represents E i) ts cs" by auto
  have "arity_ok m" if "Node m \<in> set cs" for m
  proof -
    from that l obtain t where "t \<in> set ts" "represents E i t (Node m)"
      by (metis in_set_conv_nth list_all2_conv_all_nth)
    with TNode show ?thesis by (auto simp: list_all_iff)
  qed
  then have "length (gn_children y) \<le> u32_max" if "Node m \<in> set cs" "y \<in> set (subnodes m)" for m y
    using that by (simp add: arity_ok_def)
  moreover have "length cs \<le> u32_max" using list_all2_lengthD [OF l] TNode.prems(2) by simp
  ultimately show ?case using n by (auto simp: arity_ok_def split: node_or_token.splits)
qed (auto simp: represents_leaf_def)

text \<open>C4: The source survives the whole way under these conditions: the leaves carry the data of their kinds and their bytes are less than
  2^32 in all, as are the children of each node; the interner has room for them; no two different nodes of the tree have the same head, that is
  kind, length and 32-bit hash of the children; and the payload type displays the data of each leaf as its bytes, as \<open>str\<close> does.
  Then the tree is built by its calls on a fresh builder, finished with the builder's interner and wrapped as a resolved root without a panic,
  and displays as exactly the bytes of its leaves in order; fuel of two steps for each element is enough.\<close>
theorem source_round_trip:
  fixes E :: "('s, 'd, 'd token_interner, 'e) env"
  assumes "tree_env E valid ok room" "ok new_interner" "tree_ok E valid (TNode k ts)" "tree_narrow (TNode k ts)"
    and "length (leaves (TNode k ts)) \<le> room new_interner"
    and "sum_list (map (\<lambda>l. length (td_as_bytes (en_data E) (the (leaf_data E l)))) (leaves (TNode k ts))) \<le> u32_max"
    and "\<And>i n. denote E new_interner (TNode k ts) = Inr (i, Node n) \<Longrightarrow> inj_on gn_head (set (subnodes n))"
    and "lossless_display F (en_data E) shown" "\<forall>l \<in> set (leaves (TNode k ts)). shown (the (leaf_data E l))"
    and "2 * n_elements (TNode k ts) \<le> fuel"
  shows "\<exists>b n c i r h h'. run E (events (TNode k ts)) builder_new = Inr b \<and> builder_finish b = Inr (n, Some c) \<and>
    into_interner c = Some i \<and> rn_new_root_with_resolver n i = (r, h :: ('d token_interner, 'x) heap) \<and>
    rn_fmt_display fuel F E r string_writer [] h =
      Inr ((True, concat (map (\<lambda>l. td_as_bytes (en_data E) (the (leaf_data E l))) (leaves (TNode k ts)))), h')"
proof -
  let ?t = "TNode k ts" and ?b = "builder_new :: ('s, 'd token_interner) builder"
  have interner: "builder_interner ?b = new_interner" "into_owned (bl_cache ?b) = Some node_cache_new"
    by (simp_all add: builder_new_def builder_interner_def node_cache_new_def cache_interner_def)
  have "\<exists>b' n. run E (events ?t) ?b = Inr b' \<and>
    builder_finish b' = Inr (n, map_option (\<lambda>_. bl_node_cache b') (into_owned (bl_cache ?b))) \<and>
    represents E (builder_interner b') ?t (Node n) \<and>
    green_wf (en_text E) (en_hash E) n \<and> ok (builder_interner b') \<and> env_cache_wf E (bl_node_cache b')"
  proof (rule build_tree [OF assms(1)])
    fix i n assume "denote E (builder_interner ?b) ?t = Inr (i, Node n)"
    then have "inj_on gn_head (set (subnodes n))" using assms(7) interner(1) by simp
    then show "inj_on gn_head (ran (nc_nodes (bl_node_cache ?b)) \<union> set (subnodes n))"
      by (simp add: builder_new_def node_cache_new_def)
  qed (use assms(2,3,5) interner in \<open>simp_all add: builder_new_def node_cache_new_def cache_wf_def\<close>)
  then obtain b n where b: "run E (events ?t) ?b = Inr b" "builder_finish b = Inr (n, Some (bl_node_cache b))"
    "represents E (builder_interner b) ?t (Node n)" "green_wf (en_text E) (en_hash E) n" using interner(2) by auto
  let ?i = "builder_interner b"
  have i: "into_interner (bl_node_cache b) = Some ?i"
    using run_interner_owned [OF b(1)] by (simp add: builder_new_def node_cache_new_def into_interner_def)
  have T: "text_size (en_text E)" using assms(1) by (simp add: tree_env_def)
  have "green_len n \<le> u32_max" using represents_len [OF b(3) assms(6)] assms(6) by (simp only: element_len_simps)
  with b(3,4) assms(4) have fits: "green_fits E n" by (auto simp only: green_fits_def intro: represents_arity)
  obtain h :: "('d token_interner, 'x) heap" where h: "new_root_with_resolver n ?i = (0, h)"
    by (simp add: new_root_with_resolver_def make_new_root_def Let_def)
  have "red_wf E n (snd (0::nat, h))"
    unfolding h [symmetric] new_root_with_resolver_def by (rule make_new_root_wf(1) [OF fits])
  then have wf: "red_wf E n h" by simp
  have "rooted ?i (snd (0::nat, h))" unfolding h [symmetric] by (rule rooted_new_root)
  moreover have h0: "0 < length h" "nd_green (h ! 0) = n"
    using h by (auto simp: new_root_with_resolver_def make_new_root_def node_data_new_def Let_def)
  ultimately have res: "rn_resolver h (node_coerce_ref 0) = Inr ?i"
    using node_resolver_rooted [of ?i h 0 "Suc (length h)"] by (simp add: rn_resolver_def unwrap_def)
  have "length (walk_node (path_of h 0) n) \<le> fuel" using represents_length_walk [OF b(3)] assms(10) by simp
  with display_tokens [OF T wf h0(1), of ?i fuel F string_writer "[]"] represents_serde_ok [OF b(3)] h0(2) represented_pieces [OF b(3), of F]
  obtain h' where "node_write_display fuel F E ?i 0 string_writer [] h =
      Inr ((True, concat (concat (map (\<lambda>l. fo_display F (the (leaf_data E l))) (leaves ?t)))), h')"
    by (auto simp: computes_def)
  moreover have "concat (concat (map (\<lambda>l. fo_display F (the (leaf_data E l))) (leaves ?t))) =
      concat (map (\<lambda>l. td_as_bytes (en_data E) (the (leaf_data E l))) (leaves ?t))"
    using lossless_display.concat_displays [OF assms(8), of "map (\<lambda>l. the (leaf_data E l)) (leaves ?t)"] assms(9)
    by (simp add: comp_def)
  ultimately have "rn_fmt_display fuel F E (node_coerce_ref 0) string_writer [] h =
      Inr ((True, concat (map (\<lambda>l. td_as_bytes (en_data E) (the (leaf_data E l))) (leaves ?t))), h')"
    using res by (simp add: rn_fmt_display_def bindR_def readR_def)
  moreover have "rn_new_root_with_resolver n ?i = (node_coerce_ref 0, h)" using h by (simp add: rn_new_root_with_resolver_def)
  ultimately show ?thesis using b(1,2) i by blast
qed

theorem source_round_trip_witness:
  "\<exists>b n c i r h h'. run ex_env (events ex_tree) builder_new = Inr b \<and> builder_finish b = Inr (n, Some c) \<and>
     into_interner c = Some i \<and> rn_new_root_with_resolver n i = (r, h :: (rust_str token_interner, unit) heap) \<and>
     rn_fmt_display 6 ex_fmt ex_env r string_writer [] h = Inr ((True, [0x61, 0x2B]), h')"
proof -
  have lossless: "lossless_display ex_fmt (en_data ex_env) (\<lambda>_. True)"
    using str_display.lossless_display_axioms by (simp add: ex_fmt_def)
  have "\<exists>b n c i r h h'. run ex_env (events ex_tree) builder_new = Inr b \<and> builder_finish b = Inr (n, Some c) \<and>
    into_interner c = Some i \<and> rn_new_root_with_resolver n i = (r, h :: (rust_str token_interner, unit) heap) \<and>
    rn_fmt_display 6 ex_fmt ex_env r string_writer [] h =
      Inr ((True, concat (map (\<lambda>l. td_as_bytes (en_data ex_env) (the (leaf_data ex_env l))) (leaves ex_tree))), h')"
  proof (rule source_round_trip [OF tree_env_test interner_ok_new _ _ _ _ _ lossless])
    fix i n
    assume "denote ex_env new_interner ex_tree = Inr (i, Node n)"
    then show "inj_on gn_head (set (subnodes n))" by (auto simp: spec_eval bindO_eq_Inr)
  qed (simp_all add: spec_eval interner_room_def N_INDICES_def u32_max_def new_interner_def str_valid_def str_data_def)
  then show ?thesis by (simp add: spec_eval str_data_def)
qed

end
