(* ===== verification/Lasso_Compat.thy ===== *)
theory Lasso_Compat
  imports Interning
begin

text \<open>
  \<open>cstree/src/interning/lasso_compat/{traits,token_interner}.rs\<close>: interners of the crate \<open>lasso\<close> as
  interners of \<open>cstree\<close>. What \<open>lasso\<close> provides is a parameter, with what its documentation promises
  as the laws of two locales; it is proved that the adapters then satisfy the contract of an interner, so
  that everything that is shown for trees holds with these interners.
\<close>

section \<open>What lasso provides\<close>

text \<open>The trait \<open>lasso::Key\<close>.\<close>

record 'k key_ops =
  lk_into_usize :: "'k \<Rightarrow> nat"
  lk_try_from_usize :: "nat \<Rightarrow> 'k option"

text \<open>
  The traits \<open>lasso::Resolver\<close> and \<open>lasso::Interner\<close>; as in \<open>interner_ops\<close> an error does not return the state. The methods without \<open>try\<close> panic where the others fail.
\<close>

record ('r, 'k, 'e) rodeo_ops =
  rd_try_resolve :: "'r \<Rightarrow> 'k \<Rightarrow> rust_str option"
  rd_resolve :: "'r \<Rightarrow> 'k \<Rightarrow> rust_str outcome"
  rd_try_get_or_intern :: "'r \<Rightarrow> rust_str \<Rightarrow> 'e + 'r \<times> 'k"
  rd_get_or_intern :: "'r \<Rightarrow> rust_str \<Rightarrow> ('r \<times> 'k) outcome"

text \<open>The conversions of a key are inverse to each other; \<open>key_ok\<close> are the values of the key type.\<close>

locale key_type =
  fixes K :: "'k key_ops" and key_ok :: "'k \<Rightarrow> bool"
  assumes from_into: "key_ok k \<Longrightarrow> lk_try_from_usize K (lk_into_usize K k) = Some k"
    and into_from: "lk_try_from_usize K n = Some k \<Longrightarrow> key_ok k \<and> lk_into_usize K k = n"

text \<open>
  A \<open>Rodeo\<close>: strings get keys that resolve to them for good, and equal strings get equal keys. While there is
  \<open>room\<close>, interning succeeds and the keys are small enough for a \<open>TokenKey\<close>.
\<close>

locale rodeo = key_type K key_ok
  for K :: "'k key_ops" and key_ok :: "'k \<Rightarrow> bool" +
  fixes R :: "('r, 'k, 'e) rodeo_ops" and inv :: "'r \<Rightarrow> bool" and room :: "'r \<Rightarrow> nat"
  assumes intern_gives: "inv r \<Longrightarrow> str_valid s \<Longrightarrow> rd_try_get_or_intern R r s = Inr (r', k) \<Longrightarrow>
      inv r' \<and> rd_try_resolve R r' k = Some s"
    and intern_keeps_keys: "inv r \<Longrightarrow> str_valid s \<Longrightarrow> rd_try_get_or_intern R r s = Inr (r', k) \<Longrightarrow>
      rd_try_resolve R r k' = Some s' \<Longrightarrow> rd_try_resolve R r' k' = Some s'"
    and resolves_to_str: "inv r \<Longrightarrow> rd_try_resolve R r k = Some s \<Longrightarrow> key_ok k \<and> str_valid s"
    and one_key: "inv r \<Longrightarrow> rd_try_resolve R r k = Some s \<Longrightarrow> rd_try_resolve R r k' = Some s \<Longrightarrow> k = k'"
    and small_keys: "inv r \<Longrightarrow> str_valid s \<Longrightarrow> 0 < room r \<Longrightarrow>
      \<exists>r' k. rd_try_get_or_intern R r s = Inr (r', k) \<and> lk_into_usize K k < u32_max \<and> room r \<le> Suc (room r')"
    and resolve_panics: "rd_resolve R r k = Inr s \<longleftrightarrow> rd_try_resolve R r k = Some s"
    and intern_panics: "rd_get_or_intern R r s = Inr rk \<longleftrightarrow> rd_try_get_or_intern R r s = Inr rk"

section \<open>Token keys as keys of lasso\<close>

text \<open>\<open>u32::try_from(n)\<close>\<close>

definition u32_try_from :: "nat \<Rightarrow> u32 option" where
  "u32_try_from n = (if n \<le> u32_max then Some (as_u32 n) else None)"

definition tk_into_usize :: "token_key \<Rightarrow> nat" where
  "tk_into_usize key = unat (into_u32 key)"

definition tk_try_from_usize :: "nat \<Rightarrow> token_key option" where
  "tk_try_from_usize n = (case u32_try_from n of None \<Rightarrow> None | Some raw_key \<Rightarrow> try_from_u32 raw_key)"

definition token_lasso_key :: "token_key key_ops" where
  "token_lasso_key = \<lparr>lk_into_usize = tk_into_usize, lk_try_from_usize = tk_try_from_usize\<rparr>"

lemma tk_try_from_Some: "tk_try_from_usize n = Some k \<longleftrightarrow> token_key_ok k \<and> unat (into_u32 k) = n"
proof
  assume "tk_try_from_usize n = Some k"
  then have "n \<le> u32_max" "try_from_u32 (as_u32 n) = Some k"
    by (auto simp: tk_try_from_usize_def u32_try_from_def split: if_splits)
  then show "token_key_ok k \<and> unat (into_u32 k) = n" using try_from_u32_Some by (simp add: unat_as_u32)
next
  assume "token_key_ok k \<and> unat (into_u32 k) = n"
  then show "tk_try_from_usize n = Some k"
    using unat_le_u32_max [of "into_u32 k"] by (auto simp: tk_try_from_usize_def u32_try_from_def try_from_into_u32)
qed

lemma tk_try_from_None: "tk_try_from_usize n = None \<longleftrightarrow> u32_max \<le> n"
proof -
  have "try_from_u32 (as_u32 n) = None \<longleftrightarrow> n = u32_max" if "n \<le> u32_max"
    using that unat_as_u32 [OF that] by (auto simp: try_from_u32_def word_less_nat_alt unat_as_u32)
  then show ?thesis by (auto simp: tk_try_from_usize_def u32_try_from_def)
qed

interpretation tk: key_type token_lasso_key token_key_ok
  by unfold_locales (auto simp: token_lasso_key_def tk_into_usize_def tk_try_from_Some)

section \<open>The adapter for any key type\<close>

datatype 'e lasso_compat_error = LassoError 'e | KeyConversionError nat

definition compat_try_resolve :: "'k key_ops \<Rightarrow> ('r, 'k, 'e) rodeo_ops \<Rightarrow> 'r \<Rightarrow> token_key \<Rightarrow> rust_str option" where
  "compat_try_resolve K R self key =
     (let raw_key = into_u32 key in
      case lk_try_from_usize K (unat raw_key) of
        None \<Rightarrow> None
      | Some lasso_k \<Rightarrow> rd_try_resolve R self lasso_k)"

definition compat_resolve :: "'k key_ops \<Rightarrow> ('r, 'k, 'e) rodeo_ops \<Rightarrow> 'r \<Rightarrow> token_key \<Rightarrow> rust_str outcome" where
  "compat_resolve K R self key =
     (let raw_key = into_u32 key in
      case lk_try_from_usize K (unat raw_key) of
        None \<Rightarrow> Inl Invalid_key
      | Some lasso_k \<Rightarrow> rd_resolve R self lasso_k)"

text \<open>\<open>u32::try_from(raw_key).ok().and_then(TokenKey::try_from_u32)\<close>\<close>

definition from_raw_key :: "nat \<Rightarrow> token_key option" where
  "from_raw_key raw_key = (case u32_try_from raw_key of None \<Rightarrow> None | Some k \<Rightarrow> try_from_u32 k)"

definition compat_try_get_or_intern :: "'k key_ops \<Rightarrow> ('r, 'k, 'e) rodeo_ops \<Rightarrow> 'r \<Rightarrow> rust_str \<Rightarrow>
  ('e lasso_compat_error + 'r \<times> token_key) outcome" where
  "compat_try_get_or_intern K R self txt =
     (case rd_try_get_or_intern R self txt of
        Inl e \<Rightarrow> Inr (Inl (LassoError e))
      | Inr (self, lasso_k) \<Rightarrow>
          (let raw_key = lk_into_usize K lasso_k in
           case from_raw_key raw_key of
             None \<Rightarrow> Inr (Inl (KeyConversionError raw_key))
           | Some key \<Rightarrow> Inr (Inr (self, key))))"

text \<open>\<open>from_utf8(bytes).expect(..)\<close>\<close>

definition expect_utf8 :: "bytes \<Rightarrow> rust_str outcome" where
  "expect_utf8 bs = (if utf8_valid bs then Inr (Str bs) else Inl Only_utf8)"

definition compat_try_get_or_intern_bytes :: "'k key_ops \<Rightarrow> ('r, 'k, 'e) rodeo_ops \<Rightarrow> 'r \<Rightarrow> bytes \<Rightarrow>
  ('e lasso_compat_error + 'r \<times> token_key) outcome" where
  "compat_try_get_or_intern_bytes K R self bs = bindO (expect_utf8 bs) (\<lambda>txt. compat_try_get_or_intern K R self txt)"

definition compat_get_or_intern :: "'k key_ops \<Rightarrow> ('r, 'k, 'e) rodeo_ops \<Rightarrow> 'r \<Rightarrow> rust_str \<Rightarrow> ('r \<times> token_key) outcome" where
  "compat_get_or_intern K R self txt = bindO (rd_get_or_intern R self txt) (\<lambda>(self, lasso_k).
     let raw_key = lk_into_usize K lasso_k in
     case from_raw_key raw_key of None \<Rightarrow> Inl Invalid_key | Some key \<Rightarrow> Inr (self, key))"

definition compat_get_or_intern_bytes :: "'k key_ops \<Rightarrow> ('r, 'k, 'e) rodeo_ops \<Rightarrow> 'r \<Rightarrow> bytes \<Rightarrow> ('r \<times> token_key) outcome" where
  "compat_get_or_intern_bytes K R self bs = bindO (expect_utf8 bs) (\<lambda>txt. compat_get_or_intern K R self txt)"

definition compat_interner :: "'k key_ops \<Rightarrow> ('r, 'k, 'e) rodeo_ops \<Rightarrow> ('r, rust_str, 'e lasso_compat_error) interner_ops" where
  "compat_interner K R = \<lparr>io_try_resolve = compat_try_resolve K R,
     io_try_get_or_intern = compat_try_get_or_intern K R,
     io_try_get_or_intern_bytes = compat_try_get_or_intern_bytes K R\<rparr>"

lemma compat_interner_simps [simp]:
  "io_try_resolve (compat_interner K R) = compat_try_resolve K R"
  "io_try_get_or_intern (compat_interner K R) = compat_try_get_or_intern K R"
  "io_try_get_or_intern_bytes (compat_interner K R) = compat_try_get_or_intern_bytes K R"
  by (simp_all add: compat_interner_def)

section \<open>Rodeos over token keys\<close>

text \<open>\<open>TokenInterner\<close> and \<open>MultiThreadedTokenInterner\<close>: a rodeo whose keys are \<open>TokenKey\<close>s.\<close>

definition rodeo_try_get_or_intern_bytes :: "('r, token_key, 'e) rodeo_ops \<Rightarrow> 'r \<Rightarrow> bytes \<Rightarrow> ('e + 'r \<times> token_key) outcome" where
  "rodeo_try_get_or_intern_bytes R self bs = bindO (expect_utf8 bs) (\<lambda>txt. Inr (rd_try_get_or_intern R self txt))"

definition rodeo_get_or_intern_bytes :: "('r, token_key, 'e) rodeo_ops \<Rightarrow> 'r \<Rightarrow> bytes \<Rightarrow> ('r \<times> token_key) outcome" where
  "rodeo_get_or_intern_bytes R self bs = bindO (expect_utf8 bs) (\<lambda>txt. rd_get_or_intern R self txt)"

definition rodeo_interner :: "('r, token_key, 'e) rodeo_ops \<Rightarrow> ('r, rust_str, 'e) interner_ops" where
  "rodeo_interner R = \<lparr>io_try_resolve = rd_try_resolve R,
     io_try_get_or_intern = (\<lambda>self txt. Inr (rd_try_get_or_intern R self txt)),
     io_try_get_or_intern_bytes = rodeo_try_get_or_intern_bytes R\<rparr>"

lemma rodeo_interner_simps [simp]:
  "io_try_resolve (rodeo_interner R) = rd_try_resolve R"
  "io_try_get_or_intern (rodeo_interner R) = (\<lambda>self txt. Inr (rd_try_get_or_intern R self txt))"
  "io_try_get_or_intern_bytes (rodeo_interner R) = rodeo_try_get_or_intern_bytes R"
  by (simp_all add: rodeo_interner_def)

section \<open>The adapters satisfy the contract of an interner\<close>

lemma from_raw_key_eq: "from_raw_key = tk_try_from_usize"
  by (simp add: fun_eq_iff from_raw_key_def tk_try_from_usize_def)

lemma expect_utf8_Inr: "expect_utf8 bs = Inr s \<longleftrightarrow> td_from_bytes str_data bs = Inr s"
  by (auto simp: expect_utf8_def str_data_def)

lemma compat_intern_Inr:
  "compat_try_get_or_intern K R r s = Inr (Inr (r', key)) \<longleftrightarrow>
     (\<exists>k. rd_try_get_or_intern R r s = Inr (r', k) \<and> tk_try_from_usize (lk_into_usize K k) = Some key)"
  by (auto simp: compat_try_get_or_intern_def from_raw_key_eq Let_def split: sum.splits option.splits)

lemma compat_get_Inr: "compat_get_or_intern K R r s = Inr (r', key) \<longleftrightarrow>
    (\<exists>k. rd_get_or_intern R r s = Inr (r', k) \<and> tk_try_from_usize (lk_into_usize K k) = Some key)"
  by (cases "rd_get_or_intern R r s") (auto simp: compat_get_or_intern_def from_raw_key_eq Let_def split: option.splits)

text \<open>An interner of strings, which interns bytes by way of the string they are.\<close>

locale str_interner =
  fixes I :: "('i, rust_str, 'e) interner_ops" and inv :: "'i \<Rightarrow> bool" and room :: "'i \<Rightarrow> nat"
  assumes bytes_as_str: "io_try_get_or_intern_bytes I i bs = bindO (expect_utf8 bs) (io_try_get_or_intern I i)"
    and str_resolves: "inv i \<Longrightarrow> str_valid s \<Longrightarrow> io_try_get_or_intern I i s = Inr (Inr (i', k)) \<Longrightarrow>
      inv i' \<and> io_try_resolve I i' k = Some s"
    and str_keeps: "inv i \<Longrightarrow> str_valid s \<Longrightarrow> io_try_get_or_intern I i s = Inr (Inr (i', k)) \<Longrightarrow>
      io_try_resolve I i k' = Some s' \<Longrightarrow> io_try_resolve I i' k' = Some s'"
    and resolves_str: "inv i \<Longrightarrow> io_try_resolve I i k = Some s \<Longrightarrow> str_valid s"
    and str_unique: "inv i \<Longrightarrow> io_try_resolve I i k = Some s \<Longrightarrow> io_try_resolve I i k' = Some s \<Longrightarrow> k = k'"
    and str_room: "inv i \<Longrightarrow> str_valid s \<Longrightarrow> 0 < room i \<Longrightarrow>
      \<exists>i' k. io_try_get_or_intern I i s = Inr (Inr (i', k)) \<and> room i \<le> Suc (room i')"
begin

lemma bytes_Inr: "io_try_get_or_intern_bytes I i bs = Inr (Inr x) \<longleftrightarrow>
    (\<exists>s. td_from_bytes str_data bs = Inr s \<and> str_valid s \<and> io_try_get_or_intern I i s = Inr (Inr x))"
  using str_payload.as_from_bytes by (auto simp: bytes_as_str bindO_eq_Inr expect_utf8_Inr)

end

sublocale str_interner \<subseteq> bounded_interner str_data str_valid I inv room
proof unfold_locales
  fix i bs i' k k' d'
  assume i: "inv i" and run: "io_try_get_or_intern_bytes I i bs = Inr (Inr (i', k))"
  then obtain s where s: "td_from_bytes str_data bs = Inr s" "str_valid s" "io_try_get_or_intern I i s = Inr (Inr (i', k))"
    by (auto simp: bytes_Inr)
  from str_resolves [OF i s(2,3)] s(1)
  show "inv i' \<and> (\<exists>d. td_from_bytes str_data bs = Inr d \<and> io_try_resolve I i' k = Some d)" by simp
  show "io_try_resolve I i k' = Some d' \<Longrightarrow> io_try_resolve I i' k' = Some d'" by (rule str_keeps [OF i s(2,3)])
next
  fix i bs d
  assume d: "inv i" "td_from_bytes str_data bs = Inr d" "0 < room i"
  from str_room [OF d(1) str_payload.as_from_bytes [OF d(2), THEN conjunct1] d(3)] d(2)
  show "\<exists>i' k. io_try_get_or_intern_bytes I i bs = Inr (Inr (i', k)) \<and> room i \<le> Suc (room i')"
    using str_payload.as_from_bytes [OF d(2)] by (auto simp: bytes_Inr)
qed (blast intro: str_resolves str_keeps resolves_str str_unique str_room dest: str_resolves str_unique)+

context key_type
begin

lemma compat_resolve_Some: "compat_try_resolve K R r key = Some s \<longleftrightarrow>
    (\<exists>k. lk_try_from_usize K (unat (into_u32 key)) = Some k \<and> rd_try_resolve R r k = Some s)"
  by (auto simp: compat_try_resolve_def Let_def split: option.splits)

lemma compat_resolve_key: "key_ok k \<Longrightarrow> unat (into_u32 key) = lk_into_usize K k \<Longrightarrow> compat_try_resolve K R r key = rd_try_resolve R r k"
  by (simp add: compat_try_resolve_def from_into Let_def)

end

context rodeo
begin

lemma compat_intern_resolves:
  assumes "inv r" "str_valid s" "compat_try_get_or_intern K R r s = Inr (Inr (r', key))"
  shows "inv r' \<and> compat_try_resolve K R r' key = Some s"
proof -
  from assms(3) obtain k where k: "rd_try_get_or_intern R r s = Inr (r', k)" "unat (into_u32 key) = lk_into_usize K k"
    by (auto simp: compat_intern_Inr tk_try_from_Some)
  from intern_gives [OF assms(1,2) k(1)] have "inv r'" "rd_try_resolve R r' k = Some s" by simp_all
  with resolves_to_str compat_resolve_key [OF _ k(2)] show ?thesis by metis
qed

lemma compat_intern_keeps:
  assumes "inv r" "str_valid s" "compat_try_get_or_intern K R r s = Inr (Inr (r', key))" "compat_try_resolve K R r key' = Some s'"
  shows "compat_try_resolve K R r' key' = Some s'"
  using assms intern_keeps_keys by (auto simp: compat_intern_Inr compat_resolve_Some)

lemma compat_unique:
  assumes "inv r" "compat_try_resolve K R r key = Some s" "compat_try_resolve K R r key' = Some s"
  shows "key = key'"
proof -
  from assms(2,3) obtain k k' where k: "lk_try_from_usize K (unat (into_u32 key)) = Some k" "rd_try_resolve R r k = Some s"
    "lk_try_from_usize K (unat (into_u32 key')) = Some k'" "rd_try_resolve R r k' = Some s"
    by (auto simp: compat_resolve_Some)
  with one_key [OF assms(1) k(2,4)] have "unat (into_u32 key) = unat (into_u32 key')" using into_from by metis
  then show ?thesis by (metis into_u32_inject unsigned_word_eqI)
qed

lemma compat_room:
  assumes "inv r" "str_valid s" "0 < room r"
  shows "\<exists>r' key. compat_try_get_or_intern K R r s = Inr (Inr (r', key)) \<and> room r \<le> Suc (room r')"
proof -
  from small_keys [OF assms] obtain r' k where k: "rd_try_get_or_intern R r s = Inr (r', k)" "lk_into_usize K k < u32_max"
    "room r \<le> Suc (room r')" by blast
  then obtain key where "tk_try_from_usize (lk_into_usize K k) = Some key"
    using tk_try_from_None [of "lk_into_usize K k"] by (cases "tk_try_from_usize (lk_into_usize K k)") auto
  with k show ?thesis by (auto simp: compat_intern_Inr)
qed

end

sublocale rodeo \<subseteq> compat: str_interner "compat_interner K R" inv room
proof unfold_locales
  show "inv i \<Longrightarrow> io_try_resolve (compat_interner K R) i k = Some s \<Longrightarrow> str_valid s" for i k s
    using resolves_to_str by (auto simp: compat_resolve_Some)
  show "inv i \<Longrightarrow> str_valid s \<Longrightarrow> io_try_get_or_intern (compat_interner K R) i s = Inr (Inr (i', k)) \<Longrightarrow>
      inv i' \<and> io_try_resolve (compat_interner K R) i' k = Some s" for i s i' k
    using compat_intern_resolves by simp
  show "inv i \<Longrightarrow> str_valid s \<Longrightarrow> io_try_get_or_intern (compat_interner K R) i s = Inr (Inr (i', k)) \<Longrightarrow>
      io_try_resolve (compat_interner K R) i k' = Some s' \<Longrightarrow> io_try_resolve (compat_interner K R) i' k' = Some s'" for i s i' k k' s'
    using compat_intern_keeps by simp
  show "inv i \<Longrightarrow> io_try_resolve (compat_interner K R) i k = Some s \<Longrightarrow> io_try_resolve (compat_interner K R) i k' = Some s \<Longrightarrow> k = k'"
    for i k k' s
    using compat_unique by simp
  show "inv i \<Longrightarrow> str_valid s \<Longrightarrow> 0 < room i \<Longrightarrow>
      \<exists>i' k. io_try_get_or_intern (compat_interner K R) i s = Inr (Inr (i', k)) \<and> room i \<le> Suc (room i')" for i s
    using compat_room by simp
qed (simp add: compat_try_get_or_intern_bytes_def)

context rodeo
begin

lemma adapter_ok: "bounded_interner str_data str_valid (compat_interner K R) inv room"
  by (rule compat.bounded_interner_axioms)

lemma resolve_agrees: "resolve (compat_interner K R) r key = Inr s \<longleftrightarrow> compat_resolve K R r key = Inr s"
  using resolve_panics by (auto simp: resolve_def compat_resolve_def compat_try_resolve_def Let_def split: option.splits)

lemma get_or_intern_agrees: "get_or_intern (compat_interner K R) r s = Inr rk \<longleftrightarrow> compat_get_or_intern K R r s = Inr rk"
  by (cases rk) (simp add: get_or_intern_eq compat_intern_Inr compat_get_Inr intern_panics)

lemma get_or_intern_bytes_agrees:
  "get_or_intern_bytes (compat_interner K R) r bs = Inr rk \<longleftrightarrow> compat_get_or_intern_bytes K R r bs = Inr rk"
  using get_or_intern_agrees
  by (auto simp: get_or_intern_bytes_eq get_or_intern_eq compat_get_or_intern_bytes_def compat_try_get_or_intern_bytes_def bindO_eq_Inr)

end

text \<open>A rodeo over token keys is an interner without the adapter.\<close>

locale token_rodeo = rodeo token_lasso_key token_key_ok R inv room
  for R :: "('r, token_key, 'e) rodeo_ops" and inv and room

sublocale token_rodeo \<subseteq> direct: str_interner "rodeo_interner R" inv room
proof unfold_locales
  show "io_try_get_or_intern_bytes (rodeo_interner R) i bs = bindO (expect_utf8 bs) (io_try_get_or_intern (rodeo_interner R) i)" for i bs
    by (simp add: rodeo_try_get_or_intern_bytes_def)
  show "inv i \<Longrightarrow> str_valid s \<Longrightarrow> io_try_get_or_intern (rodeo_interner R) i s = Inr (Inr (i', k)) \<Longrightarrow>
      inv i' \<and> io_try_resolve (rodeo_interner R) i' k = Some s" for i s i' k
    using intern_gives by simp
  show "inv i \<Longrightarrow> str_valid s \<Longrightarrow> io_try_get_or_intern (rodeo_interner R) i s = Inr (Inr (i', k)) \<Longrightarrow>
      io_try_resolve (rodeo_interner R) i k' = Some s' \<Longrightarrow> io_try_resolve (rodeo_interner R) i' k' = Some s'" for i s i' k k' s'
    using intern_keeps_keys by simp
  show "inv i \<Longrightarrow> io_try_resolve (rodeo_interner R) i k = Some s \<Longrightarrow> str_valid s" for i k s
    using resolves_to_str by simp
  show "inv i \<Longrightarrow> io_try_resolve (rodeo_interner R) i k = Some s \<Longrightarrow> io_try_resolve (rodeo_interner R) i k' = Some s \<Longrightarrow> k = k'"
    for i k k' s
    unfolding rodeo_interner_simps by (rule one_key)
  show "inv i \<Longrightarrow> str_valid s \<Longrightarrow> 0 < room i \<Longrightarrow>
      \<exists>i' k. io_try_get_or_intern (rodeo_interner R) i s = Inr (Inr (i', k)) \<and> room i \<le> Suc (room i')" for i s
    using small_keys [of i s] by auto
qed

text \<open>The crate's own default interner has all that is required of a rodeo.\<close>

definition interner_rodeo :: "(rust_str token_interner, token_key, interner_error) rodeo_ops" where
  "interner_rodeo = \<lparr>rd_try_resolve = try_resolve, rd_resolve = resolve (default_interner str_data),
     rd_try_get_or_intern = (\<lambda>r s. case try_get_or_intern str_data r s of Inl _ \<Rightarrow> Inl KeySpaceExhausted | Inr x \<Rightarrow> x),
     rd_get_or_intern = get_or_intern (default_interner str_data)\<rparr>"

lemma interner_rodeo_Inr: "rd_try_get_or_intern interner_rodeo r s = Inr x \<longleftrightarrow> try_get_or_intern str_data r s = Inr (Inr x)"
  by (auto simp: interner_rodeo_def split: sum.splits)

lemma resolved_key_small: "interner_ok str_data str_valid r \<Longrightarrow> try_resolve r k = Some s \<Longrightarrow> unat (into_u32 k) < u32_max"
  by (auto simp: interner_ok_def try_resolve_Some N_INDICES_def)

interpretation own: token_rodeo interner_rodeo "interner_ok str_data str_valid" interner_room
proof unfold_locales
  note laws = str_payload.default.intern_resolves [of _ _ _ _, simplified] str_payload.default.intern_keeps [simplified]
    str_payload.default.resolve_valid [simplified] str_payload.default.resolve_unique [simplified]
  fix r s r' k k' s'
  assume r: "interner_ok str_data str_valid r"
  {
    assume "str_valid s" "rd_try_get_or_intern interner_rodeo r s = Inr (r', k)"
    with r show "interner_ok str_data str_valid r' \<and> rd_try_resolve interner_rodeo r' k = Some s"
      using laws(1) by (simp add: interner_rodeo_Inr) (simp add: interner_rodeo_def)
    show "rd_try_resolve interner_rodeo r k' = Some s' \<Longrightarrow> rd_try_resolve interner_rodeo r' k' = Some s'"
      using laws(2) r \<open>str_valid s\<close> \<open>rd_try_get_or_intern interner_rodeo r s = Inr (r', k)\<close>
      by (simp add: interner_rodeo_Inr) (simp add: interner_rodeo_def)
  next
    assume "rd_try_resolve interner_rodeo r k = Some s"
    with r show "token_key_ok k \<and> str_valid s" using laws(3) resolved_key_ok by (auto simp: interner_rodeo_def)
  next
    assume "rd_try_resolve interner_rodeo r k = Some s" "rd_try_resolve interner_rodeo r k' = Some s"
    with r show "k = k'" using laws(4) by (auto simp: interner_rodeo_def)
  next
    assume s: "str_valid s" "0 < interner_room r"
    from str_payload.default.intern_room [OF r s] obtain r' k where
      k: "try_get_or_intern str_data r s = Inr (Inr (r', k))" "interner_room r \<le> Suc (interner_room r')" by auto
    from laws(1) [OF r s(1) k(1)] have "unat (into_u32 k) < u32_max" using resolved_key_small by blast
    with k show "\<exists>r' k. rd_try_get_or_intern interner_rodeo r s = Inr (r', k) \<and> lk_into_usize token_lasso_key k < u32_max \<and>
        interner_room r \<le> Suc (interner_room r')"
      by (auto simp: interner_rodeo_Inr token_lasso_key_def tk_into_usize_def)
  }
next
  show "rd_resolve interner_rodeo r k = Inr s \<longleftrightarrow> rd_try_resolve interner_rodeo r k = Some s" for r k s
    by (auto simp: interner_rodeo_def resolve_def split: option.splits)
  show "rd_get_or_intern interner_rodeo r s = Inr rk \<longleftrightarrow> rd_try_get_or_intern interner_rodeo r s = Inr rk" for r s rk
    unfolding interner_rodeo_Inr by (simp add: interner_rodeo_def get_or_intern_eq)
qed

section \<open>Properties\<close>

text \<open>C38: Every rodeo of \<open>lasso\<close> that keeps what its documentation promises is, through the adapter, an interner that satisfies the contract
  trees rely on, for whatever key type it is configured with; and the methods that the adapter overrides return what the
  provided methods of the traits would.\<close>
theorem lasso_adapter_lawful:
  assumes "rodeo K key_ok R ok room"
  shows "bounded_interner str_data str_valid (compat_interner K R) ok room \<and>
    (resolve (compat_interner K R) r key = Inr s \<longleftrightarrow> compat_resolve K R r key = Inr s) \<and>
    (get_or_intern (compat_interner K R) r s = Inr rk \<longleftrightarrow> compat_get_or_intern K R r s = Inr rk) \<and>
    (get_or_intern_bytes (compat_interner K R) r bs = Inr rk \<longleftrightarrow> compat_get_or_intern_bytes K R r bs = Inr rk)"
  using rodeo.adapter_ok [OF assms] rodeo.resolve_agrees [OF assms] rodeo.get_or_intern_agrees [OF assms]
    rodeo.get_or_intern_bytes_agrees [OF assms] by blast

text \<open>The word \<open>a\<close>, interned with the default interner in the place of a rodeo.\<close>

theorem lasso_adapter_lawful_witness:
  "\<exists>r k. compat_get_or_intern token_lasso_key interner_rodeo new_interner (Str [0x61]) = Inr (r, k) \<and>
     compat_resolve token_lasso_key interner_rodeo r k = Inr (Str [0x61])"
proof -
  let ?I = "compat_interner token_lasso_key interner_rodeo"
  note adapter = lasso_adapter_lawful [OF own.rodeo_axioms]
  from adapter have I: "bounded_interner str_data str_valid ?I (interner_ok str_data str_valid) interner_room" by blast
  have s: "str_valid (Str [0x61])" by (simp add: str_valid_def)
  have "0 < interner_room (new_interner :: rust_str token_interner)"
    by (simp add: interner_room_def new_interner_def N_INDICES_def u32_max_def)
  then obtain r k where r: "get_or_intern ?I new_interner (Str [0x61]) = Inr (r, k)"
    using bounded_interner.get_or_intern_room [OF I interner_ok_new s] by blast
  have "interner str_data str_valid ?I (interner_ok str_data str_valid)" using I by (rule bounded_interner.axioms)
  from interner.get_or_intern_resolves(2) [OF this interner_ok_new s r]
  have "resolve ?I r k = Inr (Str [0x61])" by (simp add: resolve_def)
  with r adapter show ?thesis by blast
qed

text \<open>What becomes of the key that \<open>lasso\<close> returns: the token key of the same number below \<open>u32::MAX\<close>, and nothing for any other.\<close>

lemma from_raw_key_exact:
  "if n < u32_max then \<exists>key. from_raw_key n = Some key \<and> token_key_ok key \<and> unat (into_u32 key) = n else from_raw_key n = None"
  using tk_try_from_None [of n] tk_try_from_Some [of n] unfolding from_raw_key_eq by (cases "tk_try_from_usize n") auto

text \<open>C39: The adapter never truncates a key. Of the key that \<open>lasso\<close> gives a string it makes the token key of the same number if that
  is below \<open>u32::MAX\<close>; for any other key \<open>try_get_or_intern\<close> returns the error with the number, and \<open>get_or_intern\<close> panics. Errors
  and panics of \<open>lasso\<close> are passed on. Bytes that are a string are interned as that string; on others both functions for bytes panic.\<close>
theorem lasso_keys_exact:
  "(case rd_try_get_or_intern R r s of
      Inl e \<Rightarrow> compat_try_get_or_intern K R r s = Inr (Inl (LassoError e))
    | Inr (r', k) \<Rightarrow>
        if lk_into_usize K k < u32_max
        then \<exists>key. compat_try_get_or_intern K R r s = Inr (Inr (r', key)) \<and> token_key_ok key \<and> unat (into_u32 key) = lk_into_usize K k
        else compat_try_get_or_intern K R r s = Inr (Inl (KeyConversionError (lk_into_usize K k)))) \<and>
   (case rd_get_or_intern R r s of
      Inl p \<Rightarrow> compat_get_or_intern K R r s = Inl p
    | Inr (r', k) \<Rightarrow>
        if lk_into_usize K k < u32_max
        then \<exists>key. compat_get_or_intern K R r s = Inr (r', key) \<and> token_key_ok key \<and> unat (into_u32 key) = lk_into_usize K k
        else compat_get_or_intern K R r s = Inl Invalid_key) \<and>
   (if utf8_valid bs
    then compat_try_get_or_intern_bytes K R r bs = compat_try_get_or_intern K R r (Str bs) \<and>
      compat_get_or_intern_bytes K R r bs = compat_get_or_intern K R r (Str bs)
    else compat_try_get_or_intern_bytes K R r bs = Inl Only_utf8 \<and> compat_get_or_intern_bytes K R r bs = Inl Only_utf8)"
  (is "?A \<and> ?B \<and> ?C")
proof (intro conjI)
  show ?A
  proof (cases "rd_try_get_or_intern R r s")
    case (Inr rk)
    obtain r' k where "rk = (r', k)" by (cases rk)
    with Inr from_raw_key_exact [of "lk_into_usize K k"] show ?thesis by (auto simp: compat_try_get_or_intern_def Let_def)
  qed (simp add: compat_try_get_or_intern_def)
  show ?B
  proof (cases "rd_get_or_intern R r s")
    case (Inr rk)
    obtain r' k where "rk = (r', k)" by (cases rk)
    with Inr from_raw_key_exact [of "lk_into_usize K k"] show ?thesis by (auto simp: compat_get_or_intern_def Let_def)
  qed (simp add: compat_get_or_intern_def)
  show ?C by (simp add: compat_try_get_or_intern_bytes_def compat_get_or_intern_bytes_def expect_utf8_def)
qed

text \<open>An interner of \<open>lasso\<close> that gives a string the key number \<open>2 ^ 32\<close>, which truncated would be a token key.\<close>

definition ex_rodeo :: "(unit, nat, unit) rodeo_ops" where
  "ex_rodeo = \<lparr>rd_try_resolve = (\<lambda>_ _. None), rd_resolve = (\<lambda>_ _. Inl Invalid_key), rd_try_get_or_intern = (\<lambda>r _. Inr (r, 4294967296)),
     rd_get_or_intern = (\<lambda>r _. Inr (r, 4294967296))\<rparr>"

definition ex_keys :: "nat key_ops" where
  "ex_keys = \<lparr>lk_into_usize = id, lk_try_from_usize = Some\<rparr>"

theorem lasso_keys_exact_witness:
  "compat_try_get_or_intern ex_keys ex_rodeo () (Str [0x61]) = Inr (Inl (KeyConversionError 4294967296)) \<and>
   compat_get_or_intern ex_keys ex_rodeo () (Str [0x61]) = Inl Invalid_key \<and>
   compat_get_or_intern_bytes ex_keys ex_rodeo () [0xFF] = Inl Only_utf8"
proof -
  have "rd_try_get_or_intern ex_rodeo () (Str [0x61]) = Inr ((), 4294967296)" "rd_get_or_intern ex_rodeo () (Str [0x61]) = Inr ((), 4294967296)"
    "lk_into_usize ex_keys 4294967296 = 4294967296" "\<not> utf8_valid [0xFF]"
    by (simp_all add: ex_rodeo_def ex_keys_def)
  with lasso_keys_exact [where K = ex_keys and R = ex_rodeo and r = "()" and s = "Str [0x61]" and bs = "[0xFF]"]
  show ?thesis by (simp add: u32_max_def)
qed

end
