(* ===== verification/Pod_Data.thy ===== *)
theory Pod_Data
  imports Interning
begin

text \<open>
  The payloads that are plain values (\<open>impl TokenData for T: bytemuck::Pod\<close> in
  \<open>cstree/src/interning/traits.rs\<close>). Their bytes are the memory of the value, so what a slice of bytes is read as
  depends on where it lies in memory: a slice is its address and its bytes. The crate \<open>bytemuck\<close> is a parameter.
\<close>

section \<open>What bytemuck provides\<close>

text \<open>The size and the alignment of the type, its bytes, and \<open>bytemuck::from_bytes\<close>, which may panic.\<close>

record 'a pod_ops =
  po_size :: nat
  po_align :: nat
  po_bytes_of :: "'a \<Rightarrow> bytes"
  po_from_bytes :: "u64 \<Rightarrow> bytes \<Rightarrow> 'a outcome"

text \<open>
  The documented behaviour: the bytes of a value have its size, any bytes of that size are those of exactly one value, and
  \<open>from_bytes\<close> returns it if the slice has the size and is aligned, and panics otherwise.
\<close>

definition aligned :: "'a pod_ops \<Rightarrow> u64 \<Rightarrow> bool" where
  "aligned P addr \<longleftrightarrow> unat addr mod po_align P = 0"

locale pod =
  fixes P :: "'a pod_ops"
  assumes bytes_size: "length (po_bytes_of P v) = po_size P"
    and bytes_inject: "po_bytes_of P v = po_bytes_of P w \<Longrightarrow> v = w"
    and any_bytes: "length bs = po_size P \<Longrightarrow> \<exists>v. po_bytes_of P v = bs"
    and from_bytes_aligned: "aligned P addr \<Longrightarrow> po_from_bytes P addr (po_bytes_of P v) = Inr v"
    and from_bytes_unaligned: "\<not> aligned P addr \<Longrightarrow> \<exists>p. po_from_bytes P addr bs = Inl p"

section \<open>The payload\<close>

definition pod_as_bytes :: "'a pod_ops \<Rightarrow> 'a \<Rightarrow> bytes" where
  "pod_as_bytes P self = po_bytes_of P self"

definition pod_from_bytes :: "'a pod_ops \<Rightarrow> u64 \<Rightarrow> bytes \<Rightarrow> (token_data_error + 'a) outcome" where
  "pod_from_bytes P addr bs =
     (if length bs \<noteq> po_size P then Inr (Inl (InvalidSize (po_size P) (length bs)))
      else bindO (po_from_bytes P addr bs) (\<lambda>v. Inr (Inr v)))"

text \<open>The payload type as far as its bytes are only read from aligned memory.\<close>

definition pod_data :: "'a pod_ops \<Rightarrow> 'a token_data" where
  "pod_data P = \<lparr>td_as_bytes = pod_as_bytes P,
     td_from_bytes = (\<lambda>bs. case pod_from_bytes P 0 bs of Inr r \<Rightarrow> r | Inl _ \<Rightarrow> Inl (InvalidSize (po_size P) (length bs)))\<rparr>"

context pod
begin

lemma from_bytes_value:
  assumes "length bs = po_size P" "aligned P addr"
  obtains v where "pod_from_bytes P addr bs = Inr (Inr v)" "pod_as_bytes P v = bs"
proof -
  from any_bytes [OF assms(1)] obtain v where "po_bytes_of P v = bs" ..
  with from_bytes_aligned [OF assms(2), of v] assms(1) show ?thesis
    by (intro that [of v]) (simp_all add: pod_from_bytes_def pod_as_bytes_def)
qed

lemma from_as_bytes_pod: "aligned P addr \<Longrightarrow> pod_from_bytes P addr (pod_as_bytes P v) = Inr (Inr v)"
  by (simp add: pod_from_bytes_def pod_as_bytes_def bytes_size from_bytes_aligned)

lemma from_bytes_panics:
  assumes "length bs = po_size P" "\<not> aligned P addr"
  shows "\<exists>p. pod_from_bytes P addr bs = Inl p"
  using from_bytes_unaligned [OF assms(2), of bs] assms(1) by (auto simp: pod_from_bytes_def)

lemma aligned_zero: "aligned P 0"
  by (simp add: aligned_def)

end

sublocale pod \<subseteq> payload: token_payload "pod_data P" "\<lambda>_. True"
proof unfold_locales
  fix d bs
  show "td_from_bytes (pod_data P) (td_as_bytes (pod_data P) d) = Inr d"
    by (simp add: pod_data_def from_as_bytes_pod aligned_zero)
  assume d: "td_from_bytes (pod_data P) bs = Inr d"
  then have size: "length bs = po_size P" by (auto simp: pod_data_def pod_from_bytes_def split: if_splits)
  from from_bytes_value [OF this aligned_zero] obtain v where "pod_from_bytes P 0 bs = Inr (Inr v)" "pod_as_bytes P v = bs" .
  with d show "True \<and> td_as_bytes (pod_data P) d = bs" by (simp add: pod_data_def)
qed

section \<open>Numbers as payloads\<close>

text \<open>\<open>u16\<close>, as on a machine with the low byte first.\<close>

definition u16_pod :: "16 word pod_ops" where
  "u16_pod = \<lparr>po_size = 2, po_align = 2, po_bytes_of = (\<lambda>w. [ucast w, ucast (drop_bit 8 w)]),
     po_from_bytes = (\<lambda>addr bs. case bs of
        [lo, hi] \<Rightarrow> if unat addr mod 2 = 0 then Inr (or (ucast lo) (push_bit 8 (ucast hi))) else Inl Assertion_failed
      | _ \<Rightarrow> Inl Assertion_failed)\<rparr>"

lemma u16_bytes: "or (ucast (ucast (w :: 16 word) :: u8)) (push_bit 8 (ucast (ucast (drop_bit 8 w) :: u8))) = w"
  by (rule bit_word_eqI) (auto simp: bit_simps)

lemma u16_parts: "ucast (or (ucast lo :: 16 word) (push_bit 8 (ucast hi))) = (lo :: u8)"
    "ucast (drop_bit 8 (or (ucast lo :: 16 word) (push_bit 8 (ucast (hi :: u8))))) = hi"
  by (rule bit_word_eqI; auto simp: bit_simps dest: bit_imp_le_length)+

interpretation u16: pod u16_pod
proof unfold_locales
  fix v w :: "16 word" and bs :: bytes and addr :: u64
  show "length (po_bytes_of u16_pod v) = po_size u16_pod" by (simp add: u16_pod_def)
  show "v = w" if "po_bytes_of u16_pod v = po_bytes_of u16_pod w"
  proof -
    from that have "(ucast v :: u8) = ucast w" "(ucast (drop_bit 8 v) :: u8) = ucast (drop_bit 8 w)" by (simp_all add: u16_pod_def)
    then show "v = w" by (metis u16_bytes)
  qed
  show "\<exists>v. po_bytes_of u16_pod v = bs" if size: "length bs = po_size u16_pod"
  proof -
    from size obtain lo hi where "bs = [lo, hi]" by (auto simp: u16_pod_def numeral_2_eq_2 length_Suc_conv)
    then have "po_bytes_of u16_pod (or (ucast lo) (push_bit 8 (ucast hi))) = bs" unfolding u16_pod_def by (simp only: pod_ops.simps u16_parts)
    then show ?thesis by blast
  qed
  show "aligned u16_pod addr \<Longrightarrow> po_from_bytes u16_pod addr (po_bytes_of u16_pod v) = Inr v"
    unfolding aligned_def u16_pod_def by (simp only: pod_ops.simps list.case u16_bytes if_True simp_thms)
  show "\<not> aligned u16_pod addr \<Longrightarrow> \<exists>p. po_from_bytes u16_pod addr bs = Inl p"
    unfolding aligned_def u16_pod_def by (simp only: pod_ops.simps if_False split: list.split) blast
qed

section \<open>Which bytes are read\<close>

text \<open>A value is read back from its bytes if they lie at an aligned address, and bytes of another size are reported as an error. But bytes
  of the right size at an address that is not aligned panic, although the trait makes the implementation responsible for the
  alignment: a token may resolve to the bytes of its value at any address.\<close>
theorem pod_bytes_need_alignment:
  assumes "pod P"
  shows "(if length bs \<noteq> po_size P then pod_from_bytes P addr bs = Inr (Inl (InvalidSize (po_size P) (length bs)))
    else if aligned P addr then \<exists>v. pod_from_bytes P addr bs = Inr (Inr v) \<and> pod_as_bytes P v = bs
    else \<exists>p. pod_from_bytes P addr bs = Inl p)"
  using pod.from_bytes_value [OF assms, of bs addr] pod.from_bytes_panics [OF assms, of bs addr]
  by (auto simp: pod_from_bytes_def)

theorem pod_bytes_need_alignment_witness:
  "(\<exists>v. pod_from_bytes u16_pod 4096 [0x34, 0x12] = Inr (Inr v)) \<and> (\<exists>p. pod_from_bytes u16_pod 4097 [0x34, 0x12] = Inl p)"
proof -
  have size: "po_size u16_pod = 2" by (simp add: u16_pod_def)
  have addr: "aligned u16_pod 4096" "\<not> aligned u16_pod 4097" by (simp_all add: aligned_def u16_pod_def)
  from pod_bytes_need_alignment [OF u16.pod_axioms, of "[0x34, 0x12]" 4096]
    pod_bytes_need_alignment [OF u16.pod_axioms, of "[0x34, 0x12]" 4097] size addr
  show ?thesis by auto
qed

end
