(* ===== verification/Derive.thy ===== *)
theory Derive
  imports Syntax_Trait
begin

text \<open>
  The procedural macro \<open>#[derive(Syntax)]\<close>, \<open>cstree-derive/src/{lib,parsing,errors}.rs\<close> and
  \<open>parsing/attributes.rs\<close>: how it reads the definition of an enum, the errors it collects, the impl of \<open>Syntax\<close> it
  generates, and what that impl does.
\<close>

section \<open>The definition of an enum\<close>

text \<open>
  What the macro looks at in the syntax tree of the crate \<open>syn\<close>. The tokens in the parentheses of an attribute are of
  the parameter type \<open>'t\<close>. A path that is a single identifier is that identifier. An identifier of a variant is the value
  of the enum that it names, of the type \<open>'k\<close>. A discriminant is the value of its expression.
\<close>

datatype 't meta = Meta_list 't | Meta_path | Meta_name_value

record 't attribute =
  at_path :: string
  at_meta :: "'t meta"

datatype fields = Fields_unit | Fields_named | Fields_unnamed

record ('k, 't) enum_variant =
  va_ident :: 'k
  va_fields :: fields
  va_discriminant :: "u32 option"
  va_attrs :: "'t attribute list"

datatype ('k, 't) enum_data = Data_enum "('k, 't) enum_variant list" | Data_struct | Data_union

record ('k, 't) derive_input =
  di_attrs :: "'t attribute list"
  di_data :: "('k, 't) enum_data"

text \<open>
  The parsers of \<open>syn\<close> that are called on tokens. \<open>sy_metas\<close> reads a list of metas separated by commas; of each it
  tells the identifier, if it is a path of one identifier. \<open>sy_type\<close> and the first two read to the end. \<open>sy_no_list\<close> is the
  error of \<open>Attribute::parse_args\<close> on an attribute without parentheses, and \<open>sy_new_error\<close> is \<open>Error::new_spanned\<close>.
\<close>

record ('t, 'x, 'y, 'e) syn_ops =
  sy_lit_str :: "'t \<Rightarrow> 'e + string"
  sy_expr :: "'t \<Rightarrow> 'e + 'x"
  sy_metas :: "'t \<Rightarrow> 'e + string option list"
  sy_ident :: "'t \<Rightarrow> 'e + string \<times> 't"
  sy_eq :: "'t \<Rightarrow> 'e + 't"
  sy_type :: "'t \<Rightarrow> 'e + 'y"
  sy_no_list :: 'e
  sy_new_error :: "string \<Rightarrow> string \<Rightarrow> 'e"

section \<open>Errors\<close>

datatype 'e derive_error =
    Not_an_enum | Not_u32 | Has_fields | Custom_discriminant | Duplicate string
  | Text_no_literal | Text_missing | Text_as_value
  | Data_no_expression | Data_missing | Data_as_value
  | Bad_syntax_attr | Syn_error 'e

text \<open>
  \<open>ErrorContext\<close>: the errors up to now, or \<open>None\<close> once they are taken. \<open>error_at\<close> and \<open>syn_error\<close> unwrap and add one. \<open>check\<close>
  consumes the context: it takes the errors, and the context is dropped, which panics if it still has some, as when it is
  dropped without \<open>check\<close>. The borrows of the \<open>RefCell\<close> all end with the statement that they are in.
\<close>

type_synonym 'e error_context = "'e derive_error list option"

type_synonym ('e, 'a) parse = "'e error_context \<Rightarrow> ('a \<times> 'e error_context) outcome"

definition context_new :: "'e error_context" where
  "context_new = Some []"

definition error_at :: "'e derive_error \<Rightarrow> 'e error_context \<Rightarrow> 'e error_context outcome" where
  "error_at msg errors = bindO (unwrap errors) (\<lambda>es. Inr (Some (es @ [msg])))"

definition syn_error :: "'e \<Rightarrow> 'e error_context \<Rightarrow> 'e error_context outcome" where
  "syn_error err errors = bindO (unwrap errors) (\<lambda>es. Inr (Some (es @ [Syn_error err])))"

definition drop_context :: "'e error_context \<Rightarrow> unit outcome" where
  "drop_context errors = (if errors \<noteq> None then Inl Forgot_check else Inr ())"

definition check :: "'e error_context \<Rightarrow> ('e derive_error list + unit) outcome" where
  "check self = bindO (unwrap self) (\<lambda>errors. let self = (None :: 'e error_context) in
     bindO (drop_context self) (\<lambda>_. Inr (if length errors = 0 then Inr () else Inl errors)))"

text \<open>\<open>Attr::set\<close> on the value that an attribute has so far.\<close>

definition attr_set :: "string \<Rightarrow> 'v option \<Rightarrow> 'v \<Rightarrow> ('e, 'v option) parse" where
  "attr_set name self v errors =
     (if self \<noteq> None then bindO (error_at (Duplicate name) errors) (\<lambda>errors. Inr (self, errors)) else Inr (Some v, errors))"

text \<open>The loops over attributes: each is read, and the value it gives is set.\<close>

fun attr_loop :: "('t attribute \<Rightarrow> ('e, 'v option) parse) \<Rightarrow> string \<Rightarrow> 't attribute list \<Rightarrow> 'v option \<Rightarrow> ('e, 'v option) parse" where
  "attr_loop read name [] self errors = Inr (self, errors)"
| "attr_loop read name (attr # attrs) self errors = bindO (read attr errors) (\<lambda>(v, errors).
     case v of
       None \<Rightarrow> attr_loop read name attrs self errors
     | Some v \<Rightarrow> bindO (attr_set name self v errors) (\<lambda>(self, errors). attr_loop read name attrs self errors))"

section \<open>Variants\<close>

definition get_static_text :: "('t, 'x, 'y, 'e) syn_ops \<Rightarrow> 't attribute \<Rightarrow> ('e, string option) parse" where
  "get_static_text P attr errors =
     (if at_path attr \<noteq> ''static_text'' then Inr (None, errors)
      else case at_meta attr of
        Meta_list tokens \<Rightarrow> (case sy_lit_str P tokens of
            Inr lit \<Rightarrow> Inr (Some lit, errors)
          | Inl e \<Rightarrow> bindO (error_at Text_no_literal errors) (\<lambda>errors. bindO (syn_error e errors) (\<lambda>errors. Inr (None, errors))))
      | Meta_path \<Rightarrow> bindO (error_at Text_missing errors) (\<lambda>errors. Inr (None, errors))
      | Meta_name_value \<Rightarrow> bindO (error_at Text_as_value errors) (\<lambda>errors. Inr (None, errors)))"

definition get_static_data :: "('t, 'x, 'y, 'e) syn_ops \<Rightarrow> 't attribute \<Rightarrow> ('e, 'x option) parse" where
  "get_static_data P attr errors =
     (if at_path attr \<noteq> ''static_data'' then Inr (None, errors)
      else case at_meta attr of
        Meta_list tokens \<Rightarrow> (case sy_expr P tokens of
            Inr expr \<Rightarrow> Inr (Some expr, errors)
          | Inl e \<Rightarrow> bindO (error_at Data_no_expression errors) (\<lambda>errors. bindO (syn_error e errors) (\<lambda>errors. Inr (None, errors))))
      | Meta_path \<Rightarrow> bindO (error_at Data_missing errors) (\<lambda>errors. Inr (None, errors))
      | Meta_name_value \<Rightarrow> bindO (error_at Data_as_value errors) (\<lambda>errors. Inr (None, errors)))"

record ('k, 'x) kind_variant =
  kv_name :: 'k
  kv_static_text :: "string option"
  kv_static_data :: "'x option"

definition parse_variant :: "('t, 'x, 'y, 'e) syn_ops \<Rightarrow> ('k, 't) enum_variant \<Rightarrow> ('e, ('k, 'x) kind_variant) parse" where
  "parse_variant P v errors =
     bindO (case va_fields v of Fields_unit \<Rightarrow> Inr errors | _ \<Rightarrow> error_at Has_fields errors) (\<lambda>errors.
     bindO (if va_discriminant v \<noteq> None then error_at Custom_discriminant errors else Inr errors) (\<lambda>errors.
     bindO (attr_loop (get_static_text P) ''static_text'' (va_attrs v) None errors) (\<lambda>(static_text, errors).
     bindO (attr_loop (get_static_data P) ''static_data'' (va_attrs v) None errors) (\<lambda>(static_data, errors).
     Inr (\<lparr>kv_name = va_ident v, kv_static_text = static_text, kv_static_data = static_data\<rparr>, errors)))))"

fun parse_variants :: "('t, 'x, 'y, 'e) syn_ops \<Rightarrow> ('k, 't) enum_variant list \<Rightarrow> ('e, ('k, 'x) kind_variant list) parse" where
  "parse_variants P [] errors = Inr ([], errors)"
| "parse_variants P (v # vs) errors =
     bindO (parse_variant P v errors) (\<lambda>(w, errors). bindO (parse_variants P vs errors) (\<lambda>(ws, errors). Inr (w # ws, errors)))"

section \<open>The enum\<close>

text \<open>\<open>repr\<close> is set for every path in every list; metas that are no path, as \<open>align(4)\<close>, other attributes and what does not parse are passed over.\<close>

fun repr_set :: "string option list \<Rightarrow> string option \<Rightarrow> ('e, string option) parse" where
  "repr_set [] self errors = Inr (self, errors)"
| "repr_set (None # nested) self errors = repr_set nested self errors"
| "repr_set (Some ident # nested) self errors =
     bindO (attr_set ''repr'' self ident errors) (\<lambda>(self, errors). repr_set nested self errors)"

fun repr_loop :: "('t, 'x, 'y, 'e) syn_ops \<Rightarrow> 't attribute list \<Rightarrow> string option \<Rightarrow> ('e, string option) parse" where
  "repr_loop P [] self errors = Inr (self, errors)"
| "repr_loop P (attr # attrs) self errors =
     bindO (if at_path attr = ''repr'' then
              (case at_meta attr of
                 Meta_list tokens \<Rightarrow> (case sy_metas P tokens of Inr nested \<Rightarrow> repr_set nested self errors | Inl _ \<Rightarrow> Inr (self, errors))
               | _ \<Rightarrow> Inr (self, errors))
            else Inr (self, errors)) (\<lambda>(self, errors). repr_loop P attrs self errors)"

text \<open>\<open>SyntaxAttr::parse\<close>, called by \<open>parse_args\<close>. Its error for another name than \<open>data\<close> is a \<open>syn::Error\<close> as well.\<close>

definition parse_syntax_attr :: "('t, 'x, 'y, 'e) syn_ops \<Rightarrow> 't meta \<Rightarrow> 'e + 'y" where
  "parse_syntax_attr P m =
     (case m of
        Meta_list tokens \<Rightarrow> (case sy_ident P tokens of
            Inl e \<Rightarrow> Inl e
          | Inr (name, tokens) \<Rightarrow>
              if name \<noteq> ''data'' then Inl (sy_new_error P name ''expected `data`'')
              else (case sy_eq P tokens of
                  Inl e \<Rightarrow> Inl e
                | Inr tokens \<Rightarrow> (case sy_type P tokens of Inl e \<Rightarrow> Inl e | Inr ty \<Rightarrow> Inr ty)))
      | _ \<Rightarrow> Inl (sy_no_list P))"

definition get_syntax_data :: "('t, 'x, 'y, 'e) syn_ops \<Rightarrow> 't attribute \<Rightarrow> ('e, 'y option) parse" where
  "get_syntax_data P attr errors =
     (if at_path attr \<noteq> ''syntax'' then Inr (None, errors)
      else case parse_syntax_attr P (at_meta attr) of
        Inr ty \<Rightarrow> Inr (Some ty, errors)
      | Inl e \<Rightarrow> bindO (error_at Bad_syntax_attr errors) (\<lambda>errors. bindO (syn_error e errors) (\<lambda>errors. Inr (None, errors))))"

record ('k, 'x, 'y) kind_enum =
  ke_data :: "'y option"
  ke_repr :: "string option"
  ke_variants :: "('k, 'x) kind_variant list"

definition parse_from_ast :: "('t, 'x, 'y, 'e) syn_ops \<Rightarrow> ('k, 't) derive_input \<Rightarrow> ('e, ('k, 'x, 'y) kind_enum option) parse" where
  "parse_from_ast P item errors =
     (case di_data item of
        Data_enum variants \<Rightarrow>
          bindO (repr_loop P (di_attrs item) None errors) (\<lambda>(repr, errors).
          bindO (attr_loop (get_syntax_data P) ''data'' (di_attrs item) None errors) (\<lambda>(data, errors).
          bindO (parse_variants P variants errors) (\<lambda>(vs, errors).
          Inr (Some \<lparr>ke_data = data, ke_repr = repr, ke_variants = vs\<rparr>, errors))))
      | _ \<Rightarrow> bindO (error_at Not_an_enum errors) (\<lambda>errors. Inr (None, errors)))"

section \<open>The generated impl\<close>

text \<open>The literals and expressions that are put into the generated code; \<open>None\<close> as the data type is \<open>str\<close>.\<close>

datatype 'x static_arm = Arm_data 'x | Arm_text string | Arm_none

record ('k, 'x, 'y) syntax_item =
  im_data_type :: "'y option"
  im_variant_count :: u32
  im_static_data :: "('k \<times> 'x static_arm) list"

definition static_arm :: "('k, 'x) kind_variant \<Rightarrow> 'x static_arm" where
  "static_arm v =
     (case (kv_static_data v, kv_static_text v) of
        (Some data, _) \<Rightarrow> Arm_data data
      | (None, Some txt) \<Rightarrow> Arm_text txt
      | (None, None) \<Rightarrow> Arm_none)"

definition expand_syntax :: "('t, 'x, 'y, 'e) syn_ops \<Rightarrow> ('k, 't) derive_input \<Rightarrow> ('e derive_error list + ('k, 'x, 'y) syntax_item) outcome" where
  "expand_syntax P ast = bindO (parse_from_ast P ast context_new) (\<lambda>(syntax_kind_enum, errors).
     case syntax_kind_enum of
       None \<Rightarrow> bindO (check errors) (\<lambda>r. case r of Inl es \<Rightarrow> Inr (Inl es) | Inr _ \<Rightarrow> Inl Unwrap_Ok)
     | Some e \<Rightarrow>
         bindO (if ke_repr e = Some ''u32'' then Inr errors else error_at Not_u32 errors) (\<lambda>errors.
         bindO (check errors) (\<lambda>r. case r of
           Inl es \<Rightarrow> Inr (Inl es)
         | Inr _ \<Rightarrow> Inr (Inr
             \<lparr>im_data_type = ke_data e, im_variant_count = as_u32 (length (ke_variants e)),
              im_static_data = map (\<lambda>v. (kv_name v, static_arm v)) (ke_variants e)\<rparr>))))"

section \<open>What the impl does\<close>

text \<open>
  The discriminants that the compiler gives the variants: one more than that of the variant before, unless there is a
  custom one. \<open>transmute\<close> of a number that is no discriminant is undefined behaviour.
\<close>

fun discriminants :: "u32 \<Rightarrow> ('k, 't) enum_variant list \<Rightarrow> ('k \<times> u32) list" where
  "discriminants d [] = []"
| "discriminants d (v # vs) =
     (let d = (case va_discriminant v of Some c \<Rightarrow> c | None \<Rightarrow> d) in (va_ident v, d) # discriminants (d + 1) vs)"

definition transmute :: "('k \<times> u32) list \<Rightarrow> u32 \<Rightarrow> 'k outcome" where
  "transmute ds raw = (case find (\<lambda>(k, d). d = raw) ds of Some (k, _) \<Rightarrow> Inr k | None \<Rightarrow> Inl Undefined_behaviour)"

text \<open>The literal and the expression of an arm have a value of the payload type.\<close>

fun arm_value :: "(string \<Rightarrow> 'd) \<Rightarrow> ('x \<Rightarrow> 'd) \<Rightarrow> 'x static_arm \<Rightarrow> 'd option" where
  "arm_value literal evaluate (Arm_data data) = Some (evaluate data)"
| "arm_value literal evaluate (Arm_text txt) = Some (literal txt)"
| "arm_value literal evaluate Arm_none = None"

definition generated :: "(string \<Rightarrow> 'd) \<Rightarrow> ('x \<Rightarrow> 'd) \<Rightarrow> ('k, 't) enum_variant list \<Rightarrow> ('k, 'x, 'y) syntax_item \<Rightarrow> ('k, 'd) syntax_ops" where
  "generated literal evaluate variants im =
     \<lparr>sx_from_raw = (\<lambda>raw. if raw < im_variant_count im then transmute (discriminants 0 variants) raw else Inl Invalid_raw_kind),
      sx_into_raw = (\<lambda>self. the (map_of (discriminants 0 variants) self)),
      sx_static_data = (\<lambda>self. arm_value literal evaluate (the (map_of (im_static_data im) self)))\<rparr>"

end
