(* ===== verification/Derive_Theorems.thy ===== *)
theory Derive_Theorems
  imports Derive
begin

text \<open>
  What \<open>#[derive(Syntax)]\<close> promises: which definitions it accepts, that it reports errors for all others, and
  that the impl it generates satisfies the contract of \<open>Syntax\<close> without undefined behaviour.
\<close>

section \<open>Attributes\<close>

text \<open>Every attribute with the path has a well-formed argument, and there is at most one of them; and its value.\<close>

definition good_attrs :: "string \<Rightarrow> ('t meta \<Rightarrow> 'v option) \<Rightarrow> 't attribute list \<Rightarrow> bool" where
  "good_attrs path arg attrs \<longleftrightarrow>
     list_all (\<lambda>a. at_path a = path \<longrightarrow> arg (at_meta a) \<noteq> None) attrs \<and> length (filter (\<lambda>a. at_path a = path) attrs) \<le> 1"

definition attr_value :: "string \<Rightarrow> ('t meta \<Rightarrow> 'v option) \<Rightarrow> 't attribute list \<Rightarrow> 'v option" where
  "attr_value path arg attrs = (case filter (\<lambda>a. at_path a = path) attrs of [] \<Rightarrow> None | a # _ \<Rightarrow> arg (at_meta a))"

fun right :: "'a + 'b \<Rightarrow> 'b option" where
  "right (Inl _) = None"
| "right (Inr y) = Some y"

fun list_arg :: "('t \<Rightarrow> 'a + 'v) \<Rightarrow> 't meta \<Rightarrow> 'v option" where
  "list_arg parse (Meta_list tokens) = right (parse tokens)"
| "list_arg parse _ = None"

text \<open>A context that is not taken yet.\<close>

lemma error_at_Some [simp]: "error_at msg (Some es) = Inr (Some (es @ [msg]))"
  by (simp add: error_at_def unwrap_def)

lemma syn_error_Some [simp]: "syn_error e (Some es) = Inr (Some (es @ [Syn_error e]))"
  by (simp add: syn_error_def unwrap_def)

lemma check_Some [simp]: "check (Some es) = Inr (if es = [] then Inr () else Inl es)"
  by (simp add: check_def unwrap_def drop_context_def Let_def)

text \<open>A function that reads the attributes with the path and adds errors for an argument it does not accept.\<close>

definition reads :: "('t attribute \<Rightarrow> ('e, 'v option) parse) \<Rightarrow> string \<Rightarrow> ('t meta \<Rightarrow> 'v option) \<Rightarrow> bool" where
  "reads read path arg \<longleftrightarrow> (\<forall>attr es. \<exists>new. read attr (Some es) = Inr (if at_path attr = path then arg (at_meta attr) else None, Some (es @ new)) \<and>
     (new = [] \<longleftrightarrow> (at_path attr = path \<longrightarrow> arg (at_meta attr) \<noteq> None)))"

lemma reads_static_text: "reads (get_static_text P) ''static_text'' (list_arg (sy_lit_str P))"
  by (auto simp: reads_def get_static_text_def split: meta.split sum.split)

lemma reads_static_data: "reads (get_static_data P) ''static_data'' (list_arg (sy_expr P))"
  by (auto simp: reads_def get_static_data_def split: meta.split sum.split)

lemma reads_syntax_data: "reads (get_syntax_data P) ''syntax'' (\<lambda>m. right (parse_syntax_attr P m))"
  by (auto simp: reads_def get_syntax_data_def split: sum.split)

text \<open>
  A step on the errors \<open>es\<close> that does not panic, adds the errors \<open>new\<close>, which are none exactly if \<open>ok\<close>, and then
  yields \<open>v\<close>.
\<close>

definition collects :: "('v \<times> 'e error_context) outcome \<Rightarrow> 'e derive_error list \<Rightarrow> bool \<Rightarrow> 'v \<Rightarrow> bool" where
  "collects r es ok v \<longleftrightarrow> (\<exists>x new. r = Inr (x, Some (es @ new)) \<and> (new = [] \<longleftrightarrow> ok) \<and> (ok \<longrightarrow> x = v))"

lemma collectsE:
  assumes "collects r es ok v"
  obtains x new where "r = Inr (x, Some (es @ new))" "new = [] \<longleftrightarrow> ok" "ok \<longrightarrow> x = v"
  using assms unfolding collects_def by blast

lemma collects_attr_loop:
  assumes "reads read path arg"
  shows "collects (attr_loop read name attrs self (Some errors)) errors
    (good_attrs path arg attrs \<and> (self \<noteq> None \<longrightarrow> filter (\<lambda>a. at_path a = path) attrs = []))
    (if self = None then attr_value path arg attrs else self)"
proof (induction attrs arbitrary: self errors)
  case Nil
  then show ?case by (simp add: collects_def good_attrs_def attr_value_def)
next
  case (Cons attr attrs)
  obtain new where read: "read attr (Some errors) = Inr (if at_path attr = path then arg (at_meta attr) else None, Some (errors @ new))"
    "new = [] \<longleftrightarrow> (at_path attr = path \<longrightarrow> arg (at_meta attr) \<noteq> None)"
    using assms unfolding reads_def by blast
  show ?case
  proof (cases "at_path attr = path")
    case False
    with read Cons [of self errors] show ?thesis by (cases self) (simp_all add: good_attrs_def attr_value_def)
  next
    case path: True
    show ?thesis
    proof (cases "arg (at_meta attr)")
      case None
      with read path obtain e es where "read attr (Some errors) = Inr (None, Some (errors @ e # es))" by (cases new) auto
      with None path Cons [of self "errors @ e # es"] show ?thesis
        by (auto simp: collects_def good_attrs_def)
    next
      case (Some v)
      with read path have r: "read attr (Some errors) = Inr (Some v, Some errors)" by simp
      show ?thesis
      proof (cases self)
        case None
        with r Some path Cons [of "Some v" errors] show ?thesis
          by (auto simp: collects_def good_attrs_def attr_value_def attr_set_def)
      next
        case (Some w)
        with r path Cons [of self "errors @ [Duplicate name]"] show ?thesis
          by (auto simp: collects_def good_attrs_def attr_set_def)
      qed
    qed
  qed
qed

lemmas collects_attrs = collects_attr_loop [where self = None, simplified]

section \<open>Variants and representations\<close>

definition good_variant :: "('t, 'x, 'y, 'e) syn_ops \<Rightarrow> ('k, 't) enum_variant \<Rightarrow> bool" where
  "good_variant P v \<longleftrightarrow> va_fields v = Fields_unit \<and> va_discriminant v = None \<and>
     good_attrs ''static_text'' (list_arg (sy_lit_str P)) (va_attrs v) \<and>
     good_attrs ''static_data'' (list_arg (sy_expr P)) (va_attrs v)"

definition static_text_of :: "('t, 'x, 'y, 'e) syn_ops \<Rightarrow> ('k, 't) enum_variant \<Rightarrow> string option" where
  "static_text_of P v = attr_value ''static_text'' (list_arg (sy_lit_str P)) (va_attrs v)"

definition static_data_of :: "('t, 'x, 'y, 'e) syn_ops \<Rightarrow> ('k, 't) enum_variant \<Rightarrow> 'x option" where
  "static_data_of P v = attr_value ''static_data'' (list_arg (sy_expr P)) (va_attrs v)"

definition variant_of :: "('t, 'x, 'y, 'e) syn_ops \<Rightarrow> ('k, 't) enum_variant \<Rightarrow> ('k, 'x) kind_variant" where
  "variant_of P v = \<lparr>kv_name = va_ident v, kv_static_text = static_text_of P v, kv_static_data = static_data_of P v\<rparr>"

lemma collects_variant: "collects (parse_variant P v (Some errors)) errors (good_variant P v) (variant_of P v)"
proof -
  let ?e = "errors @ (if va_fields v = Fields_unit then [] else [Has_fields]) @ (if va_discriminant v = None then [] else [Custom_discriminant])"
  obtain t e1 where 1: "attr_loop (get_static_text P) ''static_text'' (va_attrs v) None (Some ?e) = Inr (t, Some (?e @ e1))"
    "e1 = [] \<longleftrightarrow> good_attrs ''static_text'' (list_arg (sy_lit_str P)) (va_attrs v)"
    "good_attrs ''static_text'' (list_arg (sy_lit_str P)) (va_attrs v) \<longrightarrow> t = attr_value ''static_text'' (list_arg (sy_lit_str P)) (va_attrs v)"
    by (rule collectsE [OF collects_attrs [OF reads_static_text]], rule that)
  obtain d e2 where 2: "attr_loop (get_static_data P) ''static_data'' (va_attrs v) None (Some (?e @ e1)) = Inr (d, Some ((?e @ e1) @ e2))"
    "e2 = [] \<longleftrightarrow> good_attrs ''static_data'' (list_arg (sy_expr P)) (va_attrs v)"
    "good_attrs ''static_data'' (list_arg (sy_expr P)) (va_attrs v) \<longrightarrow> d = attr_value ''static_data'' (list_arg (sy_expr P)) (va_attrs v)"
    by (rule collectsE [OF collects_attrs [OF reads_static_data]], rule that)
  have "parse_variant P v (Some errors) = Inr (\<lparr>kv_name = va_ident v, kv_static_text = t, kv_static_data = d\<rparr>, Some ((?e @ e1) @ e2))"
    using 1(1) 2(1) by (cases "va_fields v"; cases "va_discriminant v") (simp_all add: parse_variant_def)
  with 1(2,3) 2(2,3) show ?thesis
    by (auto simp: collects_def good_variant_def variant_of_def static_text_of_def static_data_of_def)
qed

lemma collects_variants: "collects (parse_variants P vs (Some errors)) errors (list_all (good_variant P) vs) (map (variant_of P) vs)"
proof (induction vs arbitrary: errors)
  case (Cons v vs)
  obtain w e1 where 1: "parse_variant P v (Some errors) = Inr (w, Some (errors @ e1))" "e1 = [] \<longleftrightarrow> good_variant P v" "good_variant P v \<longrightarrow> w = variant_of P v"
    by (rule collectsE [OF collects_variant], rule that)
  obtain ws e2 where 2: "parse_variants P vs (Some (errors @ e1)) = Inr (ws, Some ((errors @ e1) @ e2))" "e2 = [] \<longleftrightarrow> list_all (good_variant P) vs"
    "list_all (good_variant P) vs \<longrightarrow> ws = map (variant_of P) vs"
    by (rule collectsE [OF Cons], rule that)
  from 1 2 show ?case by (auto simp: collects_def)
qed (simp add: collects_def)

text \<open>All identifiers in \<open>repr\<close> attributes.\<close>

definition repr_idents :: "('t, 'x, 'y, 'e) syn_ops \<Rightarrow> 't attribute \<Rightarrow> string list" where
  "repr_idents P a = (if at_path a = ''repr'' then (case list_arg (sy_metas P) (at_meta a) of Some nested \<Rightarrow> List.map_filter id nested | None \<Rightarrow> []) else [])"

definition reprs :: "('t, 'x, 'y, 'e) syn_ops \<Rightarrow> 't attribute list \<Rightarrow> string list" where
  "reprs P attrs = concat (map (repr_idents P) attrs)"

fun head :: "'a list \<Rightarrow> 'a option" where
  "head [] = None"
| "head (x # _) = Some x"

definition keep_first :: "string list \<Rightarrow> string option \<Rightarrow> 'e derive_error list \<Rightarrow> (string option \<times> 'e error_context) outcome" where
  "keep_first ids self es =
     Inr (if self = None then (head ids, Some (es @ replicate (length ids - 1) (Duplicate ''repr'')))
      else (self, Some (es @ replicate (length ids) (Duplicate ''repr''))))"

lemma repr_set_first: "repr_set nested self (Some es) = keep_first (List.map_filter id nested) self es"
proof (induction nested arbitrary: self es)
  case (Cons x nested)
  then show ?case by (cases x) (auto simp: keep_first_def map_filter_simps attr_set_def)
qed (simp add: keep_first_def map_filter_simps)

lemma keep_first_append: "bindO (keep_first xs self es) (\<lambda>(self, errors). keep_first ys self (the errors)) = keep_first (xs @ ys) self es"
  by (cases xs) (auto simp: keep_first_def replicate_add)

lemma keep_first_Some: "bindO (keep_first xs self es) (\<lambda>(self, errors). f self errors) =
    bindO (keep_first xs self es) (\<lambda>(self, errors). f self (Some (the errors)))"
  by (simp add: keep_first_def)

lemma repr_loop_first: "repr_loop P attrs self (Some es) = keep_first (reprs P attrs) self es"
proof (induction attrs arbitrary: self es)
  case (Cons attr attrs)
  have "(if at_path attr = ''repr'' then
           (case at_meta attr of
              Meta_list tokens \<Rightarrow> (case sy_metas P tokens of Inr nested \<Rightarrow> repr_set nested self (Some es) | Inl _ \<Rightarrow> Inr (self, Some es))
            | _ \<Rightarrow> Inr (self, Some es))
         else Inr (self, Some es)) = keep_first (repr_idents P attr) self es"
    by (auto simp: repr_idents_def repr_set_first keep_first_def split: meta.split sum.split)
  then show ?case
    using keep_first_append [where xs = "repr_idents P attr" and ys = "reprs P attrs" and self = self and es = es]
    by (simp add: keep_first_Some [where f = "repr_loop P attrs"] Cons reprs_def)
qed (simp add: reprs_def keep_first_def)

section \<open>What the macro accepts\<close>

definition acceptable :: "('t, 'x, 'y, 'e) syn_ops \<Rightarrow> ('k, 't) derive_input \<Rightarrow> bool" where
  "acceptable P item \<longleftrightarrow>
     (case di_data item of
        Data_enum vs \<Rightarrow> reprs P (di_attrs item) = [''u32''] \<and>
          good_attrs ''syntax'' (\<lambda>m. right (parse_syntax_attr P m)) (di_attrs item) \<and> list_all (good_variant P) vs
      | _ \<Rightarrow> False)"

definition impl_for :: "('t, 'x, 'y, 'e) syn_ops \<Rightarrow> ('k, 't) derive_input \<Rightarrow> ('k, 't) enum_variant list \<Rightarrow> ('k, 'x, 'y) syntax_item" where
  "impl_for P item vs = \<lparr>im_data_type = attr_value ''syntax'' (\<lambda>m. right (parse_syntax_attr P m)) (di_attrs item),
     im_variant_count = as_u32 (length vs), im_static_data = map (\<lambda>v. (va_ident v, static_arm (variant_of P v))) vs\<rparr>"

lemma expand_syntax_result:
  "\<exists>r. expand_syntax P item = Inr r \<and>
     (case r of
        Inl errors \<Rightarrow> errors \<noteq> [] \<and> \<not> acceptable P item
      | Inr im \<Rightarrow> acceptable P item \<and> (\<exists>vs. di_data item = Data_enum vs \<and> im = impl_for P item vs))"
proof (cases "di_data item")
  case (Data_enum vs)
  let ?arg = "\<lambda>m. right (parse_syntax_attr P m)"
  obtain repr e0 where 0: "repr_loop P (di_attrs item) None (Some []) = Inr (repr, Some e0)" "e0 = [] \<and> repr = Some ''u32'' \<longleftrightarrow> reprs P (di_attrs item) = [''u32'']"
    by (rule that [of "head (reprs P (di_attrs item))" "replicate (length (reprs P (di_attrs item)) - 1) (Duplicate ''repr'')"];
      cases "reprs P (di_attrs item)" rule: remdups_adj.cases; auto simp: repr_loop_first keep_first_def)
  obtain data e1 where 1: "attr_loop (get_syntax_data P) ''data'' (di_attrs item) None (Some e0) = Inr (data, Some (e0 @ e1))"
    "e1 = [] \<longleftrightarrow> good_attrs ''syntax'' ?arg (di_attrs item)"
    "good_attrs ''syntax'' ?arg (di_attrs item) \<longrightarrow> data = attr_value ''syntax'' ?arg (di_attrs item)"
    by (rule collectsE [OF collects_attrs [OF reads_syntax_data]], rule that)
  obtain ws e2 where 2: "parse_variants P vs (Some (e0 @ e1)) = Inr (ws, Some ((e0 @ e1) @ e2))" "e2 = [] \<longleftrightarrow> list_all (good_variant P) vs"
    "list_all (good_variant P) vs \<longrightarrow> ws = map (variant_of P) vs"
    by (rule collectsE [OF collects_variants], rule that)
  have parsed: "parse_from_ast P item context_new = Inr (Some \<lparr>ke_data = data, ke_repr = repr, ke_variants = ws\<rparr>, Some ((e0 @ e1) @ e2))"
    using Data_enum 0(1) 1(1) 2(1) by (simp add: parse_from_ast_def context_new_def)
  show ?thesis
  proof (cases "acceptable P item")
    case True
    with Data_enum 0(2) 1(2,3) 2(2,3) show ?thesis
      by (simp add: expand_syntax_def parsed acceptable_def impl_for_def variant_of_def comp_def)
  next
    case False
    with Data_enum 0(2) 1(2) 2(2) show ?thesis
      by (auto simp: expand_syntax_def parsed acceptable_def)
  qed
qed (simp_all add: expand_syntax_def parse_from_ast_def context_new_def acceptable_def)

lemma expand_acceptable:
  assumes "acceptable P item"
  shows "\<exists>im. expand_syntax P item = Inr (Inr im)"
proof -
  from expand_syntax_result [of P item] obtain r where "expand_syntax P item = Inr r"
    "case r of Inl errors \<Rightarrow> errors \<noteq> [] \<and> \<not> acceptable P item
      | Inr im \<Rightarrow> acceptable P item \<and> (\<exists>vs. di_data item = Data_enum vs \<and> im = impl_for P item vs)" by blast
  with assms show ?thesis by (cases r) auto
qed

section \<open>What the generated impl does\<close>

lemma discriminants_zip:
  "list_all (\<lambda>v. va_discriminant v = None) vs \<Longrightarrow>
   discriminants (as_u32 m) vs = zip (map va_ident vs) (map as_u32 [m..<m + length vs])"
proof (induction vs arbitrary: m)
  case (Cons v vs)
  have "as_u32 m + 1 = as_u32 (Suc m)" by simp
  with Cons show ?case by (simp add: Let_def upt_conv_Cons del: of_nat_Suc upt_Suc)
qed simp

lemma find_discriminant:
  assumes "list_all (\<lambda>v. va_discriminant v = None) vs" "i < length vs" "length vs \<le> u32_max"
  shows "transmute (discriminants 0 vs) (as_u32 i) = Inr (va_ident (vs ! i))"
proof -
  let ?ds = "zip (map va_ident vs) (map as_u32 [0..<length vs])"
  have "discriminants 0 vs = ?ds" using discriminants_zip [OF assms(1), of 0] by simp
  moreover have "find (\<lambda>(k, d). d = as_u32 i) ?ds = Some (va_ident (vs ! i), as_u32 i)"
    unfolding find_Some_iff using assms(2,3) by (auto simp: as_u32_inj intro!: exI [of _ i])
  ultimately show ?thesis by (simp add: transmute_def)
qed

text \<open>C37: Deriving \<open>Syntax\<close> never panics: no error is added after the errors were taken, they are taken before the context is
  dropped, and the macro that gives up on an item has an error to report. It succeeds for exactly the enums among whose \<open>repr\<close>
  attributes there is one path, \<open>u32\<close> (other metas, as \<open>align(4)\<close>, and lists that do not parse are passed over, and are accepted beside
  it), whose variants have no fields and no custom discriminants, and whose attributes for the macro are well-formed and not
  repeated; for everything else it reports at least one error.\<close>
theorem derive_accepts:
  "\<exists>r. expand_syntax P item = Inr r \<and> r \<noteq> Inl [] \<and> ((\<exists>im. r = Inr im) \<longleftrightarrow> acceptable P item)"
proof -
  from expand_syntax_result [of P item] obtain r where "expand_syntax P item = Inr r"
    "case r of Inl errors \<Rightarrow> errors \<noteq> [] \<and> \<not> acceptable P item
      | Inr im \<Rightarrow> acceptable P item \<and> (\<exists>vs. di_data item = Data_enum vs \<and> im = impl_for P item vs)" by blast
  then show ?thesis by (cases r) auto
qed

text \<open>C36: The impl that is generated for an enum satisfies the contract of \<open>Syntax\<close>, so that the theorems on trees hold for every derived
  language: the transmute never sees a number that is no discriminant, \<open>from_raw\<close> panics for exactly the numbers without a variant, and the
  static data of a variant is that of its attribute, \<open>static_data\<close> before \<open>static_text\<close>.\<close>
theorem derive_sound:
  assumes "expand_syntax P item = Inr (Inr im)" "di_data item = Data_enum vs"
    and "distinct (map va_ident vs)" "set (map va_ident vs) = UNIV" "length vs \<le> u32_max"
  shows "syntax_impl (generated literal evaluate vs im) \<and>
    (\<forall>raw. sx_from_raw (generated literal evaluate vs im) raw =
       (if unat raw < length vs then Inr (va_ident (vs ! unat raw)) else Inl Invalid_raw_kind)) \<and>
    list_all (\<lambda>v. sx_static_data (generated literal evaluate vs im) (va_ident v) =
       (case static_data_of P v of Some x \<Rightarrow> Some (evaluate x) | None \<Rightarrow> map_option literal (static_text_of P v))) vs"
proof -
  let ?G = "generated literal evaluate vs im"
  from expand_syntax_result [of P item] assms(1,2) have good: "list_all (\<lambda>v. va_discriminant v = None) vs" and im: "im = impl_for P item vs"
    by (auto simp: acceptable_def good_variant_def list_all_iff)
  have from_raw: "sx_from_raw ?G raw = (if unat raw < length vs then Inr (va_ident (vs ! unat raw)) else Inl Invalid_raw_kind)" for raw
    using find_discriminant [OF good _ assms(5), of "unat raw"] assms(5)
    by (simp add: generated_def im impl_for_def word_less_nat_alt unat_as_u32)
  moreover have "sx_from_raw ?G (sx_into_raw ?G k) = Inr k" for k
  proof -
    have "k \<in> set (map va_ident vs)" using assms(4) by simp
    then obtain i where i: "i < length vs" "k = va_ident (vs ! i)" by (auto simp: in_set_conv_nth)
    have "map_of (discriminants 0 vs) k = Some (as_u32 i)"
      using discriminants_zip [OF good, of 0] map_of_zip_nth [of "map va_ident vs" "map as_u32 [0..<length vs]" i] assms(3) i by simp
    then have "sx_into_raw ?G k = as_u32 i" by (simp add: generated_def)
    then show ?thesis using from_raw [of "as_u32 i"] i assms(5) by (simp add: unat_as_u32)
  qed
  then have "syntax_impl ?G" by unfold_locales
  moreover have "map_of (im_static_data im) (va_ident v) = Some (static_arm (variant_of P v))" if v: "v \<in> set vs" for v
    using v assms(3) by (auto simp: im impl_for_def map_of_eq_Some_iff comp_def)
  then have "list_all (\<lambda>v. sx_static_data ?G (va_ident v) =
      (case static_data_of P v of Some x \<Rightarrow> Some (evaluate x) | None \<Rightarrow> map_option literal (static_text_of P v))) vs"
    by (auto simp: list_all_iff generated_def static_arm_def variant_of_def split: option.splits)
  ultimately show ?thesis by blast
qed

text \<open>Deriving \<open>Syntax\<close> for the test language, with its one text as an attribute, gives the impl that the crate has for it.\<close>

definition ex_syn :: "(string, unit, unit, unit) syn_ops" where
  "ex_syn = \<lparr>sy_lit_str = Inr, sy_expr = (\<lambda>_. Inr ()), sy_metas = (\<lambda>t. Inr [Some t]), sy_ident = (\<lambda>_. Inl ()), sy_eq = (\<lambda>_. Inl ()),
     sy_type = (\<lambda>_. Inl ()), sy_no_list = (), sy_new_error = (\<lambda>_ _. ())\<rparr>"

definition ex_variant :: "test_kind \<Rightarrow> (test_kind, string) enum_variant" where
  "ex_variant k = \<lparr>va_ident = k, va_fields = Fields_unit, va_discriminant = None,
     va_attrs = (if k = Plus then [\<lparr>at_path = ''static_text'', at_meta = Meta_list ''+''\<rparr>] else [])\<rparr>"

definition ex_item :: "(test_kind, string) derive_input" where
  "ex_item = \<lparr>di_attrs = [\<lparr>at_path = ''repr'', at_meta = Meta_list ''u32''\<rparr>],
     di_data = Data_enum (map ex_variant [Plus, Identifier, Int_kind, Float, Operation, Root, Whitespace, LAST])\<rparr>"

theorem derive_sound_witness:
  "\<exists>im. expand_syntax ex_syn ex_item = Inr (Inr im) \<and>
     generated (\<lambda>s. Str (map of_char s)) (\<lambda>_. Str []) (map ex_variant [Plus, Identifier, Int_kind, Float, Operation, Root, Whitespace, LAST]) im = test_syntax"
proof -
  let ?ks = "[Plus, Identifier, Int_kind, Float, Operation, Root, Whitespace, LAST]"
  let ?vs = "map ex_variant ?ks"
  have idents: "map va_ident ?vs = ?ks" by (simp add: ex_variant_def)
  have "acceptable ex_syn ex_item"
    by (simp add: acceptable_def ex_item_def reprs_def repr_idents_def ex_syn_def map_filter_simps good_attrs_def good_variant_def ex_variant_def)
  then obtain im where im: "expand_syntax ex_syn ex_item = Inr (Inr im)" using expand_acceptable by blast
  let ?G = "generated (\<lambda>s. Str (map of_char s)) (\<lambda>_. Str []) ?vs im"
  have data: "di_data ex_item = Data_enum ?vs" by (simp add: ex_item_def)
  have all: "set (map va_ident ?vs) = UNIV" unfolding idents using test_kind.exhaust by auto
  have dist: "distinct (map va_ident ?vs)" unfolding idents by simp
  have len: "length ?vs \<le> u32_max" by (simp add: u32_max_def)
  note sound = derive_sound [OF im data dist all len, of "\<lambda>s. Str (map of_char s)" "\<lambda>_. Str []"]
  have nth: "va_ident (?vs ! i) = ?ks ! i" if "i < length ?ks" for i
    unfolding nth_map [OF that] by (simp add: ex_variant_def)
  have "sx_from_raw ?G raw = test_from_raw raw" for raw
    using sound [THEN conjunct2, THEN conjunct1, rule_format, of raw] nth [of "unat raw"] unfolding length_map
    by (simp add: test_from_raw_def word_le_nat_alt less_Suc_eq_le del: list.map)
  then have "sx_from_raw ?G = test_from_raw" by blast
  moreover have "sx_into_raw ?G k = test_into_raw k" for k
  proof -
    from sound have "syntax_impl ?G" by blast
    from syntax_impl.from_into_raw [OF this, of k] show ?thesis
      using \<open>sx_from_raw ?G = test_from_raw\<close> test_from_raw_Inr by simp
  qed
  moreover have "sx_static_data ?G k = test_static_data k" for k
    using sound by (cases k) (simp_all add: ex_variant_def static_data_of_def static_text_of_def attr_value_def ex_syn_def)
  ultimately show ?thesis
    using im by (intro exI [of _ im] conjI) (simp_all add: test_syntax_def fun_eq_iff)
qed

end
