(* ===== verification/Spec2Isabelle.thy ===== *)
theory Spec2Isabelle
  imports Builder_Theorems Serde_Theorems Green_Pointer Red_Search_Theorems Red_Shared_Theorems Syntax_Text_Eq
    Red_Past_End Red_Display_Theorems Resolved_Theorems Lasso_Compat Pod_Data Derive_Theorems
begin

text \<open>
  A verification development for \<open>cstree\<close>, a Rust library of lossless concrete syntax trees. All paths below
  are relative to \<open>src/cstree/src\<close>.

  \<^bold>\<open>The program.\<close> A parser drives a \<open>GreenNodeBuilder\<close>. The builder interns the text of tokens, deduplicates
  tokens and small nodes in a \<open>NodeCache\<close>, and returns an immutable \<^emph>\<open>green\<close> tree, whose nodes know their kind,
  their length and a hash of their children, but not where they are. A \<^emph>\<open>red\<close> tree (\<open>SyntaxNode\<close>,
  \<open>SyntaxToken\<close>) is a view of a green tree that creates its nodes on demand, remembers them in slots of their parents,
  and adds positions, parents, siblings and user data. It is shared between threads and freed as a whole by one
  reference count. \<open>SyntaxText\<close> and \<open>SyntaxData\<close> are ranges of the text of a node; \<open>ResolvedNode\<close> is a red
  node of a tree that has its resolver; \<open>serde_impls.rs\<close> writes a tree as a stream of events and rebuilds it
  with a builder.

  \<^bold>\<open>How the code is modelled.\<close> A computation is a function; a panic is a value (\<open>panic\<close> and \<open>outcome\<close> in
  \<open>Prelude\<close>), and so are unsafe accesses out of range (\<open>Undefined_behaviour\<close>). \<open>u32\<close> and addresses are words
  of their width; \<open>usize\<close> is a natural number, narrowed with \<open>as_u32\<close> wherever the code narrows it. Code that
  changes a tree is a function on the heap of its nodes (type \<open>red\<close> in \<open>Red_Tree\<close>). Recursion that follows the
  structure of a tree is structural; the loops and lazy iterators that call back into a red tree take fuel, and each
  theorem about them says how much is enough (the number of events of a traversal, or the height), so that none of them says
  merely what holds when the code returns. Locks are atomic steps.

  \<^bold>\<open>Parameters.\<close> The crates that are not part of the repository are arguments of the definitions that use them,
  and their documented behaviour is a locale: \<open>text-size\<close> (\<open>Text_Size\<close>, locale \<open>text_size\<close>), the hasher of
  \<open>rustc_hash\<close> (any function), \<open>lasso\<close> (\<open>Lasso_Compat\<close>, locales \<open>key_type\<close> and \<open>rodeo\<close>), \<open>bytemuck\<close> (\<open>Pod_Data\<close>, locale \<open>pod\<close>), the format of
  \<open>serde\<close> (\<open>Serde_Build\<close>, predicate \<open>format_ok\<close>), the parsers of \<open>syn\<close> (\<open>Derive\<close>, record \<open>syn_ops\<close>), and the tables of Unicode and the \<open>Debug\<close> of kinds
  and ranges (\<open>Red_Display\<close>, record \<open>fmt_ops\<close>). The traits that users implement are records with locales
  of their contracts: \<open>Syntax\<close> (\<open>syntax_impl\<close>), \<open>TokenData\<close> (\<open>token_payload\<close>), \<open>Resolver\<close> and
  \<open>Interner\<close> (\<open>interner\<close>, \<open>bounded_interner\<close>); they are interpreted with the implementations of the crate.

  \<^bold>\<open>Green trees and the builder.\<close>
  \<^item> \<open>Interning\<close> (\<open>interning.rs\<close>, \<open>interning/traits.rs\<close>, \<open>interning/default_interner.rs\<close>): token keys, payloads, the
    default interner with its invariant, and that it satisfies the contract of an interner.
    \<open>Pod_Data\<close> (\<open>interning/traits.rs\<close>): the payloads that are plain values, whose bytes are read back only where they are aligned.
  \<^item> \<open>Lasso_Compat\<close> (\<open>interning/lasso_compat/*\<close>): the adapters over \<open>lasso\<close> satisfy that contract as well, and
    convert keys without truncating them.
  \<^item> \<open>Utility_Types\<close> (\<open>utility_types.rs\<close>), \<open>Syntax_Trait\<close> (\<open>lib.rs\<close>): the trait \<open>Syntax\<close>, the language
    \<open>TestSyntaxKind\<close>, and the environment \<open>env\<close> that the tree operations take.
  \<^item> \<open>Derive\<close>, \<open>Derive_Theorems\<close> (\<open>cstree-derive/src/*\<close>, beside \<open>cstree\<close>): the macro that derives \<open>Syntax\<close> for an enum. The
    context of its errors, which panics when it is dropped unchecked, is a state that every step passes on. The macro never panics, it is settled
    which enums it accepts, and what it generates satisfies the contract of \<open>Syntax\<close>.
  \<^item> \<open>Green\<close> (\<open>green/{token,node,element,iter}.rs\<close>): constructors, cached lengths and hashes, the iterator over children.
    \<open>Green_Pointer\<close> (\<open>green/{token,element}.rs\<close>): the tag in the lowest bit of a pointer, over an explicit memory.
  \<^item> \<open>Node_Cache\<close>, \<open>Builder\<close> (\<open>green/builder.rs\<close>): all operations of the cache and the builder, and the builder as
    a state machine with its invariant. \<open>Builder_Spec\<close> states what a builder promises as a machine on a stack of frames;
    \<open>Builder_Trees\<close> the calls that a parser makes for a tree and what the resulting green tree has to do with it
    (\<open>represents\<close>); \<open>Builder_Theorems\<close> has the refinement, the round trip, and the checkpoints. The assumption
    that no two different nodes have the same head is what the cache relies on; a theorem shows what happens without it.

  \<^bold>\<open>Red trees.\<close>
  \<^item> \<open>Red_Tree\<close> (\<open>syntax/{node,token,element}.rs\<close>): the heap, roots, the memoised creation of children, node data.
    \<open>Red_Invariant\<close> has the invariant \<open>red_wf\<close> (every node is in the slot of its parent that it names, over the
    right green node at the right offset), \<open>Red_Path\<close> the path of an element in the green tree.
  \<^item> \<open>Red_Navigation\<close>, \<open>Red_Iter\<close> (\<open>syntax/iter.rs\<close>), \<open>Red_Traversal\<close>, \<open>Red_Preorder\<close>: children, siblings,
    ancestors, iterators and the preorder traversals, each shown to visit the elements of the green tree it should;
    \<open>Red_Theorems\<close> collects the properties. \<open>Red_Past_End\<close> says what \<open>prev_child_before\<close> does with a position past the last
    child, the one call of a client that does not keep \<open>red_wf\<close>.
  \<^item> \<open>Red_Tokens\<close>, \<open>Red_Token_Order\<close>, \<open>Red_Token_Theorems\<close>: adjacent tokens, token data, replacement.
    \<open>Red_Search\<close>, \<open>Red_Search_Theorems\<close>: \<open>token_at_offset\<close> and \<open>covering_element\<close>.
  \<^item> \<open>Utf8\<close>, \<open>Syntax_Text\<close>, \<open>Syntax_Text_Bytes\<close>, \<open>Syntax_Text_Chunks\<close>, \<open>Syntax_Text_Theorems\<close>, \<open>Syntax_Text_Eq\<close>
    (\<open>syntax/text.rs\<close>): folds over the pieces of a text, slices, characters, comparison with a string, and the comparison of two
    texts, whose loop \<open>zip_texts\<close> is treated in a locale over any two iterators.
  \<^item> \<open>Red_Shared\<close>, \<open>Red_Shared_Invariant\<close>, \<open>Red_Shared_Steps\<close>, \<open>Red_Shared_Drop\<close>, \<open>Red_Shared_Theorems\<close>: the tree
    under several threads, as a step relation whose steps are the accesses to the count and to the slots, with the debug assertion on
    what is read. While the count does not wrap and no position past the end is asked for (\<open>allowed\<close>), no interleaving follows a dangling
    pointer, and the last handle frees everything once.
  \<^item> \<open>Red_Display\<close>, \<open>Red_Display_Theorems\<close>: \<open>Debug\<close> and \<open>Display\<close> of nodes, tokens and payloads, over writers that
    may fail.
  \<^item> \<open>Resolved\<close> (\<open>syntax/resolved.rs\<close>), \<open>Resolved_Safe\<close>, \<open>Resolved_Theorems\<close>: the wrappers; that navigation never
    leaves a tree whatever it is given; that the wrappers keep their promise; and the composition of builder, cache, interner,
    red tree and display: a source that is parsed into a tree is displayed as the same source.
  \<^item> \<open>Serde\<close>, \<open>Serde_Lemmas\<close>, \<open>Serde_Build\<close>, \<open>Red_Data\<close>, \<open>Serde_Theorems\<close> (\<open>serde_impls.rs\<close>): the two directions
    and their round trip, and what malformed streams do.

  \<^bold>\<open>Bounds.\<close> Theorems on red trees assume that the text is at most \<open>u32::MAX\<close> bytes long and that no node has more
  than \<open>u32::MAX\<close> children (\<open>green_fits\<close>), which are the limits of the offsets and indices that the code stores; those on
  built trees that the interner has room for the leaves; those on debug output that the tree is less than \<open>2 ^ 31 - 1\<close>
  levels deep; those on shared trees that the count does not reach \<open>2 ^ 32\<close> and that no child before a position past the last
  one is asked for (what happens then are theorems of their own). An execution of a shared tree ends with the first panic.

  \<^bold>\<open>Not modelled.\<close> The adapter for \<open>salsa\<close> (\<open>interning/salsa_compat.rs\<close>), which does not compile, as a required
  method is missing. The spans of the errors of the derive macro, the output of plain values. \<open>Debug\<close> of green trees, of pointers
  and of \<open>SyntaxData\<close>. Memory orders weaker than sequential consistency, the locks around the data of a node, which guard
  single assignments, and the failure of allocations. \<open>getting_started.rs\<close>, the examples, tests and
  benchmarks are clients and documentation.
\<close>

end
